(* ===== verification/Prelude.thy ===== *)
theory Prelude
  imports Main "HOL-Library.Word" "HOL-Library.Sublist"
begin

text \<open>
  The vocabulary the other theories share. A JavaScript string is the list of its UTF-16 code
  units (\<open>jstr\<close>), so that \<open>length\<close>, indexing and slicing count what \<open>.length\<close> counts in
  the source; a Node \<open>Buffer\<close> is a list of bytes (\<open>bytes\<close>). \<open>lit\<close> writes an ASCII
  literal of the source as a \<open>jstr\<close>. A throwing computation is a value of a sum type,
  \<open>Inl\<close> the error.

  The theory also holds the facts on lists, options and sums that the components share and
  the development's named collections: \<open>js_eval\<close> for the equations that evaluate text operations
  on concrete strings, \<open>res\<close> for the bind operator of throwing computations.
\<close>

named_theorems js_eval \<open>equations of the text operations\<close>
named_theorems res \<open>equations of throwing computations\<close>

type_synonym jstr = "nat list"
type_synonym byte = "8 word"
type_synonym bytes = "8 word list"

definition lit :: "string \<Rightarrow> jstr" where
  "lit s = map of_char s"

lemma lit_Nil [simp]: "lit [] = []"
  by (simp add: lit_def)

lemma lit_eq_Nil [simp]: "lit s = [] \<longleftrightarrow> s = []" "[] = lit s \<longleftrightarrow> s = []"
  by (auto simp: lit_def)

lemma length_lit [simp]: "length (lit s) = length s"
  by (simp add: lit_def)

lemma lit_eq_iff [simp]: "lit s = lit t \<longleftrightarrow> s = t"
  by (auto simp: lit_def inj_map_eq_map inj_def)

subsection \<open>Throwing computations\<close>

text \<open>Sequencing of two steps of which the first may throw.\<close>

definition try_then :: "'e + 'a \<Rightarrow> ('a \<Rightarrow> 'e + 'b) \<Rightarrow> 'e + 'b" where
  "try_then m f = (case m of Inl e \<Rightarrow> Inl e | Inr x \<Rightarrow> f x)"

lemma try_then_simps [simp, res]:
  "try_then (Inl e) f = Inl e"
  "try_then (Inr x) f = f x"
  by (simp_all add: try_then_def)

lemma try_then_eq_Inr [res]:
  "try_then m f = Inr y \<longleftrightarrow> (\<exists>x. m = Inr x \<and> f x = Inr y)"
  by (cases m) simp_all

lemma try_then_eq_Inl [res]:
  "try_then m f = Inl e \<longleftrightarrow> m = Inl e \<or> (\<exists>x. m = Inr x \<and> f x = Inl e)"
  by (cases m) simp_all

text \<open>A loop over a list whose body may throw, collecting the results in order.\<close>

fun try_map :: "('a \<Rightarrow> 'e + 'b) \<Rightarrow> 'a list \<Rightarrow> 'e + 'b list" where
  "try_map f [] = Inr []"
| "try_map f (x # xs) = try_then (f x) (\<lambda>y. try_then (try_map f xs) (\<lambda>ys. Inr (y # ys)))"

lemma try_map_Inr_iff:
  "try_map f xs = Inr ys \<longleftrightarrow> list_all2 (\<lambda>x y. f x = Inr y) xs ys"
  by (induction xs arbitrary: ys) (auto simp: res list_all2_Cons1)

lemma try_map_all_Inr:
  "(\<And>x. x \<in> set xs \<Longrightarrow> f x = Inr (g x)) \<Longrightarrow> try_map f xs = Inr (map g xs)"
  by (induction xs) (auto simp: res)

lemma try_map_length: "try_map f xs = Inr ys \<Longrightarrow> length ys = length xs"
  by (simp add: try_map_Inr_iff list_all2_lengthD)

text \<open>A guard that throws.\<close>

definition ensure :: "bool \<Rightarrow> 'e \<Rightarrow> 'e + unit" where
  "ensure b e = (if b then Inr () else Inl e)"

lemma ensure_simps [simp, res]:
  "ensure True e = Inr ()"
  "ensure False e = Inl e"
  by (simp_all add: ensure_def)

lemma ensure_eq_Inr [res]: "ensure b e = Inr u \<longleftrightarrow> b"
  by (simp add: ensure_def)

lemma ensure_eq_Inl [res]: "ensure b e = Inl e' \<longleftrightarrow> \<not> b \<and> e' = e"
  by (auto simp: ensure_def)

lemma isl_try_then: "isl (try_then m f) \<longleftrightarrow> isl m \<or> isl (f (projr m))"
  by (cases m) simp_all

subsection \<open>Sets kept in insertion order\<close>

text \<open>
  A JavaScript \<open>Set\<close> or \<open>Map\<close> iterates in insertion order, so it is a list here.
  \<open>set_add\<close> is \<open>Set.add\<close>, \<open>map_set\<close> is \<open>Map.set\<close> (a new key goes to the end,
  an old one keeps its place).
\<close>

definition set_add :: "'a list \<Rightarrow> 'a \<Rightarrow> 'a list" where
  "set_add xs x = (if x \<in> set xs then xs else xs @ [x])"

lemma set_set_add [simp]: "set (set_add xs x) = insert x (set xs)"
  by (auto simp: set_add_def)

lemma distinct_set_add [simp]: "distinct xs \<Longrightarrow> distinct (set_add xs x)"
  by (simp add: set_add_def)

fun map_set :: "('k \<times> 'v) list \<Rightarrow> 'k \<Rightarrow> 'v \<Rightarrow> ('k \<times> 'v) list" where
  "map_set [] k v = [(k, v)]"
| "map_set ((k', v') # m) k v = (if k' = k then (k, v) # m else (k', v') # map_set m k v)"

lemma map_of_map_set [simp]: "map_of (map_set m k v) = (map_of m)(k \<mapsto> v)"
  by (induction m k v rule: map_set.induct) auto

lemma set_fst_map_set [simp]: "fst ` set (map_set m k v) = insert k (fst ` set m)"
  by (induction m k v rule: map_set.induct) auto

lemma distinct_map_set [simp]:
  "distinct (map fst m) \<Longrightarrow> distinct (map fst (map_set m k v))"
proof (induction m k v rule: map_set.induct)
  case (2 k' v' m k v)
  then show ?case using set_fst_map_set [of m k v] by (auto simp flip: set_map)
qed simp

text \<open>The first element for every key, in the order of the list, leaving out the keys of \<open>seen\<close>.\<close>

fun unique_by :: "('a \<Rightarrow> 'k) \<Rightarrow> 'k list \<Rightarrow> 'a list \<Rightarrow> 'a list" where
  "unique_by f seen [] = []"
| "unique_by f seen (x # xs) =
     (if f x \<in> set seen then unique_by f seen xs else x # unique_by f (f x # seen) xs)"

lemma unique_by_subset: "set (unique_by f seen xs) \<subseteq> set xs"
  by (induction f seen xs rule: unique_by.induct) auto

lemma unique_by_keys [simp]: "f ` set (unique_by f seen xs) = f ` set xs - set seen"
  by (induction f seen xs rule: unique_by.induct) auto

lemma distinct_unique_by: "distinct (map f (unique_by f seen xs))"
proof (induction f seen xs rule: unique_by.induct)
  case (2 f seen x xs)
  then show ?case using unique_by_keys [of f "f x # seen" xs] by (auto simp flip: set_map)
qed simp

text \<open>\<open>xs.slice(0, n)\<close>: a negative \<open>n\<close> counts from the end.\<close>

definition slice_first :: "int \<Rightarrow> 'a list \<Rightarrow> 'a list" where
  "slice_first n xs = (if n \<ge> 0 then take (nat n) xs else take (length xs - nat (- n)) xs)"

lemma set_slice_first: "set (slice_first n xs) \<subseteq> set xs"
  by (simp add: slice_first_def set_take_subset)

lemma slice_first_all [simp]: "int (length xs) \<le> n \<Longrightarrow> slice_first n xs = xs"
  by (simp add: slice_first_def)

lemma distinct_slice_first: "distinct (map f xs) \<Longrightarrow> distinct (map f (slice_first n xs))"
  by (simp add: slice_first_def flip: take_map)

end
