(* ===== verification/Effects.thy ===== *)
theory Effects
  imports Prelude
begin

text \<open>
  Programs that call the world outside: git, the network, the file system, the clock. A program
  is a tree (\<open>io\<close>): it returns, or makes a call and goes on with whatever answer comes. The
  answers are not constrained, so a statement about all executions holds whatever the world does;
  \<open>exec m t x\<close> says that \<open>m\<close> can return \<open>x\<close> having made the calls and got the answers
  of the trace \<open>t\<close>. \<open>holds m G Q h\<close> is the weakest precondition: after history \<open>h\<close> every
  call of \<open>m\<close> satisfies its guard \<open>G\<close> at the time it is made, and every result satisfies
  \<open>Q\<close>; it is computed by the equations of \<open>wp\<close>. \<open>holds_iff_exec\<close> ties the two together.
\<close>

named_theorems wp \<open>weakest preconditions\<close>

datatype ('c, 'r, 'a) io = Ret 'a | Do 'c "'r \<Rightarrow> ('c, 'r, 'a) io"

primrec bind :: "('c, 'r, 'a) io \<Rightarrow> ('a \<Rightarrow> ('c, 'r, 'b) io) \<Rightarrow> ('c, 'r, 'b) io" where
  "bind (Ret x) f = f x"
| "bind (Do c k) f = Do c (\<lambda>r. bind (k r) f)"

text \<open>Sequencing of throwing steps, \<open>try\<close>/\<open>catch\<close>, \<open>try\<close>/\<open>finally\<close>.\<close>

definition seqE :: "('c, 'r, 'e + 'a) io \<Rightarrow> ('a \<Rightarrow> ('c, 'r, 'e + 'b) io) \<Rightarrow> ('c, 'r, 'e + 'b) io" where
  "seqE m f = bind m (\<lambda>x. case x of Inl e \<Rightarrow> Ret (Inl e) | Inr y \<Rightarrow> f y)"

definition catch :: "('c, 'r, 'e + 'a) io \<Rightarrow> ('e \<Rightarrow> ('c, 'r, 'f + 'a) io) \<Rightarrow> ('c, 'r, 'f + 'a) io" where
  "catch m f = bind m (\<lambda>x. case x of Inl e \<Rightarrow> f e | Inr y \<Rightarrow> Ret (Inr y))"

definition finally_do :: "('c, 'r, 'a) io \<Rightarrow> ('c, 'r, 'b) io \<Rightarrow> ('c, 'r, 'a) io" where
  "finally_do m c = bind m (\<lambda>x. bind c (\<lambda>_. Ret x))"

definition retE :: "'a \<Rightarrow> ('c, 'r, 'e + 'a) io" where
  "retE x = Ret (Inr x)"

definition throw :: "'e \<Rightarrow> ('c, 'r, 'e + 'a) io" where
  "throw e = Ret (Inl e)"

definition whenE :: "bool \<Rightarrow> ('c, 'r, 'e + unit) io \<Rightarrow> ('c, 'r, 'e + unit) io" where
  "whenE b m = (if b then m else retE ())"

fun for_each :: "'x list \<Rightarrow> 's \<Rightarrow> ('x \<Rightarrow> 's \<Rightarrow> ('c, 'r, 'e + 's) io) \<Rightarrow> ('c, 'r, 'e + 's) io" where
  "for_each [] s f = retE s"
| "for_each (x # xs) s f = seqE (f x s) (\<lambda>s'. for_each xs s' f)"

subsection \<open>Executions\<close>

inductive exec :: "('c, 'r, 'a) io \<Rightarrow> ('c \<times> 'r) list \<Rightarrow> 'a \<Rightarrow> bool" where
  exec_Ret: "exec (Ret x) [] x"
| exec_Do: "exec (k r) t x \<Longrightarrow> exec (Do c k) ((c, r) # t) x"

inductive_simps exec_Ret_iff [simp]: "exec (Ret x) t y"
inductive_simps exec_Do_iff [simp]: "exec (Do c k) t y"

text \<open>Running against a concrete world that answers from the history of calls.\<close>

primrec run :: "('c, 'r, 'a) io \<Rightarrow> (('c \<times> 'r) list \<Rightarrow> 'c \<Rightarrow> 'r) \<Rightarrow> ('c \<times> 'r) list \<Rightarrow> ('c \<times> 'r) list \<times> 'a" where
  "run (Ret x) w h = ([], x)"
| "run (Do c k) w h = (let r = w h c; (t, x) = run (k r) w (h @ [(c, r)]) in ((c, r) # t, x))"

text \<open>Evaluation of compound programs, one step at a time.\<close>

named_theorems run_eval \<open>evaluation against a concrete world\<close>

lemma run_bind [run_eval]:
  "run (bind m f) w h = (case run m w h of (t, x) \<Rightarrow> case run (f x) w (h @ t) of (t', y) \<Rightarrow> (t @ t', y))"
  by (induction m arbitrary: h) (simp_all add: Let_def split: prod.splits)

lemma run_seqE [run_eval]:
  "run (seqE m f) w h = (case run m w h of (t, Inl e) \<Rightarrow> (t, Inl e)
     | (t, Inr x) \<Rightarrow> (case run (f x) w (h @ t) of (t', y) \<Rightarrow> (t @ t', y)))"
  by (auto simp: seqE_def run_bind split: prod.splits sum.splits)

lemma run_catch [run_eval]:
  "run (catch m f) w h = (case run m w h of (t, Inr x) \<Rightarrow> (t, Inr x)
     | (t, Inl e) \<Rightarrow> (case run (f e) w (h @ t) of (t', y) \<Rightarrow> (t @ t', y)))"
  by (auto simp: catch_def run_bind split: prod.splits sum.splits)

lemma run_retE [run_eval]: "run (retE x) w h = ([], Inr x)"
  by (simp add: retE_def)

lemma run_throw [run_eval]: "run (throw e) w h = ([], Inl e)"
  by (simp add: throw_def)

lemma run_whenE [run_eval]: "run (whenE b m) w h = (if b then run m w h else ([], Inr ()))"
  by (simp add: whenE_def retE_def)

lemma exec_run: "run m w h = (t, x) \<Longrightarrow> exec m t x"
proof (induction m arbitrary: h t x)
  case (Do c k)
  obtain t' x' where r: "run (k (w h c)) w (h @ [(c, w h c)]) = (t', x')" by fastforce
  with Do.prems have "t = (c, w h c) # t'" "x = x'" by (simp_all add: Let_def)
  with Do.IH [OF rangeI r] show ?case by simp
qed simp

lemma exec_bind: "exec (bind m f) t y \<longleftrightarrow> (\<exists>t1 t2 x. t = t1 @ t2 \<and> exec m t1 x \<and> exec (f x) t2 y)"
proof (induction m arbitrary: t)
  case (Ret x)
  then show ?case by simp
next
  case (Do c k)
  show ?case
  proof
    assume "exec (bind (Do c k) f) t y"
    then obtain r t' where t: "t = (c, r) # t'" "exec (bind (k r) f) t' y" by auto
    with Do.IH [OF rangeI] obtain t1 t2 x where "t' = t1 @ t2" "exec (k r) t1 x" "exec (f x) t2 y" by blast
    then show "\<exists>t1 t2 x. t = t1 @ t2 \<and> exec (Do c k) t1 x \<and> exec (f x) t2 y"
      by (intro exI [of _ "(c, r) # t1"] exI [of _ t2] exI [of _ x]) (simp add: t)
  next
    assume "\<exists>t1 t2 x. t = t1 @ t2 \<and> exec (Do c k) t1 x \<and> exec (f x) t2 y"
    then show "exec (bind (Do c k) f) t y" using Do.IH [OF rangeI] by fastforce
  qed
qed

subsection \<open>Weakest preconditions\<close>

primrec holds ::
  "('c, 'r, 'a) io \<Rightarrow> (('c \<times> 'r) list \<Rightarrow> 'c \<Rightarrow> bool) \<Rightarrow> (('c \<times> 'r) list \<Rightarrow> 'a \<Rightarrow> bool) \<Rightarrow> ('c \<times> 'r) list \<Rightarrow> bool" where
  "holds (Ret x) G Q h = Q h x"
| "holds (Do c k) G Q h = (G h c \<and> (\<forall>r. holds (k r) G Q (h @ [(c, r)])))"

lemma holds_Ret [simp, wp]: "holds (Ret x) G Q h \<longleftrightarrow> Q h x"
  by simp

lemma holds_bind [simp, wp]: "holds (bind m f) G Q h \<longleftrightarrow> holds m G (\<lambda>h' x. holds (f x) G Q h') h"
  by (induction m arbitrary: h) auto

lemma holds_seqE [simp, wp]:
  "holds (seqE m f) G Q h \<longleftrightarrow>
     holds m G (\<lambda>h' x. case x of Inl e \<Rightarrow> Q h' (Inl e) | Inr y \<Rightarrow> holds (f y) G Q h') h"
  by (simp add: seqE_def sum.case_distrib [of "\<lambda>m. holds m G Q _"] cong: sum.case_cong)

lemma holds_catch [simp, wp]:
  "holds (catch m f) G Q h \<longleftrightarrow>
     holds m G (\<lambda>h' x. case x of Inl e \<Rightarrow> holds (f e) G Q h' | Inr y \<Rightarrow> Q h' (Inr y)) h"
  by (simp add: catch_def sum.case_distrib [of "\<lambda>m. holds m G Q _"] cong: sum.case_cong)

lemma holds_finally [simp, wp]:
  "holds (finally_do m c) G Q h \<longleftrightarrow> holds m G (\<lambda>h' x. holds c G (\<lambda>h'' _. Q h'' x) h') h"
  by (simp add: finally_do_def)

lemma holds_retE [simp, wp]: "holds (retE x) G Q h \<longleftrightarrow> Q h (Inr x)"
  by (simp add: retE_def)

lemma holds_throw [simp, wp]: "holds (throw e) G Q h \<longleftrightarrow> Q h (Inl e)"
  by (simp add: throw_def)

lemma holds_whenE [simp, wp]: "holds (whenE b m) G Q h \<longleftrightarrow> (if b then holds m G Q h else Q h (Inr ()))"
  by (simp add: whenE_def)

text \<open>Consequence: a result is reached after some extension of the history.\<close>

lemma holds_mono:
  "holds m G Q h \<Longrightarrow> (\<And>h' x. Q (h @ h') x \<Longrightarrow> Q' (h @ h') x) \<Longrightarrow> (\<And>h' c. G (h @ h') c \<Longrightarrow> G' (h @ h') c) \<Longrightarrow>
     holds m G' Q' h"
proof (induction m arbitrary: h)
  case (Ret x)
  then show ?case using Ret.prems(2) [of "[]"] by simp
next
  case (Do c k)
  have "G' h c" using Do.prems(1) Do.prems(3) [of "[]"] by simp
  moreover have "holds (k r) G' Q' (h @ [(c, r)])" for r
    by (rule Do.IH [OF rangeI]) (use Do.prems in \<open>auto simp: append_assoc\<close>)
  ultimately show ?case by simp
qed

lemma holds_post: "holds m G Q h \<Longrightarrow> (\<And>h' x. Q (h @ h') x \<Longrightarrow> Q' (h @ h') x) \<Longrightarrow> holds m G Q' h"
  by (rule holds_mono)

lemma holds_conj: "holds m G (\<lambda>h x. Q h x \<and> R h x) h \<longleftrightarrow> holds m G Q h \<and> holds m G R h"
  by (induction m arbitrary: h) auto

lemma holds_trivial: "holds m (\<lambda>_ _. True) (\<lambda>_ _. True) h"
  by (induction m arbitrary: h) auto

text \<open>A program all of whose calls are allowed by a history-independent guard.\<close>

lemma holds_for_each:
  assumes "\<And>x s h. P h s \<Longrightarrow> x \<in> set xs \<Longrightarrow>
      holds (f x s) G (\<lambda>h' r. case r of Inl e \<Rightarrow> R h' e | Inr s' \<Rightarrow> P h' s') h"
    and "P h s"
  shows "holds (for_each xs s f) G (\<lambda>h' r. case r of Inl e \<Rightarrow> R h' e | Inr s' \<Rightarrow> P h' s') h"
  using assms
proof (induction xs arbitrary: s h)
  case (Cons x xs)
  have "holds (f x s) G (\<lambda>h' r. case r of Inl e \<Rightarrow> R h' e | Inr s' \<Rightarrow> P h' s') h"
    using Cons.prems by simp
  then show ?case
  proof (simp, rule holds_post)
    fix h' r
    assume "case r of Inl e \<Rightarrow> R (h @ h') e | Inr s' \<Rightarrow> P (h @ h') s'"
    then show "case r of Inl e \<Rightarrow> (case Inl e of Inl e \<Rightarrow> R (h @ h') e | Inr s' \<Rightarrow> P (h @ h') s')
      | Inr y \<Rightarrow> holds (for_each xs y f) G (\<lambda>h' r. case r of Inl e \<Rightarrow> R h' e | Inr s' \<Rightarrow> P h' s') (h @ h')"
      using Cons.IH Cons.prems by (cases r) auto
  qed
qed simp

subsection \<open>Postconditions of the executions that do not throw\<close>

definition okay ::
  "('c, 'r, 'e + 'a) io \<Rightarrow> (('c \<times> 'r) list \<Rightarrow> 'c \<Rightarrow> bool) \<Rightarrow> (('c \<times> 'r) list \<Rightarrow> 'a \<Rightarrow> bool) \<Rightarrow> ('c \<times> 'r) list \<Rightarrow> bool" where
  "okay m G P h \<longleftrightarrow> holds m G (\<lambda>h' r. case r of Inl e \<Rightarrow> True | Inr y \<Rightarrow> P h' y) h"

lemma okay_seqE [simp]: "okay (seqE m f) G P h \<longleftrightarrow> okay m G (\<lambda>h' y. okay (f y) G P h') h"
  by (simp add: okay_def cong: sum.case_cong)

lemma okay_retE [simp]: "okay (retE x) G P h \<longleftrightarrow> P h x"
  by (simp add: okay_def)

lemma okay_throw [simp]: "okay (throw e) G P h"
  by (simp add: okay_def)

lemma okay_whenE [simp]: "okay (whenE b m) G P h \<longleftrightarrow> (if b then okay m G P h else P h ())"
  by (simp add: okay_def)

lemma okay_if [simp]: "okay (if b then m else m') G P h \<longleftrightarrow> (b \<longrightarrow> okay m G P h) \<and> (\<not> b \<longrightarrow> okay m' G P h)"
  by simp

lemma okay_catch_throw [simp]: "okay (catch m (\<lambda>e. throw (f e))) G P h \<longleftrightarrow> okay m G P h"
  by (simp add: okay_def cong: sum.case_cong)

lemma okay_mono:
  "okay m G P h \<Longrightarrow> (\<And>h' x. P (h @ h') x \<Longrightarrow> P' (h @ h') x) \<Longrightarrow> okay m G P' h"
  unfolding okay_def by (erule holds_post) (auto split: sum.splits)

lemma okay_bind:
  "okay (bind m f) G P h \<longleftrightarrow> holds m G (\<lambda>h' x. okay (f x) G P h') h"
  by (simp add: okay_def)

lemma okay_conj:
  assumes "okay m G P h" and "okay m G Q h"
  shows "okay m G (\<lambda>h x. P h x \<and> Q h x) h"
proof -
  have "holds m G (\<lambda>h' x. (case x of Inl e \<Rightarrow> True | Inr y \<Rightarrow> P h' y) \<and> (case x of Inl e \<Rightarrow> True | Inr y \<Rightarrow> Q h' y)) h"
    using assms by (simp add: okay_def holds_conj)
  then show ?thesis unfolding okay_def by (rule holds_post) (auto split: sum.splits)
qed

lemma okay_seqI: "okay m G Q h \<Longrightarrow> (\<And>h' y. Q (h @ h') y \<Longrightarrow> okay (f y) G P (h @ h')) \<Longrightarrow> okay (seqE m f) G P h"
  by (simp, rule okay_mono)

text \<open>A loop none of whose steps threw has established, and kept, what each step establishes.\<close>

lemma okay_for_each:
  assumes step: "\<And>x s h'. x \<in> set xs \<Longrightarrow> okay (f x s) G (\<lambda>h _. P x h) (h @ h')"
    and mono: "\<And>x h h'. P x h \<Longrightarrow> P x (h @ h')"
  shows "okay (for_each xs s f) G (\<lambda>h _. \<forall>x \<in> set xs. P x h) h"
  using step
proof (induction xs arbitrary: s h)
  case (Cons x xs)
  have tail: "okay (for_each xs s' f) G (\<lambda>h _. P x h \<and> (\<forall>x \<in> set xs. P x h)) (h @ h')"
    if "P x (h @ h')" for s' h'
  proof (rule okay_mono [OF Cons.IH])
    show "okay (f y s) G (\<lambda>h _. P y h) ((h @ h') @ h'')" if "y \<in> set xs" for y s h''
      using Cons.prems [of y s "h' @ h''"] that by simp
  qed (use mono [OF that] in auto)
  have "okay (f x s) G (\<lambda>h _. P x h) h" using Cons.prems [of x s "[]"] by simp
  then show ?case using tail by (auto elim: okay_mono)
qed simp

text \<open>The tie to executions.\<close>

lemma holds_exec_result: "holds m G Q h \<Longrightarrow> exec m t x \<Longrightarrow> Q (h @ t) x"
proof (induction m arbitrary: h t)
  case (Do c k)
  then obtain r t' where t: "t = (c, r) # t'" "exec (k r) t' x" by auto
  with Do.IH [OF rangeI _ t(2), of "h @ [(c, r)]"] Do.prems show ?case by simp
qed simp

lemma holds_exec_call: "holds m G Q h \<Longrightarrow> exec m (pre @ (c, r) # post) x \<Longrightarrow> G (h @ pre) c"
proof (induction m arbitrary: h pre)
  case (Do c' k)
  show ?case
  proof (cases pre)
    case Nil
    with Do.prems show ?thesis by simp
  next
    case (Cons p ps)
    obtain r' where p: "p = (c', r')" using Do.prems(2) Cons by (cases p) auto
    have "exec (k r') (ps @ (c, r) # post) x" using Do.prems(2) Cons p by simp
    moreover have "holds (k r') G Q (h @ [(c', r')])" using Do.prems(1) by simp
    ultimately show ?thesis using Do.IH [OF rangeI] Cons p by fastforce
  qed
qed auto

lemma okay_exec_call: "okay m G P [] \<Longrightarrow> exec m (pre @ (c, r) # post) x \<Longrightarrow> G pre c"
  unfolding okay_def using holds_exec_call [of m G _ "[]" pre c r post x] by auto

lemma exec_exists: "\<exists>t x. exec m t x"
proof (induction m)
  case (Do c k)
  obtain t x where "exec (k undefined) t x" using Do [OF rangeI] by blast
  then show ?case by (auto intro: exec.intros)
qed (auto intro: exec.intros)

lemma holds_iff_exec:
  "holds m G Q h \<longleftrightarrow>
     (\<forall>t x. exec m t x \<longrightarrow> Q (h @ t) x \<and> (\<forall>pre c r post. t = pre @ (c, r) # post \<longrightarrow> G (h @ pre) c))"
proof
  assume "holds m G Q h"
  then show "\<forall>t x. exec m t x \<longrightarrow> Q (h @ t) x \<and> (\<forall>pre c r post. t = pre @ (c, r) # post \<longrightarrow> G (h @ pre) c)"
    using holds_exec_result holds_exec_call by metis
next
  assume "\<forall>t x. exec m t x \<longrightarrow> Q (h @ t) x \<and> (\<forall>pre c r post. t = pre @ (c, r) # post \<longrightarrow> G (h @ pre) c)"
  then show "holds m G Q h"
  proof (induction m arbitrary: h)
    case (Do c k)
    obtain t0 x0 where "exec (k undefined) t0 x0" using exec_exists [of "k undefined"] by blast
    then have "exec (Do c k) ([] @ (c, undefined) # t0) x0" by simp
    then have "G (h @ []) c" using Do.prems by blast
    moreover have "holds (k r) G Q (h @ [(c, r)])" for r
    proof (rule Do.IH [OF rangeI], intro allI impI conjI)
      fix t x assume e: "exec (k r) t x"
      then have d: "exec (Do c k) ((c, r) # t) x" by simp
      then show "Q ((h @ [(c, r)]) @ t) x" using Do.prems by auto
      fix pre c' r' post assume "t = pre @ (c', r') # post"
      then have "(c, r) # t = ((c, r) # pre) @ (c', r') # post" by simp
      then show "G ((h @ [(c, r)]) @ pre) c'" using Do.prems d by fastforce
    qed
    ultimately show ?case by simp
  qed simp
qed

subsection \<open>The calls a program can make\<close>

text \<open>\<open>uses m C\<close>: every call of \<open>m\<close> is in the class \<open>C\<close>, whatever the answers.\<close>

named_theorems calls \<open>which calls a program can make\<close>

primrec uses :: "('c, 'r, 'a) io \<Rightarrow> ('c \<Rightarrow> bool) \<Rightarrow> bool" where
  "uses (Ret x) C = True"
| "uses (Do c k) C = (C c \<and> (\<forall>r. uses (k r) C))"

lemma uses_bind [calls]: "uses m C \<Longrightarrow> (\<And>x. uses (f x) C) \<Longrightarrow> uses (bind m f) C"
  by (induction m) auto

lemma uses_seqE [calls]: "uses m C \<Longrightarrow> (\<And>x. uses (f x) C) \<Longrightarrow> uses (seqE m f) C"
  by (auto simp: seqE_def intro!: uses_bind split: sum.splits)

lemma uses_catch [calls]: "uses m C \<Longrightarrow> (\<And>e. uses (f e) C) \<Longrightarrow> uses (catch m f) C"
  by (auto simp: catch_def intro!: uses_bind split: sum.splits)

lemma uses_finally [calls]: "uses m C \<Longrightarrow> uses n C \<Longrightarrow> uses (finally_do m n) C"
  by (auto simp: finally_do_def intro!: uses_bind)

lemma uses_retE [calls]: "uses (retE x) C"
  by (simp add: retE_def)

lemma uses_throw [calls]: "uses (throw x) C"
  by (simp add: throw_def)

lemma uses_if [calls]: "(b \<Longrightarrow> uses m C) \<Longrightarrow> (\<not> b \<Longrightarrow> uses n C) \<Longrightarrow> uses (if b then m else n) C"
  by simp

lemma uses_whenE [calls]: "(b \<Longrightarrow> uses m C) \<Longrightarrow> uses (whenE b m) C"
  by (simp add: whenE_def retE_def)

lemma uses_case_option [calls]:
  "uses m C \<Longrightarrow> (\<And>x. uses (f x) C) \<Longrightarrow> uses (case v of None \<Rightarrow> m | Some x \<Rightarrow> f x) C"
  by (simp split: option.split)

lemma uses_case_sum [calls]:
  "(\<And>e. uses (g e) C) \<Longrightarrow> (\<And>x. uses (f x) C) \<Longrightarrow> uses (case v of Inl e \<Rightarrow> g e | Inr x \<Rightarrow> f x) C"
  by (simp split: sum.split)

lemma uses_case_prod [calls]: "(\<And>x y. uses (f x y) C) \<Longrightarrow> uses (case v of (x, y) \<Rightarrow> f x y) C"
  by (simp split: prod.split)

lemma uses_for_each [calls]: "(\<And>x s. x \<in> set xs \<Longrightarrow> uses (f x s) C) \<Longrightarrow> uses (for_each xs s f) C"
  by (induction xs arbitrary: s) (auto intro!: calls)

lemma uses_any: "uses m (\<lambda>_. True)"
  by (induction m) auto

lemma uses_mono: "uses m C \<Longrightarrow> (\<And>c. C c \<Longrightarrow> C' c) \<Longrightarrow> uses m C'"
  by (induction m) auto

lemma uses_exec: "uses m C \<Longrightarrow> exec m t x \<Longrightarrow> (c, r) \<in> set t \<Longrightarrow> C c"
proof (induction m arbitrary: t)
  case (Do c' k)
  then obtain r' t' where t: "t = (c', r') # t'" "exec (k r') t' x" by auto
  show ?case
  proof (cases "c = c'")
    case False
    with t Do.prems have "(c, r) \<in> set t'" "uses (k r') C" by auto
    with Do.IH [OF rangeI] t(2) show ?thesis by blast
  qed (use Do.prems in simp)
qed simp

text \<open>A fact that later calls cannot undo is kept by any program whose calls the guard lets through.\<close>

lemma uses_holds:
  assumes "uses m C" and "\<And>h' c. C c \<Longrightarrow> G (h @ h') c" and "\<And>h' x. Q (h @ h') x"
  shows "holds m G Q h"
  using assms
proof (induction m arbitrary: h)
  case (Ret x)
  then show ?case using Ret.prems(3) [of "[]"] by simp
next
  case (Do c k)
  have "G h c" using Do.prems(1) Do.prems(2) [of c "[]"] by simp
  moreover have "holds (k r) G Q (h @ [(c, r)])" for r
    by (rule Do.IH [OF rangeI]) (use Do.prems in \<open>auto simp: append_assoc\<close>)
  ultimately show ?case by simp
qed

lemma uses_okay:
  "uses m C \<Longrightarrow> (\<And>h' c. C c \<Longrightarrow> G (h @ h') c) \<Longrightarrow> (\<And>h' x. P (h @ h') x) \<Longrightarrow> okay m G P h"
  unfolding okay_def by (erule uses_holds) (auto split: sum.splits)

lemma uses_history:
  "uses m C \<Longrightarrow> holds m (\<lambda>_ _. True) (\<lambda>h' _. \<exists>t. h' = h @ t \<and> (\<forall>x \<in> set t. C (fst x))) h"
  by (auto simp: holds_iff_exec dest: uses_exec)

end
