(* ===== verification/JsText.thy ===== *)
theory JsText
  imports Prelude
begin

text \<open>
  The operations of \<open>String.prototype\<close> and \<open>Array.prototype\<close> the program uses, on code
  units: \<open>slice\<close>, \<open>startsWith\<close>, \<open>endsWith\<close>, \<open>includes\<close>, \<open>indexOf\<close>,
  \<open>split\<close> on a separator, \<open>join\<close>, \<open>trim\<close>, decimal \<open>String(n)\<close>, and reading a
  string by code points.
\<close>

definition slice :: "jstr \<Rightarrow> nat \<Rightarrow> nat \<Rightarrow> jstr" where
  "slice s a b = take (b - a) (drop a s)"

text \<open>\<open>s.slice(-n)\<close>: the last \<open>n\<close> code units.\<close>

definition slice_last :: "jstr \<Rightarrow> nat \<Rightarrow> jstr" where
  "slice_last s n = drop (length s - n) s"

definition starts_with :: "jstr \<Rightarrow> jstr \<Rightarrow> bool" where
  "starts_with p s \<longleftrightarrow> take (length p) s = p"

definition ends_with :: "jstr \<Rightarrow> jstr \<Rightarrow> bool" where
  "ends_with p s \<longleftrightarrow> length p \<le> length s \<and> drop (length s - length p) s = p"

text \<open>\<open>s.indexOf(sub, from)\<close>, with \<open>None\<close> for -1.\<close>

function index_of :: "jstr \<Rightarrow> jstr \<Rightarrow> nat \<Rightarrow> nat option" where
  "index_of sub s i =
     (if i + length sub \<le> length s
      then (if take (length sub) (drop i s) = sub then Some i else index_of sub s (Suc i))
      else None)"
  by pat_completeness auto
termination
  by (relation "measure (\<lambda>(sub, s, i). Suc (length s) - i)") auto

declare index_of.simps [simp del]

definition has_sub :: "jstr \<Rightarrow> jstr \<Rightarrow> bool" where
  "has_sub sub s \<longleftrightarrow> index_of sub s 0 \<noteq> None"

lemma index_of_Some:
  "index_of sub s i = Some j \<Longrightarrow>
     i \<le> j \<and> j + length sub \<le> length s \<and> take (length sub) (drop j s) = sub"
proof (induction sub s i rule: index_of.induct)
  case (1 sub s i)
  show ?case
  proof (cases "i + length sub \<le> length s \<and> take (length sub) (drop i s) \<noteq> sub")
    case True
    with "1.prems" have "index_of sub s (Suc i) = Some j"
      by (simp add: index_of.simps [of sub s i])
    with "1.IH" True show ?thesis by auto
  next
    case False
    with "1.prems" show ?thesis
      by (auto simp: index_of.simps [of sub s i] split: if_splits)
  qed
qed

lemma index_of_least:
  "i \<le> k \<Longrightarrow> k + length sub \<le> length s \<Longrightarrow> take (length sub) (drop k s) = sub \<Longrightarrow>
     \<exists>j. index_of sub s i = Some j \<and> j \<le> k"
proof (induction sub s i rule: index_of.induct)
  case (1 sub s i)
  show ?case
  proof (cases "take (length sub) (drop i s) = sub")
    case True
    with "1.prems" show ?thesis by (simp add: index_of.simps [of sub s i])
  next
    case False
    with "1.prems" have "i \<noteq> k" by auto
    with "1.prems" have "Suc i \<le> k" by simp
    with False 1 have "\<exists>j. index_of sub s (Suc i) = Some j \<and> j \<le> k" by simp
    with False "1.prems" show ?thesis by (simp add: index_of.simps [of sub s i])
  qed
qed

lemma has_sub_iff: "has_sub sub s \<longleftrightarrow> sublist sub s"
proof
  assume "has_sub sub s"
  then obtain j where "index_of sub s 0 = Some j" by (auto simp: has_sub_def)
  then have j: "j + length sub \<le> length s" "take (length sub) (drop j s) = sub"
    by (auto dest: index_of_Some)
  have "s = take j s @ sub @ drop (length sub) (drop j s)"
    using j(2) by (metis append_take_drop_id)
  then show "sublist sub s" by (auto simp: sublist_def)
next
  assume "sublist sub s"
  then obtain ps ss where s: "s = ps @ sub @ ss" by (auto simp: sublist_def)
  then have "\<exists>j. index_of sub s 0 = Some j \<and> j \<le> length ps"
    by (intro index_of_least) auto
  then show "has_sub sub s" by (auto simp: has_sub_def)
qed

text \<open>\<open>xs.join(sep)\<close>.\<close>

fun join :: "jstr \<Rightarrow> jstr list \<Rightarrow> jstr" where
  "join sep [] = []"
| "join sep [x] = x"
| "join sep (x # y # ys) = x @ sep @ join sep (y # ys)"

text \<open>\<open>s.split(c)\<close> on a separator of one code unit; a separator always leaves one more piece.\<close>

fun split_on :: "nat \<Rightarrow> jstr \<Rightarrow> jstr list" where
  "split_on c [] = [ [] ]"
| "split_on c (x # xs) =
     (if x = c then [] # split_on c xs
      else (case split_on c xs of [] \<Rightarrow> [ [x] ] | p # ps \<Rightarrow> (x # p) # ps))"

lemma split_on_not_Nil [simp]: "split_on c s \<noteq> []"
  by (induction s) (auto split: list.splits)

lemma join_split_on: "join [c] (split_on c s) = s"
proof (induction s)
  case (Cons x xs)
  then show ?case
  proof (cases "split_on c xs")
    case (Cons p ps)
    with \<open>join [c] (split_on c xs) = xs\<close> show ?thesis by (cases ps) auto
  qed simp
qed simp

lemma split_on_no_sep: "p \<in> set (split_on c s) \<Longrightarrow> c \<notin> set p"
  by (induction s arbitrary: p) (auto split: list.splits if_splits)

lemma split_on_free: "c \<notin> set s \<Longrightarrow> split_on c s = [s]"
  by (induction s) auto

lemma split_on_append_sep: "c \<notin> set s \<Longrightarrow> split_on c (s @ c # t) = s # split_on c t"
  by (induction s) auto

text \<open>White space in the sense of \<open>\s\<close> and \<open>trim\<close> (the same set in ECMAScript).\<close>

definition is_space :: "nat \<Rightarrow> bool" where
  "is_space c \<longleftrightarrow> (9 \<le> c \<and> c \<le> 13) \<or> c = 32 \<or> c = 160 \<or> c = 5760 \<or> (8192 \<le> c \<and> c \<le> 8202)
     \<or> c = 8232 \<or> c = 8233 \<or> c = 8239 \<or> c = 8287 \<or> c = 12288 \<or> c = 65279"

definition trim_end :: "jstr \<Rightarrow> jstr" where
  "trim_end s = rev (dropWhile is_space (rev s))"

definition trim :: "jstr \<Rightarrow> jstr" where
  "trim s = trim_end (dropWhile is_space s)"

text \<open>\<open>String(n)\<close> for a natural number.\<close>

fun nat_str :: "nat \<Rightarrow> jstr" where
  "nat_str n = (if n < 10 then [48 + n] else nat_str (n div 10) @ [48 + n mod 10])"

declare nat_str.simps [simp del]

definition is_digit :: "nat \<Rightarrow> bool" where
  "is_digit c \<longleftrightarrow> 48 \<le> c \<and> c \<le> 57"

lemma nat_str_digits: "c \<in> set (nat_str n) \<Longrightarrow> is_digit c"
proof (induction n rule: nat_str.induct)
  case (1 n)
  then show ?case
    by (cases "n < 10") (auto simp: nat_str.simps [of n] is_digit_def)
qed

lemma nat_str_not_Nil [simp]: "nat_str n \<noteq> []"
  by (subst nat_str.simps) simp

fun digits_val :: "nat \<Rightarrow> jstr \<Rightarrow> nat" where
  "digits_val a [] = a"
| "digits_val a (c # cs) = digits_val (10 * a + (c - 48)) cs"

lemma digits_val_append: "digits_val a (s @ t) = digits_val (digits_val a s) t"
  by (induction s arbitrary: a) auto

lemma digits_val_nat_str: "digits_val 0 (nat_str n) = n"
proof (induction n rule: nat_str.induct)
  case (1 n)
  then show ?case
    by (cases "n < 10") (auto simp: nat_str.simps [of n] digits_val_append)
qed

lemma nat_str_inj: "nat_str m = nat_str n \<longleftrightarrow> m = n"
  by (metis digits_val_nat_str)

text \<open>Reading a string by code points, as \<open>for (const c of s)\<close> does: a lone surrogate is itself.\<close>

definition is_high :: "nat \<Rightarrow> bool" where "is_high c \<longleftrightarrow> 55296 \<le> c \<and> c \<le> 56319"
definition is_low :: "nat \<Rightarrow> bool" where "is_low c \<longleftrightarrow> 56320 \<le> c \<and> c \<le> 57343"

fun code_points :: "jstr \<Rightarrow> nat list" where
  "code_points [] = []"
| "code_points [c] = [c]"
| "code_points (h # l # s) =
     (if is_high h \<and> is_low l then (65536 + (h - 55296) * 1024 + (l - 56320)) # code_points s
      else h # code_points (l # s))"

text \<open>\<open>s.isWellFormed()\<close>: no lone surrogate.\<close>

fun is_well_formed :: "jstr \<Rightarrow> bool" where
  "is_well_formed [] = True"
| "is_well_formed [c] = (\<not> is_high c \<and> \<not> is_low c)"
| "is_well_formed (h # l # s) =
     (if is_high h then is_low l \<and> is_well_formed s
      else \<not> is_low h \<and> is_well_formed (l # s))"

lemma code_points_ascii: "\<forall>c \<in> set s. c < 55296 \<Longrightarrow> code_points s = s"
  by (induction s rule: code_points.induct) (auto simp: is_high_def)

lemma well_formed_ascii: "\<forall>c \<in> set s. c < 55296 \<Longrightarrow> is_well_formed s"
  by (induction s rule: is_well_formed.induct) (auto simp: is_high_def is_low_def)

lemma well_formed_append: "is_well_formed s \<Longrightarrow> is_well_formed t \<Longrightarrow> is_well_formed (s @ t)"
proof (induction s rule: is_well_formed.induct)
  case (2 c)
  then show ?case by (cases t) (auto split: if_splits)
qed (auto split: if_splits)

lemma length_code_points: "length (code_points s) \<le> length s"
  by (induction s rule: code_points.induct) auto

text \<open>\<open>basename\<close> of a POSIX path: the last segment, trailing slashes left out.\<close>

definition basename :: "jstr \<Rightarrow> jstr" where
  "basename p = last (split_on 47 (rev (dropWhile (\<lambda>c. c = 47) (rev p))))"

lemmas text_defs = slice_def slice_last_def starts_with_def ends_with_def has_sub_def
  trim_def trim_end_def is_space_def is_digit_def

end
