(* ===== verification/Url.thy ===== *)
theory Url
  imports JsText
begin

text \<open>
  The parts of a URL the program reads. The WHATWG parser behind \<open>new URL(s)\<close> is the parameter
  \<open>url_parse\<close> of the record \<open>platform\<close> (None where the constructor throws), as is SHA-256;
  \<open>url_text\<close> is the serialisation of a URL with an authority.
\<close>

record url_parts =
  u_protocol :: jstr
  u_username :: jstr
  u_password :: jstr
  u_host :: jstr
  u_hostname :: jstr
  u_pathname :: jstr
  u_search :: jstr
  u_hash :: jstr

record platform =
  url_parse :: "jstr \<Rightarrow> url_parts option"
  sha256_hex :: "jstr \<Rightarrow> jstr"

definition u_authority :: "url_parts \<Rightarrow> jstr" where
  "u_authority u =
     (if u_username u = [] \<and> u_password u = [] then []
      else u_username u @ (if u_password u = [] then [] else [58] @ u_password u) @ [64]) @ u_host u"

definition url_text :: "url_parts \<Rightarrow> jstr" where
  "url_text u = u_protocol u @ lit ''//'' @ u_authority u @ u_pathname u @ u_search u @ u_hash u"

definition simple_url :: "string \<Rightarrow> string \<Rightarrow> string \<Rightarrow> url_parts" where
  "simple_url p h path = \<lparr>u_protocol = lit p, u_username = [], u_password = [], u_host = lit h,
     u_hostname = lit h, u_pathname = lit path, u_search = [], u_hash = []\<rparr>"

end
