(* ===== verification/Regex.thy ===== *)
theory Regex
  imports JsText
begin

text \<open>
  ECMAScript regular expressions, as the backtracking matcher of the language's specification
  reads them. \<open>ends r s i\<close> is the list of positions where a match of \<open>r\<close> that starts at
  \<open>i\<close> can end, in the order in which the matcher tries them, so its head is the match the
  program sees. The constructors are the forms the program's patterns use; \<open>Rep\<close> is the
  greedy quantifier \<open>{lo,hi}\<close> (\<open>hi = None\<close> for no upper bound) and \<open>Lazy\<close> the
  reluctant one. On top of it: \<open>search\<close> (\<open>exec\<close>), \<open>match_all\<close> (\<open>matchAll\<close> and the
  \<open>g\<close> flag), \<open>rx_split\<close> and \<open>rx_replace\<close>.
\<close>

datatype rx =
    Eps
  | Ch "nat \<Rightarrow> bool"
  | Sq rx rx
  | Or rx rx
  | Rep rx nat "nat option"
  | Lazy rx nat "nat option"
  | Ahead bool rx
  | NotBehind "nat \<Rightarrow> bool"
  | WordB
  | Bol
  | Eol

subsection \<open>Character classes\<close>

definition is_upper :: "nat \<Rightarrow> bool" where "is_upper c \<longleftrightarrow> 65 \<le> c \<and> c \<le> 90"
definition is_lower :: "nat \<Rightarrow> bool" where "is_lower c \<longleftrightarrow> 97 \<le> c \<and> c \<le> 122"
definition is_alpha :: "nat \<Rightarrow> bool" where "is_alpha c \<longleftrightarrow> is_upper c \<or> is_lower c"
definition is_alnum :: "nat \<Rightarrow> bool" where "is_alnum c \<longleftrightarrow> is_alpha c \<or> is_digit c"
definition is_word :: "nat \<Rightarrow> bool" where "is_word c \<longleftrightarrow> is_alnum c \<or> c = 95"
definition is_hex :: "nat \<Rightarrow> bool" where
  "is_hex c \<longleftrightarrow> is_digit c \<or> (65 \<le> c \<and> c \<le> 70) \<or> (97 \<le> c \<and> c \<le> 102)"
definition one_of :: "string \<Rightarrow> nat \<Rightarrow> bool" where "one_of cs c \<longleftrightarrow> c \<in> set (lit cs)"

lemmas char_class_defs = is_upper_def is_lower_def is_alpha_def is_alnum_def is_word_def
  is_hex_def one_of_def is_digit_def

definition word_at :: "jstr \<Rightarrow> nat \<Rightarrow> bool" where
  "word_at s i \<longleftrightarrow> i < length s \<and> is_word (s ! i)"

subsection \<open>The matcher\<close>

text \<open>
  One quantified loop over the ends \<open>f\<close> of its body: after the minimum an iteration that
  consumes nothing is refused (the empty check of the specification). \<open>n\<close> is fuel;
  \<open>rep_ends_enough\<close> shows the fuel \<open>ends\<close> passes is enough.
\<close>

fun rep_ends :: "bool \<Rightarrow> (nat \<Rightarrow> nat list) \<Rightarrow> nat \<Rightarrow> nat \<Rightarrow> nat option \<Rightarrow> nat \<Rightarrow> nat list" where
  "rep_ends greedy f 0 lo hi i = []"
| "rep_ends greedy f (Suc n) lo hi i =
     (if hi = Some 0 then [i]
      else
        (let more = concat (map (\<lambda>j. if lo = 0 \<and> j = i then []
                      else rep_ends greedy f n (lo - 1) (map_option (\<lambda>h. h - 1) hi) j) (f i))
         in if lo > 0 then more else if greedy then more @ [i] else i # more))"

fun ends :: "rx \<Rightarrow> jstr \<Rightarrow> nat \<Rightarrow> nat list" where
  "ends Eps s i = [i]"
| "ends (Ch P) s i = (if i < length s \<and> P (s ! i) then [Suc i] else [])"
| "ends (Sq r1 r2) s i = concat (map (ends r2 s) (ends r1 s i))"
| "ends (Or r1 r2) s i = ends r1 s i @ ends r2 s i"
| "ends (Rep r lo hi) s i = rep_ends True (ends r s) (Suc (lo + (length s - i))) lo hi i"
| "ends (Lazy r lo hi) s i = rep_ends False (ends r s) (Suc (lo + (length s - i))) lo hi i"
| "ends (Ahead pos r) s i = (if (ends r s i \<noteq> []) = pos then [i] else [])"
| "ends (NotBehind P) s i = (if i > 0 \<and> i \<le> length s \<and> P (s ! (i - 1)) then [] else [i])"
| "ends WordB s i = (if (i > 0 \<and> word_at s (i - 1)) \<noteq> word_at s i then [i] else [])"
| "ends Bol s i = (if i = 0 then [i] else [])"
| "ends Eol s i = (if i = length s then [i] else [])"

lemma rep_ends_SucD:
  assumes "j \<in> set (rep_ends g f (Suc n) lo hi i)"
  shows "j = i \<or> (\<exists>k \<in> set (f i). j \<in> set (rep_ends g f n (lo - 1) (map_option (\<lambda>h. h - 1) hi) k))"
proof (cases "hi = Some 0")
  case False
  define more where "more = concat (map (\<lambda>j. if lo = 0 \<and> j = i then []
      else rep_ends g f n (lo - 1) (map_option (\<lambda>h. h - 1) hi) j) (f i))"
  have "rep_ends g f (Suc n) lo hi i = (if lo > 0 then more else if g then more @ [i] else i # more)"
    using False by (simp only: rep_ends.simps Let_def if_False more_def)
  with assms have "j = i \<or> j \<in> set more"
    by (auto simp del: rep_ends.simps split: if_splits)
  then show ?thesis
  proof
    assume "j \<in> set more"
    then obtain k where k: "k \<in> set (f i)" and j: "j \<in> set (if lo = 0 \<and> k = i then []
      else rep_ends g f n (lo - 1) (map_option (\<lambda>h. h - 1) hi) k)"
      unfolding more_def set_concat set_map by blast
    from j have "j \<in> set (rep_ends g f n (lo - 1) (map_option (\<lambda>h. h - 1) hi) k)"
      by (simp del: rep_ends.simps split: if_split_asm)
    with k show ?thesis by (intro disjI2 bexI)
  qed (rule disjI1)
qed (use assms in simp)

lemma rep_ends_bounds:
  assumes f: "\<And>i j. i \<le> L \<Longrightarrow> j \<in> set (f i) \<Longrightarrow> i \<le> j \<and> j \<le> L"
  shows "i \<le> L \<Longrightarrow> j \<in> set (rep_ends g f n lo hi i) \<Longrightarrow> i \<le> j \<and> j \<le> L"
proof (induction n arbitrary: lo hi i)
  case (Suc n)
  from rep_ends_SucD [OF Suc.prems(2)] show ?case
  proof (elim disjE bexE)
    fix k assume k: "k \<in> set (f i)"
      and j: "j \<in> set (rep_ends g f n (lo - 1) (map_option (\<lambda>h. h - 1) hi) k)"
    from f [OF Suc.prems(1) k] have k: "i \<le> k" "k \<le> L" by simp_all
    from Suc.IH [OF k(2) j] k show ?thesis by linarith
  qed (use Suc.prems(1) in simp)
qed simp

lemma ends_bounds: "i \<le> length s \<Longrightarrow> j \<in> set (ends r s i) \<Longrightarrow> i \<le> j \<and> j \<le> length s"
proof (induction r arbitrary: i j)
  case (Sq r1 r2)
  from Sq.prems obtain k where k: "k \<in> set (ends r1 s i)" and j: "j \<in> set (ends r2 s k)" by auto
  from Sq.IH(1) [OF Sq.prems(1) k] Sq.IH(2) [OF _ j] show ?case by auto
next
  case (Or r1 r2)
  from Or.prems(2) have "j \<in> set (ends r1 s i) \<or> j \<in> set (ends r2 s i)" by simp
  with Or.IH [OF Or.prems(1)] show ?case by blast
next
  case (Rep r lo hi)
  show ?case
    by (rule rep_ends_bounds [OF Rep.IH Rep.prems(1) Rep.prems(2) [unfolded ends.simps]])
next
  case (Lazy r lo hi)
  show ?case
    by (rule rep_ends_bounds [OF Lazy.IH Lazy.prems(1) Lazy.prems(2) [unfolded ends.simps]])
next
  case (Ahead pos r)
  from Ahead.prems have "j = i" by (simp split: if_split_asm)
  with Ahead.prems(1) show ?case by simp
qed (auto split: if_splits)

text \<open>The fuel of \<open>ends\<close> is enough: any larger fuel gives the same list.\<close>

lemma rep_ends_enough:
  assumes f: "\<And>i j. i \<le> L \<Longrightarrow> j \<in> set (f i) \<Longrightarrow> i \<le> j \<and> j \<le> L"
  shows "i \<le> L \<Longrightarrow> lo + (L - i) < n \<Longrightarrow> lo + (L - i) < m \<Longrightarrow>
    rep_ends g f n lo hi i = rep_ends g f m lo hi i"
proof (induction n arbitrary: lo hi i m)
  case (Suc n)
  from Suc.prems obtain m' where m: "m = Suc m'" by (cases m) auto
  have step: "(if lo = 0 \<and> j = i then [] else rep_ends g f n (lo - 1) hi' j) =
      (if lo = 0 \<and> j = i then [] else rep_ends g f m' (lo - 1) hi' j)"
    if "j \<in> set (f i)" for j hi'
  proof (cases "lo = 0 \<and> j = i")
    case False
    from f [OF Suc.prems(1) that] have j: "i \<le> j" "j \<le> L" by simp_all
    with False Suc.prems m have "lo - 1 + (L - j) < n" "lo - 1 + (L - j) < m'" by linarith+
    from Suc.IH [OF j(2) this] show ?thesis by simp
  qed simp
  have "map (\<lambda>j. if lo = 0 \<and> j = i then [] else rep_ends g f n (lo - 1) hi' j) (f i) =
     map (\<lambda>j. if lo = 0 \<and> j = i then [] else rep_ends g f m' (lo - 1) hi' j) (f i)" for hi'
    by (rule map_cong) (simp_all only: step)
  then show ?case by (simp only: m rep_ends.simps Let_def)
qed simp

text \<open>The equation of the specification's RepeatMatcher, with no fuel in it.\<close>

lemma ends_Rep:
  assumes "i \<le> length s"
  shows "ends (Rep r lo hi) s i =
     (if hi = Some 0 then [i]
      else (let more = concat (map (\<lambda>j. if lo = 0 \<and> j = i then []
                    else ends (Rep r (lo - 1) (map_option (\<lambda>h. h - 1) hi)) s j) (ends r s i))
            in if lo > 0 then more else more @ [i]))"
proof -
  have step: "(if lo = 0 \<and> j = i then [] else rep_ends True (ends r s) (lo + (length s - i)) (lo - 1) h j) =
      (if lo = 0 \<and> j = i then [] else ends (Rep r (lo - 1) h) s j)"
    if "j \<in> set (ends r s i)" for j h
  proof (cases "lo = 0 \<and> j = i")
    case False
    from ends_bounds [OF assms that] have b: "i \<le> j" "j \<le> length s" by auto
    with False have lt: "lo - 1 + (length s - j) < lo + (length s - i)" by linarith
    have "rep_ends True (ends r s) (lo + (length s - i)) (lo - 1) h j =
        rep_ends True (ends r s) (Suc (lo - 1 + (length s - j))) (lo - 1) h j"
      by (rule rep_ends_enough [OF ends_bounds b(2) lt lessI])
    then show ?thesis by (simp only: ends.simps)
  qed simp
  have "map (\<lambda>j. if lo = 0 \<and> j = i then [] else rep_ends True (ends r s) (lo + (length s - i)) (lo - 1) h j) (ends r s i) =
     map (\<lambda>j. if lo = 0 \<and> j = i then [] else ends (Rep r (lo - 1) h) s j) (ends r s i)" for h
    by (rule map_cong) (simp_all only: step)
  then show ?thesis
    by (simp only: ends.simps(5) [where r = r and lo = lo and hi = hi] rep_ends.simps Let_def if_True)
qed

text \<open>A quantified character class matches exactly the runs of the class within the bounds.\<close>

definition run_of :: "(nat \<Rightarrow> bool) \<Rightarrow> jstr \<Rightarrow> nat \<Rightarrow> nat \<Rightarrow> bool" where
  "run_of P s i j \<longleftrightarrow> i \<le> j \<and> j \<le> length s \<and> (\<forall>k. i \<le> k \<and> k < j \<longrightarrow> P (s ! k))"

lemma run_of_refl [simp]: "run_of P s i i \<longleftrightarrow> i \<le> length s"
  by (auto simp: run_of_def)

lemma run_of_Suc:
  assumes "i < j"
  shows "run_of P s i j \<longleftrightarrow> i < length s \<and> P (s ! i) \<and> run_of P s (Suc i) j"
proof -
  have "(\<forall>k. i \<le> k \<and> k < j \<longrightarrow> P (s ! k)) \<longleftrightarrow> P (s ! i) \<and> (\<forall>k. Suc i \<le> k \<and> k < j \<longrightarrow> P (s ! k))"
    using assms by (metis Suc_leD Suc_leI le_neq_implies_less order_refl)
  then show ?thesis using assms by (auto simp: run_of_def)
qed

lemma set_rep_ends_Ch:
  "i \<le> length s \<Longrightarrow> lo + (length s - i) < n \<Longrightarrow> (\<forall>h. hi = Some h \<longrightarrow> lo \<le> h) \<Longrightarrow>
     j \<in> set (rep_ends g (ends (Ch P) s) n lo hi i) \<longleftrightarrow>
     run_of P s i j \<and> i + lo \<le> j \<and> (\<forall>h. hi = Some h \<longrightarrow> j \<le> i + h)"
proof (induction n arbitrary: lo hi i)
  case (Suc n)
  show ?case
  proof (cases "hi = Some 0")
    case True
    with Suc.prems have "lo = 0" by simp
    with True Suc.prems(1) show ?thesis
      by (auto simp: run_of_def)
  next
    case False
    let ?hi = "map_option (\<lambda>h. h - 1) hi"
    have here: "j \<in> set (rep_ends g (ends (Ch P) s) (Suc n) lo hi i) \<longleftrightarrow>
        (lo = 0 \<and> j = i) \<or>
        (i < length s \<and> P (s ! i) \<and> j \<in> set (rep_ends g (ends (Ch P) s) n (lo - 1) ?hi (Suc i)))"
      using False by (auto simp: Let_def)
    have IH: "j \<in> set (rep_ends g (ends (Ch P) s) n (lo - 1) ?hi (Suc i)) \<longleftrightarrow>
        run_of P s (Suc i) j \<and> Suc i + (lo - 1) \<le> j \<and> (\<forall>h. ?hi = Some h \<longrightarrow> j \<le> Suc i + h)"
      if "i < length s"
    proof (rule Suc.IH)
      show "\<forall>h. ?hi = Some h \<longrightarrow> lo - 1 \<le> h" using Suc.prems(3) by (cases hi) auto
    qed (use that Suc.prems in linarith)+
    have hi: "(\<forall>h. ?hi = Some h \<longrightarrow> j \<le> Suc i + h) \<longleftrightarrow> (\<forall>h. hi = Some h \<longrightarrow> j \<le> i + h)"
      using False by (cases hi) auto
    have eq: "j \<in> set (rep_ends g (ends (Ch P) s) (Suc n) lo hi i) \<longleftrightarrow>
        (lo = 0 \<and> j = i) \<or> (i < length s \<and> P (s ! i) \<and> run_of P s (Suc i) j \<and>
          Suc i + (lo - 1) \<le> j \<and> (\<forall>h. hi = Some h \<longrightarrow> j \<le> i + h))"
      using here IH hi by blast
    consider "j < i" | "j = i" | "i < j" by linarith
    then show ?thesis
    proof cases
      case 1
      then show ?thesis unfolding eq by (auto simp: run_of_def)
    next
      case 2
      with Suc.prems(1) show ?thesis unfolding eq by (auto simp: run_of_def)
    next
      case 3
      then have "Suc i + (lo - 1) \<le> j \<longleftrightarrow> i + lo \<le> j" by auto
      with 3 show ?thesis unfolding eq by (auto simp: run_of_Suc [OF 3])
    qed
  qed
qed simp

lemma set_ends_Rep_Ch:
  assumes "i \<le> length s" and "\<forall>h. hi = Some h \<longrightarrow> lo \<le> h"
  shows "j \<in> set (ends (Rep (Ch P) lo hi) s i) \<longleftrightarrow>
     run_of P s i j \<and> i + lo \<le> j \<and> (\<forall>h. hi = Some h \<longrightarrow> j \<le> i + h)"
  by (simp only: ends.simps(5)) (rule set_rep_ends_Ch [OF assms(1) lessI assms(2)])

lemma set_ends_Lazy_Ch:
  assumes "i \<le> length s" and "\<forall>h. hi = Some h \<longrightarrow> lo \<le> h"
  shows "j \<in> set (ends (Lazy (Ch P) lo hi) s i) \<longleftrightarrow>
     run_of P s i j \<and> i + lo \<le> j \<and> (\<forall>h. hi = Some h \<longrightarrow> j \<le> i + h)"
  by (simp only: ends.simps(6)) (rule set_rep_ends_Ch [OF assms(1) lessI assms(2)])

lemma ends_SqI: "k \<in> set (ends r1 s i) \<Longrightarrow> j \<in> set (ends r2 s k) \<Longrightarrow> j \<in> set (ends (Sq r1 r2) s i)"
  by auto

subsection \<open>Searching, \<open>matchAll\<close>, \<open>split\<close> and \<open>replace\<close>\<close>

definition match_at :: "rx \<Rightarrow> jstr \<Rightarrow> nat \<Rightarrow> nat option" where
  "match_at r s i = (case ends r s i of [] \<Rightarrow> None | e # es \<Rightarrow> Some e)"

lemma match_at_bounds: "i \<le> length s \<Longrightarrow> match_at r s i = Some e \<Longrightarrow> i \<le> e \<and> e \<le> length s"
  by (rule ends_bounds [of i s e r]) (auto simp: match_at_def split: list.splits)

lemma match_at_None: "match_at r s i = None \<longleftrightarrow> ends r s i = []"
  by (simp add: match_at_def split: list.splits)

text \<open>\<open>r.exec(s)\<close> with \<open>lastIndex = i\<close>: the first position that matches, and its end.\<close>

function search :: "rx \<Rightarrow> jstr \<Rightarrow> nat \<Rightarrow> (nat \<times> nat) option" where
  "search r s i =
     (if i \<le> length s
      then (case match_at r s i of Some e \<Rightarrow> Some (i, e) | None \<Rightarrow> search r s (Suc i))
      else None)"
  by pat_completeness auto
termination
  by (relation "measure (\<lambda>(r, s, i). Suc (length s) - i)") auto

declare search.simps [simp del]

lemma search_Some:
  "search r s i = Some (p, e) \<Longrightarrow> i \<le> p \<and> p \<le> e \<and> e \<le> length s \<and> match_at r s p = Some e"
proof (induction r s i rule: search.induct)
  case (1 r s i)
  show ?case
  proof (cases "match_at r s i")
    case None
    with "1.prems" have "i \<le> length s" "search r s (Suc i) = Some (p, e)"
      by (simp_all add: search.simps [of r s i] split: if_split_asm)
    from "1.IH" [OF this(1) None this(2)] show ?thesis by simp
  next
    case (Some e')
    with "1.prems" have "i \<le> length s" "p = i" "e = e'"
      by (simp_all add: search.simps [of r s i] split: if_split_asm)
    with Some match_at_bounds [OF \<open>i \<le> length s\<close> Some] show ?thesis by simp
  qed
qed

lemma search_None:
  "search r s i = None \<longleftrightarrow> (\<forall>k. i \<le> k \<and> k \<le> length s \<longrightarrow> ends r s k = [])"
proof (induction r s i rule: search.induct)
  case (1 r s i)
  show ?case
  proof (cases "i \<le> length s \<and> match_at r s i = None")
    case True
    with "1.IH" have "search r s i = None \<longleftrightarrow> (\<forall>k. Suc i \<le> k \<and> k \<le> length s \<longrightarrow> ends r s k = [])"
      by (simp add: search.simps [of r s i])
    also have "\<dots> \<longleftrightarrow> (\<forall>k. i \<le> k \<and> k \<le> length s \<longrightarrow> ends r s k = [])"
      using True match_at_None by (metis Suc_leD le_SucE not_less_eq_eq le_antisym)
    finally show ?thesis .
  next
    case False
    show ?thesis
    proof (cases "i \<le> length s")
      case True
      with False obtain e where "match_at r s i = Some e" by auto
      with True have "search r s i = Some (i, e)" by (simp add: search.simps [of r s i])
      moreover have "ends r s i \<noteq> []" using \<open>match_at r s i = Some e\<close> by (auto simp: match_at_def)
      ultimately show ?thesis using True by auto
    next
      case False
      then show ?thesis by (auto simp: search.simps [of r s i])
    qed
  qed
qed

definition rx_test :: "rx \<Rightarrow> jstr \<Rightarrow> bool" where
  "rx_test r s \<longleftrightarrow> search r s 0 \<noteq> None"

text \<open>\<open>s.matchAll(r)\<close> of a global pattern: the spans, each search from the end of the last match.\<close>

function match_all :: "rx \<Rightarrow> jstr \<Rightarrow> nat \<Rightarrow> (nat \<times> nat) list" where
  "match_all r s i =
     (case search r s i of
        None \<Rightarrow> []
      | Some (p, e) \<Rightarrow> (p, e) # match_all r s (if e = p then Suc e else e))"
  by pat_completeness auto
termination
proof (relation "measure (\<lambda>(r, s, i). Suc (length s) - i)")
  fix r s i pe p e
  assume "search r s i = Some pe" and "(p, e) = pe"
  with search_Some have "i \<le> p" "p \<le> e" "e \<le> length s" by blast+
  then show "((r, s, if e = p then Suc e else e), r, s, i) \<in> measure (\<lambda>(r, s, i). Suc (length s) - i)"
    by auto
qed simp

declare match_all.simps [simp del]

lemma match_all_spans:
  "(p, e) \<in> set (match_all r s i) \<Longrightarrow> i \<le> p \<and> p \<le> e \<and> e \<le> length s \<and> match_at r s p = Some e"
proof (induction r s i rule: match_all.induct)
  case (1 r s i)
  show ?case
  proof (cases "search r s i")
    case None
    with "1.prems" show ?thesis by (simp add: match_all.simps [of r s i])
  next
    case (Some pe)
    obtain p' e' where pe: "pe = (p', e')" by (cases pe)
    with Some have b: "i \<le> p'" "p' \<le> e'" "e' \<le> length s" "match_at r s p' = Some e'"
      using search_Some by blast+
    from "1.prems" Some pe
    have "(p, e) = (p', e') \<or> (p, e) \<in> set (match_all r s (if e' = p' then Suc e' else e'))"
      by (simp add: match_all.simps [of r s i])
    then show ?thesis
    proof
      assume "(p, e) \<in> set (match_all r s (if e' = p' then Suc e' else e'))"
      from "1.IH" [OF Some pe [symmetric] this] b show ?thesis by (auto split: if_splits)
    qed (use b in simp)
  qed
qed

text \<open>
  Nothing is missed: where the pattern matches somewhere from \<open>i\<close> on, \<open>matchAll\<close> reports
  a span, and every matching position that no reported span covers is itself reported.
\<close>

lemma match_all_Nil: "match_all r s i = [] \<longleftrightarrow> (\<forall>k. i \<le> k \<and> k \<le> length s \<longrightarrow> ends r s k = [])"
  by (subst match_all.simps) (auto simp flip: search_None split: option.splits)

lemma match_all_covers:
  "i \<le> k \<Longrightarrow> k \<le> length s \<Longrightarrow> ends r s k \<noteq> [] \<Longrightarrow>
     \<exists>(p, e) \<in> set (match_all r s i). p = k \<or> (p < k \<and> k < e)"
proof (induction r s i rule: match_all.induct)
  case (1 r s i)
  from "1.prems" have "search r s i \<noteq> None" using search_None by blast
  then obtain p e where pe: "search r s i = Some (p, e)" by auto
  then have b: "i \<le> p" "p \<le> e" "e \<le> length s" using search_Some by blast+
  have le: "p \<le> k"
  proof (rule ccontr)
    assume "\<not> p \<le> k"
    then have "k < p" by simp
    have "search r s j \<noteq> Some (p, e)" if "j \<le> k" for j
      using that
    proof (induction "k - j" arbitrary: j)
      case 0
      then have "j = k" by simp
      with "1.prems" obtain e' where "match_at r s k = Some e'"
        using match_at_None by (metis option.exhaust)
      with "1.prems" have "search r s k = Some (k, e')" by (simp add: search.simps [of r s k])
      with \<open>j = k\<close> \<open>k < p\<close> show ?case by simp
    next
      case (Suc d)
      then have "search r s (Suc j) \<noteq> Some (p, e)" by simp
      with Suc.prems \<open>k < p\<close> show ?case
        by (simp add: search.simps [of r s j] split: option.splits)
    qed
    with pe "1.prems"(1) show False by blast
  qed
  let ?n = "if e = p then Suc e else e"
  have mem: "match_all r s i = (p, e) # match_all r s ?n"
    using pe by (simp add: match_all.simps [of r s i])
  show ?case
  proof (cases "p = k \<or> (p < k \<and> k < e)")
    case True
    then show ?thesis unfolding mem by auto
  next
    case False
    with le b have "?n \<le> k" by auto
    from "1.IH" [OF pe refl this "1.prems"(2,3)] show ?thesis unfolding mem by auto
  qed
qed

lemma match_all_nonempty:
  "k \<le> length s \<Longrightarrow> ends r s k \<noteq> [] \<Longrightarrow> match_all r s 0 \<noteq> []"
  unfolding match_all_Nil by blast

text \<open>\<open>s.replace(r, rep)\<close> with a global pattern and a replacement without \<open>$\<close>.\<close>

fun replace_spans :: "jstr \<Rightarrow> jstr \<Rightarrow> nat \<Rightarrow> (nat \<times> nat) list \<Rightarrow> jstr" where
  "replace_spans s rep i [] = drop i s"
| "replace_spans s rep i ((p, e) # ms) = slice s i p @ rep @ replace_spans s rep e ms"

definition rx_replace :: "rx \<Rightarrow> jstr \<Rightarrow> jstr \<Rightarrow> jstr" where
  "rx_replace r s rep = replace_spans s rep 0 (match_all r s 0)"

text \<open>\<open>s.split(r)\<close>: \<open>p\<close> is the start of the current piece, \<open>q\<close> the position tried next.\<close>

function split_from :: "rx \<Rightarrow> jstr \<Rightarrow> nat \<Rightarrow> nat \<Rightarrow> jstr list" where
  "split_from r s p q =
     (if q < length s
      then (case match_at r s q of
              None \<Rightarrow> split_from r s p (Suc q)
            | Some e \<Rightarrow> if e = p then split_from r s p (Suc q)
                        else slice s p q # split_from r s e e)
      else [drop p s])"
  by pat_completeness auto
termination
proof (relation "measure (\<lambda>(r, s, p, q). 2 * (length s - q) + (if p = q then 0 else 1))")
  fix r s p q e
  assume q: "q < length s" and e: "match_at r s q = Some e" and ne: "e \<noteq> p"
  from match_at_bounds [OF less_imp_le [OF q] e] q ne show "((r, s, e, e), r, s, p, q)
      \<in> measure (\<lambda>(r, s, p, q). 2 * (length s - q) + (if p = q then 0 else 1))"
    by auto
qed auto

declare split_from.simps [simp del]

definition rx_split :: "rx \<Rightarrow> jstr \<Rightarrow> jstr list" where
  "rx_split r s = (if s = [] then (if match_at r s 0 \<noteq> None then [] else [s]) else split_from r s 0 0)"

text \<open>The pattern of a literal string, and of a character set.\<close>

fun rx_str :: "jstr \<Rightarrow> rx" where
  "rx_str [] = Eps"
| "rx_str [c] = Ch (\<lambda>x. x = c)"
| "rx_str (c # d # cs) = Sq (Ch (\<lambda>x. x = c)) (rx_str (d # cs))"

lemma ends_rx_str: "i \<le> length s \<Longrightarrow>
    ends (rx_str t) s i = (if take (length t) (drop i s) = t then [i + length t] else [])"
proof (induction t arbitrary: i rule: rx_str.induct)
  case (2 c)
  show ?case
  proof (cases "i < length s")
    case True
    then have "drop i s = s ! i # drop (Suc i) s" by (simp add: Cons_nth_drop_Suc)
    with True show ?thesis by simp
  next
    case False
    with "2.prems" show ?thesis by simp
  qed
next
  case (3 c d cs)
  show ?case
  proof (cases "i < length s")
    case True
    then have d: "drop i s = s ! i # drop (Suc i) s" by (simp add: Cons_nth_drop_Suc)
    from True have "Suc i \<le> length s" by simp
    from "3.IH" [OF this] True d show ?thesis by simp
  next
    case False
    with "3.prems" show ?thesis by simp
  qed
qed simp

abbreviation rx_many :: "(nat \<Rightarrow> bool) \<Rightarrow> nat \<Rightarrow> rx" where
  "rx_many P n \<equiv> Rep (Ch P) n None"

abbreviation rx_exact :: "(nat \<Rightarrow> bool) \<Rightarrow> nat \<Rightarrow> rx" where
  "rx_exact P n \<equiv> Rep (Ch P) n (Some n)"

definition rx_newline :: rx where
  \<comment> \<open>\<open>/\r?\n/\<close>\<close>
  "rx_newline = Sq (Rep (Ch (\<lambda>c. c = 13)) 0 (Some 1)) (Ch (\<lambda>c. c = 10))"

definition split_lines :: "jstr \<Rightarrow> jstr list" where
  "split_lines s = rx_split rx_newline s"

lemma split_from_none:
  "(\<And>k. q \<le> k \<Longrightarrow> k < length s \<Longrightarrow> match_at r s k = None) \<Longrightarrow> split_from r s p q = [drop p s]"
proof (induction r s p q rule: split_from.induct)
  case (1 r s p q)
  show ?case
  proof (cases "q < length s")
    case True
    with "1.prems" have n: "match_at r s q = None" by simp
    with True "1.IH"(1) [OF True n] "1.prems" show ?thesis by (simp add: split_from.simps [of r s p q])
  qed (simp add: split_from.simps [of r s p q])
qed

lemma ends_newline: "10 \<notin> set s \<Longrightarrow> ends rx_newline s k = []"
proof -
  assume "10 \<notin> set s"
  then have "k' < length s \<Longrightarrow> s ! k' \<noteq> 10" for k' by (metis nth_mem)
  then show ?thesis by (auto simp: rx_newline_def)
qed

lemma split_lines_free: "10 \<notin> set s \<Longrightarrow> split_lines s = [s]"
  by (simp add: split_lines_def rx_split_def split_from_none match_at_def ends_newline)

text \<open>Lower case of the ASCII letters, and the line terminators that \<open>.\<close> does not match.\<close>

definition ascii_lower :: "jstr \<Rightarrow> jstr" where
  "ascii_lower s = map (\<lambda>c. if is_upper c then c + 32 else c) s"

definition line_end :: "nat \<Rightarrow> bool" where
  "line_end c \<longleftrightarrow> c = 10 \<or> c = 13 \<or> c = 8232 \<or> c = 8233"

text \<open>The anchors of a pattern with the flag \<open>m\<close>.\<close>

definition bol_m :: rx where "bol_m = NotBehind (\<lambda>c. \<not> line_end c)"
definition eol_m :: rx where "eol_m = Ahead False (Ch (\<lambda>c. \<not> line_end c))"

text \<open>A text without carriage returns is split at its line feeds.\<close>

lemma match_newline:
  assumes "13 \<notin> set s" and "k \<le> length s"
  shows "match_at rx_newline s k = (if k < length s \<and> s ! k = 10 then Some (Suc k) else None)"
proof -
  have "k' < length s \<Longrightarrow> s ! k' \<noteq> 13" for k' using assms(1) by (metis nth_mem)
  then have "ends rx_newline s k = (if k < length s \<and> s ! k = 10 then [Suc k] else [])"
    by (auto simp: rx_newline_def)
  then show ?thesis by (simp add: match_at_def)
qed

lemma split_from_lines:
  "13 \<notin> set s \<Longrightarrow> p \<le> q \<Longrightarrow> q \<le> length s \<Longrightarrow> 10 \<notin> set (slice s p q) \<Longrightarrow>
     split_from rx_newline s p q = split_on 10 (drop p s)"
proof (induction "rx_newline" s p q rule: split_from.induct)
  case (1 s p q)
  note cr = 1(4) and le = 1(5) and len = 1(6) and free = 1(7)
  have step: "slice s p (Suc q) = slice s p q @ [s ! q]" if "q < length s"
    using that le by (simp add: slice_def take_Suc_conv_app_nth Suc_diff_le)
  have here: "drop p s = slice s p q @ drop q s"
    using le len by (metis append_take_drop_id drop_drop le_add_diff_inverse2 slice_def)
  show ?case
  proof (cases "q < length s")
    case False
    then have "drop p s = slice s p q" using here by simp
    then have "10 \<notin> set (drop p s)" using free by simp
    with False show ?thesis by (simp add: split_from.simps [of _ s p q] split_on_free)
  next
    case True
    show ?thesis
    proof (cases "s ! q = 10")
      case nl: True
      then have m: "match_at rx_newline s q = Some (Suc q)" using True match_newline [OF cr] by simp
      have "split_from rx_newline s (Suc q) (Suc q) = split_on 10 (drop (Suc q) s)"
        by (rule 1(3) [OF True m]) (use cr le True in \<open>auto simp: slice_def\<close>)
      moreover have "drop p s = slice s p q @ 10 # drop (Suc q) s"
        using here True nl by (simp add: Cons_nth_drop_Suc [symmetric])
      ultimately show ?thesis
        using True m le free by (simp add: split_from.simps [of _ s p q] split_on_append_sep)
    next
      case nl: False
      then have m: "match_at rx_newline s q = None" using match_newline [OF cr] True by simp
      have "10 \<notin> set (slice s p (Suc q))" using step [OF True] free nl by simp
      then show ?thesis
        using True m 1(1) [OF True m cr] le by (simp add: split_from.simps [of _ s p q])
    qed
  qed
qed

lemma split_lines_on: "13 \<notin> set s \<Longrightarrow> split_lines s = split_on 10 s"
  by (cases "s = []") (simp_all add: split_lines_free split_lines_def rx_split_def split_from_lines [of s 0 0, simplified] slice_def
      match_newline)

end
