(* ===== verification/Remote.thy ===== *)
theory Remote
  imports Url Regex
begin

text \<open>
  What the sync and publish paths know about a remote: the anonymous probe URL and the verdict of
  the probe (\<open>packages/core/src/remoteVisibility.ts\<close>), the codes of \<open>syncErrors.ts\<close>, and the
  checks of a named GitHub account (\<open>githubCredential.ts\<close>). The HTTP request itself is an answer
  of the world (\<open>http_reply\<close>).
\<close>

text \<open>A literal under the \<open>i\<close> flag.\<close>

fun rx_istr :: "jstr \<Rightarrow> rx" where
  "rx_istr [] = Eps"
| "rx_istr (c # s) = Sq (Ch (\<lambda>x. ascii_lower [x] = ascii_lower [c])) (rx_istr s)"

subsection \<open>The anonymous probe\<close>

datatype remote_access = Anonymous_readable | Denied nat | Indeterminate jstr

text \<open>
  \<open>/^(?:[^@\\/\\s]+@)?([^:\\/\\s]+):(.+)$/\<close>: host and path of an scp-like address. A run of the class
  ends where the next required character is, so there is one way to match each form.
\<close>

definition scp_tail :: "jstr \<Rightarrow> (jstr \<times> jstr) option" where
  "scp_tail s =
     (let host = takeWhile (\<lambda>c. c \<noteq> 58 \<and> c \<noteq> 47 \<and> \<not> is_space c) s; t = drop (length host) s in
      case t of
        [] \<Rightarrow> None
      | c # path \<Rightarrow>
          (if host \<noteq> [] \<and> c = 58 \<and> path \<noteq> [] \<and> list_all (\<lambda>x. \<not> line_end x) path then Some (host, path) else None))"

definition scp_parse :: "jstr \<Rightarrow> (jstr \<times> jstr) option" where
  "scp_parse s =
     (let user = takeWhile (\<lambda>c. c \<noteq> 64 \<and> c \<noteq> 47 \<and> \<not> is_space c) s; t = drop (length user) s in
      case (if user \<noteq> [] \<and> t \<noteq> [] \<and> hd t = 64 then scp_tail (tl t) else None) of
        Some r \<Rightarrow> Some r
      | None \<Rightarrow> scp_tail s)"

definition derive_anonymous_probe_url :: "platform \<Rightarrow> jstr \<Rightarrow> jstr option" where
  "derive_anonymous_probe_url pf remoteUrl =
     (case url_parse pf remoteUrl of
        None \<Rightarrow>
          (case scp_parse remoteUrl of
             None \<Rightarrow> None
           | Some (host, path) \<Rightarrow>
               map_option url_text (url_parse pf (lit ''https://'' @ host @ [47] @ path)))
      | Some u \<Rightarrow>
          (if u_protocol u \<noteq> lit ''https:'' \<and> u_protocol u \<noteq> lit ''ssh:'' then None
           else Some (lit ''https://'' @ u_host u @ u_pathname u @ u_search u @ u_hash u)))"

definition ensure_trailing_slash :: "jstr \<Rightarrow> jstr" where
  "ensure_trailing_slash u = (if ends_with [47] u then u else u @ [47])"

record http_reply =
  http_status :: nat
  http_content_type :: "jstr option"

text \<open>The verdict from the reply, None when the request failed.\<close>

definition probe_verdict :: "http_reply option \<Rightarrow> remote_access" where
  "probe_verdict reply =
     (case reply of
        None \<Rightarrow> Indeterminate (lit ''anonymous read probe request failed'')
      | Some r \<Rightarrow>
          (if http_status r = 401 \<or> http_status r = 404 then Denied (http_status r)
           else if \<not> (200 \<le> http_status r \<and> http_status r \<le> 299)
           then Indeterminate (lit ''unexpected HTTP status '' @ nat_str (http_status r))
           else if map_option (\<lambda>t. ascii_lower (trim (hd (split_on 59 t)))) (http_content_type r) \<noteq>
                Some (lit ''application/x-git-upload-pack-advertisement'')
           then Indeterminate (lit ''missing Git smart-HTTP advertisement content type'')
           else Anonymous_readable))"

text \<open>\<open>probeAnonymousRead\<close> with the request as a function from the endpoint's base to its reply.\<close>

definition probe_anonymous_read :: "(jstr \<Rightarrow> http_reply option) \<Rightarrow> jstr option \<Rightarrow> remote_access" where
  "probe_anonymous_read request probeUrl =
     (case probeUrl of
        None \<Rightarrow> Indeterminate (lit ''remote URL cannot be probed anonymously'')
      | Some [] \<Rightarrow> Indeterminate (lit ''remote URL cannot be probed anonymously'')
      | Some u \<Rightarrow> probe_verdict (request (ensure_trailing_slash u)))"

subsection \<open>Errors\<close>

datatype sync_code =
    CAVEAT_GIT_ENV_UNSAFE | NOT_A_REPO | EXTERNAL_TOPLEVEL | DETACHED_HEAD | NO_REMOTE | REMOTE_PUBLIC
  | REMOTE_VISIBILITY_INDETERMINATE | SYNC_CONFLICT | REBASE_IN_PROGRESS | OWN_REPO_EXISTS
  | BOTH_HAVE_ENTRIES | WORKTREE_DIRTY | SYNC_BUSY | CAVEAT_GITHUB_CONFIG_UNSUPPORTED
  | CAVEAT_GITHUB_USER_INVALID | CAVEAT_GITHUB_USER_UNAVAILABLE | CAVEAT_GITHUB_USERNAME_MISMATCH
  | CAVEAT_GITHUB_TARGET_UNSUPPORTED | CAVEAT_GITHUB_CREDENTIAL_UNAVAILABLE
  | CAVEAT_GITHUB_CLI_UNAVAILABLE | CAVEAT_GITHUB_CLI_UNSUPPORTED | CAVEAT_GITHUB_CREDENTIAL_EXPIRED

datatype sync_phase = Inspect | Pull | Push | Fetch

text \<open>\<open>SyncError\<close>, \<open>SyncRemoteError\<close>, \<open>SyncRecoveryError\<close> and any other error with its message.\<close>

datatype sync_error = Sync_code sync_code | Remote_error sync_phase | Recovery_error | Other_error jstr

definition account_codes :: "(sync_code \<times> jstr) list" where
  "account_codes =
     [(CAVEAT_GITHUB_CONFIG_UNSUPPORTED, lit ''CAVEAT_GITHUB_CONFIG_UNSUPPORTED''),
      (CAVEAT_GITHUB_USER_INVALID, lit ''CAVEAT_GITHUB_USER_INVALID''),
      (CAVEAT_GITHUB_USER_UNAVAILABLE, lit ''CAVEAT_GITHUB_USER_UNAVAILABLE''),
      (CAVEAT_GITHUB_USERNAME_MISMATCH, lit ''CAVEAT_GITHUB_USERNAME_MISMATCH''),
      (CAVEAT_GITHUB_TARGET_UNSUPPORTED, lit ''CAVEAT_GITHUB_TARGET_UNSUPPORTED''),
      (CAVEAT_GITHUB_CREDENTIAL_UNAVAILABLE, lit ''CAVEAT_GITHUB_CREDENTIAL_UNAVAILABLE''),
      (CAVEAT_GITHUB_CLI_UNAVAILABLE, lit ''CAVEAT_GITHUB_CLI_UNAVAILABLE''),
      (CAVEAT_GITHUB_CLI_UNSUPPORTED, lit ''CAVEAT_GITHUB_CLI_UNSUPPORTED''),
      (CAVEAT_GITHUB_CREDENTIAL_EXPIRED, lit ''CAVEAT_GITHUB_CREDENTIAL_EXPIRED'')]"

subsection \<open>A named GitHub account\<close>

definition github_user_rx :: rx where
  "github_user_rx = Sq Bol (Sq (rx_many is_alnum 1)
     (Sq (Rep (Sq (Ch (\<lambda>c. c = 45)) (rx_many is_alnum 1)) 0 None) Eol))"

definition validate_github_user :: "jstr \<Rightarrow> sync_error + unit" where
  "validate_github_user user =
     ensure (length user \<le> 39 \<and> user = trim user \<and> rx_test github_user_rx user)
       (Sync_code CAVEAT_GITHUB_USER_INVALID)"

definition transport_rx :: rx where
  "transport_rx = Sq (rx_istr (lit ''transport '')) (Sq (rx_many (\<lambda>c. \<not> line_end c) 0) (rx_istr (lit '' not allowed'')))"

definition auth_failed_rx :: rx where
  "auth_failed_rx = Or (rx_istr (lit ''Authentication failed'')) (Or (rx_istr (lit ''Bad credentials''))
     (Or (rx_istr (lit ''HTTP 401'')) (rx_istr (lit ''returned error: 401''))))"

definition github_failure_code :: "jstr \<Rightarrow> jstr option \<Rightarrow> sync_code option" where
  "github_failure_code message user =
     (case find (\<lambda>(c, t). has_sub t message) account_codes of
        Some (c, t) \<Rightarrow> Some c
      | None \<Rightarrow>
          (if user \<noteq> None \<and> rx_test transport_rx message then Some CAVEAT_GITHUB_TARGET_UNSUPPORTED
           else if user \<noteq> None \<and> rx_test auth_failed_rx message then Some CAVEAT_GITHUB_CREDENTIAL_UNAVAILABLE
           else None))"

fun check_github_targets :: "platform \<Rightarrow> jstr list \<Rightarrow> sync_error + unit" where
  "check_github_targets pf [] = Inr ()"
| "check_github_targets pf (v # vs) =
     (case url_parse pf v of
        None \<Rightarrow> Inl (Sync_code CAVEAT_GITHUB_TARGET_UNSUPPORTED)
      | Some u \<Rightarrow>
          (if u_protocol u \<noteq> lit ''https:'' \<or> u_hostname u \<noteq> lit ''github.com'' \<or> u_username u \<noteq> [] \<or> u_password u \<noteq> []
           then Inl (Sync_code CAVEAT_GITHUB_TARGET_UNSUPPORTED) else check_github_targets pf vs))"

definition assert_named_github_targets :: "platform \<Rightarrow> jstr list \<Rightarrow> jstr option \<Rightarrow> sync_error + unit" where
  "assert_named_github_targets pf urls user =
     (case user of
        None \<Rightarrow> Inr ()
      | Some u \<Rightarrow> try_then (validate_github_user u) (\<lambda>_. check_github_targets pf urls))"

end
