(* ===== verification/FileTree.thy ===== *)
theory FileTree
  imports Prelude JsText
begin

text \<open>
  Directory trees as \<open>readdirSync(dir, {withFileTypes: true})\<close> lists them (\<open>Fother\<close>: links,
  sockets and the rest, which are neither directory nor file), and the loop of
  \<open>countMarkdownEntries\<close> in \<open>packages/core/src/sync.ts\<close>, which walks a tree with a stack. The
  loop ends on every tree and counts what the recursive walk counts.
\<close>

datatype fnode = Fdir "(jstr \<times> fnode) list" | Ffile | Fother

type_synonym listing = "(jstr \<times> fnode) list"

text \<open>Directories of a listing, its own included: what the loop's stack still has to visit.\<close>

fun listing_size :: "listing \<Rightarrow> nat" where
  "listing_size [] = 1"
| "listing_size ((name, Fdir sub) # es) = listing_size sub + listing_size es"
| "listing_size ((name, Ffile) # es) = listing_size es"
| "listing_size ((name, Fother) # es) = listing_size es"

lemma listing_size_pos [simp]: "0 < listing_size es"
  by (induction es rule: listing_size.induct) auto

text \<open>One directory: the subdirectories go on the stack, the markdown files are counted.\<close>

fun count_listing :: "listing \<Rightarrow> listing list \<Rightarrow> nat \<Rightarrow> listing list \<times> nat" where
  "count_listing [] st n = (st, n)"
| "count_listing ((name, nd) # es) st n =
     (case nd of
        Fdir sub \<Rightarrow> count_listing es (sub # st) n
      | Ffile \<Rightarrow> count_listing es st (if ends_with (lit ''.md'') name then Suc n else n)
      | Fother \<Rightarrow> count_listing es st n)"

lemma count_listing_size:
  "count_listing es st n = (st', n') \<Longrightarrow>
    Suc (sum_list (map listing_size st')) = sum_list (map listing_size st) + listing_size es"
proof (induction es st n rule: count_listing.induct)
  case (2 name nd es st n)
  then show ?case by (cases nd) (auto split: if_splits)
qed simp

function count_loop :: "listing list \<Rightarrow> nat \<Rightarrow> nat" where
  "count_loop [] n = n"
| "count_loop (d # st) n = (case count_listing d st n of (st', n') \<Rightarrow> count_loop st' n')"
  by pat_completeness auto
termination
proof (relation "measure (\<lambda>(st, n). sum_list (map listing_size st))")
  fix d :: listing and st n st' n'
  assume "(st', n') = count_listing d st n"
  from count_listing_size [OF this [symmetric]]
  show "((st', n'), d # st, n) \<in> measure (\<lambda>(st, n). sum_list (map listing_size st))" by simp
qed simp

definition count_markdown_entries :: "listing option \<Rightarrow> nat" where
  "count_markdown_entries entries = (case entries of None \<Rightarrow> 0 | Some es \<Rightarrow> count_loop [es] 0)"

subsection \<open>The recursive walk\<close>

fun markdown_files :: "listing \<Rightarrow> nat" where
  "markdown_files [] = 0"
| "markdown_files ((name, Fdir sub) # es) = markdown_files sub + markdown_files es"
| "markdown_files ((name, Ffile) # es) = (if ends_with (lit ''.md'') name then 1 else 0) + markdown_files es"
| "markdown_files ((name, Fother) # es) = markdown_files es"

lemma count_listing_files:
  "count_listing es st n = (st', n') \<Longrightarrow>
    n' + sum_list (map markdown_files st') = n + sum_list (map markdown_files st) + markdown_files es"
proof (induction es st n rule: count_listing.induct)
  case (2 name nd es st n)
  then show ?case by (cases nd) (auto split: if_splits)
qed simp

lemma count_loop_files: "count_loop st n = n + sum_list (map markdown_files st)"
proof (induction st n rule: count_loop.induct)
  case (2 d st n)
  obtain st' n' where c: "count_listing d st n = (st', n')" by fastforce
  with 2 [OF c [symmetric]] count_listing_files [OF c] show ?case by simp
qed simp

text \<open>The stack loop counts every markdown file of the tree once, however deep it lies.\<close>

theorem count_entries_is_walk:
  "count_markdown_entries (Some es) = markdown_files es"
  by (simp add: count_markdown_entries_def count_loop_files)

end
