(* ===== verification/Sync.thy ===== *)
theory Sync
  imports Effects Remote FileTree
begin

text \<open>
  Synchronising the private knowledge repository: \<open>packages/core/src/sync.ts\<close>. Git, the probe,
  the file system, the locks and the reindexing are calls of the program (\<open>sync_call\<close>) whose
  answers are not constrained. \<open>sync_own\<close> takes the index lock and the repository lock around
  \<open>sync_own_locked\<close> (preflight, commit, pull with rebase, reindex, push); \<open>init_own_sync\<close>
  attaches a fresh directory to a remote and rolls back on failure. The locks themselves are the
  theory \<open>FileLock\<close>.
\<close>

subsection \<open>Calls and answers\<close>

datatype sync_call =
    Is_dir jstr | Create_git jstr | Check_is_repo | Git "jstr list"
  | Realpath jstr | Realpath_in jstr jstr | Exists_in jstr jstr
  | Probe "jstr option" | Status | Add_all | Commit jstr | Git_pull jstr "jstr list" | Git_push jstr
  | Reindex | Acquire_index | Release_index | Acquire_repo jstr | Release_repo
  | Resolve_dir jstr | Make_dir jstr | Make_subdir jstr jstr | Read_tree jstr jstr
  | Has_file jstr jstr | Read_file jstr jstr | Write_file jstr jstr jstr | Remove_file jstr jstr
  | Git_init | Add_remote jstr | Git_fetch jstr | Checkout "jstr list" | Remove_git_dir jstr

text \<open>
  An answer: the error thrown, if one was, else the standard output, a truth value, the number
  of changed files, the verdict of a probe or a directory tree, whichever the call returns. Errors
  of the git client are \<open>Other_error\<close> with its message; an account error's message is its code.
\<close>

record answer =
  failed :: "sync_error option"
  out :: jstr
  flag :: bool
  files :: nat
  access :: remote_access
  tree :: "listing option"

type_synonym 'a sync_io = "(sync_call, answer, sync_error + 'a) io"

definition ask :: "sync_call \<Rightarrow> answer sync_io" where
  "ask c = Do c (\<lambda>a. Ret (case failed a of Some e \<Rightarrow> Inl e | None \<Rightarrow> Inr a))"

definition lift :: "sync_error + 'a \<Rightarrow> 'a sync_io" where
  "lift x = Ret x"

record sync_opts =
  so_platform :: platform
  so_windows :: bool
  so_lower :: "jstr \<Rightarrow> jstr"
  so_ownDir :: jstr
  so_githubUser :: "jstr option"
  so_trust :: bool
  so_dryRun :: bool
  so_refuse :: bool
  so_heldLock :: bool

record sync_preflight =
  sp_ownDir :: jstr
  sp_branch :: jstr
  sp_pushUrls :: "jstr list"
  sp_probe :: remote_access

record sync_result = sync_preflight +
  sr_committed :: bool
  sr_pulled :: bool
  sr_pushed :: bool
  sr_dryRun :: bool
  sr_changedFiles :: nat

fun error_text :: "sync_error \<Rightarrow> jstr" where
  "error_text (Other_error m) = m"
| "error_text (Sync_code c) = (case map_of account_codes c of Some t \<Rightarrow> t | None \<Rightarrow> [])"
| "error_text _ = []"

definition remote_failure :: "sync_phase \<Rightarrow> jstr option \<Rightarrow> sync_error \<Rightarrow> sync_error" where
  "remote_failure phase user cause =
     (case github_failure_code (error_text cause) user of Some c \<Rightarrow> Sync_code c | None \<Rightarrow> Remote_error phase)"

definition remote_operation :: "sync_phase \<Rightarrow> 'a sync_io \<Rightarrow> jstr option \<Rightarrow> 'a sync_io" where
  "remote_operation phase m user = catch m (\<lambda>cause. throw (remote_failure phase user cause))"

text \<open>A \<open>finally\<close> block that may throw; its error replaces the outcome.\<close>

definition finallyE :: "'a sync_io \<Rightarrow> unit sync_io \<Rightarrow> 'a sync_io" where
  "finallyE m c = bind m (\<lambda>x. bind c (\<lambda>y. Ret (case y of Inl e \<Rightarrow> Inl e | Inr _ \<Rightarrow> x)))"

subsection \<open>Preflight\<close>

definition git_path :: "string \<Rightarrow> sync_call" where
  "git_path name = Git [lit ''rev-parse'', lit ''--git-path'', lit name]"

definition active_rebase :: "jstr \<Rightarrow> bool sync_io" where
  "active_rebase ownDir =
     for_each [''rebase-merge'', ''rebase-apply''] False (\<lambda>name found.
       if found then retE True
       else seqE (ask (git_path name)) (\<lambda>p.
            seqE (ask (Exists_in ownDir (trim (out p)))) (\<lambda>e. retE (flag e))))"

definition normalize_path :: "sync_opts \<Rightarrow> jstr \<Rightarrow> jstr" where
  "normalize_path opts p =
     (let q = map (\<lambda>c. if c = 92 then 47 else c) p in if so_windows opts then so_lower opts q else q)"

definition push_urls_call :: sync_call where
  "push_urls_call = Git [lit ''remote'', lit ''get-url'', lit ''--push'', lit ''--all'', lit ''origin'']"

definition push_urls_of :: "jstr \<Rightarrow> jstr list" where
  "push_urls_of raw = filter (\<lambda>u. u \<noteq> []) (map trim (split_lines raw))"

definition effective_push_urls :: "jstr list sync_io" where
  "effective_push_urls =
     bind (ask push_urls_call) (\<lambda>x. case x of
       Inl e \<Rightarrow> seqE (ask (Git [lit ''remote''])) (\<lambda>_. throw (Sync_code NO_REMOTE))
     | Inr a \<Rightarrow>
         (let urls = push_urls_of (out a) in if urls = [] then throw (Sync_code NO_REMOTE) else retE urls))"

definition assert_private_remotes :: "sync_opts \<Rightarrow> jstr list \<Rightarrow> remote_access sync_io" where
  "assert_private_remotes opts urls =
     for_each urls (Denied 0) (\<lambda>u worst.
       seqE (ask (Probe (derive_anonymous_probe_url (so_platform opts) u))) (\<lambda>a.
         case access a of
           Anonymous_readable \<Rightarrow> throw (Sync_code REMOTE_PUBLIC)
         | Indeterminate r \<Rightarrow>
             (if \<not> so_trust opts then throw (Sync_code REMOTE_VISIBILITY_INDETERMINATE) else retE (access a))
         | Denied s \<Rightarrow> retE worst))"

definition require_own_directory :: "jstr \<Rightarrow> unit sync_io" where
  "require_own_directory ownDir =
     seqE (ask (Is_dir ownDir)) (\<lambda>a. if flag a then retE () else throw (Sync_code NOT_A_REPO))"

definition preflight_sync :: "sync_opts \<Rightarrow> sync_preflight sync_io" where
  "preflight_sync opts =
     seqE (require_own_directory (so_ownDir opts)) (\<lambda>_.
     seqE (ask (Create_git (so_ownDir opts))) (\<lambda>_.
     seqE (ask Check_is_repo) (\<lambda>repo.
     if \<not> flag repo then throw (Sync_code NOT_A_REPO) else
     seqE (ask (Git [lit ''rev-parse'', lit ''--show-toplevel''])) (\<lambda>top.
     seqE (ask (Realpath (trim (out top)))) (\<lambda>root.
     seqE (ask (Realpath (so_ownDir opts))) (\<lambda>requested.
     if normalize_path opts (out root) \<noteq> normalize_path opts (out requested)
     then throw (Sync_code EXTERNAL_TOPLEVEL) else
     seqE (active_rebase (out requested)) (\<lambda>rebasing.
     if rebasing then throw (Sync_code REBASE_IN_PROGRESS) else
     seqE (catch (ask (Git [lit ''symbolic-ref'', lit ''--short'', lit ''HEAD'']))
            (\<lambda>_. throw (Sync_code DETACHED_HEAD))) (\<lambda>head.
     seqE effective_push_urls (\<lambda>pushUrls.
     seqE (case so_githubUser opts of
             None \<Rightarrow> retE ()
           | Some u \<Rightarrow>
               seqE (ask (Git [lit ''remote'', lit ''get-url'', lit ''origin''])) (\<lambda>o1.
                 lift (assert_named_github_targets (so_platform opts) (pushUrls @ [trim (out o1)]) (Some u)))) (\<lambda>_.
     seqE (assert_private_remotes opts pushUrls) (\<lambda>probe.
     retE \<lparr>sp_ownDir = out requested, sp_branch = trim (out head), sp_pushUrls = pushUrls, sp_probe = probe\<rparr>)))))))))))"

subsection \<open>One synchronisation\<close>

definition commit_message :: "nat \<Rightarrow> jstr" where
  "commit_message n = lit ''caveat sync: '' @ nat_str n @ lit '' changed file'' @ (if n = 1 then [] else lit ''s'')"

definition pull_flags :: "sync_opts \<Rightarrow> jstr list" where
  "pull_flags opts = (if so_refuse opts then [lit ''--rebase'', lit ''--no-autostash''] else [lit ''--rebase''])"

text \<open>After a failed pull: abort a rebase it left active, and never report a clean state unchecked.\<close>

definition recover_pull :: "sync_opts \<Rightarrow> jstr \<Rightarrow> sync_error \<Rightarrow> bool sync_io" where
  "recover_pull opts ownDir err =
     bind (active_rebase ownDir) (\<lambda>r. case r of
       Inl _ \<Rightarrow> throw Recovery_error
     | Inr rebasing \<Rightarrow>
         (if \<not> rebasing then throw (remote_failure Pull (so_githubUser opts) err)
          else bind (seqE (ask (Git [lit ''rebase'', lit ''--abort''])) (\<lambda>_.
                 seqE (active_rebase ownDir) (\<lambda>still.
                 if still then throw (Other_error (lit ''rebase still active'')) else retE ())))
               (\<lambda>x. case x of Inl _ \<Rightarrow> throw Recovery_error | Inr _ \<Rightarrow> throw (Sync_code SYNC_CONFLICT))))"

definition pull_remote :: "sync_opts \<Rightarrow> sync_preflight \<Rightarrow> bool sync_io" where
  "pull_remote opts pf =
     seqE (remote_operation Inspect (ask (Git [lit ''ls-remote'', lit ''--heads'', lit ''origin'', sp_branch pf]))
            (so_githubUser opts)) (\<lambda>heads.
     if trim (out heads) = [] then retE False
     else bind (ask (Git_pull (sp_branch pf) (pull_flags opts))) (\<lambda>x. case x of
            Inr _ \<Rightarrow> retE True
          | Inl err \<Rightarrow> recover_pull opts (sp_ownDir pf) err))"

definition refuse_dirty :: "sync_opts \<Rightarrow> nat \<Rightarrow> unit sync_io" where
  "refuse_dirty opts n = (if so_refuse opts \<and> n \<noteq> 0 then throw (Sync_code WORKTREE_DIRTY) else retE ())"

definition sync_result_of :: "sync_preflight \<Rightarrow> bool \<Rightarrow> bool \<Rightarrow> bool \<Rightarrow> bool \<Rightarrow> nat \<Rightarrow> sync_result" where
  "sync_result_of pf c p u d n = \<lparr>sp_ownDir = sp_ownDir pf, sp_branch = sp_branch pf, sp_pushUrls = sp_pushUrls pf,
     sp_probe = sp_probe pf, sr_committed = c, sr_pulled = p, sr_pushed = u, sr_dryRun = d, sr_changedFiles = n\<rparr>"

definition sync_own_locked :: "sync_opts \<Rightarrow> sync_result sync_io" where
  "sync_own_locked opts =
     seqE (preflight_sync opts) (\<lambda>pf.
     seqE (ask (Create_git (sp_ownDir pf))) (\<lambda>_.
     seqE (ask Status) (\<lambda>status.
     seqE (refuse_dirty opts (files status)) (\<lambda>_.
     if so_dryRun opts then retE (sync_result_of pf False False False True (files status)) else
     seqE (whenE (files status \<noteq> 0)
            (seqE (ask Add_all) (\<lambda>_. seqE (ask (Commit (commit_message (files status)))) (\<lambda>_. retE ())))) (\<lambda>_.
     seqE (pull_remote opts pf) (\<lambda>pulled.
     seqE (if so_refuse opts then seqE (ask Status) (\<lambda>s. refuse_dirty opts (files s)) else retE ()) (\<lambda>_.
     seqE (ask Reindex) (\<lambda>_.
     seqE (remote_operation Push (ask (Git_push (sp_branch pf))) (so_githubUser opts)) (\<lambda>_.
     retE (sync_result_of pf (files status \<noteq> 0) pulled True False (files status)))))))))))"

text \<open>The repository lock, and the first refusal of a dirty tree, when the directory is a repository.\<close>

definition lock_repository :: "sync_opts \<Rightarrow> (bool \<times> (sync_error + unit)) sync_io" where
  "lock_repository opts =
     bind (seqE (require_own_directory (so_ownDir opts)) (\<lambda>_.
           seqE (ask (Create_git (so_ownDir opts))) (\<lambda>_.
           seqE (ask Check_is_repo) (\<lambda>repo.
           if \<not> flag repo then retE False
           else seqE (ask (Git [lit ''rev-parse'', lit ''--git-common-dir''])) (\<lambda>c.
                seqE (ask (Realpath_in (so_ownDir opts) (trim (out c)))) (\<lambda>common.
                seqE (ask (Acquire_repo (out common))) (\<lambda>l.
                if flag l then retE True else throw (Sync_code SYNC_BUSY))))))))
       (\<lambda>x. case x of
          Inl e \<Rightarrow> retE (False, Inl e)
        | Inr False \<Rightarrow> retE (False, Inr ())
        | Inr True \<Rightarrow>
            (if so_refuse opts
             then bind (seqE (ask Status) (\<lambda>s. refuse_dirty opts (files s))) (\<lambda>y. retE (True, y))
             else retE (True, Inr ())))"

definition release_locks :: "sync_opts \<Rightarrow> bool \<Rightarrow> unit sync_io" where
  "release_locks opts repoLock =
     seqE (if repoLock then seqE (ask Release_repo) (\<lambda>_. retE ()) else retE ()) (\<lambda>_.
       if so_heldLock opts then retE () else seqE (ask Release_index) (\<lambda>_. retE ()))"

definition sync_under_locks :: "sync_opts \<Rightarrow> sync_result sync_io" where
  "sync_under_locks opts =
     seqE (lock_repository opts) (\<lambda>(repoLock, outcome).
       finallyE (seqE (lift outcome) (\<lambda>_. sync_own_locked opts)) (release_locks opts repoLock))"

definition sync_own :: "sync_opts \<Rightarrow> sync_result sync_io" where
  "sync_own opts =
     seqE (if so_heldLock opts then retE True
           else seqE (ask Acquire_index) (\<lambda>a. retE (flag a))) (\<lambda>held.
     if \<not> held then throw (Sync_code SYNC_BUSY) else sync_under_locks opts)"

subsection \<open>Attaching a directory to a remote\<close>

definition knowledge_gitignore :: jstr where
  "knowledge_gitignore = join [10]
     [lit ''# Private entries DO sync to your private remote (Caveat-Private) '' @ [8212] @ lit '' that is the'',
      lit ''# intended sharing boundary. The public boundary is enforced by `caveat publish`.'',
      [],
      lit ''# Obsidian per-user config: workspace layout, theme, plugin state, cache.'',
      lit ''.obsidian/'',
      [],
      lit ''# Editor / OS scratch files that should never sync.'',
      lit ''.DS_Store'',
      lit ''*.swp'',
      lit ''*~'',
      []]"

definition gitignore_name :: jstr where
  "gitignore_name = lit ''.gitignore''"

definition scaffold :: "jstr \<Rightarrow> unit sync_io" where
  "scaffold ownDir =
     seqE (ask (Make_subdir ownDir (lit ''entries''))) (\<lambda>_.
     seqE (ask (Has_file ownDir gitignore_name)) (\<lambda>e.
     if flag e then retE ()
     else seqE (ask (Write_file ownDir gitignore_name knowledge_gitignore)) (\<lambda>_. retE ())))"

definition remove_canonical_scaffold :: "jstr \<Rightarrow> unit sync_io" where
  "remove_canonical_scaffold ownDir =
     seqE (ask (Has_file ownDir gitignore_name)) (\<lambda>e.
     if \<not> flag e then retE ()
     else seqE (ask (Read_file ownDir gitignore_name)) (\<lambda>c.
          if out c = knowledge_gitignore then seqE (ask (Remove_file ownDir gitignore_name)) (\<lambda>_. retE ())
          else retE ()))"

text \<open>The run of non-space characters a capture group holds after a prefix.\<close>

definition symref_rx :: rx where
  "symref_rx = Sq bol_m (Sq (rx_str (lit ''ref: refs/heads/''))
     (Sq (rx_many (\<lambda>c. \<not> is_space c) 1) (Sq (rx_many is_space 1) (Sq (rx_str (lit ''HEAD'')) eol_m))))"

definition head_rx :: rx where
  "head_rx = Sq (rx_str (lit ''refs/heads/''))
     (Sq (rx_many (\<lambda>c. \<not> is_space c) 1) (Sq (rx_many is_space 0) eol_m))"

definition branch_after :: "rx \<Rightarrow> nat \<Rightarrow> jstr \<Rightarrow> jstr option" where
  "branch_after r k s = map_option (\<lambda>(p, e). takeWhile (\<lambda>c. \<not> is_space c) (drop (p + k) s)) (search r s 0)"

definition default_remote_branch :: "jstr \<Rightarrow> jstr option \<Rightarrow> jstr sync_io" where
  "default_remote_branch url githubUser =
     seqE (remote_operation Inspect (ask (Git [lit ''ls-remote'', lit ''--symref'', url, lit ''HEAD''])) githubUser) (\<lambda>symref.
     case branch_after symref_rx 16 (out symref) of
       Some b \<Rightarrow> retE b
     | None \<Rightarrow>
         seqE (remote_operation Inspect (ask (Git [lit ''ls-remote'', lit ''--heads'', url])) githubUser) (\<lambda>heads.
         case branch_after head_rx 11 (out heads) of
           Some b \<Rightarrow> retE b
         | None \<Rightarrow> throw (Other_error (lit ''remote has refs but no branch heads: '' @ url))))"

record init_result =
  ir_ownDir :: jstr
  ir_branch :: jstr
  ir_remoteWasEmpty :: bool

definition import_message :: "nat \<Rightarrow> jstr" where
  "import_message n = lit ''caveat sync: initial import ('' @ nat_str n @ lit '' entries)''"

text \<open>The body of the \<open>try\<close>: everything after \<open>git init\<close>.\<close>

definition attach_remote :: "sync_opts \<Rightarrow> jstr \<Rightarrow> jstr \<Rightarrow> bool \<Rightarrow> nat \<Rightarrow> init_result sync_io" where
  "attach_remote opts url ownDir hasRefs entryCount =
     seqE (ask (Add_remote url)) (\<lambda>_.
     seqE effective_push_urls (\<lambda>pushUrls.
     seqE (lift (assert_named_github_targets (so_platform opts) pushUrls (so_githubUser opts))) (\<lambda>_.
     seqE (assert_private_remotes opts pushUrls) (\<lambda>_.
     if \<not> hasRefs then
       seqE (scaffold ownDir) (\<lambda>_.
       seqE (ask Add_all) (\<lambda>_.
       seqE (ask (Commit (import_message entryCount))) (\<lambda>_.
       seqE (ask (Git [lit ''rev-parse'', lit ''--abbrev-ref'', lit ''HEAD''])) (\<lambda>b.
       seqE (remote_operation Push (ask (Git_push (trim (out b)))) (so_githubUser opts)) (\<lambda>_.
       seqE (ask Reindex) (\<lambda>_.
       retE \<lparr>ir_ownDir = ownDir, ir_branch = trim (out b), ir_remoteWasEmpty = True\<rparr>))))))
     else
       seqE (default_remote_branch url (so_githubUser opts)) (\<lambda>branch.
       seqE (remote_operation Fetch (ask (Git_fetch branch)) (so_githubUser opts)) (\<lambda>_.
       seqE (remove_canonical_scaffold ownDir) (\<lambda>_.
       seqE (ask (Checkout [lit ''--track'', lit ''-B'', branch, lit ''origin/'' @ branch])) (\<lambda>_.
       seqE (ask Reindex) (\<lambda>_.
       retE \<lparr>ir_ownDir = ownDir, ir_branch = branch, ir_remoteWasEmpty = False\<rparr>)))))))))"

definition roll_back :: "jstr \<Rightarrow> sync_error \<Rightarrow> 'a sync_io" where
  "roll_back ownDir err =
     bind (ask (Remove_git_dir ownDir)) (\<lambda>x. case x of Inl _ \<Rightarrow> throw Recovery_error | Inr _ \<Rightarrow> throw err)"

definition init_own_sync :: "sync_opts \<Rightarrow> jstr \<Rightarrow> init_result sync_io" where
  "init_own_sync opts url =
     seqE (lift (assert_named_github_targets (so_platform opts) [url] (so_githubUser opts))) (\<lambda>_.
     seqE (ask (Resolve_dir (so_ownDir opts))) (\<lambda>d.
     let ownDir = out d in
     seqE (ask (Make_dir ownDir)) (\<lambda>_.
     seqE (ask (Create_git ownDir)) (\<lambda>_.
     seqE (ask Check_is_repo) (\<lambda>repo.
     if flag repo then throw (Sync_code OWN_REPO_EXISTS) else
     seqE (ask (Create_git ownDir)) (\<lambda>_.
     seqE (case so_githubUser opts of
             None \<Rightarrow> retE ()
           | Some u \<Rightarrow>
               seqE (ask (Git [lit ''ls-remote'', lit ''--get-url'', url])) (\<lambda>g.
                 lift (assert_named_github_targets (so_platform opts) [trim (out g)] (Some u)))) (\<lambda>_.
     seqE (remote_operation Inspect (ask (Git [lit ''ls-remote'', lit ''--heads'', url])) (so_githubUser opts)) (\<lambda>r.
     seqE (ask (Read_tree ownDir (lit ''entries''))) (\<lambda>t.
     let hasRefs = trim (out r) \<noteq> []; entryCount = count_markdown_entries (tree t) in
     if hasRefs \<and> entryCount > 0 then throw (Sync_code BOTH_HAVE_ENTRIES) else
     seqE (ask (Create_git ownDir)) (\<lambda>_.
     seqE (ask Git_init) (\<lambda>_.
     catch (attach_remote opts url ownDir hasRefs entryCount) (roll_back ownDir))))))))))))"

subsection \<open>Reasoning about the calls\<close>

lemma holds_ask [simp, wp]:
  "holds (ask c) G Q h \<longleftrightarrow> G h c \<and>
     (\<forall>a. (\<forall>e. failed a = Some e \<longrightarrow> Q (h @ [(c, a)]) (Inl e)) \<and> (failed a = None \<longrightarrow> Q (h @ [(c, a)]) (Inr a)))"
  by (auto simp: ask_def split: option.splits)

lemma holds_lift [simp, wp]: "holds (lift x) G Q h \<longleftrightarrow> Q h x"
  by (simp add: lift_def)

lemma holds_finallyE [simp, wp]:
  "holds (finallyE m c) G Q h \<longleftrightarrow>
     holds m G (\<lambda>h' x. holds c G (\<lambda>h'' y. Q h'' (case y of Inl e \<Rightarrow> Inl e | Inr _ \<Rightarrow> x)) h') h"
  by (simp add: finallyE_def)

lemma holds_remote_operation [simp, wp]:
  "holds (remote_operation phase m user) G Q h \<longleftrightarrow>
     holds m G (\<lambda>h' x. case x of Inl e \<Rightarrow> Q h' (Inl (remote_failure phase user e)) | Inr y \<Rightarrow> Q h' (Inr y)) h"
  by (simp add: remote_operation_def cong: sum.case_cong)

lemma okay_ask [simp]:
  "okay (ask c) G P h \<longleftrightarrow> G h c \<and> (\<forall>a. failed a = None \<longrightarrow> P (h @ [(c, a)]) a)"
  by (auto simp: okay_def)

lemma okay_lift [simp]: "okay (lift x) G P h \<longleftrightarrow> (\<forall>y. x = Inr y \<longrightarrow> P h y)"
  by (auto simp: okay_def split: sum.splits)

lemma okay_remote_operation [simp]: "okay (remote_operation phase m user) G P h \<longleftrightarrow> okay m G P h"
  by (simp add: remote_operation_def)

text \<open>The steps whose outcome the caller only branches on: any guard that lets their calls through.\<close>

lemma okay_active_rebase:
  assumes "\<And>h' name. G (h @ h') (git_path name)" and "\<And>h' d p. G (h @ h') (Exists_in d p)"
    and "\<And>h' r. P (h @ h') r"
  shows "okay (active_rebase d) G P h"
  using assms assms(1) [of "[]"] assms(2) [of "[]"] assms(3) [of "[]"] by (simp add: active_rebase_def)

text \<open>A URL was probed and found not public, or could not be verified and the caller accepts that.\<close>

definition probed :: "sync_opts \<Rightarrow> (sync_call \<times> answer) list \<Rightarrow> jstr \<Rightarrow> bool" where
  "probed opts h u \<longleftrightarrow> (\<exists>a. (Probe (derive_anonymous_probe_url (so_platform opts) u), a) \<in> set h \<and> failed a = None \<and>
     (case access a of Anonymous_readable \<Rightarrow> False | Denied s \<Rightarrow> True | Indeterminate r \<Rightarrow> so_trust opts))"

lemma probed_denied:
  "(Probe (derive_anonymous_probe_url (so_platform opts) u), a) \<in> set h \<Longrightarrow> failed a = None \<Longrightarrow> access a = Denied s \<Longrightarrow>
    probed opts h u"
  by (auto simp: probed_def)

lemma probed_trusted:
  "(Probe (derive_anonymous_probe_url (so_platform opts) u), a) \<in> set h \<Longrightarrow> failed a = None \<Longrightarrow>
    access a = Indeterminate r \<Longrightarrow> so_trust opts \<Longrightarrow> probed opts h u"
  by (auto simp: probed_def)

lemma probed_mono: "probed opts h u \<Longrightarrow> probed opts (h @ h') u"
  by (auto simp: probed_def)

definition private_remotes :: "sync_opts \<Rightarrow> (sync_call \<times> answer) list \<Rightarrow> bool" where
  "private_remotes opts h \<longleftrightarrow> (\<exists>a. (push_urls_call, a) \<in> set h \<and> failed a = None \<and> push_urls_of (out a) \<noteq> [] \<and>
     (\<forall>u \<in> set (push_urls_of (out a)). probed opts h u))"

lemma private_remotes_mono: "private_remotes opts h \<Longrightarrow> private_remotes opts (h @ h')"
  by (auto simp: private_remotes_def intro: probed_mono)

lemma okay_assert_private:
  assumes "\<And>h' u. G (h @ h') (Probe u)"
  shows "okay (assert_private_remotes opts urls) G (\<lambda>h' _. \<forall>u \<in> set urls. probed opts h' u) h"
  unfolding assert_private_remotes_def
proof (rule okay_for_each)
  show "okay (seqE (ask (Probe (derive_anonymous_probe_url (so_platform opts) u))) (\<lambda>a.
         case access a of
           Anonymous_readable \<Rightarrow> throw (Sync_code REMOTE_PUBLIC)
         | Indeterminate r \<Rightarrow>
             (if \<not> so_trust opts then throw (Sync_code REMOTE_VISIBILITY_INDETERMINATE) else retE (access a))
         | Denied s \<Rightarrow> retE worst)) G (\<lambda>h _. probed opts h u) (h @ h')" for u worst h'
    using assms [of h'] by (auto intro: probed_denied probed_trusted split: remote_access.splits)
qed (rule probed_mono)

lemma okay_effective_urls:
  assumes "G h push_urls_call" and "\<And>h' . G (h @ h') (Git [lit ''remote''])"
  shows "okay effective_push_urls G
    (\<lambda>h' urls. urls \<noteq> [] \<and> (\<exists>a. (push_urls_call, a) \<in> set h' \<and> failed a = None \<and> push_urls_of (out a) = urls)) h"
  using assms by (auto simp: effective_push_urls_def Let_def okay_bind split: sum.splits)

text \<open>The calls that change nothing: not the directory, not the remote, not the index, no lock.\<close>

definition looks_only :: "sync_call \<Rightarrow> bool" where
  "looks_only c = (case c of
       Git args \<Rightarrow> args \<noteq> [] \<and> hd args \<in> {lit ''rev-parse'', lit ''symbolic-ref'', lit ''remote'', lit ''ls-remote''}
     | Is_dir _ \<Rightarrow> True | Create_git _ \<Rightarrow> True | Check_is_repo \<Rightarrow> True | Realpath _ \<Rightarrow> True | Realpath_in _ _ \<Rightarrow> True
     | Exists_in _ _ \<Rightarrow> True | Probe _ \<Rightarrow> True | Status \<Rightarrow> True | Resolve_dir _ \<Rightarrow> True | Read_tree _ _ \<Rightarrow> True
     | Has_file _ _ \<Rightarrow> True | Read_file _ _ \<Rightarrow> True | _ \<Rightarrow> False)"

lemma okay_preflight:
  assumes G: "\<And>h' c. looks_only c \<Longrightarrow> G (h @ h') c"
  shows "okay (preflight_sync opts) G (\<lambda>h' pf. private_remotes opts h') h"
proof -
  have G0: "\<And>c. looks_only c \<Longrightarrow> G h c" using G [of _ "[]"] by simp
  have probes: "okay (assert_private_remotes opts urls) G (\<lambda>h2 _. private_remotes opts h2) (h @ h')"
    if "urls \<noteq> []" "(push_urls_call, a) \<in> set (h @ h')" "failed a = None" "push_urls_of (out a) = urls" for urls a h'
    by (rule okay_mono [OF okay_assert_private])
      (use that in \<open>auto simp: G looks_only_def private_remotes_def\<close>)
  show ?thesis
    unfolding preflight_sync_def require_own_directory_def
    apply (simp add: G G0 looks_only_def)
    apply (intro allI impI)
    apply (rule okay_active_rebase)
    apply (simp add: G G0 looks_only_def git_path_def)
    apply (simp add: G G0 looks_only_def)
    apply (simp add: G G0 looks_only_def)
    apply (intro allI impI)
    apply (rule okay_mono [OF okay_effective_urls])
    apply (simp add: G looks_only_def push_urls_call_def)
    apply (simp add: G looks_only_def)
    apply (elim conjE exE)
    apply (auto simp: G G0 looks_only_def intro!: probes split: option.splits)[1]
    done
qed

subsection \<open>What each step may call\<close>

lemma uses_ask [calls]: "C c \<Longrightarrow> uses (ask c) C"
  by (simp add: ask_def)

lemma uses_lift [calls]: "uses (lift x) C"
  by (simp add: lift_def)

lemma uses_finallyE [calls]: "uses m C \<Longrightarrow> uses n C \<Longrightarrow> uses (finallyE m n) C"
  by (auto simp: finallyE_def intro!: uses_bind)

lemma uses_remote_operation [calls]: "uses m C \<Longrightarrow> uses (remote_operation p m u) C"
  by (auto simp: remote_operation_def intro!: calls)

lemma uses_active_rebase [calls]: "(\<And>n. C (git_path n)) \<Longrightarrow> (\<And>d p. C (Exists_in d p)) \<Longrightarrow> uses (active_rebase d) C"
  by (auto simp: active_rebase_def intro!: calls)

lemma uses_assert_private [calls]: "(\<And>u. C (Probe u)) \<Longrightarrow> uses (assert_private_remotes opts us) C"
  by (auto simp: assert_private_remotes_def intro!: calls split: remote_access.splits)

lemma uses_preflight: "uses (preflight_sync opts) looks_only"
  unfolding preflight_sync_def require_own_directory_def effective_push_urls_def Let_def
  by (intro calls) (auto simp: looks_only_def git_path_def push_urls_call_def)

definition abort_call :: sync_call where
  "abort_call = Git [lit ''rebase'', lit ''--abort'']"

lemma uses_pull_remote:
  "uses (pull_remote opts pf) (\<lambda>c. looks_only c \<or> c = Git_pull (sp_branch pf) (pull_flags opts) \<or> c = abort_call)"
  unfolding pull_remote_def recover_pull_def
  by (intro calls) (auto simp: looks_only_def git_path_def abort_call_def)

lemma okay_locked_push:
  assumes G: "\<And>h' c. (\<And>b. c = Git_push b \<Longrightarrow> private_remotes opts (h @ h') \<and> \<not> so_dryRun opts) \<Longrightarrow> G (h @ h') c"
  shows "okay (sync_own_locked opts) G (\<lambda>_ _. True) h"
proof -
  have look: "G (h @ h') c" if "\<And>b. c \<noteq> Git_push b" for h' c
    by (rule G) (use that in simp)
  have rest: "okay m G (\<lambda>_ _. True) (h @ h')" if "private_remotes opts (h @ h')" "\<not> so_dryRun opts"
    for m :: "sync_result sync_io" and h'
    by (rule uses_okay [OF uses_any])
      (use private_remotes_mono [OF that(1)] that(2) in \<open>auto intro!: G\<close>)
  show ?thesis
    unfolding sync_own_locked_def
  proof (subst okay_seqE, rule okay_mono [OF okay_preflight], goal_cases)
    case (2 h' pf)
    show ?case
    proof (cases "so_dryRun opts")
      case True
      then show ?thesis by (simp add: look refuse_dirty_def)
    qed (rule rest [OF 2])
  qed (auto simp: looks_only_def intro!: look)
qed

text \<open>The outer shell only adds calls that are not pushes.\<close>

lemma uses_lock_repository:
  "uses (lock_repository opts) (\<lambda>c. looks_only c \<or> (\<exists>p. c = Acquire_repo p))"
  unfolding lock_repository_def require_own_directory_def refuse_dirty_def
  by (intro calls) (auto simp: looks_only_def split: bool.split intro!: calls)

lemma okay_finallyE [simp]:
  "okay (finallyE m c) G (\<lambda>_ _. True) h \<longleftrightarrow> holds m G (\<lambda>h' _. okay c G (\<lambda>_ _. True) h') h"
  by (simp add: okay_def sum.case_eq_if)

lemma uses_release_locks: "uses (release_locks opts b) (\<lambda>c. c = Release_repo \<or> c = Release_index)"
  unfolding release_locks_def by (intro calls) auto

lemma okay_under_locks:
  assumes lock: "\<And>h'. okay (lock_repository opts) G (\<lambda>_ _. True) (h @ h')"
    and body: "\<And>h'. okay (sync_own_locked opts) G (\<lambda>_ _. True) (h @ h')"
    and release: "\<And>h' b. okay (release_locks opts b) G (\<lambda>_ _. True) (h @ h')"
  shows "okay (sync_under_locks opts) G (\<lambda>_ _. True) h"
  unfolding sync_under_locks_def
proof (subst okay_seqE, rule okay_mono [OF lock [of "[]", simplified]], goal_cases)
  case (1 h' x)
  obtain b outcome where x: "x = (b, outcome)" by fastforce
  have "holds (seqE (lift outcome) (\<lambda>_. sync_own_locked opts)) G (\<lambda>h' _. okay (release_locks opts b) G (\<lambda>_ _. True) h') (h @ h')"
  proof (rule holds_post [where Q = "\<lambda>_ _. True"])
    show "holds (seqE (lift outcome) (\<lambda>_. sync_own_locked opts)) G (\<lambda>_ _. True) (h @ h')"
      using body by (simp add: okay_def sum.case_eq_if lift_def)
  qed (use release in simp)
  then show ?case by (simp add: x)
qed

lemma okay_push:
  "okay (sync_own opts) (\<lambda>h c. \<forall>b. c = Git_push b \<longrightarrow> private_remotes opts h \<and> \<not> so_dryRun opts) (\<lambda>_ _. True) h"
proof -
  let ?G = "\<lambda>h c. \<forall>b. c = Git_push b \<longrightarrow> private_remotes opts h \<and> \<not> so_dryRun opts"
  have "okay (sync_under_locks opts) ?G (\<lambda>_ _. True) h'" for h'
    by (rule okay_under_locks)
      (auto intro!: okay_locked_push uses_okay [OF uses_lock_repository] uses_okay [OF uses_release_locks]
        simp: looks_only_def)
  then show ?thesis by (simp add: sync_own_def)
qed

text \<open>
  The last look at the work tree found it clean, and nothing but looking and reindexing happened
  since.
\<close>

definition clean_seen :: "(sync_call \<times> answer) list \<Rightarrow> bool" where
  "clean_seen h \<longleftrightarrow> (\<exists>h1 a h2. h = h1 @ (Status, a) # h2 \<and> failed a = None \<and> files a = 0 \<and>
     (\<forall>x \<in> set h2. looks_only (fst x) \<or> fst x = Reindex))"

lemma clean_seenI:
  "failed a = None \<Longrightarrow> files a = 0 \<Longrightarrow> \<forall>x \<in> set post. looks_only (fst x) \<or> fst x = Reindex \<Longrightarrow>
    clean_seen (pre @ (Status, a) # post)"
  by (auto simp: clean_seen_def)

definition refuse_guard :: "(sync_call \<times> answer) list \<Rightarrow> sync_call \<Rightarrow> bool" where
  "refuse_guard h c \<longleftrightarrow> (case c of
       Add_all \<Rightarrow> False
     | Commit _ \<Rightarrow> False
     | Git_pull _ flags \<Rightarrow> clean_seen h \<and> flags = [lit ''--rebase'', lit ''--no-autostash'']
     | Git_push _ \<Rightarrow> clean_seen h
     | _ \<Rightarrow> True)"

lemma refuse_guard_simps [simp]:
  "looks_only c \<Longrightarrow> refuse_guard h c"
  "refuse_guard h Reindex" "refuse_guard h (Git args)" "refuse_guard h (Acquire_repo p)"
  "refuse_guard h Release_repo" "refuse_guard h Release_index" "refuse_guard h Acquire_index"
  "refuse_guard h (Git_push b) \<longleftrightarrow> clean_seen h"
  "refuse_guard h (Git_pull b flags) \<longleftrightarrow> clean_seen h \<and> flags = [lit ''--rebase'', lit ''--no-autostash'']"
  by (auto simp: refuse_guard_def looks_only_def split: sync_call.splits)

lemma looks_only_simps [simp]:
  "looks_only (Create_git d)" "looks_only Status" "looks_only (git_path n)" "looks_only (Exists_in d p)"
  "looks_only (Git (lit ''ls-remote'' # args))" "looks_only (Git (lit ''rev-parse'' # args))"
  "looks_only (Is_dir d)" "looks_only Check_is_repo" "looks_only (Realpath_in d p)"
  by (simp_all add: looks_only_def git_path_def)

lemma okay_refuse_locked:
  assumes "so_refuse opts"
  shows "okay (sync_own_locked opts) refuse_guard (\<lambda>_ _. True) h"
proof -
  have pull: "okay (pull_remote opts pf) refuse_guard (\<lambda>_ _. True) (h' @ [(Status, a)])"
    if "failed a = None" "files a = 0" for pf h' a
    using that assms
    by (auto simp: pull_remote_def okay_bind pull_flags_def recover_pull_def
        intro!: clean_seenI [where pre = h' and post = "[_]", simplified]
          uses_okay [OF uses_active_rebase [where C = looks_only]] uses_holds [OF uses_active_rebase [where C = looks_only]]
        split: sum.splits)
  show ?thesis
    unfolding sync_own_locked_def
  proof (subst okay_seqE, rule okay_mono [OF uses_okay [OF uses_preflight, where P = "\<lambda>_ _. True"]], goal_cases)
    case (3 h' pf)
    show ?case
      using assms
      apply (simp add: refuse_dirty_def)
      apply (intro allI impI)
      apply (rule okay_mono [OF pull [where h' = "h @ h' @ [_]", simplified]])
        apply assumption+
      apply (auto intro: clean_seenI [where pre = "h @ h' @ [x, y] @ h''" and post = "[z]" for x y z h'', simplified])
      done
  qed auto
qed

lemma okay_refuse:
  assumes "so_refuse opts"
  shows "okay (sync_own opts) refuse_guard (\<lambda>_ _. True) h"
proof -
  have "okay (sync_under_locks opts) refuse_guard (\<lambda>_ _. True) h'" for h'
    by (rule okay_under_locks)
      (auto intro!: okay_refuse_locked [OF assms] uses_okay [OF uses_lock_repository] uses_okay [OF uses_release_locks])
  then show ?thesis by (simp add: sync_own_def)
qed

text \<open>A dry run.\<close>

definition lock_call :: "sync_call \<Rightarrow> bool" where
  "lock_call c \<longleftrightarrow> (case c of Acquire_index \<Rightarrow> True | Release_index \<Rightarrow> True | Acquire_repo _ \<Rightarrow> True | Release_repo \<Rightarrow> True
     | _ \<Rightarrow> False)"

lemma lock_call_simps [simp]:
  "lock_call Acquire_index" "lock_call Release_index" "lock_call (Acquire_repo p)" "lock_call Release_repo"
  "looks_only c \<Longrightarrow> \<not> lock_call c"
  "\<not> lock_call (Git args)" "\<not> lock_call Add_all" "\<not> lock_call (Commit m)" "\<not> lock_call (Git_pull b f)"
  "\<not> lock_call (Git_push b)" "\<not> lock_call Reindex"
  by (auto simp: lock_call_def looks_only_def split: sync_call.splits)

lemma okay_dry_run:
  assumes "so_dryRun opts"
  shows "okay (sync_own opts) (\<lambda>_ c. looks_only c \<or> lock_call c) (\<lambda>_ _. True) h"
proof -
  let ?G = "\<lambda>_ c. looks_only c \<or> lock_call c"
  have "okay (sync_own_locked opts) ?G (\<lambda>_ _. True) h'" for h'
    unfolding sync_own_locked_def
    by (subst okay_seqE, rule okay_mono [OF uses_okay [OF uses_preflight, where P = "\<lambda>_ _. True"]])
      (auto simp: assms refuse_dirty_def)
  then have "okay (sync_under_locks opts) ?G (\<lambda>_ _. True) h'" for h'
    by (intro okay_under_locks)
      (auto intro!: uses_okay [OF uses_lock_repository] uses_okay [OF uses_release_locks])
  then show ?thesis by (simp add: sync_own_def)
qed

subsection \<open>Locks\<close>

definition lock_calls :: "(sync_call \<times> answer) list \<Rightarrow> (sync_call \<times> answer) list" where
  "lock_calls h = filter (\<lambda>x. lock_call (fst x)) h"

lemma lock_calls_simps [simp]:
  "lock_calls [] = []" "lock_calls (h @ h') = lock_calls h @ lock_calls h'"
  "lock_calls ((c, a) # h) = (if lock_call c then (c, a) # lock_calls h else lock_calls h)"
  by (simp_all add: lock_calls_def)

definition granted :: "answer \<Rightarrow> bool" where
  "granted a \<longleftrightarrow> failed a = None \<and> flag a"

lemma exec_lock_free:
  "uses m (\<lambda>c. \<not> lock_call c) \<Longrightarrow> exec m t r \<Longrightarrow> lock_calls t = []"
  by (auto simp: lock_calls_def filter_empty_conv dest: uses_exec)

lemma holds_lock_repository:
  "holds (lock_repository opts) (\<lambda>_ _. True)
     (\<lambda>h' r. \<exists>b out. r = Inr (b, out) \<and>
        (\<not> b \<and> lock_calls h' = lock_calls h \<or>
         (\<exists>p a. b = granted a \<and> lock_calls h' = lock_calls h @ [(Acquire_repo p, a)]))) h"
  by (auto simp: lock_repository_def require_own_directory_def refuse_dirty_def granted_def)

lemma uses_locked_free: "uses (sync_own_locked opts) (\<lambda>c. \<not> lock_call c)"
  unfolding sync_own_locked_def refuse_dirty_def
  by (intro calls uses_mono [OF uses_preflight] uses_mono [OF uses_pull_remote])
    (auto simp: abort_call_def)

lemma exec_release_locks:
  assumes "exec (release_locks opts b) t r"
  shows "\<exists>a a'. t = (if b then [(Release_repo, a)] else []) @
     (if b \<and> failed a \<noteq> None \<or> so_heldLock opts then [] else [(Release_index, a')])"
  using assms
  by (force simp: release_locks_def seqE_def exec_bind ask_def retE_def split: if_splits option.splits)

text \<open>The lock operations of one synchronisation, in order.\<close>

definition lock_discipline :: "sync_opts \<Rightarrow> (sync_call \<times> answer) list \<Rightarrow> bool" where
  "lock_discipline opts L \<longleftrightarrow> (\<exists>i p g q j.
     L = (if so_heldLock opts then [] else [(Acquire_index, i)]) @ p @ q @ j \<and>
     (if \<not> so_heldLock opts \<and> \<not> granted i then p = [] \<and> q = [] \<and> j = [] else
       (p = [] \<and> q = [] \<or>
        (\<exists>path a. p = [(Acquire_repo path, a)] \<and> (if granted a then q = [(Release_repo, g)] else q = []))) \<and>
       (if so_heldLock opts \<or> q \<noteq> [] \<and> failed g \<noteq> None then j = [] else \<exists>a. j = [(Release_index, a)])))"

lemma exec_under_locks:
  assumes e: "exec (sync_under_locks opts) t r"
  shows "\<exists>p g q j. lock_calls t = p @ q @ j \<and>
       (p = [] \<and> q = [] \<or>
        (\<exists>path a. p = [(Acquire_repo path, a)] \<and> (if granted a then q = [(Release_repo, g)] else q = []))) \<and>
       (if so_heldLock opts \<or> q \<noteq> [] \<and> failed g \<noteq> None then j = [] else \<exists>a. j = [(Release_index, a)])"
proof -
  obtain t1 t2 x where t: "t = t1 @ t2" and e1: "exec (lock_repository opts) t1 x"
    and e2: "exec (case x of Inl e \<Rightarrow> Ret (Inl e) | Inr (b, outcome) \<Rightarrow>
        finallyE (seqE (lift outcome) (\<lambda>_. sync_own_locked opts)) (release_locks opts b)) t2 r"
    using e unfolding sync_under_locks_def seqE_def [of "lock_repository opts"] exec_bind by blast
  from holds_exec_result [OF holds_lock_repository [of opts "[]"] e1]
  obtain b outcome where x: "x = Inr (b, outcome)" and L1: "\<not> b \<and> lock_calls t1 = [] \<or>
      (\<exists>p a. b = granted a \<and> lock_calls t1 = [(Acquire_repo p, a)])" by auto
  from e2 obtain t3 t4 y z where t2: "t2 = t3 @ t4"
    and e3: "exec (seqE (lift outcome) (\<lambda>_. sync_own_locked opts)) t3 y" and e4: "exec (release_locks opts b) t4 z"
    by (auto simp: x finallyE_def exec_bind)
  have L3: "lock_calls t3 = []"
    by (rule exec_lock_free [OF _ e3]) (intro calls uses_locked_free)
  from exec_release_locks [OF e4] obtain a a' where t4: "t4 = (if b then [(Release_repo, a)] else []) @
     (if b \<and> failed a \<noteq> None \<or> so_heldLock opts then [] else [(Release_index, a')])" by blast
  have L: "lock_calls t = lock_calls t1 @ (if b then [(Release_repo, a)] else []) @
     (if b \<and> failed a \<noteq> None \<or> so_heldLock opts then [] else [(Release_index, a')])"
    by (simp add: t t2 L3 t4)
  show ?thesis
    by (rule exI [of _ "lock_calls t1"], rule exI [of _ a], rule exI [of _ "if b then [(Release_repo, a)] else []"],
        rule exI [of _ "if b \<and> failed a \<noteq> None \<or> so_heldLock opts then [] else [(Release_index, a')]"])
      (use L L1 in \<open>auto split: if_splits\<close>)
qed

subsection \<open>When a conflict is reported\<close>

text \<open>A rebase was aborted, and both marker directories were looked for and found gone after it.\<close>

definition aborted :: "jstr \<Rightarrow> (sync_call \<times> answer) list \<Rightarrow> bool" where
  "aborted d h \<longleftrightarrow> (\<exists>pre a x1 x2 x3 x4 post.
     h = pre @ [(abort_call, a), (git_path ''rebase-merge'', x1), (Exists_in d (trim (out x1)), x2),
       (git_path ''rebase-apply'', x3), (Exists_in d (trim (out x3)), x4)] @ post \<and>
     failed a = None \<and> failed x2 = None \<and> \<not> flag x2 \<and> failed x4 = None \<and> \<not> flag x4)"

lemma aborted_mono: "aborted d h \<Longrightarrow> aborted d (h @ h')"
  unfolding aborted_def by (metis append_assoc)

definition conflict :: sync_error where
  "conflict = Sync_code SYNC_CONFLICT"

definition foreign_conflict :: "(sync_call \<times> answer) list \<Rightarrow> bool" where
  "foreign_conflict h \<longleftrightarrow> (\<exists>x \<in> set h. failed (snd x) = Some conflict)"

text \<open>A program that reports a conflict of its own only after the abort.\<close>

definition honest :: "'a sync_io \<Rightarrow> bool" where
  "honest m \<longleftrightarrow> (\<forall>h. holds m (\<lambda>_ _. True)
     (\<lambda>h' r. r = Inl conflict \<longrightarrow> foreign_conflict h' \<or> (\<exists>d. aborted d h')) h)"

lemma honest_bindI:
  assumes "\<And>h. holds m (\<lambda>_ _. True) (\<lambda>h' x. holds (f x) (\<lambda>_ _. True)
      (\<lambda>h' r. r = Inl conflict \<longrightarrow> foreign_conflict h' \<or> (\<exists>d. aborted d h')) h') h"
  shows "honest (bind m f)"
  using assms by (simp add: honest_def)

named_theorems honest \<open>programs honest about conflicts\<close>

lemma honest_seqE [honest]:
  assumes "honest m" and "\<And>x. honest (f x)"
  shows "honest (seqE m f)"
  unfolding honest_def holds_seqE
proof
  fix h
  from assms(1) have "holds m (\<lambda>_ _. True)
     (\<lambda>h' r. r = Inl conflict \<longrightarrow> foreign_conflict h' \<or> (\<exists>d. aborted d h')) h" by (simp add: honest_def)
  then show "holds m (\<lambda>_ _. True) (\<lambda>h' x. case x of
       Inl e \<Rightarrow> Inl e = Inl conflict \<longrightarrow> foreign_conflict h' \<or> (\<exists>d. aborted d h')
     | Inr y \<Rightarrow> holds (f y) (\<lambda>_ _. True)
         (\<lambda>h' r. r = Inl conflict \<longrightarrow> foreign_conflict h' \<or> (\<exists>d. aborted d h')) h') h"
    by (rule holds_post) (use assms(2) in \<open>auto simp: honest_def split: sum.splits\<close>)
qed

lemma honest_ask [honest]: "honest (ask c)"
  by (auto simp: honest_def foreign_conflict_def)

lemma honest_retE [honest]: "honest (retE x)"
  by (simp add: honest_def)

lemma honest_throw [honest]: "e \<noteq> conflict \<Longrightarrow> honest (throw e)"
  by (simp add: honest_def)

lemma honest_if [honest]: "honest m \<Longrightarrow> honest m' \<Longrightarrow> honest (if b then m else m')"
  by simp

lemma honest_whenE [honest]: "honest m \<Longrightarrow> honest (whenE b m)"
  by (simp add: whenE_def honest_retE)

lemma honest_option [honest]: "honest m \<Longrightarrow> (\<And>x. honest (f x)) \<Longrightarrow> honest (case v of None \<Rightarrow> m | Some x \<Rightarrow> f x)"
  by (simp split: option.split)

lemma honest_access [honest]:
  "honest m \<Longrightarrow> (\<And>s. honest (f s)) \<Longrightarrow> (\<And>r. honest (g r)) \<Longrightarrow>
    honest (case v of Anonymous_readable \<Rightarrow> m | Denied s \<Rightarrow> f s | Indeterminate r \<Rightarrow> g r)"
  by (simp split: remote_access.split)

lemma honest_for_each [honest]: "(\<And>x s. honest (f x s)) \<Longrightarrow> honest (for_each xs s f)"
  by (induction xs arbitrary: s) (auto intro!: honest)

lemma honest_lift [honest]: "x \<noteq> Inl conflict \<Longrightarrow> honest (lift x)"
  by (simp add: honest_def)

lemma holds_any: "(\<And>h' x. Q (h @ h') x) \<Longrightarrow> holds m (\<lambda>_ _. True) Q h"
  by (rule uses_holds [OF uses_any]) auto

lemma honest_catch [honest]: "(\<And>e. f e \<noteq> conflict) \<Longrightarrow> honest (catch m (\<lambda>e. throw (f e)))"
  unfolding honest_def holds_catch by (intro allI holds_any) (auto split: sum.split)

lemma account_code_not_conflict: "(c, t) \<in> set account_codes \<Longrightarrow> c \<noteq> SYNC_CONFLICT"
  by (auto simp: account_codes_def)

lemma github_failure_not_conflict: "github_failure_code m u \<noteq> Some SYNC_CONFLICT"
  by (auto simp: github_failure_code_def find_Some_iff dest!: nth_mem account_code_not_conflict split: option.splits)

lemma remote_failure_not_conflict [simp]: "remote_failure p u e \<noteq> conflict"
  using github_failure_not_conflict [of "error_text e" u]
  by (auto simp: remote_failure_def conflict_def split: option.splits)

lemma honest_remote_operation [honest]: "honest (remote_operation p m u)"
  unfolding remote_operation_def by (intro honest) simp

lemma named_targets_not_conflict [simp]: "assert_named_github_targets pf urls u \<noteq> Inl conflict"
proof -
  have "check_github_targets pf urls \<noteq> Inl conflict"
    by (induction urls) (auto simp: conflict_def split: option.splits)
  then show ?thesis
    by (auto simp: assert_named_github_targets_def validate_github_user_def res conflict_def split: option.splits)
qed

lemma codes_not_conflict [simp]:
  "c \<noteq> SYNC_CONFLICT \<Longrightarrow> Sync_code c \<noteq> conflict" "Recovery_error \<noteq> conflict" "Other_error m \<noteq> conflict"
  "Sync_code SYNC_CONFLICT = conflict"
  by (simp_all add: conflict_def)

lemma honest_preflight [honest]: "honest (preflight_sync opts)"
proof -
  have "honest effective_push_urls"
    unfolding effective_push_urls_def Let_def
    by (rule honest_bindI) (auto simp: foreign_conflict_def)
  then show ?thesis
    unfolding preflight_sync_def require_own_directory_def active_rebase_def assert_private_remotes_def
    by (intro honest) simp_all
qed

lemma abort_checked:
  "holds (seqE (ask abort_call) (\<lambda>_. seqE (active_rebase d) (\<lambda>still.
       if still then throw (Other_error m) else retE ()))) (\<lambda>_ _. True)
     (\<lambda>h' x. x = Inr () \<longrightarrow> aborted d h') h"
proof -
  have "aborted d (h @ [(abort_call, a), (git_path ''rebase-merge'', x1), (Exists_in d (trim (out x1)), x2),
       (git_path ''rebase-apply'', x3), (Exists_in d (trim (out x3)), x4)])"
    if "failed a = None" "failed x2 = None" "\<not> flag x2" "failed x4 = None" "\<not> flag x4" for a x1 x2 x3 x4
    unfolding aborted_def using that by (intro exI [of _ h] exI [of _ "[]"] exI) simp
  then show ?thesis by (simp add: active_rebase_def)
qed

lemma honest_recover_pull [honest]: "honest (recover_pull opts d e)"
  unfolding recover_pull_def
proof (rule honest_bindI, rule holds_any)
  fix h h' r
  let ?m = "seqE (ask (Git [lit ''rebase'', lit ''--abort''])) (\<lambda>_. seqE (active_rebase d) (\<lambda>still.
       if still then throw (Other_error (lit ''rebase still active'')) else retE ()))"
  have "holds ?m (\<lambda>_ _. True) (\<lambda>h' x. holds (case x of Inl _ \<Rightarrow> throw Recovery_error | Inr _ \<Rightarrow> throw (Sync_code SYNC_CONFLICT))
      (\<lambda>_ _. True) (\<lambda>h' r. r = Inl conflict \<longrightarrow> foreign_conflict h' \<or> (\<exists>d. aborted d h')) h') (h @ h')"
    by (rule holds_post [OF abort_checked [unfolded abort_call_def]]) (auto split: sum.splits)
  then show "holds (case r of Inl _ \<Rightarrow> throw Recovery_error
       | Inr rebasing \<Rightarrow>
         (if \<not> rebasing then throw (remote_failure Pull (so_githubUser opts) e)
          else bind ?m (\<lambda>x. case x of Inl _ \<Rightarrow> throw Recovery_error | Inr _ \<Rightarrow> throw (Sync_code SYNC_CONFLICT))))
      (\<lambda>_ _. True) (\<lambda>h' r. r = Inl conflict \<longrightarrow> foreign_conflict h' \<or> (\<exists>d. aborted d h')) (h @ h')"
    by (auto split: sum.splits simp del: holds_seqE)
qed

lemma honest_pull_remote [honest]: "honest (pull_remote opts pf)"
  unfolding pull_remote_def
proof (intro honest honest_bindI)
  show "holds (ask (Git_pull (sp_branch pf) (pull_flags opts))) (\<lambda>_ _. True)
      (\<lambda>h' x. holds (case x of Inl err \<Rightarrow> recover_pull opts (sp_ownDir pf) err | Inr _ \<Rightarrow> retE True) (\<lambda>_ _. True)
        (\<lambda>h' r. r = Inl conflict \<longrightarrow> foreign_conflict h' \<or> (\<exists>d. aborted d h')) h') h" for h
    using honest_recover_pull [of opts "sp_ownDir pf"] by (simp add: honest_def)
qed

lemma honest_locked [honest]: "honest (sync_own_locked opts)"
  unfolding sync_own_locked_def refuse_dirty_def by (intro honest) simp_all

lemma foreign_conflict_append [simp]: "foreign_conflict (h @ h') \<longleftrightarrow> foreign_conflict h \<or> foreign_conflict h'"
  by (auto simp: foreign_conflict_def)

lemma honest_finallyE [honest]:
  assumes "honest m" and "honest c"
  shows "honest (finallyE m c)"
  unfolding honest_def holds_finallyE
proof
  fix h
  let ?P = "\<lambda>h' r. r = Inl conflict \<longrightarrow> foreign_conflict h' \<or> (\<exists>d. aborted d h')"
  have m: "holds m (\<lambda>_ _. True) ?P h" using assms(1) by (simp add: honest_def)
  show "holds m (\<lambda>_ _. True) (\<lambda>h' x. holds c (\<lambda>_ _. True)
      (\<lambda>h'' y. ?P h'' (case y of Inl e \<Rightarrow> Inl e | Inr _ \<Rightarrow> x)) h') h"
  proof (rule holds_post [OF m])
    fix h' x
    assume P: "?P (h @ h') x"
    have c: "holds c (\<lambda>_ _. True) ?P (h @ h')" using assms(2) by (simp add: honest_def)
    show "holds c (\<lambda>_ _. True) (\<lambda>h'' y. ?P h'' (case y of Inl e \<Rightarrow> Inl e | Inr _ \<Rightarrow> x)) (h @ h')"
      by (rule holds_post [OF c]) (use P aborted_mono [of _ "h @ h'"] in \<open>auto split: sum.splits\<close>)
  qed
qed

lemma honest_lock_repository: "holds (lock_repository opts) (\<lambda>_ _. True)
    (\<lambda>h' r. \<exists>b outcome. r = Inr (b, outcome) \<and> (outcome = Inl conflict \<longrightarrow> foreign_conflict h')) h"
  by (auto simp: lock_repository_def require_own_directory_def refuse_dirty_def foreign_conflict_def)

lemma honest_sync_own: "honest (sync_own opts)"
proof -
  let ?P = "\<lambda>h' r. r = Inl conflict \<longrightarrow> foreign_conflict h' \<or> (\<exists>d. aborted d h')"
  have release: "honest (release_locks opts b)" for b
    unfolding release_locks_def by (intro honest)
  have step: "holds (finallyE (seqE (lift outcome) (\<lambda>_. sync_own_locked opts)) (release_locks opts b)) (\<lambda>_ _. True) ?P h'"
    if "outcome = Inl conflict \<longrightarrow> foreign_conflict h'" for b outcome h'
  proof (cases "outcome = Inl conflict")
    case True
    then show ?thesis by (intro holds_any) (use that in simp)
  next
    case False
    then have "honest (finallyE (seqE (lift outcome) (\<lambda>_. sync_own_locked opts)) (release_locks opts b))"
      by (intro honest release) simp_all
    then show ?thesis by (simp add: honest_def)
  qed
  have "honest (sync_under_locks opts)"
    unfolding honest_def sync_under_locks_def holds_seqE
    by (intro allI holds_post [OF honest_lock_repository]) (auto intro!: step simp del: holds_finallyE)
  then show ?thesis
    unfolding sync_own_def by (intro honest) simp_all
qed

subsection \<open>Attaching: the rollback\<close>

lemma uses_attach:
  "uses (attach_remote opts url d r n) (\<lambda>c. c \<noteq> Git_init \<and> (\<forall>p. c \<noteq> Remove_git_dir p))"
  unfolding attach_remote_def scaffold_def remove_canonical_scaffold_def default_remote_branch_def
    effective_push_urls_def Let_def push_urls_call_def
  by (intro calls) simp_all

definition initialised :: "(sync_call \<times> answer) list \<Rightarrow> bool" where
  "initialised h \<longleftrightarrow> (\<exists>a. (Git_init, a) \<in> set h \<and> failed a = None)"

definition rolled_back :: "(sync_call \<times> answer) list \<Rightarrow> sync_error + init_result \<Rightarrow> bool" where
  "rolled_back h r \<longleftrightarrow>
     (if initialised h
      then (case r of
          Inl e \<Rightarrow> \<exists>pre d a. h = pre @ [(Remove_git_dir d, a)] \<and> (failed a \<noteq> None \<longrightarrow> e = Recovery_error)
        | Inr _ \<Rightarrow> \<forall>d a. (Remove_git_dir d, a) \<notin> set h)
      else (\<forall>d a. (Remove_git_dir d, a) \<notin> set h))"

lemma initialised_simps [simp]:
  "\<not> initialised []" "initialised (h @ h') \<longleftrightarrow> initialised h \<or> initialised h'"
  "initialised ((c, a) # h) \<longleftrightarrow> (c = Git_init \<and> failed a = None) \<or> initialised h"
  by (auto simp: initialised_def)

lemma holds_attach:
  assumes "initialised h" and "\<And>d a. (Remove_git_dir d, a) \<notin> set h"
  shows "holds (catch (attach_remote opts url d r n) (roll_back d)) (\<lambda>_ _. True) rolled_back h"
proof -
  have "holds (attach_remote opts url d r n) (\<lambda>_ _. True)
      (\<lambda>h' _. initialised h' \<and> (\<forall>d a. (Remove_git_dir d, a) \<notin> set h')) h"
    by (rule holds_post [OF uses_history [OF uses_attach]]) (use assms in auto)
  then show ?thesis
    unfolding holds_catch
    by (rule holds_post) (auto simp: rolled_back_def roll_back_def split: sum.splits)
qed

lemma holds_init: "holds (init_own_sync opts url) (\<lambda>_ _. True) rolled_back []"
  by (auto simp: init_own_sync_def Let_def rolled_back_def simp del: holds_catch intro!: holds_attach split: sum.splits option.splits)

lemma okay_attach_push:
  "okay (attach_remote opts url d r n) (\<lambda>h c. \<forall>b. c = Git_push b \<longrightarrow> private_remotes opts h) (\<lambda>_ _. True) h"
proof -
  let ?G = "\<lambda>h c. \<forall>b. c = Git_push b \<longrightarrow> private_remotes opts h"
  have rest: "okay m ?G (\<lambda>_ _. True) (h @ h')" if "private_remotes opts (h @ h')" for m :: "init_result sync_io" and h'
    by (rule uses_okay [OF uses_any]) (use private_remotes_mono [OF that] in auto)
  have probes: "okay (assert_private_remotes opts urls) ?G (\<lambda>h2 _. private_remotes opts h2) (h @ h')"
    if "urls \<noteq> []" "(push_urls_call, a) \<in> set (h @ h')" "failed a = None" "push_urls_of (out a) = urls" for urls a h'
    by (rule okay_mono [OF okay_assert_private]) (use that in \<open>auto simp: private_remotes_def\<close>)
  have "okay (seqE effective_push_urls (\<lambda>urls. seqE (lift (chk urls)) (\<lambda>_. seqE (assert_private_remotes opts urls) body)))
      ?G (\<lambda>_ _. True) (h @ h')"
    for body :: "remote_access \<Rightarrow> init_result sync_io" and chk :: "jstr list \<Rightarrow> sync_error + unit" and h'
  proof (subst okay_seqE, rule okay_mono [OF okay_effective_urls], goal_cases)
    case (3 h'' urls)
    then obtain a where a: "urls \<noteq> []" "(push_urls_call, a) \<in> set (h @ h' @ h'')" "failed a = None"
      "push_urls_of (out a) = urls" by auto
    have "okay (assert_private_remotes opts urls) ?G (\<lambda>h' x. okay (body x) ?G (\<lambda>_ _. True) h') (h @ h' @ h'')"
    proof (rule okay_mono [OF probes [OF a]])
      fix h3 x assume "private_remotes opts ((h @ h' @ h'') @ h3)"
      then show "okay (body x) ?G (\<lambda>_ _. True) ((h @ h' @ h'') @ h3)" using rest [of "h' @ h'' @ h3"] by simp
    qed
    then show ?case by simp
  qed (simp_all add: push_urls_call_def)
  note main = this
  show ?thesis
    unfolding attach_remote_def
    by (subst okay_seqE, subst okay_ask, rule conjI, simp, rule allI, rule impI, rule main)
qed

lemma okay_init_push:
  "okay (init_own_sync opts url) (\<lambda>h c. \<forall>b. c = Git_push b \<longrightarrow> private_remotes opts h) (\<lambda>_ _. True) []"
proof -
  let ?G = "\<lambda>h c. \<forall>b. c = Git_push b \<longrightarrow> private_remotes opts h"
  have "okay (catch (attach_remote opts url d r n) (roll_back d)) ?G (\<lambda>_ _. True) h" for d r n h
  proof -
    have "holds (attach_remote opts url d r n) ?G (\<lambda>_ _. True) h"
      using okay_attach_push by (simp add: okay_def sum.case_eq_if)
    then show ?thesis
      unfolding okay_def holds_catch by (rule holds_post) (auto simp: roll_back_def split: sum.splits)
  qed
  then show ?thesis
    by (auto simp: init_own_sync_def Let_def split: option.splits)
qed

subsection \<open>What the synchronisation promises\<close>

text \<open>A concrete world: one private remote, nothing changed locally, every call succeeds.\<close>

definition demo_opts :: sync_opts where
  "demo_opts = \<lparr>so_platform = \<lparr>url_parse = (\<lambda>_. None), sha256_hex = (\<lambda>_. [])\<rparr>, so_windows = False, so_lower = id,
     so_ownDir = lit ''k'', so_githubUser = None, so_trust = False, so_dryRun = False, so_refuse = False,
     so_heldLock = False\<rparr>"

definition demo_answer :: "sync_call \<Rightarrow> answer" where
  "demo_answer c = \<lparr>failed = None, out = lit ''u'',
     flag = (case c of Exists_in d p \<Rightarrow> False | _ \<Rightarrow> True), files = 0, access = Denied 404, tree = None\<rparr>"

lemma demo_answer_simps [simp]:
  "failed (demo_answer c) = None" "out (demo_answer c) = lit ''u''" "files (demo_answer c) = 0"
  "access (demo_answer c) = Denied 404" "tree (demo_answer c) = None"
  "flag (demo_answer c) = (case c of Exists_in d p \<Rightarrow> False | _ \<Rightarrow> True)"
  by (simp_all add: demo_answer_def)

lemma run_ask [run_eval]:
  "run (ask c) w h = ([(c, w h c)], case failed (w h c) of Some e \<Rightarrow> Inl e | None \<Rightarrow> Inr (w h c))"
  by (simp add: ask_def Let_def)

lemma run_lift [run_eval]: "run (lift x) w h = ([], x)"
  by (simp add: lift_def)

lemma run_finallyE [run_eval]:
  "run (finallyE m c) w h = (case run m w h of (t, x) \<Rightarrow> case run c w (h @ t) of
     (t', y) \<Rightarrow> (t @ t', case y of Inl e \<Rightarrow> Inl e | Inr _ \<Rightarrow> x))"
  by (simp add: finallyE_def run_bind split: prod.splits)

lemmas sync_run = run_eval sync_own_def sync_under_locks_def lock_repository_def require_own_directory_def
  refuse_dirty_def sync_own_locked_def preflight_sync_def active_rebase_def effective_push_urls_def
  assert_private_remotes_def pull_remote_def remote_operation_def release_locks_def Let_def

lemma demo_texts: "push_urls_of (lit ''u'') = [lit ''u'']" "trim (lit ''u'') = lit ''u''"
  by (simp_all add: push_urls_of_def split_lines_free trim_def trim_end_def is_space_def lit_def)

lemma demo_push:
  "(Git_push (lit ''u''), demo_answer (Git_push (lit ''u''))) \<in> set (fst (run (sync_own demo_opts) (\<lambda>_. demo_answer) []))"
  by (simp add: sync_run demo_opts_def demo_texts)

lemma demo_exec: "\<exists>r. exec m (fst (run m w [])) r"
  using exec_run [of m w "[]"] by (metis prod.collapse)

text \<open>
  C5: Whatever git, the network and the file system answer, a synchronisation pushes only after
  git has listed the effective push URLs and every one of them was probed in this run and found
  not readable without credentials, or could not be verified and the caller trusts it; and a
  dry run never pushes.
\<close>

theorem pushes_only_to_probed_remotes:
  assumes "exec (sync_own opts) (pre @ (Git_push b, a) # post) r"
  shows "private_remotes opts pre \<and> \<not> so_dryRun opts"
  using okay_exec_call [OF okay_push assms] by simp

theorem pushes_only_to_probed_remotes_witness:
  "\<exists>pre b a post r. exec (sync_own demo_opts) (pre @ (Git_push b, a) # post) r \<and>
     private_remotes demo_opts pre \<and> \<not> so_dryRun demo_opts"
proof -
  obtain pre post r where e: "exec (sync_own demo_opts)
      (pre @ (Git_push (lit ''u''), demo_answer (Git_push (lit ''u''))) # post) r"
    using split_list [OF demo_push] demo_exec by metis
  from pushes_only_to_probed_remotes [OF e] e show ?thesis by blast
qed

text \<open>
  C6: A scheduled synchronisation (the \<open>refuse\<close> policy) never stages or commits, pulls only
  right after seeing a clean work tree and without autostash, and pushes only when the last look
  at the tree, after the pull, found it clean.
\<close>

theorem refuse_keeps_unfinished_edits:
  assumes "so_refuse opts" and "exec (sync_own opts) (pre @ (c, a) # post) r"
  shows "refuse_guard pre c"
  by (rule okay_exec_call [OF okay_refuse [OF assms(1)] assms(2)])

theorem refuse_keeps_unfinished_edits_witness:
  "\<exists>pre c a post r. exec (sync_own (demo_opts\<lparr>so_refuse := True\<rparr>)) (pre @ (c, a) # post) r \<and> refuse_guard pre c \<and>
     c = Git_push (lit ''u'')"
proof -
  let ?m = "sync_own (demo_opts\<lparr>so_refuse := True\<rparr>)"
  have "(Git_push (lit ''u''), demo_answer (Git_push (lit ''u''))) \<in> set (fst (run ?m (\<lambda>_. demo_answer) []))"
    by (simp add: sync_run demo_opts_def demo_texts)
  then obtain pre post r where e: "exec ?m (pre @ (Git_push (lit ''u''), demo_answer (Git_push (lit ''u''))) # post) r"
    using split_list demo_exec by metis
  from refuse_keeps_unfinished_edits [OF _ e] e show ?thesis by auto
qed

text \<open>A dry run makes no call but queries and the taking and releasing of the two locks.\<close>

theorem dry_run_changes_nothing:
  assumes "so_dryRun opts" and "exec (sync_own opts) t r" and "x \<in> set t"
  shows "looks_only (fst x) \<or> lock_call (fst x)"
proof -
  from assms(3) obtain pre post where t: "t = pre @ x # post" by (auto dest: split_list)
  have "exec (sync_own opts) (pre @ (fst x, snd x) # post) r" using assms(2) by (simp add: t)
  from okay_exec_call [OF okay_dry_run [OF assms(1)] this] show ?thesis .
qed

theorem dry_run_changes_nothing_witness:
  "\<exists>x t r. exec (sync_own (demo_opts\<lparr>so_dryRun := True\<rparr>)) t r \<and> x \<in> set t \<and> (looks_only (fst x) \<or> lock_call (fst x))"
proof -
  let ?m = "sync_own (demo_opts\<lparr>so_dryRun := True\<rparr>)"
  have x: "(Status, demo_answer Status) \<in> set (fst (run ?m (\<lambda>_. demo_answer) []))"
    by (simp add: sync_run demo_opts_def demo_texts)
  obtain r where e: "exec ?m (fst (run ?m (\<lambda>_. demo_answer) [])) r" by (rule exE [OF demo_exec])
  have "so_dryRun (demo_opts\<lparr>so_dryRun := True\<rparr>)" by simp
  show ?thesis
    by (rule exI, rule exI, rule exI, rule conjI [OF e conjI [OF x dry_run_changes_nothing [OF \<open>so_dryRun _\<close> e x]]])
qed

text \<open>
  C7: The lock operations of every execution: the index lock is asked for first, unless the caller
  passes it in, in which case the execution neither takes nor releases it; then the repository lock
  at most once. What was not granted is not released. A granted repository lock is released exactly
  once, and after it the own index lock exactly once; except that, when releasing the repository
  lock throws, the index lock is not released.
\<close>

theorem locks_are_released_in_order:
  assumes "exec (sync_own opts) t r"
  shows "lock_discipline opts (lock_calls t)"
proof (cases "so_heldLock opts")
  case True
  then have e: "exec (sync_under_locks opts) t r"
    using assms by (simp add: sync_own_def seqE_def retE_def)
  from exec_under_locks [OF e] obtain p g q j where "lock_calls t = p @ q @ j"
    "p = [] \<and> q = [] \<or> (\<exists>path a. p = [(Acquire_repo path, a)] \<and> (if granted a then q = [(Release_repo, g)] else q = []))"
    "if so_heldLock opts \<or> q \<noteq> [] \<and> failed g \<noteq> None then j = [] else \<exists>a. j = [(Release_index, a)]"
    by blast
  then show ?thesis
    unfolding lock_discipline_def using True 
    by (rule_tac x = undefined in exI, rule_tac x = p in exI, rule_tac x = g in exI, rule_tac x = q in exI) simp
next
  case False
  then obtain i t' where t: "t = (Acquire_index, i) # t'"
    and rest: "exec (case (case failed i of None \<Rightarrow> Inr (flag i) | Some e \<Rightarrow> Inl e) of Inl e \<Rightarrow> Ret (Inl e)
        | Inr held \<Rightarrow> if \<not> held then throw (Sync_code SYNC_BUSY) else sync_under_locks opts) t' r"
    using assms by (auto simp: sync_own_def seqE_def ask_def retE_def throw_def split: option.splits)
  show ?thesis
  proof (cases "granted i")
    case g: True
    with rest have e: "exec (sync_under_locks opts) t' r" by (simp add: granted_def)
    from exec_under_locks [OF e] obtain p g q j where "lock_calls t' = p @ q @ j"
      "p = [] \<and> q = [] \<or> (\<exists>path a. p = [(Acquire_repo path, a)] \<and> (if granted a then q = [(Release_repo, g)] else q = []))"
      "if so_heldLock opts \<or> q \<noteq> [] \<and> failed g \<noteq> None then j = [] else \<exists>a. j = [(Release_index, a)]"
      by blast
    then show ?thesis
      unfolding lock_discipline_def t using False g
      
      by (rule_tac x = i in exI, rule_tac x = p in exI, rule_tac x = g in exI, rule_tac x = q in exI,
          rule_tac x = j in exI) simp
  next
    case g: False
    with rest have "t' = []" by (auto simp: granted_def throw_def split: option.splits if_splits)
    with g False show ?thesis unfolding lock_discipline_def t by (rule_tac x = i in exI, rule_tac x = "[]" in exI) simp
  qed
qed

theorem locks_are_released_in_order_witness:
  "\<exists>t r. exec (sync_own demo_opts) t r \<and> lock_discipline demo_opts (lock_calls t)"
proof -
  obtain r where e: "exec (sync_own demo_opts) (fst (run (sync_own demo_opts) (\<lambda>_. demo_answer) [])) r"
    by (rule exE [OF demo_exec])
  show ?thesis by (rule exI, rule exI, rule conjI [OF e locks_are_released_in_order [OF e]])
qed

text \<open>
  C8: A synchronisation reports a conflict only after it aborted the rebase itself and then looked
  for both of git's rebase markers and found neither: a conflict report never leaves a half-done
  rebase behind.
\<close>

theorem conflict_means_aborted:
  assumes "exec (sync_own opts) t (Inl (Sync_code SYNC_CONFLICT))"
    and "\<forall>x \<in> set t. failed (snd x) \<noteq> Some (Sync_code SYNC_CONFLICT)"
  shows "\<exists>d. aborted d t"
proof -
  have "holds (sync_own opts) (\<lambda>_ _. True)
      (\<lambda>h' r. r = Inl conflict \<longrightarrow> foreign_conflict h' \<or> (\<exists>d. aborted d h')) []"
    using honest_sync_own by (simp add: honest_def)
  from holds_exec_result [OF this assms(1)] assms(2) show ?thesis
    by (auto simp: foreign_conflict_def)
qed

text \<open>A world whose pull stops in a rebase: the marker is there at the 26th call, and gone later.\<close>

definition pull_failed :: answer where
  "pull_failed = (demo_answer Reindex)\<lparr>failed := Some (Other_error [])\<rparr>"

definition conflict_world :: "(sync_call \<times> answer) list \<Rightarrow> sync_call \<Rightarrow> answer" where
  "conflict_world h c = (case c of
       Git_pull b f \<Rightarrow> pull_failed
     | Exists_in d p \<Rightarrow> if length h = 25 then demo_answer Reindex else demo_answer c
     | _ \<Rightarrow> demo_answer c)"

lemma pull_failed_simps [simp]: "failed pull_failed = Some (Other_error [])"
  by (simp add: pull_failed_def)

lemma conflict_run:
  "snd (run (sync_own demo_opts) conflict_world []) = Inl (Sync_code SYNC_CONFLICT) \<and>
   (\<forall>x \<in> set (fst (run (sync_own demo_opts) conflict_world [])). failed (snd x) \<noteq> Some (Sync_code SYNC_CONFLICT))"
  by (simp add: sync_run recover_pull_def demo_opts_def demo_texts conflict_world_def abort_call_def git_path_def push_urls_call_def)

theorem conflict_means_aborted_witness:
  "\<exists>t d. exec (sync_own demo_opts) t (Inl (Sync_code SYNC_CONFLICT)) \<and> aborted d t"
proof -
  let ?t = "fst (run (sync_own demo_opts) conflict_world [])"
  have e: "exec (sync_own demo_opts) ?t (Inl (Sync_code SYNC_CONFLICT))"
    using exec_run [of "sync_own demo_opts" conflict_world "[]"] conflict_run by (metis prod.collapse)
  from conflict_means_aborted [OF e] conflict_run obtain d where "aborted d ?t" by blast
  with e show ?thesis by blast
qed

text \<open>
  Attaching a directory to a remote: when it throws after git init, its last call removed the
  fresh .git directory (and if that failed too the error says so); when it succeeds, or
  failed before git init, no .git directory is removed. It pushes only to remotes it has probed.
\<close>

theorem init_rolls_back:
  assumes "exec (init_own_sync opts url) t r"
  shows "rolled_back t r \<and> (\<forall>pre b a post. t = pre @ (Git_push b, a) # post \<longrightarrow> private_remotes opts pre)"
  using holds_exec_result [OF holds_init assms] okay_exec_call [OF okay_init_push] assms by auto

theorem init_rolls_back_witness:
  "\<exists>t r. exec (init_own_sync demo_opts (lit ''u'')) t r \<and> rolled_back t r"
proof -
  let ?m = "init_own_sync demo_opts (lit ''u'')"
  obtain r where e: "exec ?m (fst (run ?m (\<lambda>_. demo_answer) [])) r" by (rule exE [OF demo_exec])
  show ?thesis by (rule exI, rule exI, rule conjI [OF e conjunct1 [OF init_rolls_back [OF e]]])
qed

end
