(* ===== verification/FileLock.thy ===== *)
theory FileLock
  imports JsText
begin

text \<open>
  The lock files of \<open>packages/core/src/autoReindex.ts\<close> (\<open>acquireFileLock\<close>,
  \<open>releaseFileLock\<close>): a file created exclusively that holds the owner's process id; a lock
  whose owner no longer runs is removed and taken over. \<open>acquire_file_lock\<close> is one call with
  nobody else at work. \<open>lock_next\<close> is the same code one system call at a time, for any number
  of processes that interleave at will (\<open>lock_step\<close>) and may exit at any point; \<open>lock_fault\<close> is
  a step whose system call fails. A directory
  entry points to an inode, so that a write through an open descriptor goes to the file that was
  created even when its name has been removed since. \<open>solo_acquire\<close> ties the two together.
\<close>

definition parse_int :: "jstr \<Rightarrow> int option" where
  "parse_int s =
     (let t = dropWhile is_space s; neg = (t \<noteq> [] \<and> hd t = 45); u = (if t \<noteq> [] \<and> hd t \<in> {43, 45} then tl t else t);
          ds = takeWhile is_digit u
      in if ds = [] then None else Some (if neg then - int (digits_val 0 ds) else int (digits_val 0 ds)))"

text \<open>The process id a lock file names; None for the texts the code refuses.\<close>

definition lock_owner :: "jstr \<Rightarrow> nat option" where
  "lock_owner contents = (case parse_int (trim contents) of None \<Rightarrow> None | Some n \<Rightarrow> if n \<le> 0 then None else Some (nat n))"

subsection \<open>One call with nobody else at work\<close>

text \<open>The lock file's text before and after, and whether the lock was obtained.\<close>

definition acquire_file_lock :: "(nat \<Rightarrow> bool) \<Rightarrow> nat \<Rightarrow> jstr option \<Rightarrow> jstr option \<times> bool" where
  "acquire_file_lock running me file =
     (case file of
        None \<Rightarrow> (Some (nat_str me), True)
      | Some contents \<Rightarrow>
          (case lock_owner contents of
             None \<Rightarrow> (file, False)
           | Some pid \<Rightarrow> if running pid then (file, False) else (Some (nat_str me), True)))"

definition release_file_lock :: "jstr option \<Rightarrow> jstr option" where
  "release_file_lock file = None"

subsection \<open>One system call at a time\<close>

datatype lock_pc =
    Idle | Try1 | Read | Check nat | Unlink | Try2 | Filling nat | Held nat | Refused | Gone

record lock_sys =
  entry :: "nat option"
  content :: "nat \<Rightarrow> jstr"
  fresh :: nat
  pc :: "nat \<Rightarrow> lock_pc"

abbreviation goto :: "nat \<Rightarrow> lock_pc \<Rightarrow> lock_sys \<Rightarrow> lock_sys" where
  "goto p l s \<equiv> s\<lparr>pc := (pc s)(p := l)\<rparr>"

text \<open>\<open>tryCreateLock\<close>: exclusive creation of an empty file; the id is written by the next call.\<close>

definition create_lock :: "nat \<Rightarrow> lock_pc \<Rightarrow> lock_sys \<Rightarrow> lock_sys" where
  "create_lock p otherwise s =
     (case entry s of
        None \<Rightarrow> goto p (Filling (fresh s)) (s\<lparr>entry := Some (fresh s), content := (content s)(fresh s := []), fresh := Suc (fresh s)\<rparr>)
      | Some _ \<Rightarrow> goto p otherwise s)"

definition lock_next :: "nat \<Rightarrow> lock_sys \<Rightarrow> lock_sys" where
  "lock_next p s =
     (case pc s p of
        Idle \<Rightarrow> goto p Try1 s
      | Try1 \<Rightarrow> create_lock p Read s
      | Read \<Rightarrow>
          (case entry s of
             None \<Rightarrow> goto p Try2 s
           | Some i \<Rightarrow> (case lock_owner (content s i) of None \<Rightarrow> goto p Refused s | Some n \<Rightarrow> goto p (Check n) s))
      | Check n \<Rightarrow> if pc s n \<noteq> Gone then goto p Refused s else goto p Unlink s
      | Unlink \<Rightarrow> goto p Try2 (s\<lparr>entry := None\<rparr>)
      | Try2 \<Rightarrow> create_lock p Refused s
      | Filling i \<Rightarrow> goto p (Held i) (s\<lparr>content := (content s)(i := nat_str p)\<rparr>)
      | Held i \<Rightarrow> goto p Idle (s\<lparr>entry := None\<rparr>)
      | Refused \<Rightarrow> goto p Idle s
      | Gone \<Rightarrow> s)"

text \<open>
  The same when the system call of the step fails with another error than the one the code expects:
  creating and removing throw, a lock file that cannot be read or a process that cannot be asked
  means refusal, and a failed write of the id leaves the created file empty.
\<close>

definition lock_fault :: "nat \<Rightarrow> lock_sys \<Rightarrow> lock_sys" where
  "lock_fault p s =
     (case pc s p of
        Try1 \<Rightarrow> goto p Idle s
      | Read \<Rightarrow> goto p Refused s
      | Check n \<Rightarrow> goto p Refused s
      | Unlink \<Rightarrow> goto p Idle s
      | Try2 \<Rightarrow> goto p Idle s
      | Filling i \<Rightarrow> goto p Idle s
      | Held i \<Rightarrow> goto p Idle s
      | _ \<Rightarrow> s)"

inductive lock_step :: "lock_sys \<Rightarrow> lock_sys \<Rightarrow> bool" where
  run: "lock_step s (lock_next p s)"
| fault: "lock_step s (lock_fault p s)"
| exit: "lock_step s (goto p Gone s)"

definition lock_init :: "lock_sys \<Rightarrow> bool" where
  "lock_init s \<longleftrightarrow> entry s = None \<and> (\<forall>p. pc s p = Idle)"

definition holds_lock :: "lock_sys \<Rightarrow> nat \<Rightarrow> bool" where
  "holds_lock s p \<longleftrightarrow> (\<exists>i. pc s p = Held i)"

subsection \<open>Process ids\<close>

lemma parse_int_nat_str: "parse_int (nat_str n) = Some (int n)"
proof -
  have d: "\<forall>c \<in> set (nat_str n). is_digit c" using nat_str_digits by blast
  obtain c cs where s: "nat_str n = c # cs" by (cases "nat_str n") auto
  have c: "is_digit c" using d s by simp
  then have "\<not> is_space c" "c \<noteq> 43" "c \<noteq> 45" by (auto simp: is_digit_def is_space_def)
  moreover have "takeWhile is_digit (nat_str n) = nat_str n" using d by (simp add: takeWhile_eq_all_conv)
  ultimately show ?thesis using s digits_val_nat_str [of n] by (simp add: parse_int_def Let_def)
qed

lemma trim_nat_str: "trim (nat_str n) = nat_str n"
proof -
  have d: "\<forall>c \<in> set (nat_str n). \<not> is_space c" using nat_str_digits by (fastforce simp: is_digit_def is_space_def)
  then have "dropWhile is_space (nat_str n) = nat_str n" and "dropWhile is_space (rev (nat_str n)) = rev (nat_str n)"
    by (cases "nat_str n", auto, cases "rev (nat_str n)", auto simp: dropWhile_eq_self_iff last_rev)
  then show ?thesis by (simp add: trim_def trim_end_def)
qed

lemma lock_owner_nat_str [simp]: "lock_owner (nat_str n) = (if n = 0 then None else Some n)"
  by (simp add: lock_owner_def trim_nat_str parse_int_nat_str)

lemma lock_owner_Nil [simp]: "lock_owner [] = None"
  by (simp add: lock_owner_def trim_def trim_end_def parse_int_def)

subsection \<open>Mutual exclusion\<close>

text \<open>
  Executions in which a process exits only when it does not hold the lock and nobody is between
  reading its id from the lock file and asking whether it runs, and in which removing the file of a
  lock that is released does not fail; every other system call may.
\<close>

inductive calm_step :: "lock_sys \<Rightarrow> lock_sys \<Rightarrow> bool" where
  calm_run: "calm_step s (lock_next p s)"
| calm_fault: "(\<And>i. pc s p \<noteq> Held i) \<Longrightarrow> calm_step s (lock_fault p s)"
| calm_exit: "(\<And>i. pc s p \<noteq> Filling i \<and> pc s p \<noteq> Held i) \<Longrightarrow> (\<And>q. pc s q \<noteq> Check p) \<Longrightarrow> calm_step s (goto p Gone s)"

lemma calm_is_step: "calm_step s s' \<Longrightarrow> lock_step s s'"
  by (auto elim!: calm_step.cases intro: lock_step.intros)

text \<open>A move between program points outside the critical section changes nothing.\<close>

definition outside :: "lock_pc \<Rightarrow> bool" where
  "outside l \<longleftrightarrow> (case l of Filling _ \<Rightarrow> False | Held _ \<Rightarrow> False | _ \<Rightarrow> True)"

text \<open>Who owns the file: a process that has the lock, or one that failed to write its id and left it empty.\<close>

definition owner_of :: "lock_sys \<Rightarrow> nat \<Rightarrow> nat \<Rightarrow> bool" where
  "owner_of s i p \<longleftrightarrow> pc s p = Filling i \<and> content s i = [] \<or> pc s p = Held i \<and> content s i = nat_str p \<or>
     outside (pc s p) \<and> content s i = []"

definition sole_owner :: "lock_sys \<Rightarrow> bool" where
  "sole_owner s \<longleftrightarrow>
     (case entry s of
        None \<Rightarrow> \<forall>p i. pc s p \<noteq> Filling i \<and> pc s p \<noteq> Held i
      | Some i \<Rightarrow> \<exists>p. owner_of s i p \<and> (\<forall>q j. q \<noteq> p \<longrightarrow> pc s q \<noteq> Filling j \<and> pc s q \<noteq> Held j)) \<and>
     (\<forall>q. pc s q \<noteq> Unlink) \<and> (\<forall>q n. pc s q = Check n \<longrightarrow> pc s n \<noteq> Gone)"

lemma sole_ownerI:
  assumes "entry s = None \<Longrightarrow> \<forall>p i. pc s p \<noteq> Filling i \<and> pc s p \<noteq> Held i"
    and "\<And>i. entry s = Some i \<Longrightarrow> \<exists>p. owner_of s i p \<and> (\<forall>q j. q \<noteq> p \<longrightarrow> pc s q \<noteq> Filling j \<and> pc s q \<noteq> Held j)"
    and "\<And>q. pc s q \<noteq> Unlink" and "\<And>q n. pc s q = Check n \<Longrightarrow> pc s n \<noteq> Gone"
  shows "sole_owner s"
  using assms by (auto simp: sole_owner_def split: option.splits)

lemma sole_owner_goto:
  assumes s: "sole_owner s" and "outside (pc s p)" and "outside l" and "l \<noteq> Unlink"
    and "\<And>n. l = Check n \<Longrightarrow> pc s n \<noteq> Gone" and "l = Gone \<Longrightarrow> (\<forall>q. pc s q \<noteq> Check p)"
    and "\<And>n. l = Check n \<Longrightarrow> n \<noteq> p"
  shows "sole_owner (goto p l s)"
proof (rule sole_ownerI)
  show "\<forall>q i. pc (goto p l s) q \<noteq> Filling i \<and> pc (goto p l s) q \<noteq> Held i" if "entry (goto p l s) = None"
    using that s assms(3) by (auto simp: sole_owner_def outside_def)
next
  fix i assume "entry (goto p l s) = Some i"
  then obtain w where "owner_of s i w" "\<forall>q j. q \<noteq> w \<longrightarrow> pc s q \<noteq> Filling j \<and> pc s q \<noteq> Held j"
    using s by (auto simp: sole_owner_def)
  then show "\<exists>w. owner_of (goto p l s) i w \<and> (\<forall>q j. q \<noteq> w \<longrightarrow> pc (goto p l s) q \<noteq> Filling j \<and> pc (goto p l s) q \<noteq> Held j)"
    using assms(2,3) by (intro exI [of _ w]) (auto simp: owner_of_def outside_def)
qed (use s assms in \<open>auto simp: sole_owner_def split: if_splits\<close>)

lemma sole_owner_create:
  assumes s: "sole_owner s" and p: "pc s p = Try1 \<and> l = Read \<or> pc s p = Try2 \<and> l = Refused"
  shows "sole_owner (create_lock p l s)"
proof (cases "entry s")
  case None
  then have none: "\<forall>p i. pc s p \<noteq> Filling i \<and> pc s p \<noteq> Held i" using s by (simp add: sole_owner_def)
  show ?thesis
    unfolding create_lock_def None option.case
    by (rule sole_ownerI) (use s p none in \<open>auto simp: owner_of_def sole_owner_def split: if_splits\<close>)
next
  case (Some i)
  have "sole_owner (goto p l s)"
    by (rule sole_owner_goto [OF s]) (use p in \<open>auto simp: outside_def\<close>)
  then show ?thesis by (simp add: create_lock_def Some)
qed

lemma sole_owner_run:
  assumes s: "sole_owner s"
  shows "sole_owner (lock_next p s)"
proof (cases "pc s p")
  case Read
  show ?thesis
  proof (cases "entry s")
    case None
    then show ?thesis
      using Read sole_owner_goto [OF s, of p Try2] by (simp add: lock_next_def outside_def)
  next
    case (Some i)
    then obtain w where w: "owner_of s i w" using s by (auto simp: sole_owner_def)
    have "lock_owner (content s i) = None \<or> lock_owner (content s i) = Some w \<and> pc s w \<noteq> Gone \<and> w \<noteq> p"
      using w Read by (auto simp: owner_of_def split: if_splits)
    then show ?thesis
    proof
      assume n: "lock_owner (content s i) = None"
      have "sole_owner (goto p Refused s)"
        by (rule sole_owner_goto [OF s]) (use Read in \<open>auto simp: outside_def\<close>)
      then show ?thesis by (simp add: lock_next_def Read Some n)
    next
      assume n: "lock_owner (content s i) = Some w \<and> pc s w \<noteq> Gone \<and> w \<noteq> p"
      have "sole_owner (goto p (Check w) s)"
        by (rule sole_owner_goto [OF s]) (use Read n in \<open>auto simp: outside_def\<close>)
      then show ?thesis using n by (simp add: lock_next_def Read Some)
    qed
  qed
next
  case (Check n)
  with s have "pc s n \<noteq> Gone" by (simp add: sole_owner_def)
  moreover have "sole_owner (goto p Refused s)"
    by (rule sole_owner_goto [OF s]) (use Check in \<open>auto simp: outside_def\<close>)
  ultimately show ?thesis by (simp add: lock_next_def Check)
next
  case (Filling i)
  then obtain j where j: "entry s = Some j" using s by (cases "entry s") (auto simp: sole_owner_def)
  with s obtain w where w: "owner_of s j w" "\<forall>q k. q \<noteq> w \<longrightarrow> pc s q \<noteq> Filling k \<and> pc s q \<noteq> Held k"
    by (auto simp: sole_owner_def)
  with Filling have "w = p" by metis
  with w have own: "owner_of s j p" "\<forall>q k. q \<noteq> p \<longrightarrow> pc s q \<noteq> Filling k \<and> pc s q \<noteq> Held k" by simp_all
  then have "i = j" using Filling by (auto simp: owner_of_def outside_def)
  show ?thesis
    unfolding lock_next_def Filling lock_pc.case
    by (rule sole_ownerI) (use s own j \<open>i = j\<close> in \<open>auto simp: owner_of_def sole_owner_def split: if_splits\<close>)
next
  case (Held i)
  then obtain j where j: "entry s = Some j" using s by (cases "entry s") (auto simp: sole_owner_def)
  with s obtain w where w: "owner_of s j w" "\<forall>q k. q \<noteq> w \<longrightarrow> pc s q \<noteq> Filling k \<and> pc s q \<noteq> Held k"
    by (auto simp: sole_owner_def)
  with Held have "w = p" by metis
  with w have own: "\<forall>q k. q \<noteq> p \<longrightarrow> pc s q \<noteq> Filling k \<and> pc s q \<noteq> Held k" by simp
  show ?thesis
    unfolding lock_next_def Held lock_pc.case
    by (rule sole_ownerI) (use s own in \<open>auto simp: sole_owner_def split: if_splits\<close>)
next
  case Unlink
  with s show ?thesis by (simp add: sole_owner_def)
qed (use s sole_owner_goto [OF s, of p Try1] sole_owner_goto [OF s, of p Idle]
      sole_owner_create [OF s, of p Read] sole_owner_create [OF s, of p Refused]
     in \<open>simp_all add: lock_next_def outside_def\<close>)

text \<open>A failed call leaves the critical section as it is, or leaves it with an empty file.\<close>

lemma sole_owner_fault:
  assumes s: "sole_owner s" and "\<And>i. pc s p \<noteq> Held i"
  shows "sole_owner (lock_fault p s)"
proof (cases "pc s p")
  case (Filling i)
  then obtain j where j: "entry s = Some j" using s by (cases "entry s") (auto simp: sole_owner_def)
  with s obtain w where w: "owner_of s j w" "\<forall>q k. q \<noteq> w \<longrightarrow> pc s q \<noteq> Filling k \<and> pc s q \<noteq> Held k"
    by (auto simp: sole_owner_def)
  with Filling have "w = p" by metis
  with w Filling have own: "content s j = []" "\<forall>q k. q \<noteq> p \<longrightarrow> pc s q \<noteq> Filling k \<and> pc s q \<noteq> Held k"
    by (auto simp: owner_of_def outside_def)
  show ?thesis
    unfolding lock_fault_def Filling lock_pc.case
    by (rule sole_ownerI) (use s own j in \<open>auto simp: owner_of_def outside_def sole_owner_def split: if_splits\<close>)
next
  case Unlink
  with s show ?thesis by (simp add: sole_owner_def)
qed (use s assms(2) sole_owner_goto [OF s, of p Idle] sole_owner_goto [OF s, of p Refused] in
    \<open>simp_all add: lock_fault_def outside_def\<close>)

lemma sole_owner_calm: "calm_step s s' \<Longrightarrow> sole_owner s \<Longrightarrow> sole_owner s'"
proof (induction rule: calm_step.induct)
  case (calm_run s p)
  then show ?case by (rule sole_owner_run)
next
  case (calm_fault s p)
  then show ?case by (intro sole_owner_fault)
next
  case (calm_exit s p)
  then show ?case
    using sole_owner_goto [OF calm_exit.prems, of p Gone] by (auto simp: outside_def split: lock_pc.splits)
qed

lemma sole_owner_reachable:
  assumes "calm_step\<^sup>*\<^sup>* s0 s" and "lock_init s0"
  shows "sole_owner s"
  using assms
proof (induction rule: rtranclp_induct)
  case base
  then show ?case by (auto simp: lock_init_def sole_owner_def)
qed (rule sole_owner_calm)

subsection \<open>Scripts of steps\<close>

datatype lock_act = Run nat | Exit nat

fun act :: "lock_act \<Rightarrow> lock_sys \<Rightarrow> lock_sys" where
  "act (Run p) s = lock_next p s"
| "act (Exit p) s = goto p Gone s"

lemma acts_reach: "lock_step\<^sup>*\<^sup>* s (fold act as s)"
proof (induction as arbitrary: s)
  case (Cons a as)
  have "lock_step s (act a s)" by (cases a) (auto intro: lock_step.intros)
  with Cons show ?case by (auto intro: converse_rtranclp_into_rtranclp)
qed simp

definition lock_start :: lock_sys where
  "lock_start = \<lparr>entry = None, content = (\<lambda>_. []), fresh = 0, pc = (\<lambda>_. Idle)\<rparr>"

lemma lock_init_start [simp]: "lock_init lock_start"
  by (simp add: lock_init_def lock_start_def)

lemmas lock_eval = lock_next_def create_lock_def lock_start_def

text \<open>
  Process 2 reads process 1's id; process 1 releases the lock and exits; process 3 acquires it;
  process 2 finds that process 1 is gone and removes the lock of process 3.
\<close>

definition race_script :: "lock_act list" where
  "race_script = [Run 1, Run 1, Run 1, Run 2, Run 2, Run 2, Run 1, Exit 1, Run 3, Run 3, Run 3, Run 2, Run 2, Run 2, Run 2]"

lemma stale_check_race:
  "\<exists>s. lock_step\<^sup>*\<^sup>* lock_start s \<and> holds_lock s 2 \<and> holds_lock s 3"
proof (intro exI conjI)
  show "lock_step\<^sup>*\<^sup>* lock_start (fold act race_script lock_start)" by (rule acts_reach)
qed (simp_all add: race_script_def lock_eval holds_lock_def)

text \<open>C9: While every process exits only without the lock and not while another one is between
  reading its id and asking whether it runs, and while no removal of a released lock's file fails,
  at most one process is in the critical section, however the system calls of any number of
  processes interleave, and whichever other system calls fail.\<close>

theorem lock_mutual_exclusion:
  assumes "calm_step\<^sup>*\<^sup>* s0 s" and "lock_init s0" and "holds_lock s p" and "holds_lock s q"
  shows "p = q"
proof (cases "entry s")
  case None
  with sole_owner_reachable [OF assms(1,2)] assms(3) show ?thesis by (auto simp: sole_owner_def holds_lock_def)
next
  case (Some i)
  with sole_owner_reachable [OF assms(1,2)] obtain w where "\<forall>q j. q \<noteq> w \<longrightarrow> pc s q \<noteq> Filling j \<and> pc s q \<noteq> Held j"
    by (auto simp: sole_owner_def)
  with assms(3,4) show ?thesis unfolding holds_lock_def by metis
qed

theorem lock_mutual_exclusion_witness:
  "\<exists>s. calm_step\<^sup>*\<^sup>* lock_start s \<and> (\<forall>q. holds_lock s q \<longrightarrow> q = 7) \<and> holds_lock s 7"
proof -
  let ?s = "lock_next 7 (lock_next 7 (lock_next 7 lock_start))"
  have r: "calm_step\<^sup>*\<^sup>* lock_start ?s"
    by (meson calm_run rtranclp.rtrancl_into_rtrancl rtranclp.rtrancl_refl)
  moreover have h: "holds_lock ?s 7" by (simp add: lock_eval holds_lock_def)
  ultimately show ?thesis using lock_mutual_exclusion [OF r lock_init_start _ h] by blast
qed

subsection \<open>One process at work\<close>

definition lock_file :: "lock_sys \<Rightarrow> jstr option" where
  "lock_file s = map_option (content s) (entry s)"

definition acquired :: "lock_sys \<Rightarrow> nat \<Rightarrow> bool \<Rightarrow> bool" where
  "acquired s p ok \<longleftrightarrow> (if ok then holds_lock s p else pc s p = Refused)"

text \<open>
  C10: The steps of one process alone are the function: within seven system calls it has the lock or
  is refused, as \<open>acquire_file_lock\<close> says, and leaves the file that \<open>acquire_file_lock\<close> says;
  in particular it ends, takes over the lock of a process that is gone, and never touches the
  lock of a running one or a file it cannot read an id from.
\<close>

theorem solo_acquire:
  assumes "pc s p = Idle"
  shows "\<exists>k \<le> 7. let s' = (lock_next p ^^ k) s; (file, ok) = acquire_file_lock (\<lambda>n. pc s n \<noteq> Gone) p (lock_file s)
     in lock_file s' = file \<and> acquired s' p ok"
proof -
  have one: "(lock_next p ^^ 3) s = lock_next p (lock_next p (lock_next p s))"
    and two: "(lock_next p ^^ 4) s = lock_next p ((lock_next p ^^ 3) s)"
    and three: "(lock_next p ^^ 7) s = lock_next p (lock_next p (lock_next p ((lock_next p ^^ 4) s)))"
    by (simp_all add: eval_nat_numeral)
  show ?thesis
  proof (cases "entry s")
    case None
    have "lock_file ((lock_next p ^^ 3) s) = Some (nat_str p) \<and> acquired ((lock_next p ^^ 3) s) p True"
      unfolding one by (simp add: lock_next_def create_lock_def assms None lock_file_def acquired_def holds_lock_def)
    then show ?thesis
      by (intro exI [of _ 3]) (simp add: acquire_file_lock_def lock_file_def None)
  next
    case (Some i)
    show ?thesis
    proof (cases "lock_owner (content s i)")
      case None
      have "lock_file ((lock_next p ^^ 3) s) = Some (content s i) \<and> acquired ((lock_next p ^^ 3) s) p False"
        unfolding one by (simp add: lock_next_def create_lock_def assms Some None lock_file_def acquired_def)
      then show ?thesis
        by (intro exI [of _ 3]) (simp add: acquire_file_lock_def lock_file_def Some None)
    next
      case n: (Some n)
      show ?thesis
      proof (cases "pc s n = Gone")
        case False
        have "lock_file ((lock_next p ^^ 4) s) = Some (content s i) \<and> acquired ((lock_next p ^^ 4) s) p False"
          unfolding two one by (simp add: lock_next_def create_lock_def assms Some n False lock_file_def acquired_def)
        with False show ?thesis
          by (intro exI [of _ 4]) (simp add: acquire_file_lock_def lock_file_def Some n)
      next
        case True
        with assms have "n \<noteq> p" by auto
        with True have "lock_file ((lock_next p ^^ 7) s) = Some (nat_str p) \<and> acquired ((lock_next p ^^ 7) s) p True"
          unfolding three two one
          by (simp add: lock_next_def create_lock_def assms Some n lock_file_def acquired_def holds_lock_def)
        with True show ?thesis
          by (intro exI [of _ 7]) (simp add: acquire_file_lock_def lock_file_def Some n)
      qed
    qed
  qed
qed

theorem solo_acquire_witness:
  "\<exists>k \<le> 7. let s' = (lock_next 4 ^^ k) lock_start;
     (file, ok) = acquire_file_lock (\<lambda>n. pc lock_start n \<noteq> Gone) 4 (lock_file lock_start)
     in lock_file s' = file \<and> acquired s' 4 ok"
  by (rule solo_acquire) (simp add: lock_start_def)

end
