(* ===== verification/Codec.thy ===== *)
theory Codec
  imports JsText
begin

text \<open>
  The byte encodings of the runtime library the program relies on: UTF-8
  (\<open>Buffer.from(s, 'utf-8')\<close> and \<open>buffer.toString('utf-8')\<close>, the latter total, with
  U+FFFD for each maximal ill-formed subpart), base64 and 32-bit little-endian integers.
  Each comes with its round trip.
\<close>

abbreviation byte_of :: "nat \<Rightarrow> byte" where "byte_of \<equiv> word_of_nat"

lemma unat_byte_of: "n < 256 \<Longrightarrow> unat (byte_of n) = n"
  by (simp add: unat_of_nat)

lemma unat_byte_lt [simp]: "unat (b :: byte) < 256"
  using unsigned_less [of b, where 'a = nat] by simp

lemma map_unat_byte_of: "\<forall>n \<in> set ns. n < 256 \<Longrightarrow> map unat (map byte_of ns) = ns"
  by (induction ns) (auto simp: unat_byte_of)

lemma byte_of_unat [simp]: "byte_of (unat b) = b"
  by simp

subsection \<open>UTF-8\<close>

text \<open>A code point as bytes; a lone surrogate is written as U+FFFD.\<close>

definition utf8_cp :: "nat \<Rightarrow> nat list" where
  "utf8_cp c0 =
     (let c = (if 55296 \<le> c0 \<and> c0 \<le> 57343 then 65533 else c0) in
      if c < 128 then [c]
      else if c < 2048 then [192 + c div 64, 128 + c mod 64]
      else if c < 65536 then [224 + c div 4096, 128 + c div 64 mod 64, 128 + c mod 64]
      else [240 + c div 262144, 128 + c div 4096 mod 64, 128 + c div 64 mod 64, 128 + c mod 64])"

definition utf8_encode :: "jstr \<Rightarrow> bytes" where
  "utf8_encode s = map byte_of (concat (map utf8_cp (code_points s)))"

definition is_cont :: "nat \<Rightarrow> bool" where
  "is_cont c \<longleftrightarrow> 128 \<le> c \<and> c \<le> 191"

fun utf8_dec :: "nat list \<Rightarrow> nat list" where
  "utf8_dec [] = []"
| "utf8_dec (b # bs) =
     (if b < 128 then b # utf8_dec bs
      else if 194 \<le> b \<and> b \<le> 223 then
        (case bs of
           c1 # r1 \<Rightarrow> if is_cont c1 then ((b - 192) * 64 + (c1 - 128)) # utf8_dec r1
                      else 65533 # utf8_dec bs
         | [] \<Rightarrow> [65533])
      else if 224 \<le> b \<and> b \<le> 239 then
        (case bs of
           c1 # r1 \<Rightarrow>
             if (if b = 224 then 160 else 128) \<le> c1 \<and> c1 \<le> (if b = 237 then 159 else 191) then
               (case r1 of
                  c2 # r2 \<Rightarrow> if is_cont c2
                     then ((b - 224) * 4096 + (c1 - 128) * 64 + (c2 - 128)) # utf8_dec r2
                     else 65533 # utf8_dec r1
                | [] \<Rightarrow> [65533])
             else 65533 # utf8_dec bs
         | [] \<Rightarrow> [65533])
      else if 240 \<le> b \<and> b \<le> 244 then
        (case bs of
           c1 # r1 \<Rightarrow>
             if (if b = 240 then 144 else 128) \<le> c1 \<and> c1 \<le> (if b = 244 then 143 else 191) then
               (case r1 of
                  c2 # r2 \<Rightarrow> if is_cont c2 then
                     (case r2 of
                        c3 # r3 \<Rightarrow> if is_cont c3
                          then ((b - 240) * 262144 + (c1 - 128) * 4096 + (c2 - 128) * 64 + (c3 - 128))
                               # utf8_dec r3
                          else 65533 # utf8_dec r2
                      | [] \<Rightarrow> [65533])
                   else 65533 # utf8_dec r1
                | [] \<Rightarrow> [65533])
             else 65533 # utf8_dec bs
         | [] \<Rightarrow> [65533])
      else 65533 # utf8_dec bs)"

definition utf16_cp :: "nat \<Rightarrow> jstr" where
  "utf16_cp c = (if c < 65536 then [c] else [55296 + (c - 65536) div 1024, 56320 + (c - 65536) mod 1024])"

definition utf8_decode :: "bytes \<Rightarrow> jstr" where
  "utf8_decode bs = concat (map utf16_cp (utf8_dec (map unat bs)))"

text \<open>A scalar value: a code point that is not a surrogate.\<close>

definition scalar :: "nat \<Rightarrow> bool" where
  "scalar c \<longleftrightarrow> c < 1114112 \<and> \<not> (55296 \<le> c \<and> c \<le> 57343)"

lemma utf8_dec_ascii: "b < 128 \<Longrightarrow> utf8_dec (b # bs) = b # utf8_dec bs"
  by simp

lemma digits64:
  fixes c :: nat
  shows "c div 4096 * 4096 + c div 64 mod 64 * 64 + c mod 64 = c"
    and "c div 262144 * 262144 + c div 4096 mod 64 * 4096 + c div 64 mod 64 * 64 + c mod 64 = c"
proof -
  have d: "c div 4096 = c div 64 div 64" "c div 262144 = c div 64 div 64 div 64"
    by (simp_all add: div_mult2_eq [symmetric])
  have 1: "c = c div 64 * 64 + c mod 64" by simp
  have 2: "c div 64 = c div 4096 * 64 + c div 64 mod 64" unfolding d by simp
  have 3: "c div 4096 = c div 262144 * 64 + c div 4096 mod 64" unfolding d by simp
  from 1 2 show "c div 4096 * 4096 + c div 64 mod 64 * 64 + c mod 64 = c" by linarith
  from 1 2 3 show "c div 262144 * 262144 + c div 4096 mod 64 * 4096 + c div 64 mod 64 * 64 + c mod 64 = c"
    by linarith
qed

lemma utf8_dec_cp: "scalar c \<Longrightarrow> utf8_dec (utf8_cp c @ bs) = c # utf8_dec bs"
proof -
  assume c: "scalar c"
  then have u: "utf8_cp c = (if c < 128 then [c]
      else if c < 2048 then [192 + c div 64, 128 + c mod 64]
      else if c < 65536 then [224 + c div 4096, 128 + c div 64 mod 64, 128 + c mod 64]
      else [240 + c div 262144, 128 + c div 4096 mod 64, 128 + c div 64 mod 64, 128 + c mod 64])"
  proof -
    have "\<not> (55296 \<le> c \<and> c \<le> 57343)" using c by (simp add: scalar_def)
    then show ?thesis by (simp only: utf8_cp_def Let_def if_False)
  qed
  consider "c < 128" | "128 \<le> c" "c < 2048" | "2048 \<le> c" "c < 65536" | "65536 \<le> c" by linarith
  then show ?thesis
  proof cases
    case 2
    then have d: "2 \<le> c div 64" "c div 64 < 32" by auto
    then have "utf8_dec ([192 + c div 64, 128 + c mod 64] @ bs) = (c div 64 * 64 + c mod 64) # utf8_dec bs"
      by (simp add: is_cont_def)
    moreover have "utf8_cp c = [192 + c div 64, 128 + c mod 64]" unfolding u using 2 by simp
    ultimately show ?thesis by simp
  next
    case 3
    define h m l where "h = c div 4096" "m = c div 64 mod 64" "l = c mod 64"
    from 3 have b: "h < 16" "m < 64" "l < 64" by (auto simp: h_m_l_def)
    have eq: "c = h * 4096 + m * 64 + l" unfolding h_m_l_def by (simp only: digits64)
    from 3 eq b have lo: "h = 0 \<Longrightarrow> 32 \<le> m" by auto
    from c eq b have hi: "h = 13 \<Longrightarrow> m < 32" by (auto simp: scalar_def)
    show ?thesis
      unfolding u h_m_l_def [symmetric] using 3 b lo hi eq by (auto simp: is_cont_def)
  next
    case 4
    define g h m l where "g = c div 262144" "h = c div 4096 mod 64" "m = c div 64 mod 64" "l = c mod 64"
    from 4 c have b: "g \<le> 4" "h < 64" "m < 64" "l < 64" by (auto simp: g_h_m_l_def scalar_def)
    have eq: "c = g * 262144 + h * 4096 + m * 64 + l" unfolding g_h_m_l_def by (simp only: digits64)
    from 4 eq b have lo: "g = 0 \<Longrightarrow> 16 \<le> h" by auto
    from c eq b have hi: "g = 4 \<Longrightarrow> h < 16" by (auto simp: scalar_def)
    show ?thesis
      unfolding u g_h_m_l_def [symmetric] using 4 b lo hi eq by (auto simp: is_cont_def)
  qed (simp add: u)
qed

lemma utf8_dec_cps: "\<forall>c \<in> set cs. scalar c \<Longrightarrow> utf8_dec (concat (map utf8_cp cs)) = cs"
  by (induction cs) (simp_all add: utf8_dec_cp)

lemma utf8_cp_bytes: "c < 1114112 \<Longrightarrow> n \<in> set (utf8_cp c) \<Longrightarrow> n < 256"
  by (auto simp: utf8_cp_def Let_def split: if_splits)

text \<open>Code units are 16-bit values; a well-formed string is made of scalar values.\<close>

definition units :: "jstr \<Rightarrow> bool" where
  "units s \<longleftrightarrow> (\<forall>c \<in> set s. c < 65536)"

lemma code_points_scalar:
  "units s \<Longrightarrow> is_well_formed s \<Longrightarrow> c \<in> set (code_points s) \<Longrightarrow> scalar c"
  by (induction s rule: code_points.induct)
    (auto simp: units_def is_high_def is_low_def scalar_def split: if_splits)

lemma code_points_bound: "units s \<Longrightarrow> c \<in> set (code_points s) \<Longrightarrow> c < 1114112"
  by (induction s rule: code_points.induct)
    (auto simp: units_def is_high_def is_low_def split: if_splits)

lemma utf16_code_points: "units s \<Longrightarrow> concat (map utf16_cp (code_points s)) = s"
proof (induction s rule: code_points.induct)
  case (3 h l s)
  show ?case
  proof (cases "is_high h \<and> is_low l")
    case True
    then have "h = 55296 + (h - 55296)" "l = 56320 + (l - 56320)" "l - 56320 < 1024"
      by (auto simp: is_high_def is_low_def)
    then obtain a b where "h = 55296 + a" "l = 56320 + b" "b < 1024" by blast
    then have "utf16_cp (65536 + (h - 55296) * 1024 + (l - 56320)) = [h, l]"
      by (simp add: utf16_cp_def)
    with True 3 show ?thesis by (auto simp: units_def)
  next
    case False
    with 3 have "concat (map utf16_cp (code_points (l # s))) = l # s" by (simp add: units_def)
    moreover have "utf16_cp h = [h]" using 3(3) by (simp add: utf16_cp_def units_def)
    moreover have "code_points (h # l # s) = h # code_points (l # s)" using False by auto
    ultimately show ?thesis by (simp only: list.map concat.simps append_Cons append_Nil)
  qed
qed (simp_all add: utf16_cp_def units_def)

lemma utf8_roundtrip:
  assumes "units s" and "is_well_formed s"
  shows "utf8_decode (utf8_encode s) = s"
proof -
  have "\<forall>n \<in> set (concat (map utf8_cp (code_points s))). n < 256"
    using code_points_bound [OF assms(1)] utf8_cp_bytes by auto
  then have "map unat (utf8_encode s) = concat (map utf8_cp (code_points s))"
    unfolding utf8_encode_def by (rule map_unat_byte_of)
  moreover have "utf8_dec (concat (map utf8_cp (code_points s))) = code_points s"
    using code_points_scalar [OF assms] by (intro utf8_dec_cps) auto
  ultimately show ?thesis
    using utf16_code_points [OF assms(1)] by (simp add: utf8_decode_def)
qed

lemma utf8_encode_inj:
  "units s \<Longrightarrow> is_well_formed s \<Longrightarrow> units t \<Longrightarrow> is_well_formed t \<Longrightarrow>
     utf8_encode s = utf8_encode t \<longleftrightarrow> s = t"
  by (metis utf8_roundtrip)

lemma utf8_encode_ascii:
  assumes "\<forall>c \<in> set s. c < 128"
  shows "utf8_encode s = map byte_of s"
proof -
  have "code_points s = s" using assms by (intro code_points_ascii) auto
  moreover have "concat (map utf8_cp s) = s"
    using assms by (induction s) (auto simp: utf8_cp_def)
  ultimately show ?thesis by (simp add: utf8_encode_def)
qed

lemma utf8_decode_ascii:
  assumes "\<forall>b \<in> set bs. unat b < 128"
  shows "utf8_decode bs = map unat bs"
  using assms by (induction bs) (auto simp: utf8_decode_def utf16_cp_def)

lemma utf8_roundtrip_ascii: "\<forall>c \<in> set s. c < 128 \<Longrightarrow> utf8_decode (utf8_encode s) = s"
  by (intro utf8_roundtrip well_formed_ascii) (auto simp: units_def)

subsection \<open>Base64\<close>

definition b64_chars :: jstr where
  "b64_chars = lit ''ABCDEFGHIJKLMNOPQRSTUVWXYZabcdefghijklmnopqrstuvwxyz0123456789+/''"

definition b64_char :: "nat \<Rightarrow> nat" where
  "b64_char n = (if n < 26 then 65 + n else if n < 52 then 71 + n else if n < 62 then n - 4
                 else if n = 62 then 43 else 47)"

text \<open>The value of a base64 character, the URL alphabet included; other characters are skipped.\<close>

definition b64_val :: "nat \<Rightarrow> nat option" where
  "b64_val c = (if 65 \<le> c \<and> c \<le> 90 then Some (c - 65) else if 97 \<le> c \<and> c \<le> 122 then Some (c - 71)
     else if 48 \<le> c \<and> c \<le> 57 then Some (c + 4) else if c = 43 \<or> c = 45 then Some 62
     else if c = 47 \<or> c = 95 then Some 63 else None)"

lemma b64_val_char [simp]: "n < 64 \<Longrightarrow> b64_val (b64_char n) = Some n"
  by (auto simp: b64_val_def b64_char_def)

lemma b64_char_not_pad [simp]: "n < 64 \<Longrightarrow> b64_char n \<noteq> 61"
  by (auto simp: b64_char_def)

fun b64_enc :: "nat list \<Rightarrow> jstr" where
  "b64_enc [] = []"
| "b64_enc [a] = [b64_char (a div 4), b64_char (a mod 4 * 16), 61, 61]"
| "b64_enc [a, b] =
     [b64_char (a div 4), b64_char (a mod 4 * 16 + b div 16), b64_char (b mod 16 * 4), 61]"
| "b64_enc (a # b # c # bs) =
     b64_char (a div 4) # b64_char (a mod 4 * 16 + b div 16) #
     b64_char (b mod 16 * 4 + c div 64) # b64_char (c mod 64) # b64_enc bs"

fun b64_dec :: "nat list \<Rightarrow> nat list" where
  "b64_dec (p # q # r # s # vs) =
     (p * 4 + q div 16) # (q mod 16 * 16 + r div 4) # (r mod 4 * 64 + s) # b64_dec vs"
| "b64_dec [p, q, r] = [p * 4 + q div 16, q mod 16 * 16 + r div 4]"
| "b64_dec [p, q] = [p * 4 + q div 16]"
| "b64_dec _ = []"

definition base64_encode :: "bytes \<Rightarrow> jstr" where
  "base64_encode bs = b64_enc (map unat bs)"

definition base64_decode :: "jstr \<Rightarrow> bytes" where
  "base64_decode s = map byte_of (b64_dec (List.map_filter b64_val (takeWhile (\<lambda>c. c \<noteq> 61) s)))"

lemma b64_first: "b < (256::nat) \<Longrightarrow> a div 4 * 4 + (a mod 4 * 16 + b div 16) div 16 = a"
proof -
  assume "b < 256"
  then have "b div 16 < 16" by auto
  then have "(a mod 4 * 16 + b div 16) div 16 = a mod 4" by simp
  then show ?thesis by simp
qed

lemma b64_second:
  "b < (256::nat) \<Longrightarrow> c < 256 \<Longrightarrow> (a * 16 + b div 16) mod 16 * 16 + (b mod 16 * 4 + c div 64) div 4 = b"
proof -
  assume "b < 256" "c < 256"
  then have "b div 16 < 16" "c div 64 < 4" by auto
  then have "(a * 16 + b div 16) mod 16 = b div 16" "(b mod 16 * 4 + c div 64) div 4 = b mod 16" by simp_all
  then show ?thesis by simp
qed

lemma b64_third: "c < (256::nat) \<Longrightarrow> (b * 4 + c div 64) mod 4 * 64 + c mod 64 = c"
proof -
  assume "c < 256"
  then have "c div 64 < 4" by auto
  then have "(b * 4 + c div 64) mod 4 = c div 64" by simp
  then show ?thesis by simp
qed

lemma b64_mid: "b < (256::nat) \<Longrightarrow> b div 16 mod 16 * 16 + b mod 16 = b"
  by simp

lemma b64_roundtrip:
  "\<forall>n \<in> set ns. n < 256 \<Longrightarrow>
     b64_dec (List.map_filter b64_val (takeWhile (\<lambda>c. c \<noteq> 61) (b64_enc ns))) = ns"
proof (induction ns rule: b64_enc.induct)
  case (2 a)
  then have "a div 4 < 64" "a mod 4 * 16 < 64" by auto
  then show ?case using b64_first [of 0 a] by (simp add: map_filter_simps)
next
  case (3 a b)
  then have "a div 4 < 64" "a mod 4 * 16 + b div 16 < 64" "b mod 16 * 4 < 64" by auto
  with 3 show ?case
    using b64_first [of b a] b64_second [of b 0 "a mod 4"] by (simp add: map_filter_simps)
next
  case (4 a b c bs)
  then have "a div 4 < 64" "a mod 4 * 16 + b div 16 < 64" "b mod 16 * 4 + c div 64 < 64" "c mod 64 < 64"
    by auto
  with 4 show ?case
    using b64_first [of b a] b64_second [of b c "a mod 4"] b64_third [of c "b mod 16"] b64_mid [of b]
    by (simp add: map_filter_simps del: mod_less div_less)
qed (simp add: map_filter_simps)

lemma base64_roundtrip: "base64_decode (base64_encode bs) = bs"
proof -
  have "b64_dec (List.map_filter b64_val (takeWhile (\<lambda>c. c \<noteq> 61) (b64_enc (map unat bs)))) = map unat bs"
    by (rule b64_roundtrip) auto
  then show ?thesis by (simp add: base64_encode_def base64_decode_def o_def)
qed

lemma base64_encode_inj: "base64_encode a = base64_encode b \<longleftrightarrow> a = b"
  by (metis base64_roundtrip)

text \<open>The characters of an encoding.\<close>

definition is_b64 :: "nat \<Rightarrow> bool" where
  "is_b64 c \<longleftrightarrow> (65 \<le> c \<and> c \<le> 90) \<or> (97 \<le> c \<and> c \<le> 122) \<or> (48 \<le> c \<and> c \<le> 57) \<or> c = 43 \<or> c = 47"

lemma is_b64_char [simp]: "n < 64 \<Longrightarrow> is_b64 (b64_char n)"
  by (auto simp: is_b64_def b64_char_def)

lemma base64_chars: "c \<in> set (base64_encode bs) \<Longrightarrow> is_b64 c \<or> c = 61"
proof -
  have "\<forall>n \<in> set ns. n < 256 \<Longrightarrow> c \<in> set (b64_enc ns) \<Longrightarrow> is_b64 c \<or> c = 61" for ns
  proof (induction ns rule: b64_enc.induct)
    case (4 a b c' bs)
    then have "a div 4 < 64" "a mod 4 * 16 + b div 16 < 64" "b mod 16 * 4 + c' div 64 < 64" "c' mod 64 < 64"
      by auto
    with 4 show ?case by auto
  next
    case (3 a b)
    then have "a div 4 < 64" "a mod 4 * 16 + b div 16 < 64" "b mod 16 * 4 < 64" by auto
    with 3 show ?case by auto
  next
    case (2 a)
    then have "a div 4 < 64" "a mod 4 * 16 < 64" by auto
    with 2 show ?case by auto
  qed simp
  note chars = this [of "map unat bs"]
  assume "c \<in> set (base64_encode bs)"
  then show "is_b64 c \<or> c = 61" by (intro chars) (auto simp: base64_encode_def)
qed

lemma base64_ascii: "c \<in> set (base64_encode bs) \<Longrightarrow> 43 \<le> c \<and> c < 123 \<and> c \<noteq> 92"
  by (auto dest!: base64_chars simp: is_b64_def)

subsection \<open>32-bit little-endian integers\<close>

definition u32le :: "nat \<Rightarrow> bytes" where
  "u32le n = map byte_of [n mod 256, n div 256 mod 256, n div 65536 mod 256, n div 16777216 mod 256]"

definition read_u32le :: "bytes \<Rightarrow> nat \<Rightarrow> nat" where
  "read_u32le bs i =
     unat (bs ! i) + unat (bs ! (i + 1)) * 256 + unat (bs ! (i + 2)) * 65536
       + unat (bs ! (i + 3)) * 16777216"

lemma length_u32le [simp]: "length (u32le n) = 4"
  by (simp add: u32le_def)

lemma u32le_roundtrip:
  assumes "n < 2 ^ 32" and "length pre = i"
  shows "read_u32le (pre @ u32le n @ post) i = n"
proof -
  have d: "n div 65536 = n div 256 div 256" "n div 16777216 = n div 256 div 256 div 256"
    by (simp_all add: div_mult2_eq [symmetric])
  have q: "n div 16777216 mod 256 = n div 16777216" using assms(1) by simp
  moreover have "n = n mod 256 + n div 256 * 256" by simp
  moreover have "n div 256 = n div 256 mod 256 + n div 65536 * 256" unfolding d by simp
  moreover have "n div 65536 = n div 65536 mod 256 + n div 16777216 * 256" unfolding d by simp
  ultimately have "n mod 256 + n div 256 mod 256 * 256 + n div 65536 mod 256 * 65536
      + n div 16777216 mod 256 * 16777216 = n" by linarith
  then show ?thesis
    using assms q by (simp add: read_u32le_def u32le_def nth_append unat_byte_of)
qed

lemma u32le_inj: "m < 2 ^ 32 \<Longrightarrow> n < 2 ^ 32 \<Longrightarrow> u32le m = u32le n \<longleftrightarrow> m = n"
  by (metis list.size(3) u32le_roundtrip)

subsection \<open>Texts that survive UTF-8\<close>

definition text_ok :: "jstr \<Rightarrow> bool" where
  "text_ok s \<longleftrightarrow> units s \<and> is_well_formed s"

lemma units_append [simp]: "units (a @ b) \<longleftrightarrow> units a \<and> units b"
  by (auto simp: units_def)

lemma text_ok_Nil [simp]: "text_ok []"
  by (simp add: text_ok_def units_def)

lemma text_ok_append [intro]: "text_ok a \<Longrightarrow> text_ok b \<Longrightarrow> text_ok (a @ b)"
  by (simp add: text_ok_def well_formed_append)

lemma text_ok_ascii: "\<forall>c \<in> set s. c < 128 \<Longrightarrow> text_ok s"
  unfolding text_ok_def by (fastforce simp: units_def intro!: well_formed_ascii)

lemma text_ok_Cons [intro]:
  assumes "c < 55296" and "text_ok s"
  shows "text_ok (c # s)"
  using text_ok_append [of "[c]" s] assms by (simp add: text_ok_def units_def is_high_def is_low_def)

lemma text_ok_lit: "\<forall>c \<in> set s. (of_char c :: nat) < 128 \<Longrightarrow> text_ok (lit s)"
  by (rule text_ok_ascii) (simp add: lit_def)

lemma text_ok_nat_str [intro, simp]: "text_ok (nat_str n)"
  using nat_str_digits [of _ n] by (fastforce simp: is_digit_def intro!: text_ok_ascii)

lemma text_ok_base64 [intro, simp]: "text_ok (base64_encode bs)"
  using base64_ascii [of _ bs] by (fastforce intro!: text_ok_ascii)

lemma text_ok_concat: "\<forall>s \<in> set ss. text_ok s \<Longrightarrow> text_ok (concat ss)"
  by (induction ss) auto

lemma text_ok_join: "text_ok sep \<Longrightarrow> \<forall>s \<in> set ss. text_ok s \<Longrightarrow> text_ok (join sep ss)"
  by (induction sep ss rule: join.induct) auto

lemma text_ok_roundtrip: "text_ok s \<Longrightarrow> utf8_decode (utf8_encode s) = s"
  by (simp add: text_ok_def utf8_roundtrip)

lemma text_ok_units: "text_ok s \<Longrightarrow> units s"
  by (simp add: text_ok_def)

end
