(* ===== verification/Json.thy ===== *)
theory Json
  imports Codec
begin

text \<open>
  \<open>JSON.parse\<close> and \<open>JSON.stringify\<close> of the language's library, which the program uses for every
  record it stores or sends. A number is an exact decimal, mantissa times a power of ten, in
  the normal form whose mantissa has no factor ten; the rounding of a literal to binary64 is not
  modelled. An object is the list of its members in insertion order; a repeated key keeps its
  place and takes the last value. The order of integer-like keys and negative zero are not
  modelled. \<open>json_roundtrip\<close> shows that parsing inverts printing, compact or indented, and
  \<open>parse_fuel\<close> that the recursion bound never makes parsing fail.
\<close>

subsection \<open>Values\<close>

datatype dec = Dec int int

datatype json =
  JNull | JBool bool | JNum dec | JStr jstr | JArr "json list" | JObj "(jstr \<times> json) list"

function dec_norm :: "int \<Rightarrow> int \<Rightarrow> dec" where
  "dec_norm m e =
     (if m = 0 then Dec 0 0 else if m mod 10 = 0 then dec_norm (m div 10) (e + 1) else Dec m e)"
  by pat_completeness auto
termination
  by (relation "measure (\<lambda>(m, e). nat \<bar>m\<bar>)") auto

declare dec_norm.simps [simp del]

definition jint :: "int \<Rightarrow> json" where
  "jint n = JNum (dec_norm n 0)"

text \<open>\<open>Number.isInteger\<close>, with the integer.\<close>

fun dec_int :: "dec \<Rightarrow> int option" where
  "dec_int (Dec m e) = (if 0 \<le> e then Some (m * 10 ^ nat e) else None)"

lemma dec_int_norm: "0 \<le> e \<Longrightarrow> dec_int (dec_norm m e) = Some (m * 10 ^ nat e)"
proof (induction m e rule: dec_norm.induct)
  case (1 m e)
  show ?case
  proof (cases "m \<noteq> 0 \<and> m mod 10 = 0")
    case True
    then have "dec_int (dec_norm m e) = dec_int (dec_norm (m div 10) (e + 1))"
      by (simp add: dec_norm.simps [of m e])
    also have "\<dots> = Some (m div 10 * 10 ^ nat (e + 1))"
      using 1 True by simp
    also have "m div 10 * 10 ^ nat (e + 1) = m * 10 ^ nat e"
      using True \<open>0 \<le> e\<close> by (auto simp: nat_add_distrib elim!: dvdE simp flip: dvd_eq_mod_eq_0)
    finally show ?thesis .
  next
    case False
    then show ?thesis using 1 by (auto simp: dec_norm.simps [of m e])
  qed
qed

lemma jint_inj [simp]: "jint a = jint b \<longleftrightarrow> a = b"
proof
  assume "jint a = jint b"
  then have "dec_int (dec_norm a 0) = dec_int (dec_norm b 0)" by (simp add: jint_def)
  then show "a = b" by (simp add: dec_int_norm)
qed simp

definition obj_get :: "(jstr \<times> json) list \<Rightarrow> string \<Rightarrow> json option" where
  "obj_get m k = map_of m (lit k)"

text \<open>\<open>(v as \{k?: unknown\}).k\<close>, with None for undefined; a value that is no object has no such member.\<close>

fun get_member :: "json \<Rightarrow> string \<Rightarrow> json option" where
  "get_member (JObj m) k = obj_get m k"
| "get_member _ k = None"

fun as_str :: "json option \<Rightarrow> jstr option" where
  "as_str (Some (JStr s)) = Some s"
| "as_str _ = None"

fun as_int :: "json option \<Rightarrow> int option" where
  "as_int (Some (JNum d)) = dec_int d"
| "as_int _ = None"

text \<open>The value as a condition.\<close>

fun truthy :: "json option \<Rightarrow> bool" where
  "truthy None = False"
| "truthy (Some JNull) = False"
| "truthy (Some (JBool b)) = b"
| "truthy (Some (JNum (Dec m e))) = (m \<noteq> 0)"
| "truthy (Some (JStr s)) = (s \<noteq> [])"
| "truthy (Some _) = True"

text \<open>\<open>typeof v === 'object' && v !== null\<close>: an array passes too.\<close>

fun is_object :: "json \<Rightarrow> bool" where
  "is_object (JObj _) = True"
| "is_object (JArr _) = True"
| "is_object _ = False"

subsection \<open>Printing\<close>

definition hex_char :: "nat \<Rightarrow> nat" where
  "hex_char d = (if d < 10 then 48 + d else 87 + d)"

definition hex4 :: "nat \<Rightarrow> jstr" where
  "hex4 c = [hex_char (c div 4096 mod 16), hex_char (c div 256 mod 16), hex_char (c div 16 mod 16), hex_char (c mod 16)]"

definition quote_unit :: "nat \<Rightarrow> jstr" where
  "quote_unit c =
     (if c = 34 then [92, 34] else if c = 92 then [92, 92] else if c = 8 then [92, 98]
      else if c = 12 then [92, 102] else if c = 10 then [92, 110] else if c = 13 then [92, 114]
      else if c = 9 then [92, 116] else if c < 32 \<or> is_high c \<or> is_low c then [92, 117] @ hex4 c
      else [c])"

fun quote_units :: "jstr \<Rightarrow> jstr" where
  "quote_units [] = []"
| "quote_units [c] = quote_unit c"
| "quote_units (h # l # s) =
     (if is_high h \<and> is_low l then h # l # quote_units s else quote_unit h @ quote_units (l # s))"

definition quote_str :: "jstr \<Rightarrow> jstr" where
  "quote_str s = [34] @ quote_units s @ [34]"

text \<open>\<open>String(x)\<close> of a number: plain digits, a decimal point, or an exponent.\<close>

fun dec_str :: "dec \<Rightarrow> jstr" where
  "dec_str (Dec m e) =
     (let s = nat_str (nat \<bar>m\<bar>); k = int (length s); n = k + e; sg = (if m < 0 then [45] else []) in
      if m = 0 then [48]
      else sg @ (if k \<le> n \<and> n \<le> 21 then s @ replicate (nat (n - k)) 48
        else if 0 < n \<and> n \<le> 21 then take (nat n) s @ [46] @ drop (nat n) s
        else if -6 < n \<and> n \<le> 0 then [48, 46] @ replicate (nat (- n)) 48 @ s
        else take 1 s @ (if k = 1 then [] else [46] @ drop 1 s) @ [101] @
          (if n - 1 < 0 then [45] else [43]) @ nat_str (nat \<bar>n - 1\<bar>)))"

text \<open>
  The layout: \<open>nl d\<close> is what stands between the items at depth \<open>d\<close>, \<open>sp\<close> what follows a colon.
\<close>

fun json_ser :: "(nat \<Rightarrow> jstr) \<Rightarrow> jstr \<Rightarrow> nat \<Rightarrow> json \<Rightarrow> jstr" where
  "json_ser nl sp d JNull = lit ''null''"
| "json_ser nl sp d (JBool b) = (if b then lit ''true'' else lit ''false'')"
| "json_ser nl sp d (JNum n) = dec_str n"
| "json_ser nl sp d (JStr s) = quote_str s"
| "json_ser nl sp d (JArr xs) =
     (if xs = [] then [91, 93]
      else [91] @ nl (Suc d) @ join ([44] @ nl (Suc d)) (map (json_ser nl sp (Suc d)) xs) @ nl d @ [93])"
| "json_ser nl sp d (JObj m) =
     (if m = [] then [123, 125]
      else [123] @ nl (Suc d) @
        join ([44] @ nl (Suc d)) (map (\<lambda>(k, v). quote_str k @ [58] @ sp @ json_ser nl sp (Suc d) v) m) @
        nl d @ [125])"

text \<open>\<open>JSON.stringify(v)\<close> and \<open>JSON.stringify(v, null, 2)\<close>.\<close>

definition json_stringify :: "json \<Rightarrow> jstr" where
  "json_stringify v = json_ser (\<lambda>_. []) [] 0 v"

definition json_pretty :: "json \<Rightarrow> jstr" where
  "json_pretty v = json_ser (\<lambda>d. 10 # replicate (2 * d) 32) [32] 0 v"

subsection \<open>Parsing\<close>

definition is_ws :: "nat \<Rightarrow> bool" where
  "is_ws c \<longleftrightarrow> c = 32 \<or> c = 9 \<or> c = 10 \<or> c = 13"

definition skip_ws :: "jstr \<Rightarrow> jstr" where
  "skip_ws s = dropWhile is_ws s"

definition hex_val :: "nat \<Rightarrow> nat option" where
  "hex_val c = (if 48 \<le> c \<and> c \<le> 57 then Some (c - 48) else if 97 \<le> c \<and> c \<le> 102 then Some (c - 87)
     else if 65 \<le> c \<and> c \<le> 70 then Some (c - 55) else None)"

definition unhex4 :: "nat \<Rightarrow> nat \<Rightarrow> nat \<Rightarrow> nat \<Rightarrow> nat option" where
  "unhex4 a b c d = (case (hex_val a, hex_val b, hex_val c, hex_val d) of
     (Some w, Some x, Some y, Some z) \<Rightarrow> Some (w * 4096 + x * 256 + y * 16 + z) | _ \<Rightarrow> None)"

definition simple_escape :: "nat \<Rightarrow> nat option" where
  "simple_escape c = (if c = 34 \<or> c = 92 \<or> c = 47 then Some c else if c = 98 then Some 8
     else if c = 102 then Some 12 else if c = 110 then Some 10 else if c = 114 then Some 13
     else if c = 116 then Some 9 else None)"

text \<open>The rest of a string literal after its opening quote.\<close>

fun parse_str :: "jstr \<Rightarrow> (jstr \<times> jstr) option" where
  "parse_str [] = None"
| "parse_str (c # s) =
     (if c = 34 then Some ([], s)
      else if c < 32 then None
      else if c \<noteq> 92 then (case parse_str s of None \<Rightarrow> None | Some (t, r) \<Rightarrow> Some (c # t, r))
      else (case s of
          e # s' \<Rightarrow>
            (case simple_escape e of
               Some x \<Rightarrow> (case parse_str s' of None \<Rightarrow> None | Some (t, r) \<Rightarrow> Some (x # t, r))
             | None \<Rightarrow>
                 (if e = 117 then
                    (case s' of
                       h1 # h2 # h3 # h4 # s'' \<Rightarrow>
                         (case unhex4 h1 h2 h3 h4 of None \<Rightarrow> None
                          | Some x \<Rightarrow> (case parse_str s'' of None \<Rightarrow> None | Some (t, r) \<Rightarrow> Some (x # t, r)))
                     | _ \<Rightarrow> None)
                  else None))
        | [] \<Rightarrow> None))"

definition digit_run :: "jstr \<Rightarrow> jstr" where
  "digit_run s = takeWhile is_digit s"

definition digits_nat :: "jstr \<Rightarrow> nat" where
  "digits_nat s = digits_val 0 s"

text \<open>The exponent of a number, if one follows.\<close>

definition parse_exp :: "jstr \<Rightarrow> (int \<times> jstr) option" where
  "parse_exp s = (case s of
     c # t \<Rightarrow> (if c = 101 \<or> c = 69 then
         (let (sg, u) = (case t of x # y \<Rightarrow> (if x = 45 then (-1, y) else if x = 43 then (1, y) else (1, t)) | [] \<Rightarrow> (1 :: int, t));
              ds = digit_run u in
          if ds = [] then None else Some (sg * int (digits_nat ds), drop (length ds) u))
       else Some (0, s))
   | [] \<Rightarrow> Some (0, s))"

text \<open>A number after its sign.\<close>

definition parse_unsigned :: "int \<Rightarrow> jstr \<Rightarrow> (dec \<times> jstr) option" where
  "parse_unsigned sg s =
     (let ip = digit_run s; t = drop (length ip) s in
      if ip = [] \<or> (hd ip = 48 \<and> ip \<noteq> [48]) then None
      else (let (fp, bad, u) = (case t of
                c # t' \<Rightarrow> (if c = 46 then (digit_run t', digit_run t' = [], drop (length (digit_run t')) t') else ([], False, t))
              | [] \<Rightarrow> ([], False, t)) in
        if bad then None
        else (case parse_exp u of None \<Rightarrow> None
          | Some (x, w) \<Rightarrow> Some (dec_norm (sg * int (digits_nat (ip @ fp))) (x - int (length fp)), w))))"

definition parse_num :: "jstr \<Rightarrow> (dec \<times> jstr) option" where
  "parse_num s = (case s of c # t \<Rightarrow> if c = 45 then parse_unsigned (-1) t else parse_unsigned 1 s | [] \<Rightarrow> None)"

definition parse_scalar :: "jstr \<Rightarrow> (json \<times> jstr) option" where
  "parse_scalar s =
     (if starts_with (lit ''null'') s then Some (JNull, drop 4 s)
      else if starts_with (lit ''true'') s then Some (JBool True, drop 4 s)
      else if starts_with (lit ''false'') s then Some (JBool False, drop 5 s)
      else map_option (\<lambda>(n, r). (JNum n, r)) (parse_num s))"

fun parse_val :: "nat \<Rightarrow> jstr \<Rightarrow> (json \<times> jstr) option"
  and parse_elems :: "nat \<Rightarrow> jstr \<Rightarrow> json list \<Rightarrow> (json \<times> jstr) option"
  and parse_members :: "nat \<Rightarrow> jstr \<Rightarrow> (jstr \<times> json) list \<Rightarrow> (json \<times> jstr) option"
where
  "parse_val 0 s = None"
| "parse_val (Suc f) s =
     (case skip_ws s of
        [] \<Rightarrow> None
      | c # t \<Rightarrow>
          (if c = 34 then map_option (\<lambda>(x, r). (JStr x, r)) (parse_str t)
           else if c = 91 then
             (case skip_ws t of
                [] \<Rightarrow> None
              | x # u \<Rightarrow> if x = 93 then Some (JArr [], u) else parse_elems f t [])
           else if c = 123 then
             (case skip_ws t of
                [] \<Rightarrow> None
              | x # u \<Rightarrow> if x = 125 then Some (JObj [], u) else parse_members f t [])
           else parse_scalar (c # t)))"
| "parse_elems 0 s acc = None"
| "parse_elems (Suc f) s acc =
     (case parse_val f s of
        None \<Rightarrow> None
      | Some (v, t) \<Rightarrow>
          (case skip_ws t of
             [] \<Rightarrow> None
           | x # u \<Rightarrow> if x = 44 then parse_elems f u (acc @ [v])
                      else if x = 93 then Some (JArr (acc @ [v]), u) else None))"
| "parse_members 0 s acc = None"
| "parse_members (Suc f) s acc =
     (case skip_ws s of
        [] \<Rightarrow> None
      | q # t \<Rightarrow>
          (if q \<noteq> 34 then None
           else (case parse_str t of
               None \<Rightarrow> None
             | Some (k, u) \<Rightarrow>
                 (case skip_ws u of
                    [] \<Rightarrow> None
                  | x # w \<Rightarrow>
                      (if x \<noteq> 58 then None
                       else (case parse_val f w of
                           None \<Rightarrow> None
                         | Some (v, y) \<Rightarrow>
                             (case skip_ws y of
                                [] \<Rightarrow> None
                              | z # r \<Rightarrow> if z = 44 then parse_members f r (map_set acc k v)
                                        else if z = 125 then Some (JObj (map_set acc k v), r)
                                        else None))))))) "

definition json_parse :: "jstr \<Rightarrow> json option" where
  "json_parse s = (case parse_val (Suc (2 * length s)) s of
     Some (v, r) \<Rightarrow> if skip_ws r = [] then Some v else None | None \<Rightarrow> None)"

subsection \<open>The recursion bound is enough\<close>

lemma skip_ws_length: "length (skip_ws s) \<le> length s"
  unfolding skip_ws_def by (rule length_dropWhile_le)

lemma parse_str_length: "parse_str s = Some (t, r) \<Longrightarrow> length r < length s"
proof (induction s arbitrary: t r rule: parse_str.induct)
  case (2 c s)
  show ?case
  proof (cases "c = 34 \<or> c < 32 \<or> c \<noteq> 92")
    case True
    with 2 show ?thesis by (fastforce split: if_splits option.splits)
  next
    case False
    then show ?thesis using 2 by (fastforce split: if_splits option.splits list.splits)
  qed
qed simp

lemma parse_exp_length: "parse_exp s = Some (x, r) \<Longrightarrow> length r \<le> length s"
  by (auto simp: parse_exp_def Let_def split: if_splits option.splits list.splits)

lemma parse_unsigned_length:
  assumes "parse_unsigned sg s = Some (n, r)" shows "length r < length s"
proof -
  let ?ip = "digit_run s"
  from assms have ip: "?ip \<noteq> []" by (auto simp: parse_unsigned_def Let_def split: if_splits)
  have le: "length ?ip \<le> length s" by (simp add: digit_run_def length_takeWhile_le)
  define t where "t = drop (length ?ip) s"
  from assms have "length r \<le> length t"
    unfolding parse_unsigned_def Let_def t_def [symmetric]
    by (auto split: if_splits option.splits list.splits dest!: parse_exp_length)
  moreover have "0 < length ?ip" using ip by simp
  ultimately show ?thesis using le by (simp add: t_def del: length_greater_0_conv)
qed

lemma parse_num_length: "parse_num s = Some (n, r) \<Longrightarrow> length r < length s"
  by (auto simp: parse_num_def split: if_splits list.splits dest!: parse_unsigned_length)

lemma starts_with_length: "starts_with p s \<Longrightarrow> length p \<le> length s"
  by (metis length_take min.cobounded1 min.commute starts_with_def)

lemma parse_scalar_length: "parse_scalar s = Some (v, r) \<Longrightarrow> length r < length s"
  unfolding parse_scalar_def
  by (auto split: if_splits dest!: starts_with_length parse_num_length)

lemma skip_ws_Cons_length: "skip_ws s = c # t \<Longrightarrow> length t < length s"
  using skip_ws_length [of s] by simp

lemma parse_length:
  "parse_val f s = Some (v, r) \<Longrightarrow> length r < length s"
  "parse_elems f s acc = Some (v, r) \<Longrightarrow> length r < length s"
  "parse_members f s m = Some (v, r) \<Longrightarrow> length r < length s"
proof (induction f s and f s acc and f s m arbitrary: v r and v r and v r
    rule: parse_val_parse_elems_parse_members.induct)
  case (2 f s)
  obtain c t where ct: "skip_ws s = c # t" using "2.prems" by (auto split: list.splits)
  have "length t < length s" by (rule skip_ws_Cons_length [OF ct])
  moreover have "length r \<le> length t" if "c = 34" using 2 ct that by (auto dest: parse_str_length)
  moreover have "length r \<le> length t" if nine: "c = 91"
  proof -
    obtain x u where xu: "skip_ws t = x # u" using "2.prems" ct nine by (cases "skip_ws t") auto
    show ?thesis
      using "2.prems" ct nine xu "2.IH"(1) [OF ct _ nine xu] skip_ws_Cons_length [OF xu]
      by (cases "x = 93") (auto dest: order.strict_implies_order)
  qed
  moreover have "length r \<le> length t" if nine: "c = 123"
  proof -
    obtain x u where xu: "skip_ws t = x # u" using "2.prems" ct nine by (cases "skip_ws t") auto
    show ?thesis
      using "2.prems" ct nine xu "2.IH"(2) [OF ct _ _ nine xu] skip_ws_Cons_length [OF xu]
      by (cases "x = 125") (auto dest: order.strict_implies_order)
  qed
  moreover have "length r \<le> length t" if "c \<noteq> 34" "c \<noteq> 91" "c \<noteq> 123"
    using 2 ct that by (auto dest: parse_scalar_length)
  ultimately show ?case by force
next
  case (4 f s acc)
  obtain v' t where vt: "parse_val f s = Some (v', t)" using "4.prems" by (auto split: option.splits)
  obtain x u where xu: "skip_ws t = x # u" using "4.prems" vt by (auto split: list.splits)
  have "length t < length s" by (rule "4.IH"(1) [OF vt])
  moreover have "length u < length t" by (rule skip_ws_Cons_length [OF xu])
  moreover have "length r \<le> length u"
    using "4.prems" vt xu "4.IH"(2) [OF vt refl xu] by (auto split: if_splits dest: order.strict_implies_order)
  ultimately show ?case by simp
next
  case (6 f s m)
  obtain q t where qt: "skip_ws s = q # t" "q = 34" using "6.prems" by (auto split: list.splits if_splits)
  obtain k u where ku: "parse_str t = Some (k, u)" using "6.prems" qt by (auto split: option.splits)
  obtain x w where xw: "skip_ws u = x # w" "x = 58" using "6.prems" qt ku by (auto split: list.splits if_splits)
  obtain v' y where vy: "parse_val f w = Some (v', y)" using "6.prems" qt ku xw by (auto split: option.splits)
  obtain z r' where zr: "skip_ws y = z # r'" using "6.prems" qt ku xw vy by (auto split: list.splits)
  have "length t < length s" by (rule skip_ws_Cons_length [OF qt(1)])
  moreover have "length u < length t" by (rule parse_str_length [OF ku])
  moreover have "length w < length u" by (rule skip_ws_Cons_length [OF xw(1)])
  moreover have "length y < length w" using "6.IH"(1) [OF qt(1) _ ku refl xw(1) _ vy] qt xw by simp
  moreover have "length r' < length y" by (rule skip_ws_Cons_length [OF zr])
  moreover have "length r \<le> length r'"
    using "6.prems" qt ku xw vy zr "6.IH"(2) [OF qt(1) _ ku refl xw(1) _ vy refl zr]
    by (auto split: if_splits dest: order.strict_implies_order)
  ultimately show ?case by simp
qed simp_all

lemma parse_fuel_step:
  "2 * length s + 1 \<le> f \<Longrightarrow> parse_val (Suc f) s = parse_val f s"
  "2 * length s + 2 \<le> f \<Longrightarrow> parse_elems (Suc f) s acc = parse_elems f s acc"
  "2 * length s + 2 \<le> f \<Longrightarrow> parse_members (Suc f) s m = parse_members f s m"
proof (induction f s and f s acc and f s m rule: parse_val_parse_elems_parse_members.induct)
  case (2 f s)
  show ?case
  proof (cases "skip_ws s")
    case (Cons c t)
    have len: "length t < length s" by (rule skip_ws_Cons_length [OF Cons])
    have elems: "parse_elems (Suc f) t [] = parse_elems f t []"
      if "c = 91" "skip_ws t = x # u" "x \<noteq> 93" for x u
      using "2.IH"(1) [OF Cons _ that(1,2,3)] that "2.prems" len by simp
    have membs: "parse_members (Suc f) t [] = parse_members f t []"
      if "c = 123" "skip_ws t = x # u" "x \<noteq> 125" for x u
      using "2.IH"(2) [OF Cons _ _ that(1,2,3)] that "2.prems" len by simp
    show ?thesis
      unfolding parse_val.simps(2) [of "Suc f"] parse_val.simps(2) [of f] Cons
      using elems membs by (auto split: list.split)
  qed simp
next
  case (4 f s acc)
  have val: "parse_val (Suc f) s = parse_val f s" using "4.IH"(1) "4.prems" by simp
  show ?case
  proof (cases "parse_val f s")
    case (Some p)
    obtain v t where p: "p = (v, t)" by (cases p)
    have len: "length t < length s" by (rule parse_length(1) [OF Some [unfolded p]])
    have "parse_elems (Suc f) u (acc @ [v]) = parse_elems f u (acc @ [v])" if "skip_ws t = 44 # u" for u
      using "4.IH"(2) [OF Some p [symmetric] that refl] "4.prems" len skip_ws_Cons_length [OF that] by simp
    then show ?thesis
      unfolding parse_elems.simps(2) [of "Suc f"] parse_elems.simps(2) [of f] val
      by (auto simp: Some p split: list.split)
  next
    case None
    then show ?thesis
      unfolding parse_elems.simps(2) [of "Suc f"] parse_elems.simps(2) [of f] val by simp
  qed
next
  case (6 f s m)
  have val: "parse_val (Suc f) w = parse_val f w"
    if "skip_ws s = 34 # t" "parse_str t = Some (k, u)" "skip_ws u = 58 # w" for t k u w
    using "6.IH"(1) [OF that(1) _ that(2) refl that(3)] "6.prems" skip_ws_Cons_length [OF that(1)]
      parse_str_length [OF that(2)] skip_ws_Cons_length [OF that(3)] by simp
  have rest: "parse_members (Suc f) r (map_set m k v) = parse_members f r (map_set m k v)"
    if "skip_ws s = 34 # t" "parse_str t = Some (k, u)" "skip_ws u = 58 # w" "parse_val f w = Some (v, y)"
      "skip_ws y = 44 # r" for t k u w v y r
    using "6.IH"(2) [OF that(1) _ that(2) refl that(3) _ that(4) refl that(5) refl] "6.prems"
      skip_ws_Cons_length [OF that(1)] parse_str_length [OF that(2)] skip_ws_Cons_length [OF that(3)]
      parse_length(1) [OF that(4)] skip_ws_Cons_length [OF that(5)] by simp
  show ?case
    unfolding parse_members.simps(2) [of "Suc f"] parse_members.simps(2) [of f]
    using val rest by (auto split: list.split option.split)
qed simp_all

lemma parse_fuel: "2 * length s + 1 \<le> f \<Longrightarrow> parse_val f s = parse_val (Suc (2 * length s)) s"
proof (induction f)
  case (Suc f)
  then show ?case
    using parse_fuel_step(1) [of s f] by (cases "2 * length s + 1 \<le> f") (auto simp: not_le less_Suc_eq)
qed simp

subsection \<open>Parsing inverts printing\<close>

fun wf_json :: "json \<Rightarrow> bool" where
  "wf_json JNull = True"
| "wf_json (JBool b) = True"
| "wf_json (JNum n) = (case dec_int n of Some i \<Rightarrow> JNum n = jint i \<and> \<bar>i\<bar> < 10 ^ 21 | None \<Rightarrow> False)"
| "wf_json (JStr s) = units s"
| "wf_json (JArr xs) = list_all wf_json xs"
| "wf_json (JObj m) = (distinct (map fst m) \<and> list_all (\<lambda>(k, v). units k \<and> wf_json v) m)"

lemma hex_val_char: "d < 16 \<Longrightarrow> hex_val (hex_char d) = Some d"
  by (auto simp: hex_val_def hex_char_def)

lemma unhex_hex4: "c < 65536 \<Longrightarrow> hex4 c = [h1, h2, h3, h4] \<Longrightarrow> unhex4 h1 h2 h3 h4 = Some c"
proof -
  assume c: "c < 65536" and "hex4 c = [h1, h2, h3, h4]"
  then have "unhex4 h1 h2 h3 h4 =
      Some (c div 4096 mod 16 * 4096 + c div 256 mod 16 * 256 + c div 16 mod 16 * 16 + c mod 16)"
    by (auto simp: hex4_def unhex4_def hex_val_char)
  moreover have "c div 4096 mod 16 = c div 4096" using c by simp
  moreover have "c div 4096 = c div 256 div 16" "c div 256 = c div 16 div 16"
    by (simp_all flip: div_mult2_eq)
  moreover have "x * 4096 + y * 256 + z * 16 + w = (c :: nat)"
    if "x * 16 + y = u" "u * 16 + z = v" "v * 16 + w = c" for x y z w u v
    using that by linarith
  from this [OF div_mult_mod_eq div_mult_mod_eq div_mult_mod_eq]
  have "c div 16 div 16 div 16 * 4096 + c div 16 div 16 mod 16 * 256 + c div 16 mod 16 * 16 + c mod 16 = c" .
  ultimately show ?thesis by simp
qed

lemma parse_str_quote_unit:
  assumes "c < 65536"
  shows "parse_str (quote_unit c @ s) = (case parse_str s of None \<Rightarrow> None | Some (t, r) \<Rightarrow> Some (c # t, r))"
proof (cases "c = 34 \<or> c = 92 \<or> c = 8 \<or> c = 12 \<or> c = 10 \<or> c = 13 \<or> c = 9")
  case True
  then show ?thesis by (auto simp: quote_unit_def simple_escape_def)
next
  case False
  obtain h1 h2 h3 h4 where h: "hex4 c = [h1, h2, h3, h4]" by (simp add: hex4_def)
  show ?thesis
    using False unhex_hex4 [OF assms h] by (auto simp: quote_unit_def simple_escape_def h)
qed

lemma parse_str_plain:
  "is_high c \<or> is_low c \<Longrightarrow> parse_str (c # s) = (case parse_str s of None \<Rightarrow> None | Some (t, r) \<Rightarrow> Some (c # t, r))"
  by (auto simp: is_high_def is_low_def)

lemma parse_quote_units: "units s \<Longrightarrow> parse_str (quote_units s @ 34 # r) = Some (s, r)"
proof (induction s rule: quote_units.induct)
  case (2 c)
  then show ?case by (simp add: parse_str_quote_unit units_def)
next
  case (3 h l s)
  show ?case
  proof (cases "is_high h \<and> is_low l")
    case True
    then have "parse_str (quote_units (h # l # s) @ 34 # r) = parse_str (h # (l # (quote_units s @ 34 # r)))" by simp
    also have "\<dots> = Some (h # l # s, r)"
      using 3 True by (simp add: parse_str_plain units_def del: parse_str.simps)
    finally show ?thesis .
  next
    case False
    then have "quote_units (h # l # s) = quote_unit h @ quote_units (l # s)" by auto
    then show ?thesis using 3 False by (simp add: parse_str_quote_unit units_def del: parse_str.simps quote_units.simps)
  qed
qed simp

lemma parse_quote_str: "units s \<Longrightarrow> parse_str (quote_units s @ [34] @ r) = Some (s, r)"
  using parse_quote_units by simp

text \<open>What follows a printed value: nothing that could go on a number.\<close>

definition stops :: "jstr \<Rightarrow> bool" where
  "stops r \<longleftrightarrow> (case r of [] \<Rightarrow> True | c # _ \<Rightarrow> \<not> is_digit c \<and> c \<noteq> 46 \<and> c \<noteq> 101 \<and> c \<noteq> 69)"

lemma digit_run_append: "\<forall>c \<in> set s. is_digit c \<Longrightarrow> stops r \<Longrightarrow> digit_run (s @ r) = s"
  by (cases r) (auto simp: digit_run_def stops_def takeWhile_append2)

lemma nat_str_head: "hd (nat_str n) = 48 \<Longrightarrow> nat_str n = [48]"
proof (induction n rule: nat_str.induct)
  case (1 n)
  show ?case
  proof (cases "n < 10")
    case False
    then have eq: "nat_str n = nat_str (n div 10) @ [48 + n mod 10]" by (subst nat_str.simps) simp
    with "1.prems" have "nat_str (n div 10) = [48]" using "1.IH" False by simp
    then have "digits_val 0 (nat_str (n div 10)) = 0" by simp
    with False show ?thesis by (simp add: digits_val_nat_str)
  next
    case True
    then have "nat_str n = [48 + n]" by (subst nat_str.simps) simp
    with "1.prems" show ?thesis by simp
  qed
qed

lemma parse_unsigned_nat:
  assumes "stops r"
  shows "parse_unsigned sg (nat_str n @ r) = Some (dec_norm (sg * int n) 0, r)"
proof -
  have run: "digit_run (nat_str n @ r) = nat_str n"
    by (rule digit_run_append) (use nat_str_digits assms in auto)
  have "hd (nat_str n) = 48 \<longrightarrow> nat_str n = [48]" using nat_str_head by blast
  then show ?thesis
    using assms unfolding parse_unsigned_def Let_def run
    by (cases r) (auto simp: stops_def parse_exp_def digits_nat_def digits_val_nat_str)
qed

lemma dec_norm_nonzero: "m \<noteq> 0 \<Longrightarrow> \<exists>m' e'. dec_norm m e = Dec m' (e + int e') \<and> m' \<noteq> 0 \<and> m = m' * 10 ^ e'"
proof (induction m e rule: dec_norm.induct)
  case (1 m e)
  show ?case
  proof (cases "m mod 10 = 0")
    case True
    then obtain k where k: "m = 10 * k" by auto
    with "1.prems" have "k \<noteq> 0" by simp
    with True 1 k obtain m' e' where "dec_norm k (e + 1) = Dec m' (e + 1 + int e')" "m' \<noteq> 0" "k = m' * 10 ^ e'"
      by (metis nonzero_mult_div_cancel_left zero_neq_numeral)
    moreover have "dec_norm m e = dec_norm k (e + 1)"
      using True "1.prems" by (subst dec_norm.simps) (simp add: k)
    ultimately show ?thesis using k
      by (intro exI [of _ m'] exI [of _ "Suc e'"]) (simp add: algebra_simps)
  next
    case False
    with "1.prems" show ?thesis by (intro exI [of _ m] exI [of _ 0]) (simp add: dec_norm.simps [of m e])
  qed
qed

lemma nat_str_times_ten: "n \<noteq> 0 \<Longrightarrow> nat_str (n * 10 ^ k) = nat_str n @ replicate k 48"
proof (induction k)
  case (Suc k)
  have "nat_str (n * 10 ^ Suc k) = nat_str (n * 10 ^ k) @ [48]"
    using Suc.prems by (subst nat_str.simps) simp
  then show ?case using Suc by (simp add: replicate_append_same)
qed simp

lemma nat_str_length: "n < 10 ^ k \<Longrightarrow> 0 < k \<Longrightarrow> length (nat_str n) \<le> k"
proof (induction k arbitrary: n)
  case (Suc k)
  show ?case
  proof (cases "n < 10")
    case True
    then show ?thesis by (simp add: nat_str.simps [of n])
  next
    case False
    with Suc.prems have "0 < k" by (cases k) auto
    moreover have "n div 10 < 10 ^ k" using Suc.prems by simp
    ultimately have "length (nat_str (n div 10)) \<le> k" using Suc.IH by blast
    then show ?thesis using False by (simp add: nat_str.simps [of n])
  qed
qed simp

lemma dec_str_int:
  assumes "\<bar>i\<bar> < 10 ^ 21"
  shows "dec_str (dec_norm i 0) = (if i < 0 then [45] else []) @ nat_str (nat \<bar>i\<bar>)"
proof (cases "i = 0")
  case True
  then show ?thesis by (simp add: dec_norm.simps nat_str.simps)
next
  case False
  from dec_norm_nonzero [OF this, of 0] obtain m e where m: "dec_norm i 0 = Dec m (int e)" "m \<noteq> 0" "i = m * 10 ^ e"
    by auto
  have "\<bar>i\<bar> = \<bar>m\<bar> * 10 ^ e" by (simp add: m(3) abs_mult)
  then have n: "nat \<bar>i\<bar> = nat \<bar>m\<bar> * 10 ^ e" by (simp add: nat_mult_distrib nat_power_eq)
  have str: "nat_str (nat \<bar>i\<bar>) = nat_str (nat \<bar>m\<bar>) @ replicate e 48"
    unfolding n using m(2) by (intro nat_str_times_ten) simp
  have "nat \<bar>i\<bar> < 10 ^ 21" using assms by (simp add: nat_less_iff)
  then have "length (nat_str (nat \<bar>i\<bar>)) \<le> 21" by (rule nat_str_length) simp
  then have "length (nat_str (nat \<bar>m\<bar>)) + e \<le> 21" by (simp add: str)
  moreover have "m < 0 \<longleftrightarrow> i < 0" by (simp add: m(3) mult_less_0_iff)
  ultimately show ?thesis using m(2) by (simp add: m(1) str Let_def)
qed

lemma parse_scalar_int:
  assumes "\<bar>i\<bar> < 10 ^ 21" and "stops r"
  shows "parse_scalar (dec_str (dec_norm i 0) @ r) = Some (jint i, r)"
proof -
  let ?s = "nat_str (nat \<bar>i\<bar>)"
  obtain c t where ct: "?s = c # t" by (cases ?s) auto
  have dc: "48 \<le> c" "c \<le> 57" using nat_str_digits [of c "nat \<bar>i\<bar>"] by (auto simp: ct is_digit_def)
  have str: "dec_str (dec_norm i 0) @ r = (if i < 0 then 45 # ?s @ r else ?s @ r)"
    using dec_str_int [OF assms(1)] by simp
  have "parse_num (dec_str (dec_norm i 0) @ r) = Some (dec_norm i 0, r)"
  proof (cases "i < 0")
    case True
    then show ?thesis
      unfolding str parse_num_def using parse_unsigned_nat [OF assms(2), of "-1" "nat \<bar>i\<bar>"] by simp
  next
    case False
    then have "parse_num (dec_str (dec_norm i 0) @ r) = parse_unsigned 1 (?s @ r)"
      unfolding str if_not_P [OF False] parse_num_def ct using dc by simp
    then show ?thesis using parse_unsigned_nat [OF assms(2), of 1 "nat \<bar>i\<bar>"] False by simp
  qed
  moreover have "\<not> starts_with (lit p) (dec_str (dec_norm i 0) @ r)"
    if "p = ''null'' \<or> p = ''true'' \<or> p = ''false''" for p
  proof -
    obtain x u where "dec_str (dec_norm i 0) @ r = x # u" "x = 45 \<or> (48 \<le> x \<and> x \<le> 57)"
      unfolding str ct using dc by (cases "i < 0") auto
    then show ?thesis using that by (auto simp: starts_with_def lit_def)
  qed
  ultimately show ?thesis by (simp add: parse_scalar_def jint_def)
qed

definition blank :: "jstr \<Rightarrow> bool" where
  "blank w \<longleftrightarrow> (\<forall>c \<in> set w. is_ws c)"

lemma skip_blank: "blank w \<Longrightarrow> skip_ws (w @ s) = skip_ws s"
  by (induction w) (auto simp: skip_ws_def blank_def)

lemma skip_ws_Cons: "\<not> is_ws c \<Longrightarrow> skip_ws (c # s) = c # s"
  by (simp add: skip_ws_def)

lemma parse_val_blank: "blank w \<Longrightarrow> parse_val f (w @ s) = parse_val f s"
  by (cases f) (simp_all add: skip_blank)

lemma stops_punct: "is_ws c \<or> c = 44 \<or> c = 93 \<or> c = 125 \<Longrightarrow> stops (c # s)"
  by (auto simp: stops_def is_ws_def is_digit_def)

lemma stops_blank: "blank w \<Longrightarrow> stops (c # s) \<Longrightarrow> stops (w @ c # s)"
  by (cases w) (auto simp: blank_def stops_punct)

text \<open>The text of a scalar does not start with white space or a bracket.\<close>

lemma dec_str_head:
  assumes "\<bar>i\<bar> < 10 ^ 21"
  shows "\<exists>c t. dec_str (dec_norm i 0) = c # t \<and> (c = 45 \<or> (48 \<le> c \<and> c \<le> 57))"
proof -
  obtain c t where ct: "nat_str (nat \<bar>i\<bar>) = c # t" by (cases "nat_str (nat \<bar>i\<bar>)") auto
  then have "48 \<le> c" "c \<le> 57" using nat_str_digits [of c "nat \<bar>i\<bar>"] by (auto simp: is_digit_def)
  then show ?thesis unfolding dec_str_int [OF assms] ct by (cases "i < 0") auto
qed

lemma parse_val_scalar:
  assumes "s = c # t" and "\<not> is_ws c" and "c \<noteq> 34" and "c \<noteq> 91" and "c \<noteq> 123" and "f \<noteq> 0"
  shows "parse_val f s = parse_scalar s"
  using assms by (cases f) (simp_all add: skip_ws_Cons)

lemma parse_scalar_word:
  "parse_scalar (lit ''null'' @ r) = Some (JNull, r)"
  "parse_scalar (lit ''true'' @ r) = Some (JBool True, r)"
  "parse_scalar (lit ''false'' @ r) = Some (JBool False, r)"
  by (simp_all add: parse_scalar_def starts_with_def lit_def)

lemma map_set_new: "k \<notin> fst ` set m \<Longrightarrow> map_set m k v = m @ [(k, v)]"
  by (induction m k v rule: map_set.induct) auto

lemma parse_elems_ser:
  assumes "\<And>x f w r. x \<in> set xs \<Longrightarrow> stops r \<Longrightarrow> 2 * length (ser x) \<le> f \<Longrightarrow> blank w \<Longrightarrow>
       parse_val f (w @ ser x @ r) = Some (x, r)"
    and "blank nl" and "blank nl'" and "blank w" and "xs \<noteq> []"
    and "2 * length (join ([44] @ nl) (map ser xs)) + 1 \<le> f"
  shows "parse_elems f (w @ join ([44] @ nl) (map ser xs) @ nl' @ 93 # r) acc = Some (JArr (acc @ xs), r)"
  using assms
proof (induction xs arbitrary: f w acc)
  case (Cons x xs)
  from Cons.prems(6) obtain g where f: "f = Suc g" by (cases f) auto
  show ?case
  proof (cases xs)
    case Nil
    have "parse_val g (w @ ser x @ nl' @ 93 # r) = Some (x, nl' @ 93 # r)"
      using Cons.prems by (intro Cons.prems(1)) (auto simp: Nil f intro: stops_blank stops_punct)
    then show ?thesis
      using Cons.prems(3) by (simp add: f Nil skip_blank skip_ws_Cons is_ws_def)
  next
    case (Cons y ys)
    let ?t = "join ([44] @ nl) (map ser xs) @ nl' @ 93 # r"
    have join: "join ([44] @ nl) (map ser (x # xs)) = ser x @ 44 # nl @ join ([44] @ nl) (map ser xs)"
      by (simp add: Cons)
    have bound: "2 * length (ser x) + 2 + 2 * length (join ([44] @ nl) (map ser xs)) \<le> g"
      using Cons.prems(6) unfolding join f by simp
    have "parse_val g (w @ ser x @ 44 # nl @ ?t) = Some (x, 44 # nl @ ?t)"
      using Cons.prems(4) bound by (intro Cons.prems(1)) (auto intro: stops_punct)
    moreover have "parse_elems g (nl @ ?t) (acc @ [x]) = Some (JArr ((acc @ [x]) @ xs), r)"
      using Cons.prems(1-3) bound by (intro Cons.IH) (auto simp: Cons)
    ultimately show ?thesis
      unfolding f join by (simp add: skip_ws_Cons is_ws_def)
  qed
qed simp

lemma parse_members_ser:
  assumes "\<And>k v f w r. (k, v) \<in> set m \<Longrightarrow> stops r \<Longrightarrow> 2 * length (ser v) \<le> f \<Longrightarrow> blank w \<Longrightarrow>
       parse_val f (w @ ser v @ r) = Some (v, r)"
    and "\<And>k v. (k, v) \<in> set m \<Longrightarrow> units k"
    and "blank nl" and "blank nl'" and "blank w" and "m \<noteq> []" and "blank sp"
    and "distinct (map fst (acc @ m))"
    and "2 * length (join ([44] @ nl) (map (\<lambda>(k, v). quote_str k @ [58] @ sp @ ser v) m)) + 1 \<le> f"
  shows "parse_members f (w @ join ([44] @ nl) (map (\<lambda>(k, v). quote_str k @ [58] @ sp @ ser v) m) @ nl' @ 125 # r) acc =
    Some (JObj (acc @ m), r)"
  using assms
proof (induction m arbitrary: f w acc)
  case (Cons kv m)
  obtain k v where kv: "kv = (k, v)" by (cases kv)
  let ?ser = "\<lambda>(k, v). quote_str k @ [58] @ sp @ ser v"
  from Cons.prems(9) obtain g where f: "f = Suc g" by (cases f) auto
  have units: "units k" using Cons.prems(2) by (auto simp: kv)
  have new: "map_set acc k v = acc @ [(k, v)]"
    using Cons.prems(8) by (intro map_set_new) (auto simp: kv)
  have key: "skip_ws (w @ quote_str k @ s) = 34 # quote_units k @ 34 # s" for s
    using Cons.prems(5) by (simp add: skip_blank quote_str_def skip_ws_Cons is_ws_def)
  have str: "parse_str (quote_units k @ 34 # s) = Some (k, s)" for s
    by (rule parse_quote_units [OF units])
  show ?case
  proof (cases m)
    case Nil
    have "parse_val g (sp @ ser v @ nl' @ 125 # r) = Some (v, nl' @ 125 # r)"
      using Cons.prems by (intro Cons.prems(1) [of k]) (auto simp: kv Nil f intro: stops_blank stops_punct)
    then show ?thesis
      using Cons.prems(4) by (simp add: f Nil kv key str new skip_blank skip_ws_Cons is_ws_def)
  next
    case (Cons y ys)
    let ?t = "join ([44] @ nl) (map ?ser m) @ nl' @ 125 # r"
    have join: "join ([44] @ nl) (map ?ser (kv # m)) =
        quote_str k @ 58 # sp @ ser v @ 44 # nl @ join ([44] @ nl) (map ?ser m)"
      by (simp add: Cons kv)
    have bound: "2 * length (ser v) + 2 + 2 * length (join ([44] @ nl) (map ?ser m)) \<le> g"
      using Cons.prems(9) unfolding join f by simp
    have "parse_val g (sp @ ser v @ 44 # nl @ ?t) = Some (v, 44 # nl @ ?t)"
      using Cons.prems(7) bound by (intro Cons.prems(1) [of k]) (auto simp: kv intro: stops_punct)
    moreover have "parse_members g (nl @ ?t) (acc @ [(k, v)]) = Some (JObj ((acc @ [(k, v)]) @ m), r)"
    proof (rule Cons.IH)
      fix k' v' g' w' r' assume "(k', v') \<in> set m" "stops r'" "2 * length (ser v') \<le> g'" "blank w'"
      then show "parse_val g' (w' @ ser v' @ r') = Some (v', r')" by (intro Cons.prems(1) [of k']) simp_all
    next
      fix k' v' assume "(k', v') \<in> set m"
      then show "units k'" by (intro Cons.prems(2) [of _ v']) simp
    next
      show "m \<noteq> []" by (simp add: Cons)
    qed (use Cons.prems(3,4,7,8) bound in \<open>simp_all add: kv\<close>)
    ultimately show ?thesis
      unfolding f join parse_members.simps(2) append_assoc key
      by (simp add: str new skip_ws_Cons is_ws_def kv)
  qed
qed simp

lemma json_ser_head:
  assumes "wf_json j"
  shows "\<exists>c t. json_ser nl sp d j = c # t \<and> \<not> is_ws c \<and> c \<noteq> 93 \<and> c \<noteq> 125"
proof (cases j)
  case (JNum n)
  with assms obtain i where "n = dec_norm i 0" "\<bar>i\<bar> < 10 ^ 21" by (auto simp: jint_def split: option.splits)
  with JNum dec_str_head [of i] show ?thesis by (auto simp: is_ws_def)
qed (auto simp: is_ws_def lit_def quote_str_def)

lemma parse_ser:
  assumes "\<And>d. blank (nl d)" and "blank sp"
  shows "wf_json j \<Longrightarrow> stops r \<Longrightarrow> 2 * length (json_ser nl sp d j) \<le> f \<Longrightarrow> blank w \<Longrightarrow>
    parse_val f (w @ json_ser nl sp d j @ r) = Some (j, r)"
proof (induction j arbitrary: d f w r)
  case JNull
  then show ?case
    by (subst parse_val_blank) (auto simp: parse_val_scalar parse_scalar_word [unfolded lit_def, simplified] lit_def is_ws_def)
next
  case (JBool b)
  then show ?case
    by (cases b; subst parse_val_blank)
      (auto simp: parse_val_scalar parse_scalar_word [unfolded lit_def, simplified] lit_def is_ws_def)
next
  case (JNum n)
  then obtain i where i: "JNum n = jint i" "\<bar>i\<bar> < 10 ^ 21" by (auto split: option.splits)
  obtain c t where ct: "dec_str n = c # t" "c = 45 \<or> (48 \<le> c \<and> c \<le> 57)"
    using dec_str_head [OF i(2)] i(1) by (auto simp: jint_def)
  have "parse_scalar (dec_str n @ r) = Some (JNum n, r)"
    using parse_scalar_int [OF i(2) JNum.prems(2)] i(1) by (simp add: jint_def)
  moreover have "parse_val f (dec_str n @ r) = parse_scalar (dec_str n @ r)"
    using JNum.prems(3) ct by (intro parse_val_scalar) (auto simp: is_ws_def)
  ultimately show ?case using JNum.prems(4) by (simp add: parse_val_blank)
next
  case (JStr s)
  then have f: "f = Suc (f - 1)" by (cases f) (auto simp: quote_str_def)
  have "parse_val f (quote_str s @ r) = Some (JStr s, r)"
    by (subst f) (use JStr.prems(1) in \<open>simp add: quote_str_def skip_ws_Cons is_ws_def parse_quote_units\<close>)
  then show ?case using JStr.prems(4) by (simp add: parse_val_blank)
next
  case (JArr xs)
  then have f: "f = Suc (f - 1)" by (cases "xs = []"; cases f) auto
  show ?case
  proof (cases "xs = []")
    case True
    have "parse_val f (91 # 93 # r) = Some (JArr [], r)"
      by (subst f) (simp add: skip_ws_Cons is_ws_def)
    then show ?thesis using JArr.prems(4) True by (simp add: parse_val_blank)
  next
    case False
    let ?j = "join ([44] @ nl (Suc d)) (map (json_ser nl sp (Suc d)) xs)"
    let ?t = "nl (Suc d) @ ?j @ nl d @ 93 # r"
    have elems: "parse_elems (f - 1) ?t [] = Some (JArr ([] @ xs), r)"
    proof (rule parse_elems_ser)
      fix x g w' r' assume "x \<in> set xs" "stops r'" "2 * length (json_ser nl sp (Suc d) x) \<le> g" "blank w'"
      then show "parse_val g (w' @ json_ser nl sp (Suc d) x @ r') = Some (x, r')"
        using JArr.IH JArr.prems(1) by (auto simp: list_all_iff)
    qed (use JArr.prems False assms in \<open>auto simp: list_all_iff\<close>)
    obtain y ys where xs: "xs = y # ys" using False by (cases xs) auto
    obtain z where join: "?j = json_ser nl sp (Suc d) y @ z" by (cases ys) (auto simp: xs)
    obtain x u where "json_ser nl sp (Suc d) y = x # u" "\<not> is_ws x" "x \<noteq> 93"
      using json_ser_head [of y nl sp "Suc d"] JArr.prems(1) xs by auto
    then have "skip_ws ?t = x # u @ z @ nl d @ 93 # r" "x \<noteq> 93"
      unfolding join by (simp_all add: skip_blank assms skip_ws_Cons)
    then have "parse_val f (91 # ?t) = Some (JArr xs, r)"
      by (subst f) (use elems in \<open>simp add: skip_ws_Cons is_ws_def\<close>)
    then show ?thesis using JArr.prems(4) False by (simp add: parse_val_blank)
  qed
next
  case (JObj m)
  then have f: "f = Suc (f - 1)" by (cases "m = []"; cases f) auto
  show ?case
  proof (cases "m = []")
    case True
    have "parse_val f (123 # 125 # r) = Some (JObj [], r)"
      by (subst f) (simp add: skip_ws_Cons is_ws_def)
    then show ?thesis using JObj.prems(4) True by (simp add: parse_val_blank)
  next
    case False
    let ?j = "join ([44] @ nl (Suc d)) (map (\<lambda>(k, v). quote_str k @ [58] @ sp @ json_ser nl sp (Suc d) v) m)"
    let ?t = "nl (Suc d) @ ?j @ nl d @ 125 # r"
    have membs: "parse_members (f - 1) ?t [] = Some (JObj ([] @ m), r)"
    proof (rule parse_members_ser)
      fix k v g w' r' assume "(k, v) \<in> set m" "stops r'" "2 * length (json_ser nl sp (Suc d) v) \<le> g" "blank w'"
      then show "parse_val g (w' @ json_ser nl sp (Suc d) v @ r') = Some (v, r')"
        using JObj.IH [of "(k, v)" v] JObj.prems(1) by (auto simp: list_all_iff)
    qed (use JObj.prems False assms in \<open>auto simp: list_all_iff\<close>)
    obtain k v ys where xs: "m = (k, v) # ys" using False by (cases m) auto
    obtain z where join: "?j = 34 # z" by (cases ys) (auto simp: xs quote_str_def)
    have "skip_ws ?t = 34 # z @ nl d @ 125 # r"
      unfolding join by (simp add: skip_blank assms skip_ws_Cons is_ws_def)
    then have "parse_val f (123 # ?t) = Some (JObj m, r)"
      by (subst f) (use membs in \<open>simp add: skip_ws_Cons is_ws_def\<close>)
    then show ?thesis using JObj.prems(4) False by (simp add: parse_val_blank)
  qed
qed

lemma json_parse_ser:
  assumes "\<And>d. blank (nl d)" and "blank sp" and "wf_json j" and "blank w"
  shows "json_parse (json_ser nl sp d j @ w) = Some j"
proof -
  have "stops w" using assms(4) by (cases w) (auto simp: stops_def blank_def is_ws_def is_digit_def)
  have "parse_val (Suc (2 * length (json_ser nl sp d j @ w))) ([] @ json_ser nl sp d j @ w) = Some (j, w)"
    by (rule parse_ser [OF assms(1-3) \<open>stops w\<close>]) (simp_all add: blank_def)
  moreover have "skip_ws w = []" using skip_blank [OF assms(4), of "[]"] by (simp add: skip_ws_def)
  ultimately show ?thesis by (simp add: json_parse_def)
qed

lemma json_roundtrip: "wf_json j \<Longrightarrow> blank w \<Longrightarrow> json_parse (json_stringify j @ w) = Some j"
  unfolding json_stringify_def by (rule json_parse_ser) (simp_all add: blank_def)

lemma json_pretty_roundtrip: "wf_json j \<Longrightarrow> blank w \<Longrightarrow> json_parse (json_pretty j @ w) = Some j"
  unfolding json_pretty_def by (rule json_parse_ser) (auto simp: blank_def is_ws_def)

lemma wf_jint [simp]: "wf_json (jint i) \<longleftrightarrow> \<bar>i\<bar> < 10 ^ 21"
proof -
  have "dec_int (dec_norm i 0) = Some i" by (simp add: dec_int_norm)
  then show ?thesis by (simp add: jint_def)
qed

lemma as_int_jint [simp]: "as_int (Some (jint i)) = Some i"
  by (simp add: jint_def dec_int_norm)

subsection \<open>A printed value survives UTF-8 and has no raw newline\<close>

lemma quote_unit_ok:
  assumes "c < 65536" shows "text_ok (quote_unit c)" and "10 \<notin> set (quote_unit c)"
proof -
  have hex: "hex_char (n mod 16) < 128 \<and> hex_char (n mod 16) \<noteq> 10" for n
  proof -
    have "n mod 16 < 16" by simp
    then show ?thesis by (auto simp: hex_char_def)
  qed
  have "text_ok (quote_unit c)" if "\<not> (\<forall>x \<in> set (quote_unit c). x < 128)"
  proof -
    have "quote_unit c = [c] \<and> \<not> is_high c \<and> \<not> is_low c"
      using that hex by (auto simp: quote_unit_def hex4_def split: if_splits)
    with assms show ?thesis by (simp add: text_ok_def units_def)
  qed
  then show "text_ok (quote_unit c)" using text_ok_ascii by blast
  show "10 \<notin> set (quote_unit c)"
    using hex by (auto simp: quote_unit_def hex4_def)
qed

lemma quote_units_ok: "units s \<Longrightarrow> text_ok (quote_units s) \<and> 10 \<notin> set (quote_units s)"
proof (induction s rule: quote_units.induct)
  case (2 c)
  then show ?case using quote_unit_ok by (simp add: units_def)
next
  case (3 h l s)
  show ?case
  proof (cases "is_high h \<and> is_low l")
    case True
    with 3 show ?thesis by (auto simp: text_ok_def units_def is_high_def is_low_def)
  next
    case False
    then have q: "quote_units (h # l # s) = quote_unit h @ quote_units (l # s)" by auto
    have "units (l # s)" "h < 65536" using 3 by (auto simp: units_def)
    with 3 False quote_unit_ok [of h] show ?thesis unfolding q by auto
  qed
qed simp

lemma text_ok_quote_str: "units s \<Longrightarrow> text_ok (quote_str s)"
  unfolding quote_str_def using quote_units_ok [of s] by (intro text_ok_append) (auto intro: text_ok_ascii)

lemma text_ok_dec_str: "\<bar>i\<bar> < 10 ^ 21 \<Longrightarrow> text_ok (dec_str (dec_norm i 0))"
  by (auto simp: dec_str_int)

lemma text_ok_json_ser:
  assumes "\<And>d. text_ok (nl d)" and "text_ok sp"
  shows "wf_json j \<Longrightarrow> text_ok (json_ser nl sp d j)"
proof (induction j arbitrary: d)
  case (JNum n)
  then obtain i where "n = dec_norm i 0" "\<bar>i\<bar> < 10 ^ 21" by (auto simp: jint_def split: option.splits)
  then show ?case using text_ok_dec_str by simp
next
  case (JStr s)
  then show ?case by (simp add: text_ok_quote_str)
next
  case (JArr xs)
  then have "text_ok (join ([44] @ nl (Suc d)) (map (json_ser nl sp (Suc d)) xs))"
    using assms by (intro text_ok_join) (auto simp: list_all_iff)
  then show ?case using assms by (auto intro!: text_ok_append text_ok_Cons)
next
  case (JObj m)
  then have "text_ok (join ([44] @ nl (Suc d)) (map (\<lambda>(k, v). quote_str k @ [58] @ sp @ json_ser nl sp (Suc d) v) m))"
    using assms
    by (intro text_ok_join) (fastforce simp: list_all_iff intro!: text_ok_append text_ok_Cons text_ok_quote_str)+
  then show ?case using assms by (auto intro!: text_ok_append text_ok_Cons)
qed (auto intro!: text_ok_lit)

lemma text_ok_stringify: "wf_json j \<Longrightarrow> text_ok (json_stringify j)"
  unfolding json_stringify_def by (rule text_ok_json_ser) auto

lemma text_ok_pretty: "wf_json j \<Longrightarrow> text_ok (json_pretty j)"
  unfolding json_pretty_def by (rule text_ok_json_ser) (auto intro!: text_ok_ascii)

end
