(* ===== verification/EntryText.thy ===== *)
theory EntryText
  imports Regex Json
begin

text \<open>
  The text of an entry: the limits of \<open>packages/core/src/entryConstraints.ts\<close>, the frontmatter
  codec of \<open>frontmatterCodec.ts\<close>, the parsing of \<open>frontmatter.ts\<close> into frontmatter, body and
  sections, and the printing of \<open>writer.ts\<close>. YAML and the splitting of a document into
  frontmatter and body are third-party (js-yaml, gray-matter): they are the fields of
  \<open>entry_codec\<close>. Lemmas: the iterative counter of an argument's bytes is the length of its
  JSON text, the frontmatter check accepts exactly the values within the three limits, and the
  sections of a printed entry are the sections it was printed from.
\<close>

subsection \<open>Limits\<close>

datatype measure = Utf8_bytes | Expanded_nodes_and_edges | Depth_measure

record constraint =
  c_field :: jstr
  c_limit :: nat
  c_actual :: nat
  c_measure :: measure
  c_lower_bound :: bool
  c_reason :: jstr

definition limit_arguments :: nat where "limit_arguments = 1048576"
definition limit_markdown :: nat where "limit_markdown = 1048576"
definition limit_frontmatter :: nat where "limit_frontmatter = 65536"
definition limit_graph :: nat where "limit_graph = 10000"
definition limit_depth :: nat where "limit_depth = 128"

definition exceeded :: "jstr \<Rightarrow> nat \<Rightarrow> nat \<Rightarrow> measure \<Rightarrow> bool \<Rightarrow> constraint" where
  "exceeded field limit actual m lower = \<lparr>c_field = field, c_limit = limit, c_actual = actual, c_measure = m,
     c_lower_bound = lower, c_reason = lit ''limit_exceeded''\<rparr>"

definition byte_length :: "jstr \<Rightarrow> nat" where
  "byte_length s = length (utf8_encode s)"

definition assert_utf8_limit :: "jstr \<Rightarrow> jstr \<Rightarrow> nat \<Rightarrow> constraint + unit" where
  "assert_utf8_limit s field limit =
     (if byte_length s > limit then Inl (exceeded field limit (byte_length s) Utf8_bytes False) else Inr ())"

text \<open>
  \<open>serializedArgumentsUtf8Bytes\<close>: the stack holds the values still to be counted. A JSON value is
  a tree, so the source's cycle check never fires on it.
\<close>

function arg_bytes :: "json list \<Rightarrow> nat \<Rightarrow> nat" where
  "arg_bytes [] n = n"
| "arg_bytes (v # tasks) n =
     (case v of
        JArr xs \<Rightarrow> arg_bytes (xs @ tasks) (n + 2 + (length xs - 1))
      | JObj m \<Rightarrow> arg_bytes (map snd m @ tasks)
          (n + 2 + (length m - 1) + sum_list (map (\<lambda>(k, _). byte_length (quote_str k) + 1) m))
      | _ \<Rightarrow> arg_bytes tasks (n + byte_length (json_stringify v)))"
  by pat_completeness auto

fun json_nodes :: "json \<Rightarrow> nat" where
  "json_nodes (JArr xs) = Suc (sum_list (map json_nodes xs))"
| "json_nodes (JObj m) = Suc (sum_list (map (\<lambda>(k, v). json_nodes v) m))"
| "json_nodes _ = 1"

lemma json_nodes_pos [simp]: "0 < json_nodes v"
  by (cases v) auto

lemma json_nodes_values: "sum_list (map (json_nodes \<circ> snd) m) = sum_list (map (\<lambda>(k, v). json_nodes v) m)"
  by (induction m) auto

termination arg_bytes
  by (relation "measure (\<lambda>(ts, n). sum_list (map json_nodes ts))") (auto simp: json_nodes_values)

definition serialized_arguments_bytes :: "json \<Rightarrow> nat" where
  "serialized_arguments_bytes args = arg_bytes [args] 0"

definition assert_entry_arguments :: "json \<Rightarrow> constraint + unit" where
  "assert_entry_arguments args =
     (let actual = serialized_arguments_bytes args in
      if actual > limit_arguments then Inl (exceeded (lit ''arguments'') limit_arguments actual Utf8_bytes False)
      else Inr ())"

text \<open>
  \<open>assertFrontmatterGraph\<close>: \<open>work\<close> counts nodes and edges, \<open>bytes\<close> the text of strings and
  keys. A key is None for an array's element.
\<close>

definition count_step :: "nat \<Rightarrow> constraint + nat" where
  "count_step work =
     (if Suc work > limit_graph
      then Inl (exceeded (lit ''frontmatter.graph'') limit_graph (Suc work) Expanded_nodes_and_edges True)
      else Inr (Suc work))"

lemma kid_nodes [simp]:
  "sum_list (map ((\<lambda>(k, x). 3 * json_nodes x) \<circ> (\<lambda>x. (None, x))) xs) = 3 * sum_list (map json_nodes xs)"
  "sum_list (map ((\<lambda>(k, x). 3 * json_nodes x) \<circ> (\<lambda>(k, x). (Some k, x))) m) = 3 * sum_list (map (\<lambda>(k, x). json_nodes x) m)"
  by (induction xs) (auto, induction m, auto)

function (sequential) visit :: "json \<Rightarrow> nat \<Rightarrow> nat \<times> nat \<Rightarrow> constraint + nat \<times> nat"
  and visit_kids :: "(jstr option \<times> json) list \<Rightarrow> nat \<Rightarrow> nat \<times> nat \<Rightarrow> constraint + nat \<times> nat" where
  "visit v depth (work, bytes) =
     try_then (count_step work) (\<lambda>work.
     if depth > limit_depth
     then Inl (exceeded (lit ''frontmatter.depth'') limit_depth depth Depth_measure True)
     else (case v of
        JStr s \<Rightarrow> Inr (work, bytes + byte_length s)
      | JArr xs \<Rightarrow> visit_kids (map (\<lambda>x. (None, x)) xs) (Suc depth) (work, bytes)
      | JObj m \<Rightarrow> visit_kids (map (\<lambda>(k, x). (Some k, x)) m) (Suc depth) (work, bytes)
      | _ \<Rightarrow> Inr (work, bytes)))"
| "visit_kids [] depth st = Inr st"
| "visit_kids ((k, x) # ks) depth (work, bytes) =
     try_then (count_step work) (\<lambda>work.
     try_then (visit x depth (work, bytes + (case k of None \<Rightarrow> 0 | Some k \<Rightarrow> byte_length k))) (\<lambda>st.
     visit_kids ks depth st))"
  by pat_completeness auto

termination visit
  by (relation "measure (case_sum (\<lambda>(v, _). 3 * json_nodes v) (\<lambda>(ks, _). 1 + sum_list (map (\<lambda>(k, x). 3 * json_nodes x) ks)))")
    auto

declare visit.simps [simp del]

definition assert_frontmatter_graph :: "json \<Rightarrow> constraint + unit" where
  "assert_frontmatter_graph v =
     try_then (visit v 0 (0, 0)) (\<lambda>(work, bytes).
     if bytes > limit_frontmatter
     then Inl (exceeded (lit ''frontmatter'') limit_frontmatter bytes Utf8_bytes True) else Inr ())"

subsection \<open>The byte count of arguments\<close>

lemma code_points_append: "is_well_formed a \<Longrightarrow> code_points (a @ b) = code_points a @ code_points b"
proof (induction a rule: is_well_formed.induct)
  case (2 c)
  then show ?case by (cases b) auto
qed (auto split: if_splits)

lemma byte_length_append: "text_ok a \<Longrightarrow> byte_length (a @ b) = byte_length a + byte_length b"
  by (simp add: byte_length_def utf8_encode_def text_ok_def code_points_append)

lemma byte_length_ascii: "\<forall>c \<in> set s. c < 128 \<Longrightarrow> byte_length s = length s"
  by (simp add: byte_length_def utf8_encode_ascii)

lemma byte_length_ascii_append:
  "\<forall>c \<in> set s. c < 128 \<Longrightarrow> byte_length (s @ t) = length s + byte_length t"
  by (simp add: byte_length_append text_ok_ascii byte_length_ascii)

lemma byte_length_Cons: "c < 128 \<Longrightarrow> byte_length (c # t) = Suc (byte_length t)"
  using byte_length_ascii_append [of "[c]" t] by simp

lemma byte_length_Nil [simp]: "byte_length [] = 0"
  by (simp add: byte_length_ascii)

lemma byte_length_join:
  "\<forall>s \<in> set ss. text_ok s \<Longrightarrow> byte_length (join [44] ss) = sum_list (map byte_length ss) + (length ss - 1)"
proof (induction "[44] :: jstr" ss rule: join.induct)
  case (3 x y ys)
  have "text_ok x" using 3 by simp
  then show ?case using 3 by (simp add: byte_length_append byte_length_Cons)
qed simp_all

text \<open>Every string and key of the value is a sequence of UTF-16 code units.\<close>

fun json_units :: "json \<Rightarrow> bool" where
  "json_units (JStr s) = units s"
| "json_units (JArr xs) = list_all json_units xs"
| "json_units (JObj m) = list_all (\<lambda>(k, v). units k \<and> json_units v) m"
| "json_units _ = True"

lemma text_ok_dec_str_all: "text_ok (dec_str n)"
proof (cases n)
  case (Dec m e)
  have "\<forall>c \<in> set (dec_str (Dec m e)). c < 128"
    using nat_str_digits [unfolded is_digit_def]
    by (fastforce simp: Let_def dest: in_set_takeD in_set_dropD split: if_splits)
  then show ?thesis by (simp add: Dec text_ok_ascii)
qed

lemma text_ok_ser: "json_units j \<Longrightarrow> text_ok (json_ser (\<lambda>_. []) [] d j)"
proof (induction j arbitrary: d)
  case (JArr xs)
  then have "text_ok (join [44] (map (json_ser (\<lambda>_. []) [] (Suc d)) xs))"
    by (intro text_ok_join) (auto simp: list_all_iff intro: text_ok_ascii)
  then show ?case by (auto intro!: text_ok_append text_ok_Cons)
next
  case (JObj m)
  then have "text_ok (join [44] (map (\<lambda>(k, v). quote_str k @ [58] @ [] @ json_ser (\<lambda>_. []) [] (Suc d) v) m))"
    by (intro text_ok_join) (fastforce simp: list_all_iff intro!: text_ok_append text_ok_Cons text_ok_quote_str intro: text_ok_ascii)+
  then show ?case by (auto intro!: text_ok_append text_ok_Cons)
qed (auto intro!: text_ok_lit text_ok_dec_str_all text_ok_quote_str)

lemma json_ser_depth: "json_ser (\<lambda>_. []) [] d j = json_ser (\<lambda>_. []) [] d' j"
proof (induction j arbitrary: d d')
  case (JArr xs)
  then have "map (json_ser (\<lambda>_. []) [] (Suc d)) xs = map (json_ser (\<lambda>_. []) [] (Suc d')) xs"
    by (intro map_cong refl) auto
  then show ?case unfolding json_ser.simps by (rule arg_cong)
next
  case (JObj m)
  then have "map (\<lambda>(k, v). quote_str k @ [58] @ [] @ json_ser (\<lambda>_. []) [] (Suc d) v) m =
      map (\<lambda>(k, v). quote_str k @ [58] @ [] @ json_ser (\<lambda>_. []) [] (Suc d') v) m"
    by (intro map_cong refl) (force split: prod.splits)
  then show ?case unfolding json_ser.simps by (rule arg_cong)
qed simp_all

lemma stringify_arr: "xs \<noteq> [] \<Longrightarrow> json_stringify (JArr xs) = [91] @ join [44] (map json_stringify xs) @ [93]"
proof -
  have "json_ser (\<lambda>_. []) [] (Suc 0) = json_stringify"
    by (rule ext) (simp add: json_stringify_def json_ser_depth [of "Suc 0" _ 0])
  then show "xs \<noteq> [] \<Longrightarrow> ?thesis" by (simp add: json_stringify_def [of "JArr xs"])
qed

lemma stringify_obj: "m \<noteq> [] \<Longrightarrow> json_stringify (JObj m) =
    [123] @ join [44] (map (\<lambda>(k, v). quote_str k @ [58] @ json_stringify v) m) @ [125]"
proof -
  have "json_ser (\<lambda>_. []) [] (Suc 0) = json_stringify"
    by (rule ext) (simp add: json_stringify_def json_ser_depth [of "Suc 0" _ 0])
  then show "m \<noteq> [] \<Longrightarrow> ?thesis" by (simp add: json_stringify_def [of "JObj m"])
qed

lemma text_ok_stringify_units: "json_units v \<Longrightarrow> text_ok (json_stringify v)"
  by (simp add: json_stringify_def text_ok_ser)

lemma byte_length_stringify_arr:
  assumes "list_all json_units xs"
  shows "byte_length (json_stringify (JArr xs)) = 2 + (length xs - 1) + sum_list (map (\<lambda>x. byte_length (json_stringify x)) xs)"
proof (cases "xs = []")
  case False
  have ok: "\<forall>s \<in> set (map json_stringify xs). text_ok s"
    using assms by (auto simp: list_all_iff intro: text_ok_stringify_units)
  then have "text_ok (join [44] (map json_stringify xs))" by (intro text_ok_join) (auto intro: text_ok_ascii)
  then show ?thesis
    using False byte_length_join [OF ok]
    by (simp add: stringify_arr byte_length_Cons byte_length_append byte_length_ascii o_def)
qed (simp add: json_stringify_def byte_length_ascii)

lemma byte_length_stringify_obj:
  assumes "list_all (\<lambda>(k, v). units k \<and> json_units v) m"
  shows "byte_length (json_stringify (JObj m)) = 2 + (length m - 1) +
    sum_list (map (\<lambda>(k, v). byte_length (quote_str k) + 1 + byte_length (json_stringify v)) m)"
proof (cases "m = []")
  case False
  let ?f = "\<lambda>(k, v). quote_str k @ [58] @ json_stringify v"
  have ok: "\<forall>s \<in> set (map ?f m). text_ok s"
    using assms by (fastforce simp: list_all_iff intro!: text_ok_append text_ok_Cons text_ok_quote_str text_ok_stringify_units)
  then have join: "text_ok (join [44] (map ?f m))" by (intro text_ok_join) (auto intro: text_ok_ascii)
  have len: "map byte_length (map ?f m) = map (\<lambda>(k, v). byte_length (quote_str k) + 1 + byte_length (json_stringify v)) m"
    using assms by (auto simp: list_all_iff byte_length_append byte_length_Cons text_ok_quote_str)
  show ?thesis
    using False join byte_length_join [OF ok] unfolding len
    by (simp add: stringify_obj byte_length_Cons byte_length_append byte_length_ascii)
qed (simp add: json_stringify_def byte_length_ascii)

lemma arg_bytes_sum:
  "list_all json_units ts \<Longrightarrow> arg_bytes ts n = n + sum_list (map (\<lambda>v. byte_length (json_stringify v)) ts)"
proof (induction ts n rule: arg_bytes.induct)
  case (2 v ts n)
  show ?case
  proof (cases v)
    case (JArr xs)
    then show ?thesis using 2 by (simp add: byte_length_stringify_arr)
  next
    case (JObj m)
    have "list_all json_units (map snd m)" using 2 JObj by (auto simp: list_all_iff)
    moreover have "sum_list (map (\<lambda>(k, _). byte_length (quote_str k) + 1) m) + sum_list (map (\<lambda>v. byte_length (json_stringify v)) (map snd m))
        = sum_list (map (\<lambda>(k, v). byte_length (quote_str k) + 1 + byte_length (json_stringify v)) m)"
      by (induction m) auto
    ultimately show ?thesis
      using 2(6) [OF JObj] 2(7) JObj by (simp add: byte_length_stringify_obj del: map_map)
  qed (use 2 in simp_all)
qed simp

text \<open>
  C11: The iterative byte count of an argument value, which never recurses on its nesting, is the
  number of UTF-8 bytes of the value's JSON text.
\<close>

theorem argument_bytes_exact:
  "json_units v \<Longrightarrow> serialized_arguments_bytes v = length (utf8_encode (json_stringify v))"
  using arg_bytes_sum [of "[v]" 0] by (simp add: serialized_arguments_bytes_def byte_length_def del: arg_bytes.simps)

theorem argument_bytes_exact_witness:
  "serialized_arguments_bytes (JObj [(lit ''a'', JArr [JStr [233], JNull])]) =
     length (utf8_encode (json_stringify (JObj [(lit ''a'', JArr [JStr [233], JNull])])))"
  by (rule argument_bytes_exact) (simp add: units_def lit_def)

subsection \<open>What the frontmatter check accepts\<close>

fun graph_work :: "json \<Rightarrow> nat" where
  "graph_work (JArr xs) = 1 + sum_list (map (\<lambda>x. 1 + graph_work x) xs)"
| "graph_work (JObj m) = 1 + sum_list (map (\<lambda>(k, x). 1 + graph_work x) m)"
| "graph_work _ = 1"

fun graph_bytes :: "json \<Rightarrow> nat" where
  "graph_bytes (JStr s) = byte_length s"
| "graph_bytes (JArr xs) = sum_list (map graph_bytes xs)"
| "graph_bytes (JObj m) = sum_list (map (\<lambda>(k, x). byte_length k + graph_bytes x) m)"
| "graph_bytes _ = 0"

fun within_depth :: "nat \<Rightarrow> json \<Rightarrow> bool" where
  "within_depth d (JArr xs) = (d \<le> limit_depth \<and> (\<forall>x \<in> set xs. within_depth (Suc d) x))"
| "within_depth d (JObj m) = (d \<le> limit_depth \<and> (\<forall>(k, x) \<in> set m. within_depth (Suc d) x))"
| "within_depth d _ = (d \<le> limit_depth)"

definition kids_work :: "(jstr option \<times> json) list \<Rightarrow> nat" where
  "kids_work ks = sum_list (map (\<lambda>(k, x). 1 + graph_work x) ks)"

definition kids_bytes :: "(jstr option \<times> json) list \<Rightarrow> nat" where
  "kids_bytes ks = sum_list (map (\<lambda>(k, x). (case k of None \<Rightarrow> 0 | Some k \<Rightarrow> byte_length k) + graph_bytes x) ks)"

lemma graph_work_pos [simp]: "0 < graph_work v"
  by (cases v) auto

lemma within_depth_here: "within_depth d v \<Longrightarrow> d \<le> limit_depth"
  by (cases v) auto

lemma kids_of_values:
  "kids_work (map (\<lambda>x. (None, x)) xs) = sum_list (map (\<lambda>x. 1 + graph_work x) xs)"
  "kids_work (map (\<lambda>(k, x). (Some k, x)) m) = sum_list (map (\<lambda>(k, x). 1 + graph_work x) m)"
  "kids_bytes (map (\<lambda>x. (None, x)) xs) = sum_list (map graph_bytes xs)"
  "kids_bytes (map (\<lambda>(k, x). (Some k, x)) m) = sum_list (map (\<lambda>(k, x). byte_length k + graph_bytes x) m)"
  by (induction xs, simp_all add: kids_work_def kids_bytes_def) (induction m, auto)+

lemma count_step_Inr: "count_step w = Inr w' \<longleftrightarrow> Suc w \<le> limit_graph \<and> w' = Suc w"
  by (auto simp: count_step_def)

lemma visit_accepts:
  "visit v d st = Inr st' \<longleftrightarrow> fst st + graph_work v \<le> limit_graph \<and> within_depth d v \<and>
     st' = (fst st + graph_work v, snd st + graph_bytes v)"
  "visit_kids ks d st = Inr st' \<longleftrightarrow> (ks = [] \<or> fst st + kids_work ks \<le> limit_graph) \<and>
     (\<forall>(k, x) \<in> set ks. within_depth d x) \<and> st' = (fst st + kids_work ks, snd st + kids_bytes ks)"
proof (induction v d st and ks d st arbitrary: st' and st' rule: visit_visit_kids.induct)
  case (1 v d w b)
  note step = visit.simps [of v d w b]
  show ?case
  proof (cases "Suc w \<le> limit_graph \<and> d \<le> limit_depth")
    case False
    then have "visit v d (w, b) \<noteq> Inr st'" unfolding step by (auto simp: res count_step_Inr)
    moreover have "\<not> (w + graph_work v \<le> limit_graph \<and> within_depth d v)"
      using False within_depth_here [of d v] graph_work_pos [of v] by linarith
    ultimately show ?thesis unfolding fst_conv by blast
  next
    case True
    then have c: "count_step w = Inr (Suc w)" and d: "\<not> d > limit_depth" by (auto simp: count_step_Inr)
    show ?thesis
    proof (cases v)
      case (JArr xs)
      have "visit v d (w, b) = visit_kids (map (\<lambda>x. (None, x)) xs) (Suc d) (Suc w, b)"
        unfolding step using c d JArr by simp
      then show ?thesis
        using True 1(1) [OF d JArr, of "Suc w" st'] by (auto simp: JArr kids_of_values)
    next
      case (JObj m)
      have "visit v d (w, b) = visit_kids (map (\<lambda>(k, x). (Some k, x)) m) (Suc d) (Suc w, b)"
        unfolding step using c d JObj by simp
      then show ?thesis
        using True 1(2) [OF d JObj, of "Suc w" st'] by (auto simp: JObj kids_of_values)
    qed (use c d True in \<open>auto simp: visit.simps\<close>)
  qed
next
  case (2 d st)
  then show ?case by (cases st) (auto simp: kids_work_def kids_bytes_def)
next
  case (3 k x ks d w b)
  show ?case
    by (auto simp: res count_step_Inr 3 kids_work_def kids_bytes_def)
qed

text \<open>
  C12: The frontmatter check accepts exactly the values with at most 10,000 nodes and edges, no
  nesting below depth 128 and at most 64 KiB of strings and keys, every alias counted as often as
  it is reached.
\<close>

theorem frontmatter_graph_accepts:
  "assert_frontmatter_graph v = Inr () \<longleftrightarrow>
     graph_work v \<le> 10000 \<and> within_depth 0 v \<and> graph_bytes v \<le> 65536"
  using visit_accepts(1) [of v 0 "(0, 0)"]
  by (auto simp: assert_frontmatter_graph_def res limit_graph_def limit_frontmatter_def split: if_splits)

subsection \<open>The codec\<close>

datatype entry_error = Constraint constraint | Format_error | Other_entry_error jstr
datatype yaml_error = Depth_exceeded | Yaml_error jstr

text \<open>
  js-yaml's \<open>load\<close> (None for an empty document) and \<open>dump\<close>; gray-matter's \<open>language\<close> name and the
  function itself, which calls the engine it is given on the frontmatter block and returns data and
  content.
\<close>

record entry_codec =
  yaml_load :: "jstr \<Rightarrow> yaml_error + json option"
  yaml_dump :: "json \<Rightarrow> jstr"
  matter_language :: "jstr \<Rightarrow> jstr"
  matter :: "(jstr \<Rightarrow> entry_error + json) \<Rightarrow> jstr \<Rightarrow> entry_error + (json \<times> jstr)"

definition limited :: "constraint + 'a \<Rightarrow> entry_error + 'a" where
  "limited r = (case r of Inl c \<Rightarrow> Inl (Constraint c) | Inr x \<Rightarrow> Inr x)"

definition parser_depth_error :: constraint where
  "parser_depth_error = \<lparr>c_field = lit ''frontmatter.parser_depth'', c_limit = limit_depth, c_actual = limit_depth,
     c_measure = Depth_measure, c_lower_bound = True, c_reason = lit ''parser_max_depth''\<rparr>"

definition load_frontmatter :: "entry_codec \<Rightarrow> jstr \<Rightarrow> entry_error + json" where
  "load_frontmatter co raw =
     try_then (limited (assert_utf8_limit raw (lit ''frontmatter'') limit_frontmatter)) (\<lambda>_.
     try_then (case yaml_load co raw of
         Inl Depth_exceeded \<Rightarrow> Inl (Constraint parser_depth_error)
       | Inl (Yaml_error m) \<Rightarrow> Inl (Other_entry_error m)
       | Inr None \<Rightarrow> Inr (JObj [])
       | Inr (Some v) \<Rightarrow> Inr (if v = JNull then JObj [] else v)) (\<lambda>value.
     try_then (limited (assert_frontmatter_graph value)) (\<lambda>_. Inr value)))"

definition dump_frontmatter :: "entry_codec \<Rightarrow> json \<Rightarrow> entry_error + jstr" where
  "dump_frontmatter co value =
     try_then (limited (assert_frontmatter_graph value)) (\<lambda>_.
     try_then (limited (assert_utf8_limit (yaml_dump co value) (lit ''frontmatter'') limit_frontmatter)) (\<lambda>_.
     Inr (yaml_dump co value)))"

subsection \<open>Sections\<close>

text \<open>
  \<open>Object.entries\<close> of a plain object: array-index keys first, in numeric order, then the others in
  insertion order. Assigning to \<open>__proto__\<close> creates no member.
\<close>

definition index_key :: "jstr \<Rightarrow> bool" where
  "index_key k \<longleftrightarrow> k \<noteq> [] \<and> list_all is_digit k \<and> (hd k \<noteq> 48 \<or> k = [48]) \<and> digits_val 0 k < 4294967295"

definition obj_order :: "(jstr \<times> 'v) list \<Rightarrow> (jstr \<times> 'v) list" where
  "obj_order m = sort_key (\<lambda>(k, _). digits_val 0 k) (filter (\<lambda>(k, _). index_key k) m) @ filter (\<lambda>(k, _). \<not> index_key k) m"

definition obj_set :: "(jstr \<times> 'v) list \<Rightarrow> jstr \<Rightarrow> 'v \<Rightarrow> (jstr \<times> 'v) list" where
  "obj_set m k v = (if k = lit ''__proto__'' then m else map_set m k v)"

text \<open>
  \<open>/^##\s+(.+?)\s*$/\<close>: trimming the captured group is trimming what follows the two marks, since
  the group holds all of it but white space.
\<close>

definition heading_rx :: rx where
  "heading_rx = Sq Bol (Sq (rx_str (lit ''##'')) (Sq (rx_many is_space 1)
     (Sq (Lazy (Ch (\<lambda>c. \<not> line_end c)) 1 None) (Sq (rx_many is_space 0) Eol))))"

definition heading_of :: "jstr \<Rightarrow> jstr option" where
  "heading_of line = (if rx_test heading_rx line then Some (trim (drop 2 line)) else None)"

text \<open>The loop of \<open>extractSections\<close>: current heading, its lines so far (newest last), result.\<close>

definition close_section :: "jstr option \<Rightarrow> jstr list \<Rightarrow> (jstr \<times> jstr) list \<Rightarrow> (jstr \<times> jstr) list" where
  "close_section heading buf result =
     (case heading of None \<Rightarrow> result | Some h \<Rightarrow> obj_set result h (trim (join [10] buf)))"

fun section_loop :: "jstr list \<Rightarrow> jstr option \<Rightarrow> jstr list \<Rightarrow> (jstr \<times> jstr) list \<Rightarrow> (jstr \<times> jstr) list" where
  "section_loop [] heading buf result = close_section heading buf result"
| "section_loop (line # ls) heading buf result =
     (case heading_of line of
        Some h \<Rightarrow> section_loop ls (Some h) [] (close_section heading buf result)
      | None \<Rightarrow> (if heading \<noteq> None then section_loop ls heading (buf @ [line]) result
                else section_loop ls heading buf result))"

definition extract_sections :: "jstr \<Rightarrow> (jstr \<times> jstr) list" where
  "extract_sections body = section_loop (split_lines body) None [] []"

subsection \<open>Parsing and printing a document\<close>

record parsed_markdown =
  pm_frontmatter :: json
  pm_body :: jstr
  pm_sections :: "(jstr \<times> jstr) list"

definition parse_markdown :: "entry_codec \<Rightarrow> bool \<Rightarrow> jstr \<Rightarrow> entry_error + parsed_markdown" where
  "parse_markdown co allowOversized source =
     try_then (if allowOversized then Inr () else limited (assert_utf8_limit source (lit ''entry_markdown'') limit_markdown)) (\<lambda>_.
     let normalized = (if source \<noteq> [] \<and> hd source = 65279 then tl source else source);
         language = ascii_lower (matter_language co normalized) in
     if starts_with (lit ''---'') normalized \<and> \<not> (length normalized > 3 \<and> normalized ! 3 = 45) \<and>
        language \<noteq> [] \<and> language \<noteq> lit ''yaml'' \<and> language \<noteq> lit ''yml''
     then Inl Format_error
     else try_then (matter co (load_frontmatter co) source) (\<lambda>(data, content).
       Inr \<lparr>pm_frontmatter = data, pm_body = content, pm_sections = extract_sections content\<rparr>))"

record built_entry =
  be_content :: jstr
  be_body :: jstr

definition section_text :: "jstr \<times> jstr \<Rightarrow> jstr" where
  "section_text s = lit ''## '' @ fst s @ [10, 10] @ trim (snd s)"

definition body_text :: "(jstr \<times> jstr) list \<Rightarrow> jstr" where
  "body_text sections = join [10, 10] (map section_text (obj_order sections))"

definition build_entry :: "entry_codec \<Rightarrow> json \<Rightarrow> (jstr \<times> jstr) list \<Rightarrow> entry_error + built_entry" where
  "build_entry co frontmatter sections =
     (let body = body_text sections in
      try_then (dump_frontmatter co frontmatter) (\<lambda>yaml.
      let content = lit ''---'' @ [10] @ yaml @ lit ''---'' @ [10, 10] @ body @ (if body = [] then [] else [10]) in
      try_then (limited (assert_utf8_limit content (lit ''entry_markdown'') limit_markdown)) (\<lambda>_.
      Inr \<lparr>be_content = content, be_body = body\<rparr>)))"

subsection \<open>Role texts\<close>

text \<open>\<open>Object.values\<close> of an object or an array.\<close>

fun object_values :: "json \<Rightarrow> json list" where
  "object_values (JObj m) = map snd (obj_order m)"
| "object_values (JArr xs) = xs"
| "object_values _ = []"

fun tag_labels :: "json option \<Rightarrow> jstr list" where
  "tag_labels (Some (JArr xs)) = List.map_filter (\<lambda>x. as_str (Some x)) xs"
| "tag_labels _ = []"

fun env_value :: "json \<Rightarrow> jstr option" where
  "env_value (JStr s) = Some s"
| "env_value (JNum n) = Some (dec_str n)"
| "env_value (JBool b) = Some (if b then lit ''true'' else lit ''false'')"
| "env_value _ = None"

text \<open>An element of \<open>join\<close>: null and undefined give nothing; \<open>None\<close> is undefined.\<close>

fun join_text :: "json option \<Rightarrow> jstr" where
  "join_text (Some (JStr s)) = s"
| "join_text (Some (JNum n)) = dec_str n"
| "join_text (Some (JBool b)) = (if b then lit ''true'' else lit ''false'')"
| "join_text (Some (JArr xs)) = join [44] (map (\<lambda>x. join_text (Some x)) xs)"
| "join_text (Some (JObj m)) = lit ''[object Object]''"
| "join_text _ = []"

definition symptom_key :: "jstr \<Rightarrow> bool" where
  "symptom_key k \<longleftrightarrow> ascii_lower (trim k) = lit ''symptom''"

definition derive_role_texts :: "json option \<Rightarrow> jstr \<Rightarrow> jstr option \<Rightarrow> jstr \<Rightarrow> jstr \<times> jstr" where
  "derive_role_texts title body tags frontmatter_json =
     (let tagLabels = (case tags of None \<Rightarrow> [] | Some t \<Rightarrow> if t = [] then [] else tag_labels (json_parse t));
          envValues = (if frontmatter_json = [] then [] else
            (case json_parse frontmatter_json of
               None \<Rightarrow> []
             | Some fm \<Rightarrow> (case get_member fm ''environment'' of
                 None \<Rightarrow> []
               | Some env \<Rightarrow> List.map_filter env_value (object_values env))));
          symptom = (case find (\<lambda>(k, _). symptom_key k) (obj_order (extract_sections body)) of
            None \<Rightarrow> [] | Some (_, s) \<Rightarrow> s)
      in (join [10] (join_text title # tagLabels @ envValues), symptom))"

subsection \<open>Sections survive printing\<close>

definition good_heading :: "jstr \<Rightarrow> bool" where
  "good_heading h \<longleftrightarrow> h \<noteq> [] \<and> trim h = h \<and> list_all (\<lambda>c. \<not> line_end c) h \<and> h \<noteq> lit ''__proto__''"

definition good_content :: "jstr \<Rightarrow> bool" where
  "good_content c \<longleftrightarrow> 13 \<notin> set c \<and> list_all (\<lambda>line. heading_of line = None) (split_on 10 (trim c))"

lemma dropWhile_trim: "dropWhile P s = s \<longleftrightarrow> s = [] \<or> \<not> P (hd s)"
  by (rule dropWhile_eq_self_iff)

lemma trim_Nil [simp]: "trim [] = []"
  by (simp add: trim_def trim_end_def)

lemma trim_hd: "trim s \<noteq> [] \<Longrightarrow> \<not> is_space (hd (trim s))"
proof -
  let ?d = "dropWhile is_space s"
  assume ne: "trim s \<noteq> []"
  obtain w where w: "?d = trim_end ?d @ w"
    unfolding trim_end_def using takeWhile_dropWhile_id [of is_space "rev ?d"] by (metis rev_append rev_rev_ident)
  have "hd ?d = hd (trim s)" using ne w by (metis hd_append2 trim_def)
  moreover have "?d \<noteq> []"
  proof
    assume "?d = []"
    then have "trim s = []" by (simp only: trim_def trim_end_def rev.simps dropWhile.simps)
    with ne show False by simp
  qed
  ultimately show ?thesis using hd_dropWhile by metis
qed

lemma trim_last: "trim s \<noteq> [] \<Longrightarrow> \<not> is_space (last (trim s))"
  unfolding trim_def trim_end_def by (metis Nil_is_rev_conv hd_dropWhile last_rev)

lemma trim_idem [simp]: "trim (trim s) = trim s"
proof (cases "trim s = []")
  case False
  then have "dropWhile is_space (trim s) = trim s" "dropWhile is_space (rev (trim s)) = rev (trim s)"
    using trim_hd [of s] trim_last [of s] by (simp_all add: dropWhile_trim hd_rev)
  then show ?thesis by (simp add: trim_def [of "trim s"] trim_end_def)
qed simp

lemma trim_pad: "list_all is_space a \<Longrightarrow> list_all is_space b \<Longrightarrow> trim (a @ trim s @ b) = trim s"
proof (cases "trim s = []")
  case True
  assume "list_all is_space a" "list_all is_space b"
  then have "dropWhile is_space (a @ b) = []" by (auto simp: list_all_iff dest: set_dropWhileD)
  then have "trim (a @ b) = []" by (simp only: trim_def trim_end_def rev.simps dropWhile.simps)
  with True show ?thesis by simp
next
  case False
  assume a: "list_all is_space a" and b: "list_all is_space b"
  have "dropWhile is_space (a @ trim s @ b) = trim s @ b"
    using a trim_hd [OF False] False by (cases "trim s") (simp_all add: dropWhile_append2 list_all_iff)
  moreover have "dropWhile is_space (rev b @ t) = dropWhile is_space t" for t
    using b by (auto simp: list_all_iff intro: dropWhile_append2)
  then have "dropWhile is_space (rev (trim s @ b)) = rev (trim s)"
    using trim_last [OF False] False by (cases "rev (trim s)") simp_all
  ultimately show ?thesis by (simp add: trim_def [of "a @ trim s @ b"] trim_end_def)
qed

lemma heading_printed:
  assumes "good_heading h"
  shows "heading_of (lit ''## '' @ h) = Some h"
proof -
  let ?l = "lit ''## '' @ h" and ?n = "length h + 3"
  have h: "h \<noteq> []" "\<forall>c \<in> set h. \<not> line_end c" "trim h = h" using assms by (auto simp: good_heading_def list_all_iff)
  have marks: "lit ''## '' = [35, 35, 32]" "lit ''##'' = [35, 35]" by (simp_all add: lit_def)
  have l: "?l = 35 # 35 # 32 # h" by (simp add: marks)
  have "\<not> line_end (?l ! k)" if "3 \<le> k" "k < ?n" for k
  proof -
    have "?l ! k = h ! (k - 3)" using that by (simp add: l nth_Cons' numeral_3_eq_3)
    with that h(2) show ?thesis by auto
  qed
  then have group: "run_of (\<lambda>c. \<not> line_end c) ?l 3 ?n" by (simp add: run_of_def)
  have space: "run_of is_space ?l 2 3"
    unfolding run_of_def by (auto simp: l is_space_def le_less_Suc_eq numeral_3_eq_3 numeral_2_eq_2)
  have "?n \<in> set (ends heading_rx ?l 0)"
    unfolding heading_rx_def
  proof (intro ends_SqI)
    show "0 \<in> set (ends Bol ?l 0)" by simp
    show "2 \<in> set (ends (rx_str (lit ''##'')) ?l 0)" by (subst ends_rx_str) (simp_all add: l marks)
    show "3 \<in> set (ends (rx_many is_space 1) ?l 2)" by (subst set_ends_Rep_Ch) (simp_all add: space [unfolded l] l)
    show "?n \<in> set (ends (Lazy (Ch (\<lambda>c. \<not> line_end c)) 1 None) ?l 3)"
      using h(1) by (subst set_ends_Lazy_Ch) (simp_all add: group Suc_le_eq)
    show "?n \<in> set (ends (rx_many is_space 0) ?l ?n)" by (subst set_ends_Rep_Ch) simp_all
    show "?n \<in> set (ends Eol ?l ?n)" by simp
  qed
  then have "rx_test heading_rx ?l" by (auto simp: rx_test_def search_None)
  moreover have "trim (drop 2 ?l) = h"
    using trim_pad [of "[32]" "[]" h] h(3) by (simp add: marks is_space_def)
  ultimately show ?thesis by (simp add: heading_of_def)
qed

lemma heading_of_Nil [simp]: "heading_of [] = None"
proof -
  have "ends heading_rx [] 0 = []" by (simp add: heading_rx_def ends_rx_str lit_def)
  then show ?thesis by (simp add: heading_of_def rx_test_def search_None)
qed

lemma split_on_append: "split_on c (a @ c # b) = split_on c a @ split_on c b"
  by (induction a) (auto split: list.splits)

lemma set_trim: "set (trim s) \<subseteq> set s"
  unfolding trim_def trim_end_def by (auto dest!: set_dropWhileD)

lemma set_join: "set (join sep ss) \<subseteq> set sep \<union> \<Union> (set ` set ss)"
  by (induction sep ss rule: join.induct) auto

definition section_lines :: "jstr \<times> jstr \<Rightarrow> jstr list" where
  "section_lines s = (lit ''## '' @ fst s) # [] # split_on 10 (trim (snd s))"

lemma split_section_text: "good_heading (fst s) \<Longrightarrow> split_on 10 (section_text s) = section_lines s"
proof -
  assume "good_heading (fst s)"
  then have "10 \<notin> set (lit ''## '' @ fst s)"
    by (auto simp: good_heading_def list_all_iff line_end_def lit_def)
  from split_on_append_sep [OF this, of "10 # trim (snd s)"]
  show ?thesis by (simp add: section_text_def section_lines_def)
qed

definition printed_lines :: "(jstr \<times> jstr) list \<Rightarrow> jstr list" where
  "printed_lines m = split_on 10 (join [10, 10] (map section_text m))"

lemma printed_lines_simps:
  assumes "good_heading (fst s)"
  shows "printed_lines [s] = section_lines s"
    and "printed_lines (s # t # m) = section_lines s @ [] # printed_lines (t # m)"
  using split_section_text [OF assms] by (simp_all add: printed_lines_def split_on_append)

lemma section_loop_content:
  "list_all (\<lambda>line. heading_of line = None) ls \<Longrightarrow>
     section_loop (ls @ rest) (Some h) buf result = section_loop rest (Some h) (buf @ ls) result"
  by (induction ls arbitrary: buf) auto

lemma section_loop_lines:
  assumes "good_heading (fst s)" and "good_content (snd s)"
  shows "section_loop (section_lines s @ rest) heading buf result =
     section_loop rest (Some (fst s)) ([] # split_on 10 (trim (snd s))) (close_section heading buf result)"
  using assms heading_printed [OF assms(1)] section_loop_content [of "[] # split_on 10 (trim (snd s))" rest "fst s" "[]"]
  by (simp add: section_lines_def good_content_def)

lemma join_lines: "xs \<noteq> [] \<Longrightarrow> join [10] ([] # xs) = 10 # join [10] xs"
  "xs \<noteq> [] \<Longrightarrow> join [10] (xs @ [[]]) = join [10] xs @ [10]"
proof -
  show "xs \<noteq> [] \<Longrightarrow> join [10] ([] # xs) = 10 # join [10] xs" by (cases xs) auto
  show "xs \<noteq> [] \<Longrightarrow> join [10] (xs @ [[]]) = join [10] xs @ [10]"
    by (induction "[10] :: jstr" xs rule: join.induct) auto
qed

lemma closed_content:
  "trim (join [10] ([] # split_on 10 (trim c))) = trim c"
  "trim (join [10] ([] # split_on 10 (trim c) @ [[]])) = trim c"
  using trim_pad [of "[10]" "[]" c] trim_pad [of "[10]" "[10]" c]
  by (simp_all add: join_lines join_split_on is_space_def)

lemma section_loop_printed:
  "m \<noteq> [] \<Longrightarrow> \<forall>s \<in> set m. good_heading (fst s) \<and> good_content (snd s) \<Longrightarrow>
     section_loop (printed_lines m) heading buf result =
       foldl (\<lambda>r s. obj_set r (fst s) (trim (snd s))) (close_section heading buf result) m"
proof (induction m arbitrary: heading buf result)
  case (Cons s m)
  have s: "good_heading (fst s)" "good_content (snd s)" using Cons.prems by simp_all
  show ?case
  proof (cases m)
    case Nil
    then show ?thesis
      using section_loop_lines [OF s, of "[]"] by (simp add: printed_lines_simps [OF s(1)] close_section_def closed_content)
  next
    case (Cons t m')
    have "section_loop (printed_lines (s # m)) heading buf result =
        section_loop (printed_lines m) (Some (fst s)) ([] # split_on 10 (trim (snd s)) @ [[]]) (close_section heading buf result)"
      unfolding Cons printed_lines_simps [OF s(1)] section_loop_lines [OF s] by simp
    also have "\<dots> = foldl (\<lambda>r s. obj_set r (fst s) (trim (snd s)))
        (close_section (Some (fst s)) ([] # split_on 10 (trim (snd s)) @ [[]]) (close_section heading buf result)) m"
      using Cons.IH Cons.prems Cons by simp
    finally show ?thesis by (simp add: close_section_def [of "Some _"] closed_content)
  qed
qed simp

lemma foldl_obj_set:
  "distinct (map fst r @ map fst m) \<Longrightarrow> \<forall>s \<in> set m. fst s \<noteq> lit ''__proto__'' \<Longrightarrow>
     foldl (\<lambda>r s. obj_set r (fst s) (trim (snd s))) r m = r @ map (\<lambda>(h, c). (h, trim c)) m"
proof (induction m arbitrary: r)
  case (Cons s m)
  then have "obj_set r (fst s) (trim (snd s)) = r @ [(fst s, trim (snd s))]"
    by (auto simp: obj_set_def map_set_new)
  with Cons show ?case by (auto simp: case_prod_beta)
qed simp

lemma set_obj_order: "set (obj_order m) = set m"
  by (auto simp: obj_order_def)

lemma distinct_obj_order: "distinct (map fst m) \<Longrightarrow> distinct (map fst (obj_order m))"
proof -
  assume d: "distinct (map fst m)"
  have "distinct (map fst (sort_key (\<lambda>(k, _). digits_val 0 k) (filter (\<lambda>(k, _). index_key k) m)))"
    using d by (simp add: distinct_map distinct_filter inj_on_def)
  then show ?thesis using d by (auto simp: obj_order_def distinct_map distinct_filter inj_on_def)
qed

lemma body_text_no_cr:
  assumes "\<forall>s \<in> set m. good_heading (fst s) \<and> good_content (snd s)"
  shows "13 \<notin> set (body_text m)"
proof -
  have "13 \<notin> set (section_text s)" if "s \<in> set (obj_order m)" for s
    using assms that set_trim [of "snd s"] set_obj_order [of m]
    by (auto simp: section_text_def good_heading_def good_content_def list_all_iff line_end_def lit_def)
  then show ?thesis
    using set_join [of "[10, 10]" "map section_text (obj_order m)"] by (auto simp: body_text_def)
qed

lemma section_print:
  assumes "distinct (map fst m)" and "\<forall>s \<in> set m. good_heading (fst s) \<and> good_content (snd s)"
  shows "extract_sections (body_text m) = map (\<lambda>(h, c). (h, trim c)) (obj_order m)"
proof (cases "m = []")
  case True
  then show ?thesis
    by (simp add: extract_sections_def body_text_def obj_order_def split_lines_free close_section_def)
next
  case False
  let ?m = "obj_order m"
  have m: "?m \<noteq> []" "distinct (map fst ?m)" "\<forall>s \<in> set ?m. good_heading (fst s) \<and> good_content (snd s)"
    using False assms distinct_obj_order set_obj_order [of m] by auto
  have "13 \<notin> set (join [10, 10] (map section_text ?m))"
    using body_text_no_cr [OF assms(2)] by (simp add: body_text_def)
  then have "extract_sections (body_text m) = section_loop (printed_lines ?m) None [] []"
    by (simp add: extract_sections_def body_text_def printed_lines_def split_lines_on)
  also have "\<dots> = map (\<lambda>(h, c). (h, trim c)) ?m"
    using m foldl_obj_set [of "[]" ?m] by (subst section_loop_printed) (auto simp: close_section_def good_heading_def)
  finally show ?thesis .
qed

text \<open>A blank line before the first heading or at the end changes nothing.\<close>

lemma trim_newline: "trim (s @ [10]) = trim s"
proof -
  have blank_end: "trim_end (x @ [10]) = trim_end x" for x by (simp add: trim_end_def is_space_def)
  show ?thesis
  proof (cases "\<forall>c \<in> set s. is_space c")
    case True
    then have "dropWhile is_space (s @ [10]) = []" "dropWhile is_space s = []" by (auto simp: is_space_def)
    then show ?thesis unfolding trim_def by (simp only:)
  next
    case False
    then obtain c where "c \<in> set s" "\<not> is_space c" by blast
    then have "dropWhile is_space (s @ [10]) = dropWhile is_space s @ [10]" by (rule dropWhile_append1)
    then show ?thesis unfolding trim_def by (simp only: blank_end)
  qed
qed

lemma section_loop_blank: "section_loop (ls @ [[]]) heading buf result = section_loop ls heading buf result"
proof (induction ls arbitrary: heading buf result)
  case Nil
  have "trim (join [10] (buf @ [[]])) = trim (join [10] buf)"
    by (cases "buf = []") (simp_all add: join_lines trim_newline)
  then show ?case by (simp add: close_section_def split: option.splits)
next
  case (Cons line ls)
  then show ?case by (cases heading; cases "heading_of line") simp_all
qed

lemma extract_sections_framed:
  assumes "13 \<notin> set body"
  shows "extract_sections ([10] @ body @ [10]) = extract_sections body"
proof -
  have "split_lines ([10] @ body @ [10]) = [] # split_on 10 body @ [[]]"
    using assms by (simp add: split_lines_on split_on_append)
  then show ?thesis using assms by (simp add: extract_sections_def split_lines_on section_loop_blank)
qed

text \<open>
  C13: Reading the sections of a printed entry gives back the sections it was printed from, each
  content trimmed, in the order of the printed document; provided the headings are non-blank,
  trimmed, distinct lines other than \<open>__proto__\<close> and no line of a content reads as a heading or
  holds a carriage return. They are read from the body and, the same, from the rest of the entry's
  file behind the closing mark of the frontmatter.
\<close>

theorem sections_roundtrip:
  assumes "build_entry co fm m = Inr built"
    and "distinct (map fst m)" and "\<forall>s \<in> set m. good_heading (fst s) \<and> good_content (snd s)"
  shows "extract_sections (be_body built) = map (\<lambda>(h, c). (h, trim c)) (obj_order m) \<and>
    (\<exists>yaml rest. be_content built = lit ''---'' @ [10] @ yaml @ lit ''---'' @ [10] @ rest \<and>
      dump_frontmatter co fm = Inr yaml \<and> extract_sections rest = map (\<lambda>(h, c). (h, trim c)) (obj_order m))"
proof -
  note printed = section_print [OF assms(2,3)]
  have rest: "extract_sections ([10] @ body_text m @ (if body_text m = [] then [] else [10])) = extract_sections (body_text m)"
    using extract_sections_framed [OF body_text_no_cr [OF assms(3)]]
    by (simp add: extract_sections_def split_lines_free close_section_def split_lines_on)
  from assms(1) obtain yaml where "dump_frontmatter co fm = Inr yaml" "be_body built = body_text m"
    "be_content built = lit ''---'' @ [10] @ yaml @ lit ''---'' @ [10] @ [10] @ body_text m @ (if body_text m = [] then [] else [10])"
    by (auto simp: build_entry_def Let_def res)
  with printed rest show ?thesis by (intro conjI exI [of _ yaml]
      exI [of _ "[10] @ body_text m @ (if body_text m = [] then [] else [10])"]) (simp_all only:)
qed

definition plain_codec :: entry_codec where
  "plain_codec = \<lparr>yaml_load = (\<lambda>_. Inr None), yaml_dump = (\<lambda>_. []), matter_language = (\<lambda>_. []),
     matter = (\<lambda>engine s. try_then (engine s) (\<lambda>fm. Inr (fm, s)))\<rparr>"

lemma graph_accepts:
  "graph_work v \<le> limit_graph \<Longrightarrow> within_depth 0 v \<Longrightarrow> graph_bytes v \<le> limit_frontmatter \<Longrightarrow> assert_frontmatter_graph v = Inr ()"
  using visit_accepts(1) [of v 0 "(0, 0)"] by (auto simp: assert_frontmatter_graph_def res)

definition hang_sections :: "(jstr \<times> jstr) list" where
  "hang_sections = [(lit ''Symptom'', lit '' it hangs ''), (lit ''Cause'', [])]"

lemma trimmed_words: "trim (lit ''Symptom'') = lit ''Symptom''" "trim (lit ''Cause'') = lit ''Cause''"
  "trim (lit '' it hangs '') = lit ''it hangs''"
  by (simp_all add: trim_def trim_end_def is_space_def lit_def)

lemma hang_body: "body_text hang_sections = lit ''## '' @ lit ''Symptom'' @ [10, 10] @ lit ''it hangs'' @ [10, 10] @ lit ''## '' @ lit ''Cause'' @ [10, 10]"
proof -
  have "obj_order hang_sections = hang_sections"
    by (simp add: obj_order_def hang_sections_def index_key_def) (simp add: lit_def is_digit_def)
  then show ?thesis by (simp add: body_text_def section_text_def hang_sections_def trimmed_words)
qed

theorem sections_roundtrip_witness:
  "\<exists>built. build_entry plain_codec (JObj []) hang_sections = Inr built \<and>
     extract_sections (be_body built) = map (\<lambda>(h, c). (h, trim c)) (obj_order hang_sections)"
proof -
  have "\<forall>c \<in> set (lit ''---'' @ [10] @ lit ''---'' @ [10, 10] @ body_text hang_sections @ [10]). c < 128"
    unfolding hang_body by (simp add: lit_def)
  moreover have "length (body_text hang_sections) \<le> 100" "body_text hang_sections \<noteq> []" unfolding hang_body by simp_all
  moreover have "assert_frontmatter_graph (JObj []) = Inr ()"
    by (rule graph_accepts) (simp_all add: limit_graph_def limit_depth_def limit_frontmatter_def)
  ultimately obtain built where b: "build_entry plain_codec (JObj []) hang_sections = Inr built"
    by (auto simp: build_entry_def dump_frontmatter_def limited_def assert_utf8_limit_def plain_codec_def Let_def
        byte_length_def utf8_encode_ascii limit_frontmatter_def limit_markdown_def)
  have n: "split_on 10 (lit ''it hangs'') = [lit ''it hangs'']" by (simp add: lit_def)
  have h: "heading_of (lit ''it hangs'') = None"
    by (simp add: heading_of_def rx_test_def search_None heading_rx_def ends_rx_str lit_def)
  have "\<forall>s \<in> set hang_sections. good_heading (fst s) \<and> good_content (snd s)"
    using trimmed_words n h by (simp add: hang_sections_def good_heading_def good_content_def) (simp add: lit_def line_end_def)
  from sections_roundtrip [OF b _ this] b show ?thesis by (simp add: hang_sections_def)
qed

end
