(* ===== verification/EntryIndex.thy ===== *)
theory EntryIndex
  imports EntryText FileTree
begin

text \<open>
  The search index as the code writes it: the table \<open>entries\<close> of
  \<open>packages/core/src/schema.sql\<close> and the operations of \<open>indexer.ts\<close> and of \<open>entryRead.ts\<close>
  (\<open>constraintDiagnostic\<close>) that read and write it. A database is the list of
  its rows and the next row id; an SQL statement is the function it computes on that list. The
  binding of a JavaScript value to a parameter is SQLite's (\<open>sql_bind\<close>): strings bind as
  themselves, null as NULL, anything else as the driver decides.
\<close>

subsection \<open>The table\<close>

record row =
  r_rowid :: nat
  r_id :: jstr
  r_source :: jstr
  r_path :: jstr
  r_title :: jstr
  r_body :: jstr
  r_frontmatter_json :: jstr
  r_tags :: "jstr option"
  r_confidence :: "jstr option"
  r_visibility :: "jstr option"
  r_file_mtime :: jstr
  r_indexed_at :: jstr
  r_last_hit_at :: "jstr option"
  r_topical :: "jstr option"
  r_symptom :: "jstr option"

record entry_db =
  rows :: "row list"
  next_rowid :: nat

record sql_binding =
  bind_value :: "json option \<Rightarrow> entry_error + jstr option"

text \<open>The documented behaviour of the driver that the code relies on.\<close>

definition binds_strings :: "sql_binding \<Rightarrow> bool" where
  "binds_strings b \<longleftrightarrow> (\<forall>s. bind_value b (Some (JStr s)) = Inr (Some s)) \<and> bind_value b (Some JNull) = Inr None"

record upsert_row =
  ur_id :: "json option"
  ur_source :: jstr
  ur_path :: jstr
  ur_title :: "json option"
  ur_body :: jstr
  ur_frontmatter_json :: jstr
  ur_tags :: jstr
  ur_confidence :: "json option"
  ur_visibility :: "json option"
  ur_file_mtime :: jstr
  ur_indexed_at :: jstr

definition find_row :: "entry_db \<Rightarrow> jstr \<Rightarrow> jstr \<Rightarrow> row option" where
  "find_row db source eid = find (\<lambda>r. r_source r = source \<and> r_id r = eid) (rows db)"

definition not_null :: "jstr option \<Rightarrow> entry_error + jstr" where
  "not_null v = (case v of None \<Rightarrow> Inl (Other_entry_error (lit ''NOT NULL constraint failed'')) | Some x \<Rightarrow> Inr x)"

subsection \<open>Inserting and updating\<close>

definition role_texts :: "upsert_row \<Rightarrow> jstr \<times> jstr" where
  "role_texts row = derive_role_texts (ur_title row) (ur_body row) (Some (ur_tags row)) (ur_frontmatter_json row)"

definition updated_row :: "upsert_row \<Rightarrow> jstr \<Rightarrow> jstr option \<Rightarrow> jstr option \<Rightarrow> row \<Rightarrow> row" where
  "updated_row row title confidence visibility r = r\<lparr>r_path := ur_path row, r_title := title, r_body := ur_body row,
     r_frontmatter_json := ur_frontmatter_json row, r_tags := Some (ur_tags row),
     r_confidence := confidence, r_visibility := visibility, r_file_mtime := ur_file_mtime row,
     r_indexed_at := ur_indexed_at row, r_topical := Some (fst (role_texts row)), r_symptom := Some (snd (role_texts row))\<rparr>"

definition inserted_row :: "upsert_row \<Rightarrow> nat \<Rightarrow> jstr \<Rightarrow> jstr \<Rightarrow> jstr option \<Rightarrow> jstr option \<Rightarrow> row" where
  "inserted_row row rid eid title confidence visibility = \<lparr>r_rowid = rid, r_id = eid, r_source = ur_source row,
     r_path = ur_path row, r_title = title, r_body = ur_body row, r_frontmatter_json = ur_frontmatter_json row,
     r_tags = Some (ur_tags row), r_confidence = confidence, r_visibility = visibility,
     r_file_mtime = ur_file_mtime row, r_indexed_at = ur_indexed_at row, r_last_hit_at = None,
     r_topical = Some (fst (role_texts row)), r_symptom = Some (snd (role_texts row))\<rparr>"

definition write_row ::
  "entry_db \<Rightarrow> upsert_row \<Rightarrow> jstr \<Rightarrow> jstr \<Rightarrow> jstr option \<Rightarrow> jstr option \<Rightarrow> entry_db \<times> nat" where
  "write_row db row eid title confidence visibility =
     (case find_row db (ur_source row) eid of
        Some old \<Rightarrow>
          (db\<lparr>rows := map (\<lambda>r. if r_source r = ur_source row \<and> r_id r = eid
               then updated_row row title confidence visibility r else r) (rows db)\<rparr>, r_rowid old)
      | None \<Rightarrow>
          (\<lparr>rows = rows db @ [inserted_row row (next_rowid db) eid title confidence visibility],
            next_rowid = Suc (next_rowid db)\<rparr>, next_rowid db))"

definition upsert_entry :: "sql_binding \<Rightarrow> entry_db \<Rightarrow> upsert_row \<Rightarrow> entry_error + entry_db \<times> nat" where
  "upsert_entry b db row =
     try_then (bind_value b (ur_id row)) (\<lambda>id_value.
     try_then (bind_value b (ur_title row)) (\<lambda>title_value.
     try_then (bind_value b (ur_confidence row)) (\<lambda>confidence.
     try_then (bind_value b (ur_visibility row)) (\<lambda>visibility.
     try_then (not_null id_value) (\<lambda>eid.
     try_then (not_null title_value) (\<lambda>title.
     Inr (write_row db row eid title confidence visibility)))))))"

text \<open>
  \<open>buildEntryUpsertRow\<close>. \<open>JSON.stringify(fm)\<close> of undefined tags gives \<open>[]\<close>; of a value that is not
  an object, the members are undefined.
\<close>

definition build_upsert_row ::
  "entry_codec \<Rightarrow> jstr \<Rightarrow> jstr \<Rightarrow> jstr \<Rightarrow> jstr \<Rightarrow> jstr \<Rightarrow> entry_error + upsert_row" where
  "build_upsert_row co source path content mtime indexed_at =
     try_then (parse_markdown co False content) (\<lambda>parsed.
     let fm = pm_frontmatter parsed in
     Inr \<lparr>ur_id = get_member fm ''id'', ur_source = source, ur_path = path, ur_title = get_member fm ''title'',
        ur_body = pm_body parsed, ur_frontmatter_json = json_stringify fm,
        ur_tags = (case get_member fm ''tags'' of
            None \<Rightarrow> lit ''[]'' | Some t \<Rightarrow> if t = JNull then lit ''[]'' else json_stringify t),
        ur_confidence = get_member fm ''confidence'', ur_visibility = get_member fm ''visibility'',
        ur_file_mtime = mtime, ur_indexed_at = indexed_at\<rparr>)"

subsection \<open>Scanning a directory of entries\<close>

text \<open>A markdown file as the scan sees it: path below the root, time (ISO and milliseconds), size, decoded text and digests.\<close>

record md_file =
  mf_path :: jstr
  mf_mtime :: jstr
  mf_mtime_ms :: jstr
  mf_size :: nat
  mf_text :: jstr
  mf_file_sha :: jstr
  mf_text_sha :: jstr

datatype index_state = Skipped | Stale_preserved

record read_diagnostic =
  rd_source :: jstr
  rd_path :: jstr
  rd_id :: "jstr option"
  rd_sha256 :: jstr
  rd_observed_at :: jstr
  rd_constraint :: constraint
  rd_state :: index_state
  rd_preserved :: "jstr list"

definition constraint_diagnostic :: "entry_db \<Rightarrow> jstr \<Rightarrow> jstr \<Rightarrow> jstr \<Rightarrow> constraint \<Rightarrow> jstr \<Rightarrow> read_diagnostic" where
  "constraint_diagnostic db source path sha c at =
     (let found = filter (\<lambda>r. r_source r = source \<and> r_path r = path) (rows db) in
      \<lparr>rd_source = source, rd_path = path, rd_id = (if length found = 1 then Some (r_id (hd found)) else None),
       rd_sha256 = sha, rd_observed_at = at, rd_constraint = c,
       rd_state = (if found \<noteq> [] then Stale_preserved else Skipped), rd_preserved = map r_id found\<rparr>)"

record scan_state =
  sc_db :: entry_db
  sc_touched :: "nat list"
  sc_added :: nat
  sc_updated :: nat
  sc_diagnostics :: "read_diagnostic list"

text \<open>\<open>touched\<close> has the row id as its primary key: inserting one twice throws.\<close>

definition touch :: "nat \<Rightarrow> scan_state \<Rightarrow> entry_error + scan_state" where
  "touch rid st = (if rid \<in> set (sc_touched st) then Inl (Other_entry_error (lit ''UNIQUE constraint failed: touched.rowid''))
     else Inr (st\<lparr>sc_touched := sc_touched st @ [rid]\<rparr>))"

fun touch_all :: "nat list \<Rightarrow> scan_state \<Rightarrow> entry_error + scan_state" where
  "touch_all [] st = Inr st"
| "touch_all (n # ns) st = try_then (touch n st) (touch_all ns)"

definition skip_file :: "jstr \<Rightarrow> jstr \<Rightarrow> md_file \<Rightarrow> constraint \<Rightarrow> jstr \<Rightarrow> scan_state \<Rightarrow> entry_error + scan_state" where
  "skip_file now source f c sha st =
     touch_all (map r_rowid (filter (\<lambda>r. r_source r = source \<and> r_path r = mf_path f) (rows (sc_db st))))
       (st\<lparr>sc_diagnostics := sc_diagnostics st @ [constraint_diagnostic (sc_db st) source (mf_path f) sha c now]\<rparr>)"

definition store_row :: "sql_binding \<Rightarrow> upsert_row \<Rightarrow> row option \<Rightarrow> scan_state \<Rightarrow> entry_error + scan_state" where
  "store_row b row existing st =
     try_then (upsert_entry b (sc_db st) row) (\<lambda>(db, rid).
     try_then (touch rid (st\<lparr>sc_db := db\<rparr>)) (\<lambda>st.
     Inr (if existing \<noteq> None then st\<lparr>sc_updated := Suc (sc_updated st)\<rparr> else st\<lparr>sc_added := Suc (sc_added st)\<rparr>)))"

definition existing_row :: "sql_binding \<Rightarrow> entry_db \<Rightarrow> upsert_row \<Rightarrow> entry_error + row option" where
  "existing_row b db row =
     try_then (bind_value b (ur_id row)) (\<lambda>v.
     Inr (case v of None \<Rightarrow> None | Some eid \<Rightarrow> find_row db (ur_source row) eid))"

definition scan_file ::
  "entry_codec \<Rightarrow> sql_binding \<Rightarrow> bool \<Rightarrow> jstr \<Rightarrow> jstr \<Rightarrow> md_file \<Rightarrow> scan_state \<Rightarrow> entry_error + scan_state" where
  "scan_file co b force now source f st =
     (if mf_size f > limit_markdown
      then skip_file now source f (exceeded (lit ''entry_markdown'') limit_markdown (mf_size f) Utf8_bytes False) (mf_file_sha f) st
      else
        (case build_upsert_row co source (mf_path f) (mf_text f) (mf_mtime f) now of
           Inl (Constraint c) \<Rightarrow> skip_file now source f c (mf_text_sha f) st
         | Inl e \<Rightarrow> Inl e
         | Inr row \<Rightarrow>
             try_then (existing_row b (sc_db st) row) (\<lambda>existing.
             (case existing of
                Some old \<Rightarrow>
                  (if \<not> force \<and> r_file_mtime old = mf_mtime f \<and> r_path old = mf_path f then touch (r_rowid old) st
                   else store_row b row existing st)
              | None \<Rightarrow> store_row b row existing st))))"

fun scan_files ::
  "entry_codec \<Rightarrow> sql_binding \<Rightarrow> bool \<Rightarrow> jstr \<Rightarrow> jstr \<Rightarrow> md_file list \<Rightarrow> scan_state \<Rightarrow> entry_error + scan_state" where
  "scan_files co b force now source [] st = Inr st"
| "scan_files co b force now source (f # fs) st =
     try_then (scan_file co b force now source f st) (scan_files co b force now source fs)"

record scan_result =
  sr_added :: nat
  sr_updated :: nat
  sr_deleted :: nat
  sr_diagnostics :: "read_diagnostic list"

definition kept :: "jstr \<Rightarrow> scan_state \<Rightarrow> row \<Rightarrow> bool" where
  "kept source st r \<longleftrightarrow> r_source r \<noteq> source \<or> r_rowid r \<in> set (sc_touched st)"

definition finish_scan :: "jstr \<Rightarrow> scan_state \<Rightarrow> entry_db \<times> scan_result" where
  "finish_scan source st =
     ((sc_db st)\<lparr>rows := filter (kept source st) (rows (sc_db st))\<rparr>,
      \<lparr>sr_added = sc_added st, sr_updated = sc_updated st,
       sr_deleted = length (filter (\<lambda>r. \<not> kept source st r) (rows (sc_db st))), sr_diagnostics = sc_diagnostics st\<rparr>)"

definition start_scan :: "entry_db \<Rightarrow> scan_state" where
  "start_scan db = \<lparr>sc_db = db, sc_touched = [], sc_added = 0, sc_updated = 0, sc_diagnostics = []\<rparr>"

text \<open>\<open>files\<close> is what \<open>walkMarkdown\<close> yields, empty when the root does not exist.\<close>

definition scan_source ::
  "entry_codec \<Rightarrow> sql_binding \<Rightarrow> bool \<Rightarrow> jstr \<Rightarrow> jstr \<Rightarrow> md_file list \<Rightarrow> entry_db \<Rightarrow> entry_error + entry_db \<times> scan_result" where
  "scan_source co b force now source files db =
     try_then (scan_files co b force now source files (start_scan db)) (\<lambda>st. Inr (finish_scan source st))"

subsection \<open>The table's keys\<close>

definition row_key :: "row \<Rightarrow> jstr \<times> jstr" where
  "row_key r = (r_source r, r_id r)"

definition wf_db :: "entry_db \<Rightarrow> bool" where
  "wf_db db \<longleftrightarrow> distinct (map row_key (rows db)) \<and> distinct (map r_rowid (rows db)) \<and>
     (\<forall>r \<in> set (rows db). r_rowid r < next_rowid db)"

lemma find_row_Some:
  "find_row db source eid = Some r \<Longrightarrow> r \<in> set (rows db) \<and> r_source r = source \<and> r_id r = eid"
  unfolding find_row_def by (auto simp: find_Some_iff)

lemma find_row_None: "find_row db source eid = None \<Longrightarrow> r \<in> set (rows db) \<Longrightarrow> r_source r = source \<Longrightarrow> r_id r \<noteq> eid"
  unfolding find_row_def by (auto simp: find_None_iff)

lemma wf_same_key:
  "wf_db db \<Longrightarrow> r \<in> set (rows db) \<Longrightarrow> r' \<in> set (rows db) \<Longrightarrow> r_source r = r_source r' \<Longrightarrow> r_id r = r_id r' \<Longrightarrow> r = r'"
  unfolding wf_db_def by (metis distinct_map inj_onD row_key_def)

lemma wf_same_rowid: "wf_db db \<Longrightarrow> r \<in> set (rows db) \<Longrightarrow> r' \<in> set (rows db) \<Longrightarrow> r_rowid r = r_rowid r' \<Longrightarrow> r = r'"
  unfolding wf_db_def by (metis distinct_map inj_onD)

text \<open>What one insertion or update does: \<open>stored\<close> is the row it leaves.\<close>

definition stored :: "upsert_row \<Rightarrow> jstr \<Rightarrow> row \<Rightarrow> bool" where
  "stored row eid r \<longleftrightarrow> r_source r = ur_source row \<and> r_id r = eid \<and> r_path r = ur_path row \<and> r_body r = ur_body row \<and>
     r_frontmatter_json r = ur_frontmatter_json row \<and> r_tags r = Some (ur_tags row) \<and>
     r_file_mtime r = ur_file_mtime row \<and> r_indexed_at r = ur_indexed_at row \<and>
     r_topical r = Some (fst (role_texts row)) \<and> r_symptom r = Some (snd (role_texts row))"

definition upserted :: "entry_db \<Rightarrow> entry_db \<Rightarrow> upsert_row \<Rightarrow> jstr \<Rightarrow> nat \<Rightarrow> bool" where
  "upserted db db' row eid rid \<longleftrightarrow> wf_db db' \<and>
     (\<exists>r \<in> set (rows db'). r_rowid r = rid \<and> stored row eid r) \<and>
     (\<forall>r. r_rowid r \<noteq> rid \<longrightarrow> (r \<in> set (rows db') \<longleftrightarrow> r \<in> set (rows db))) \<and>
     filter (\<lambda>r. r_source r \<noteq> ur_source row) (rows db') = filter (\<lambda>r. r_source r \<noteq> ur_source row) (rows db) \<and>
     (find_row db (ur_source row) eid = None \<longrightarrow> rid = next_rowid db) \<and>
     (\<forall>old. find_row db (ur_source row) eid = Some old \<longrightarrow> rid = r_rowid old)"

lemma updated_row_keys [simp]:
  "r_rowid (updated_row row title c v r) = r_rowid r" "r_id (updated_row row title c v r) = r_id r"
  "r_source (updated_row row title c v r) = r_source r"
  by (simp_all add: updated_row_def)

lemma write_row_effect:
  assumes wf: "wf_db db"
  shows "upserted db (fst (write_row db row eid title c v)) row eid (snd (write_row db row eid title c v))"
proof (cases "find_row db (ur_source row) eid")
  case None
  note new = find_row_None [OF None]
  let ?r = "inserted_row row (next_rowid db) eid title c v"
  have w: "write_row db row eid title c v = (\<lparr>rows = rows db @ [?r], next_rowid = Suc (next_rowid db)\<rparr>, next_rowid db)"
    by (simp add: write_row_def None)
  have r: "r_rowid ?r = next_rowid db" "stored row eid ?r" by (simp_all add: inserted_row_def stored_def)
  then have k: "row_key ?r \<notin> row_key ` set (rows db)" using new by (force simp: row_key_def stored_def)
  have "wf_db (fst (write_row db row eid title c v))"
    using wf r k by (fastforce simp: wf_db_def w)
  then show ?thesis
    unfolding upserted_def w using r None by (auto simp: stored_def)
next
  case (Some old)
  define upd where "upd = (\<lambda>r. if r_source r = ur_source row \<and> r_id r = eid then updated_row row title c v r else r)"
  have w: "write_row db row eid title c v = (db\<lparr>rows := map upd (rows db)\<rparr>, r_rowid old)"
    by (simp add: write_row_def Some upd_def)
  have keep: "r_rowid (upd r) = r_rowid r" "row_key (upd r) = row_key r" "r_source (upd r) = r_source r" for r
    by (auto simp: upd_def row_key_def)
  have old: "old \<in> set (rows db)" "r_source old = ur_source row" "r_id old = eid" using find_row_Some [OF Some] by auto
  have other: "upd r = r" if "r \<in> set (rows db)" "r_rowid r \<noteq> r_rowid old" for r
    using wf_same_key [OF wf that(1) old(1)] that(2) old by (auto simp: upd_def)
  have wf': "wf_db (db\<lparr>rows := map upd (rows db)\<rparr>)"
    using wf by (simp add: wf_db_def keep o_def)
  have new: "upd old \<in> upd ` set (rows db)" "r_rowid (upd old) = r_rowid old" "stored row eid (upd old)"
    using old keep(1) [of old] by (simp_all add: stored_def upd_def updated_row_def)
  have same: "r \<in> upd ` set (rows db) \<longleftrightarrow> r \<in> set (rows db)" if "r_rowid r \<noteq> r_rowid old" for r
    using other that keep(1) by (metis (no_types, lifting) image_iff)
  have others: "filter (\<lambda>r. r_source r \<noteq> ur_source row) (map upd rs) = filter (\<lambda>r. r_source r \<noteq> ur_source row) rs" for rs
    by (induction rs) (simp_all add: upd_def)
  show ?thesis
    unfolding upserted_def w fst_conv snd_conv
  proof (intro conjI)
    show "\<exists>r \<in> set (rows (db\<lparr>rows := map upd (rows db)\<rparr>)). r_rowid r = r_rowid old \<and> stored row eid r"
      using new by (intro bexI [of _ "upd old"]) simp_all
    show "\<forall>r. r_rowid r \<noteq> r_rowid old \<longrightarrow> (r \<in> set (rows (db\<lparr>rows := map upd (rows db)\<rparr>)) \<longleftrightarrow> r \<in> set (rows db))"
      using same by simp
  qed (use wf' others Some in simp_all)
qed

lemma upsert_entry_effect:
  assumes "upsert_entry b db row = Inr (db', rid)" and "wf_db db"
  shows "\<exists>eid. bind_value b (ur_id row) = Inr (Some eid) \<and> upserted db db' row eid rid"
proof -
  from assms(1) obtain eid title c v where "bind_value b (ur_id row) = Inr (Some eid)"
    "write_row db row eid title c v = (db', rid)"
    by (auto simp: upsert_entry_def res not_null_def split: option.splits)
  with write_row_effect [OF assms(2), of row eid title c v] show ?thesis by auto
qed

subsection \<open>What a scan does\<close>

text \<open>The state of a scan of \<open>source\<close> that started from \<open>db0\<close>.\<close>

definition scan_inv :: "jstr \<Rightarrow> entry_db \<Rightarrow> scan_state \<Rightarrow> bool" where
  "scan_inv source db0 st \<longleftrightarrow> wf_db (sc_db st) \<and>
     filter (\<lambda>r. r_source r \<noteq> source) (rows (sc_db st)) = filter (\<lambda>r. r_source r \<noteq> source) (rows db0)"

text \<open>A touched row stands for the file: it has its path and time and the id its text names.\<close>

definition indexed :: "entry_codec \<Rightarrow> sql_binding \<Rightarrow> jstr \<Rightarrow> md_file \<Rightarrow> scan_state \<Rightarrow> row \<Rightarrow> bool" where
  "indexed co b source f st r \<longleftrightarrow> r \<in> set (rows (sc_db st)) \<and> r_rowid r \<in> set (sc_touched st) \<and> r_source r = source \<and>
     r_path r = mf_path f \<and> r_file_mtime r = mf_mtime f \<and>
     (\<exists>p. parse_markdown co False (mf_text f) = Inr p \<and> bind_value b (get_member (pm_frontmatter p) ''id'') = Inr (Some (r_id r)))"

text \<open>Going on only adds: touched rows stay what they are.\<close>

definition scan_step :: "jstr \<Rightarrow> scan_state \<Rightarrow> scan_state \<Rightarrow> bool" where
  "scan_step source st st' \<longleftrightarrow> (\<forall>db0. scan_inv source db0 st \<longrightarrow> scan_inv source db0 st') \<and>
     (wf_db (sc_db st) \<longrightarrow> set (sc_touched st) \<subseteq> set (sc_touched st') \<and>
       (\<forall>r \<in> set (rows (sc_db st)). r_rowid r \<in> set (sc_touched st) \<longrightarrow> r \<in> set (rows (sc_db st'))))"

lemma scan_step_refl: "scan_step source st st"
  by (auto simp: scan_step_def)

lemma scan_step_trans:
  assumes "scan_step source st st'" and "scan_step source st' st''"
  shows "scan_step source st st''"
proof -
  have "wf_db (sc_db st')" if "wf_db (sc_db st)"
  proof -
    have "scan_inv source (sc_db st) st" using that by (simp add: scan_inv_def)
    then have "scan_inv source (sc_db st) st'" using assms(1) by (simp add: scan_step_def)
    then show ?thesis by (simp add: scan_inv_def)
  qed
  with assms show ?thesis unfolding scan_step_def by blast
qed

lemma touch_step: "touch n st = Inr st' \<Longrightarrow> scan_step source st st' \<and> sc_db st' = sc_db st \<and> n \<in> set (sc_touched st')
    \<and> n \<notin> set (sc_touched st) \<and> set (sc_touched st') = insert n (set (sc_touched st))"
  by (auto simp: touch_def scan_step_def scan_inv_def split: if_splits)

lemma touch_all_step: "touch_all ns st = Inr st' \<Longrightarrow> scan_step source st st'"
proof (induction ns arbitrary: st)
  case (Cons n ns)
  then obtain st1 where "touch n st = Inr st1" "touch_all ns st1 = Inr st'" by (auto simp: res)
  with Cons.IH touch_step scan_step_trans show ?case by blast
qed (simp add: scan_step_refl)

lemma skip_file_step: "skip_file now source f c sha st = Inr st' \<Longrightarrow> scan_step source st st'"
  unfolding skip_file_def
  by (drule touch_all_step [where source = source]) (auto simp: scan_step_def scan_inv_def)

lemma store_row_step:
  assumes "store_row b row existing st = Inr st'" and "ur_source row = source" and "wf_db (sc_db st)"
  shows "scan_step source st st' \<and> (\<exists>r. r \<in> set (rows (sc_db st')) \<and> r_rowid r \<in> set (sc_touched st') \<and>
     (\<exists>eid. bind_value b (ur_id row) = Inr (Some eid) \<and> stored row eid r))"
proof -
  obtain db rid st1 where u: "upsert_entry b (sc_db st) row = Inr (db, rid)"
    and t: "touch rid (st\<lparr>sc_db := db\<rparr>) = Inr st1" and st': "sc_db st' = sc_db st1" "sc_touched st' = sc_touched st1"
    using assms(1) by (auto simp: store_row_def res split: if_splits)
  from upsert_entry_effect [OF u assms(3)] obtain eid where
    eid: "bind_value b (ur_id row) = Inr (Some eid)" and up: "upserted (sc_db st) db row eid rid" by blast
  from touch_step [OF t] have t1: "sc_db st1 = db" "rid \<in> set (sc_touched st1)" "rid \<notin> set (sc_touched st)"
    "set (sc_touched st1) = insert rid (set (sc_touched st))" by auto
  have keep: "r \<in> set (rows db)" if "r \<in> set (rows (sc_db st))" "r_rowid r \<in> set (sc_touched st)" for r
    using up that t1(3) unfolding upserted_def by metis
  have "scan_step source st st'"
    unfolding scan_step_def scan_inv_def using up assms(2) t1 st' keep by (simp add: upserted_def) blast
  with eid up t1 st' show ?thesis by (auto simp: upserted_def)
qed

definition readable :: "entry_codec \<Rightarrow> md_file \<Rightarrow> bool" where
  "readable co f \<longleftrightarrow> mf_size f \<le> limit_markdown \<and> \<not> isl (parse_markdown co False (mf_text f))"

definition stands_for :: "jstr \<Rightarrow> jstr set \<Rightarrow> scan_state \<Rightarrow> nat \<Rightarrow> bool" where
  "stands_for source P st n \<longleftrightarrow> (\<exists>r \<in> set (rows (sc_db st)). r_rowid r = n \<and> r_source r = source \<and> r_path r \<in> P)"

lemma stands_for_step:
  "scan_step source st st' \<Longrightarrow> wf_db (sc_db st) \<Longrightarrow> n \<in> set (sc_touched st) \<Longrightarrow> stands_for source P st n \<Longrightarrow>
     stands_for source P st' n"
  unfolding scan_step_def stands_for_def by blast

lemma touch_all_touched:
  "touch_all ns st = Inr st' \<Longrightarrow> set (sc_touched st') = set ns \<union> set (sc_touched st) \<and> sc_db st' = sc_db st"
proof (induction ns arbitrary: st)
  case (Cons n ns)
  then obtain st1 where "touch n st = Inr st1" "touch_all ns st1 = Inr st'" by (auto simp: res)
  with Cons.IH [of st1] touch_step [of n st st1] show ?case by auto
qed simp

lemma skip_file_touched:
  assumes "skip_file now source f c sha st = Inr st'" and "n \<in> set (sc_touched st')" and "n \<notin> set (sc_touched st)"
  shows "stands_for source {mf_path f} st' n"
  using assms unfolding skip_file_def
  by (auto simp: stands_for_def dest!: touch_all_touched)

lemma store_row_touched:
  assumes s: "store_row b row existing st = Inr st'" and "ur_source row = source" and "wf_db (sc_db st)"
    and "n \<in> set (sc_touched st')" and "n \<notin> set (sc_touched st)"
  shows "stands_for source {ur_path row} st' n"
proof -
  obtain db rid st1 where u: "upsert_entry b (sc_db st) row = Inr (db, rid)"
    and t: "touch rid (st\<lparr>sc_db := db\<rparr>) = Inr st1" and st': "sc_db st' = sc_db st1" "sc_touched st' = sc_touched st1"
    using s by (auto simp: store_row_def res split: if_splits)
  from upsert_entry_effect [OF u assms(3)] obtain eid where "upserted (sc_db st) db row eid rid" by blast
  with touch_step [OF t] st' assms show ?thesis by (auto simp: stands_for_def upserted_def stored_def)
qed

lemma scan_file_spec:
  assumes sc: "scan_file co b force now source f st = Inr st'" and wf: "wf_db (sc_db st)"
  shows "scan_step source st st' \<and> (readable co f \<longrightarrow> (\<exists>r. indexed co b source f st' r)) \<and>
     (\<forall>n \<in> set (sc_touched st') - set (sc_touched st). stands_for source {mf_path f} st' n)"
proof (cases "mf_size f > limit_markdown")
  case True
  with sc show ?thesis
    by (auto simp: scan_file_def readable_def intro: skip_file_step skip_file_touched)
next
  case small: False
  show ?thesis
  proof (cases "parse_markdown co False (mf_text f)")
    case (Inl e)
    with sc small obtain c where "skip_file now source f c (mf_text_sha f) st = Inr st'"
      by (cases e) (auto simp: scan_file_def build_upsert_row_def)
    with Inl show ?thesis by (auto simp: readable_def intro: skip_file_step skip_file_touched)
  next
    case (Inr p)
    obtain row where row: "build_upsert_row co source (mf_path f) (mf_text f) (mf_mtime f) now = Inr row"
      and fields: "ur_source row = source" "ur_path row = mf_path f" "ur_file_mtime row = mf_mtime f"
        "ur_id row = get_member (pm_frontmatter p) ''id''"
      by (simp add: build_upsert_row_def Inr Let_def)
    obtain existing where ex: "existing_row b (sc_db st) row = Inr existing"
      and rest: "(case existing of
          Some old \<Rightarrow> if \<not> force \<and> r_file_mtime old = mf_mtime f \<and> r_path old = mf_path f then touch (r_rowid old) st
            else store_row b row existing st
        | None \<Rightarrow> store_row b row existing st) = Inr st'"
      using sc small row by (auto simp: scan_file_def res)
    show ?thesis
    proof (cases "store_row b row existing st = Inr st'")
      case True
      from store_row_step [OF True fields(1) wf] store_row_touched [OF True fields(1) wf] fields
      show ?thesis by (auto simp: indexed_def stored_def Inr)
    next
      case False
      with rest obtain old where old: "existing = Some old" "r_file_mtime old = mf_mtime f" "r_path old = mf_path f"
        and t: "touch (r_rowid old) st = Inr st'" by (auto split: option.splits if_splits)
      from ex old(1) obtain eid where eid: "bind_value b (ur_id row) = Inr (Some eid)"
        and found: "find_row (sc_db st) source eid = Some old"
        by (auto simp: existing_row_def res fields split: option.splits)
      from find_row_Some [OF found] touch_step [OF t, of source] old eid
      have "indexed co b source f st' old" by (auto simp: indexed_def Inr fields(4))
      with touch_step [OF t, of source] show ?thesis by (auto simp: indexed_def stands_for_def)
    qed
  qed
qed

lemma scan_files_spec:
  assumes "scan_files co b force now source fs st = Inr st'" and "wf_db (sc_db st)"
    and "\<forall>n \<in> set (sc_touched st). stands_for source P st n"
  shows "scan_step source st st' \<and> (\<forall>f \<in> set fs. readable co f \<longrightarrow> (\<exists>r. indexed co b source f st' r)) \<and>
     (\<forall>n \<in> set (sc_touched st'). stands_for source (P \<union> mf_path ` set fs) st' n)"
  using assms
proof (induction fs arbitrary: st P)
  case Nil
  then show ?case by (simp add: scan_step_refl)
next
  case (Cons f fs)
  then obtain st1 where s1: "scan_file co b force now source f st = Inr st1"
    and s2: "scan_files co b force now source fs st1 = Inr st'" by (auto simp: res)
  from scan_file_spec [OF s1 Cons.prems(2)] have f: "scan_step source st st1"
    "readable co f \<longrightarrow> (\<exists>r. indexed co b source f st1 r)"
    "\<forall>n \<in> set (sc_touched st1) - set (sc_touched st). stands_for source {mf_path f} st1 n" by blast+
  have wf1: "wf_db (sc_db st1)"
    using f(1) Cons.prems(2) unfolding scan_step_def scan_inv_def by blast
  have "\<forall>n \<in> set (sc_touched st1). stands_for source (insert (mf_path f) P) st1 n"
  proof
    fix n assume n: "n \<in> set (sc_touched st1)"
    show "stands_for source (insert (mf_path f) P) st1 n"
    proof (cases "n \<in> set (sc_touched st)")
      case True
      with stands_for_step [OF f(1) Cons.prems(2)] Cons.prems(3) have "stands_for source P st1 n" by blast
      then show ?thesis by (auto simp: stands_for_def)
    next
      case False
      with f(3) n show ?thesis by (auto simp: stands_for_def)
    qed
  qed
  from Cons.IH [OF s2 wf1 this] have r: "scan_step source st1 st'"
    "\<forall>f \<in> set fs. readable co f \<longrightarrow> (\<exists>r. indexed co b source f st' r)"
    "\<forall>n \<in> set (sc_touched st'). stands_for source (insert (mf_path f) P \<union> mf_path ` set fs) st' n" by blast+
  have "indexed co b source f st' r" if "indexed co b source f st1 r" for r
    using that r(1) wf1 unfolding indexed_def scan_step_def by blast
  then have "\<forall>g \<in> set (f # fs). readable co g \<longrightarrow> (\<exists>r. indexed co b source g st' r)" using f(2) r(2) by simp blast
  moreover have "insert (mf_path f) P \<union> mf_path ` set fs = P \<union> mf_path ` set (f # fs)" by auto
  ultimately show ?case using r(3) scan_step_trans [OF f(1) r(1)] by simp
qed

definition row_of_file :: "entry_codec \<Rightarrow> sql_binding \<Rightarrow> jstr \<Rightarrow> md_file \<Rightarrow> row \<Rightarrow> bool" where
  "row_of_file co b source f r \<longleftrightarrow> r_source r = source \<and> r_path r = mf_path f \<and> r_file_mtime r = mf_mtime f \<and>
     (\<exists>p. parse_markdown co False (mf_text f) = Inr p \<and> bind_value b (get_member (pm_frontmatter p) ''id'') = Inr (Some (r_id r)))"

lemma wf_finish: "wf_db (sc_db st) \<Longrightarrow> wf_db (fst (finish_scan source st))"
  by (auto simp: finish_scan_def wf_db_def intro: distinct_map_filter)

lemma scan_effect:
  assumes sc: "scan_source co b force now source fs db = Inr (db', res)" and wf: "wf_db db"
  shows "wf_db db' \<and>
    filter (\<lambda>r. r_source r \<noteq> source) (rows db') = filter (\<lambda>r. r_source r \<noteq> source) (rows db) \<and>
    (\<forall>f \<in> set fs. readable co f \<longrightarrow> (\<exists>r \<in> set (rows db'). row_of_file co b source f r)) \<and>
    (\<forall>r \<in> set (rows db'). r_source r = source \<longrightarrow> r_path r \<in> mf_path ` set fs)"
proof -
  obtain st where st: "scan_files co b force now source fs (start_scan db) = Inr st" and db': "db' = fst (finish_scan source st)"
    using sc by (auto simp: scan_source_def res)
  have "scan_step source (start_scan db) st" and ix: "\<forall>f \<in> set fs. readable co f \<longrightarrow> (\<exists>r. indexed co b source f st r)"
    and only: "\<forall>n \<in> set (sc_touched st). stands_for source ({} \<union> mf_path ` set fs) st n"
    using scan_files_spec [OF st, of "{}"] wf by (auto simp: start_scan_def)
  then have inv: "scan_inv source db st"
    unfolding scan_step_def using wf by (auto simp: scan_inv_def start_scan_def)
  then have wf_st: "wf_db (sc_db st)" by (simp add: scan_inv_def)
  have rows': "rows db' = filter (kept source st) (rows (sc_db st))" by (simp add: db' finish_scan_def)
  have "filter (\<lambda>r. r_source r \<noteq> source) (rows db') = filter (\<lambda>r. r_source r \<noteq> source) (rows (sc_db st))"
    unfolding rows' filter_filter by (rule filter_cong) (auto simp: kept_def)
  moreover have "\<exists>r \<in> set (rows db'). row_of_file co b source f r" if "f \<in> set fs" "readable co f" for f
    using ix that unfolding rows' by (fastforce simp: indexed_def row_of_file_def kept_def)
  moreover have "r_path r \<in> mf_path ` set fs" if r: "r \<in> set (rows db')" "r_source r = source" for r
  proof -
    have in_db: "r \<in> set (rows (sc_db st))" "r_rowid r \<in> set (sc_touched st)" using r by (auto simp: rows' kept_def)
    with only obtain r' where "r' \<in> set (rows (sc_db st))" "r_rowid r' = r_rowid r" "r_path r' \<in> mf_path ` set fs"
      by (auto simp: stands_for_def)
    with wf_same_rowid [OF wf_st, of r' r] in_db show ?thesis by auto
  qed
  ultimately show ?thesis using inv wf_finish [OF wf_st] by (auto simp: scan_inv_def db')
qed

text \<open>
  C14: A scan of a source that returns leaves the table's keys unique and the other sources' rows
  alone; every file within the limits has its row (path, time and the id its frontmatter names),
  and every row of the source has the path of a file of this scan.
\<close>

theorem scan_indexes_exactly_the_files:
  assumes "scan_source co b force now source fs db = Inr (db', res)" and "wf_db db"
  shows "wf_db db' \<and>
    filter (\<lambda>r. r_source r \<noteq> source) (rows db') = filter (\<lambda>r. r_source r \<noteq> source) (rows db) \<and>
    (\<forall>f \<in> set fs. readable co f \<longrightarrow> (\<exists>r \<in> set (rows db'). row_of_file co b source f r)) \<and>
    (\<forall>r \<in> set (rows db'). r_source r = source \<longrightarrow> r_path r \<in> mf_path ` set fs)"
  by (rule scan_effect [OF assms])

text \<open>Two readable files of one source that name the same id make the whole scan throw.\<close>

lemma duplicate_id_aborts_scan:
  assumes "wf_db db" and "f \<in> set fs" and "g \<in> set fs" and "mf_path f \<noteq> mf_path g" and "readable co f" and "readable co g"
    and "parse_markdown co False (mf_text f) = Inr p" and "parse_markdown co False (mf_text g) = Inr q"
    and "get_member (pm_frontmatter p) ''id'' = get_member (pm_frontmatter q) ''id''"
  shows "isl (scan_source co b force now source fs db)"
proof (rule ccontr)
  assume "\<not> isl (scan_source co b force now source fs db)"
  then obtain db' res where sc: "scan_source co b force now source fs db = Inr (db', res)"
    by (metis isl_def obj_sumE surj_pair)
  from scan_effect [OF sc assms(1)] have wf: "wf_db db'"
    and "\<forall>f \<in> set fs. readable co f \<longrightarrow> (\<exists>r \<in> set (rows db'). row_of_file co b source f r)" by blast+
  then obtain r r' where r: "r \<in> set (rows db')" "row_of_file co b source f r" "r' \<in> set (rows db')" "row_of_file co b source g r'"
    using assms by blast
  then have "r_id r = r_id r'" using assms(7-9) by (auto simp: row_of_file_def)
  with wf_same_key [OF wf r(1,3)] r(2,4) assms(4) show False by (auto simp: row_of_file_def)
qed

subsection \<open>A concrete table\<close>

text \<open>A codec that reads a document as its id, and a binding of strings.\<close>

definition toy_codec :: entry_codec where
  "toy_codec = \<lparr>yaml_load = (\<lambda>s. Inr (Some (JObj [(lit ''id'', JStr s), (lit ''title'', JStr s)]))), yaml_dump = (\<lambda>_. []),
     matter_language = (\<lambda>_. []), matter = (\<lambda>engine s. try_then (engine s) (\<lambda>fm. Inr (fm, [])))\<rparr>"

definition toy_binding :: sql_binding where
  "toy_binding = \<lparr>bind_value = (\<lambda>v. case v of Some (JStr s) \<Rightarrow> Inr (Some s) | Some JNull \<Rightarrow> Inr None
     | None \<Rightarrow> Inr None | _ \<Rightarrow> Inl (Other_entry_error []))\<rparr>"

definition toy_file :: "string \<Rightarrow> md_file" where
  "toy_file name = \<lparr>mf_path = lit name, mf_mtime = [48], mf_mtime_ms = [48], mf_size = 1, mf_text = lit name, mf_file_sha = [], mf_text_sha = []\<rparr>"

definition empty_db :: entry_db where
  "empty_db = \<lparr>rows = [], next_rowid = 1\<rparr>"

lemma toy_binds: "binds_strings toy_binding"
  by (simp add: binds_strings_def toy_binding_def)

lemma wf_empty_db [simp]: "wf_db empty_db"
  by (simp add: wf_db_def empty_db_def)

lemma toy_parse:
  "parse_markdown toy_codec False (lit ''a'') = Inr \<lparr>pm_frontmatter = JObj [(lit ''id'', JStr (lit ''a'')), (lit ''title'', JStr (lit ''a''))],
     pm_body = [], pm_sections = extract_sections []\<rparr>"
proof -
  have b: "byte_length (lit ''a'') = 1" "byte_length (lit ''id'') = 2" "byte_length (lit ''title'') = 5"
    by (simp_all add: byte_length_ascii lit_def)
  have g: "assert_frontmatter_graph (JObj [(lit ''id'', JStr (lit ''a'')), (lit ''title'', JStr (lit ''a''))]) = Inr ()"
    unfolding assert_frontmatter_graph_def
    by (simp add: visit.simps count_step_def limit_graph_def limit_depth_def limit_frontmatter_def b)
  show ?thesis
    by (simp add: parse_markdown_def toy_codec_def limited_def assert_utf8_limit_def limit_markdown_def b load_frontmatter_def
        limit_frontmatter_def g starts_with_def Let_def) (simp add: lit_def)
qed

lemma toy_scan: "\<not> isl (scan_source toy_codec toy_binding False (lit ''t'') (lit ''own'') [toy_file ''a''] empty_db)"
  by (simp add: scan_source_def scan_file_def toy_file_def limit_markdown_def build_upsert_row_def toy_parse existing_row_def
      store_row_def upsert_entry_def write_row_def find_row_def not_null_def toy_binding_def obj_get_def touch_def
      start_scan_def empty_db_def Let_def)

theorem scan_indexes_exactly_the_files_witness:
  "\<exists>db' res. scan_source toy_codec toy_binding False (lit ''t'') (lit ''own'') [toy_file ''a''] empty_db = Inr (db', res) \<and>
     (\<forall>f \<in> set [toy_file ''a'']. readable toy_codec f \<longrightarrow> (\<exists>r \<in> set (rows db'). row_of_file toy_codec toy_binding (lit ''own'') f r)) \<and>
     readable toy_codec (toy_file ''a'')"
proof -
  obtain db' res where sc: "scan_source toy_codec toy_binding False (lit ''t'') (lit ''own'') [toy_file ''a''] empty_db = Inr (db', res)"
    using toy_scan by (metis isl_def obj_sumE surj_pair)
  have "readable toy_codec (toy_file ''a'')"
    by (simp add: readable_def toy_file_def toy_parse limit_markdown_def)
  with scan_indexes_exactly_the_files [OF sc wf_empty_db] sc show ?thesis by blast
qed

end
