(* ===== verification/UriText.thy ===== *)
theory UriText
  imports Codec
begin

text \<open>
  \<open>encodeURIComponent\<close> and \<open>decodeURIComponent\<close> of the language's library, both of which throw
  a \<open>URIError\<close> (None): the one on a lone surrogate, the other on a malformed escape or an
  ill-formed UTF-8 sequence. \<open>uri_roundtrip\<close> shows that decoding inverts encoding.
\<close>

definition uri_unreserved :: "nat \<Rightarrow> bool" where
  "uri_unreserved c \<longleftrightarrow> (65 \<le> c \<and> c \<le> 90) \<or> (97 \<le> c \<and> c \<le> 122) \<or> is_digit c \<or>
     c \<in> set (lit ''-_.!~*'' @ [39, 40, 41])"

definition upper_hex :: "nat \<Rightarrow> nat" where
  "upper_hex d = (if d < 10 then 48 + d else 55 + d)"

definition pct :: "nat \<Rightarrow> jstr" where
  "pct b = [37, upper_hex (b div 16), upper_hex (b mod 16)]"

definition encode_cp :: "nat \<Rightarrow> jstr" where
  "encode_cp c = (if uri_unreserved c then [c] else concat (map pct (utf8_cp c)))"

definition encode_uri :: "jstr \<Rightarrow> jstr option" where
  "encode_uri s = (if is_well_formed s then Some (concat (map encode_cp (code_points s))) else None)"

definition unhex :: "nat \<Rightarrow> nat option" where
  "unhex c = (if 48 \<le> c \<and> c \<le> 57 then Some (c - 48) else if 97 \<le> c \<and> c \<le> 102 then Some (c - 87)
     else if 65 \<le> c \<and> c \<le> 70 then Some (c - 55) else None)"

text \<open>The string as code units (\<open>Inl\<close>) and escaped octets (\<open>Inr\<close>).\<close>

fun uri_tokens :: "jstr \<Rightarrow> (nat + nat) list option" where
  "uri_tokens [] = Some []"
| "uri_tokens (c # s) =
     (if c \<noteq> 37 then map_option ((#) (Inl c)) (uri_tokens s)
      else (case s of
          h # l # t \<Rightarrow>
            (case (unhex h, unhex l) of
               (Some x, Some y) \<Rightarrow> map_option ((#) (Inr (16 * x + y))) (uri_tokens t)
             | _ \<Rightarrow> None)
        | _ \<Rightarrow> None))"

definition seq_length :: "nat \<Rightarrow> nat" where
  "seq_length b = (if 192 \<le> b \<and> b < 224 then 2 else if 224 \<le> b \<and> b < 240 then 3
     else if 240 \<le> b \<and> b < 248 then 4 else 0)"

text \<open>The octets of one code point, if the next \<open>n\<close> tokens are one well-formed sequence.\<close>

definition octets_cp :: "(nat + nat) list \<Rightarrow> nat option" where
  "octets_cp ts =
     (if list_all (\<lambda>t. \<not> isl t) ts
      then (case utf8_dec (map projr ts) of
              [c] \<Rightarrow> if utf8_cp c = map projr ts then Some c else None
            | _ \<Rightarrow> None)
      else None)"

function tokens_text :: "(nat + nat) list \<Rightarrow> jstr option" where
  "tokens_text [] = Some []"
| "tokens_text (Inl c # ts) = map_option ((#) c) (tokens_text ts)"
| "tokens_text (Inr b # ts) =
     (if b < 128 then map_option ((#) b) (tokens_text ts)
      else if seq_length b = 0 \<or> length ts + 1 < seq_length b then None
      else (case octets_cp (take (seq_length b) (Inr b # ts)) of
              None \<Rightarrow> None
            | Some c \<Rightarrow> map_option ((@) (utf16_cp c)) (tokens_text (drop (seq_length b - 1) ts))))"
  by pat_completeness auto
termination
  by (relation "measure length") (auto split: if_splits)

definition decode_uri :: "jstr \<Rightarrow> jstr option" where
  "decode_uri s = (case uri_tokens s of None \<Rightarrow> None | Some ts \<Rightarrow> tokens_text ts)"

subsection \<open>Decoding inverts encoding\<close>

lemma unhex_upper: "d < 16 \<Longrightarrow> unhex (upper_hex d) = Some d"
  by (auto simp: unhex_def upper_hex_def)

lemma tokens_pct: "b < 256 \<Longrightarrow> uri_tokens (pct b @ s) = map_option ((#) (Inr b)) (uri_tokens s)"
proof -
  assume "b < 256"
  then have "b div 16 < 16" "b mod 16 < 16" by auto
  then show ?thesis by (simp add: pct_def unhex_upper)
qed

lemma tokens_pcts:
  "\<forall>b \<in> set bs. b < 256 \<Longrightarrow> uri_tokens (concat (map pct bs) @ s) = map_option ((@) (map Inr bs)) (uri_tokens s)"
proof (induction bs)
  case Nil
  then show ?case by (cases "uri_tokens s") auto
next
  case (Cons b bs)
  then have "uri_tokens (pct b @ (concat (map pct bs) @ s)) =
      map_option ((#) (Inr b)) (map_option ((@) (map Inr bs)) (uri_tokens s))"
    by (subst tokens_pct) auto
  then show ?case by (simp add: option.map_comp o_def)
qed

definition cp_tokens :: "nat \<Rightarrow> (nat + nat) list" where
  "cp_tokens c = (if uri_unreserved c then [Inl c] else map Inr (utf8_cp c))"

lemma unreserved_not_pct: "uri_unreserved c \<Longrightarrow> c \<noteq> 37 \<and> c \<noteq> 47 \<and> c < 128"
  by (auto simp: uri_unreserved_def lit_def is_digit_def)

lemma tokens_cp:
  "scalar c \<Longrightarrow> uri_tokens (encode_cp c @ s) = map_option ((@) (cp_tokens c)) (uri_tokens s)"
proof (cases "uri_unreserved c")
  case True
  then show ?thesis using unreserved_not_pct [OF True]
    by (simp add: encode_cp_def cp_tokens_def) (metis append_Cons append_Nil)
next
  case False
  assume "scalar c"
  then have "\<forall>b \<in> set (utf8_cp c). b < 256" using utf8_cp_bytes by (auto simp: scalar_def)
  from tokens_pcts [OF this] False show ?thesis by (simp add: encode_cp_def cp_tokens_def)
qed

lemma tokens_cps:
  "\<forall>c \<in> set cs. scalar c \<Longrightarrow> uri_tokens (concat (map encode_cp cs)) = Some (concat (map cp_tokens cs))"
  by (induction cs) (simp_all add: tokens_cp)

lemma utf8_cp_seq:
  assumes "scalar c" and "128 \<le> c"
  shows "\<exists>b bs. utf8_cp c = b # bs \<and> 128 \<le> b \<and> seq_length b = Suc (length bs) \<and> seq_length b \<noteq> 0"
proof -
  have nosur: "\<not> (55296 \<le> c \<and> c \<le> 57343)" using assms(1) by (simp add: scalar_def)
  consider "c < 2048" | "2048 \<le> c" "c < 65536" | "65536 \<le> c" "c < 1114112"
    using assms(1) unfolding scalar_def by linarith
  then show ?thesis
  proof cases
    case 1
    then have "c div 64 < 32" by auto
    with 1 assms(2) show ?thesis by (simp add: utf8_cp_def seq_length_def)
  next
    case 2
    then have "c div 4096 < 16" by auto
    with 2 nosur show ?thesis by (simp add: utf8_cp_def seq_length_def)
  next
    case 3
    then have "c div 262144 < 8" by auto
    with 3 show ?thesis by (simp add: utf8_cp_def seq_length_def)
  qed
qed

lemma octets_cp_utf8: "scalar c \<Longrightarrow> octets_cp (map Inr (utf8_cp c)) = Some c"
  using utf8_dec_cp [of c "[]"] by (simp add: octets_cp_def o_def list_all_iff)

lemma text_cp:
  assumes "scalar c"
  shows "tokens_text (cp_tokens c @ ts) = map_option ((@) (utf16_cp c)) (tokens_text ts)"
proof (cases "uri_unreserved c")
  case True
  then have "cp_tokens c = [Inl c]" "utf16_cp c = [c]"
    using unreserved_not_pct [OF True] by (simp_all add: cp_tokens_def utf16_cp_def)
  then show ?thesis by (cases "tokens_text ts") simp_all
next
  case False
  show ?thesis
  proof (cases "c < 128")
    case True
    then have "cp_tokens c = [Inr c]" "utf16_cp c = [c]"
      using False by (simp_all add: cp_tokens_def utf8_cp_def utf16_cp_def)
    with True show ?thesis by (cases "tokens_text ts") simp_all
  next
    case big: False
    then obtain b bs where b: "utf8_cp c = b # bs" "128 \<le> b" "seq_length b = Suc (length bs)"
      using utf8_cp_seq [OF assms] by auto
    have tok: "cp_tokens c = Inr b # map Inr bs" using False by (simp add: cp_tokens_def b(1))
    have "octets_cp (take (seq_length b) (Inr b # map Inr bs @ ts)) = Some c"
      using octets_cp_utf8 [OF assms] by (simp add: b)
    then show ?thesis using b by (simp add: tok)
  qed
qed

lemma text_cps:
  "\<forall>c \<in> set cs. scalar c \<Longrightarrow> tokens_text (concat (map cp_tokens cs)) = Some (concat (map utf16_cp cs))"
  by (induction cs) (simp_all add: text_cp)

lemma uri_roundtrip:
  assumes "text_ok s"
  shows "\<exists>e. encode_uri s = Some e \<and> decode_uri e = Some s"
proof -
  have wf: "is_well_formed s" "units s" using assms by (simp_all add: text_ok_def)
  have sc: "\<forall>c \<in> set (code_points s). scalar c"
    using code_points_scalar [OF wf(2,1)] by blast
  show ?thesis
    using wf tokens_cps [OF sc] text_cps [OF sc] utf16_code_points [OF wf(2)]
    by (simp add: encode_uri_def decode_uri_def)
qed

text \<open>An encoding has no slash and is not empty, so it is one segment of a path.\<close>

lemma encode_uri_segment:
  assumes "encode_uri s = Some e"
  shows "47 \<notin> set e" and "s \<noteq> [] \<Longrightarrow> e \<noteq> []"
proof -
  have hex: "upper_hex d \<noteq> 47" for d by (simp add: upper_hex_def)
  have cp: "47 \<notin> set (encode_cp c)" for c
    using unreserved_not_pct [of c] hex by (auto simp: encode_cp_def pct_def)
  with assms show "47 \<notin> set e" by (auto simp: encode_uri_def split: if_splits)
  have ne: "encode_cp c \<noteq> []" for c by (simp add: encode_cp_def utf8_cp_def Let_def pct_def)
  assume "s \<noteq> []"
  then have "code_points s \<noteq> []" by (cases s rule: code_points.cases) auto
  with assms ne show "e \<noteq> []" by (cases "code_points s") (auto simp: encode_uri_def split: if_splits)
qed

end
