(* ===== verification/SealedBundle.thy ===== *)
theory SealedBundle
  imports Json Regex "HOL-Library.List_Lexorder" "HOL-Library.Multiset"
begin

text \<open>
  The sealed bundle format of \<open>packages/core/src/sealedBundle.ts\<close>: the canonical payload of a
  set of files, the header, sealing with AES-256-GCM under keys derived by HKDF, reading the
  header, and unsealing. The primitives of \<open>node:crypto\<close> are the fields of the record
  \<open>crypto\<close>, a parameter of the operations that call them; \<open>crypto_ok\<close> states what is relied on:
  deciphering inverts enciphering under the same key, nonce and additional data, tags have 16
  bytes and digests at least 12.

  \<open>seal_unseal\<close> is the round trip, \<open>seal_order_independent\<close> that a bundle does not depend on
  the order of the files, \<open>nonce_input_injective\<close> that the nonce binds version, key id, server
  and payload, and \<open>unseal_checks\<close> what a bundle that unseals has been checked for.
\<close>

subsection \<open>Types and errors\<close>

datatype sealed_code = BAD_MAGIC | UNSUPPORTED_VERSION | MALFORMED_HEADER | AUTH_FAILED
  | INVALID_RELPATH | DUPLICATE_RELPATH | ENTRYCOUNT_MISMATCH | SEAL_INVARIANT_VIOLATION

text \<open>A \<open>SealedBundleError\<close> with its code, or the \<open>RangeError\<close> of \<open>writeUInt32LE\<close>.\<close>

datatype sealed_error = Sealed sealed_code | Range_error

record bundle_file =
  b_relPath :: jstr
  b_content :: bytes

record sealed_header =
  h_formatVersion :: nat
  h_alg :: jstr
  h_keyId :: jstr
  h_keyserverUrl :: jstr
  h_nonce :: jstr
  h_entryCount :: nat

record crypto =
  hkdf :: "bytes \<Rightarrow> jstr \<Rightarrow> jstr \<Rightarrow> nat \<Rightarrow> bytes"
  hmac :: "bytes \<Rightarrow> bytes \<Rightarrow> bytes"
  gcm_enc :: "bytes \<Rightarrow> bytes \<Rightarrow> bytes \<Rightarrow> bytes \<Rightarrow> bytes \<times> bytes"
  gcm_dec :: "bytes \<Rightarrow> bytes \<Rightarrow> bytes \<Rightarrow> bytes \<Rightarrow> bytes \<Rightarrow> bytes option"

definition magic_bytes :: bytes where
  "magic_bytes = map byte_of (lit ''CVLT'')"

definition sealed_alg :: jstr where
  "sealed_alg = lit ''aes-256-gcm''"

definition subarray :: "'a list \<Rightarrow> nat \<Rightarrow> nat \<Rightarrow> 'a list" where
  "subarray bs a b = take (b - a) (drop a bs)"

subsection \<open>The canonical payload\<close>

definition assert_content_key :: "bytes \<Rightarrow> sealed_error + unit" where
  "assert_content_key key = ensure (length key = 32) (Sealed AUTH_FAILED)"

definition drive_prefix :: rx where
  "drive_prefix = Sq Bol (Sq (Ch is_alpha) (Sq (Ch (\<lambda>c. c = 58)) (Ch (\<lambda>c. c = 92 \<or> c = 47))))"

definition valid_relPath :: "jstr \<Rightarrow> bool" where
  "valid_relPath p \<longleftrightarrow> \<not> (length p = 0 \<or> \<not> is_well_formed p \<or> rx_test drive_prefix p \<or> has_sub [92] p \<or>
     list_ex (\<lambda>seg. seg = [] \<or> seg = lit ''.'' \<or> seg = lit ''..'') (split_on 47 p))"

definition assert_relPath :: "jstr \<Rightarrow> sealed_error + unit" where
  "assert_relPath p = ensure (valid_relPath p) (Sealed INVALID_RELPATH)"

text \<open>The checks of one path against those seen so far, shared with \<open>parsePayload\<close>.\<close>

fun check_paths :: "jstr list \<Rightarrow> bundle_file list \<Rightarrow> sealed_error + bundle_file list" where
  "check_paths seen [] = Inr []"
| "check_paths seen (f # fs) =
     try_then (assert_relPath (b_relPath f)) (\<lambda>_.
     try_then (ensure (b_relPath f \<notin> set seen) (Sealed DUPLICATE_RELPATH)) (\<lambda>_.
     try_then (check_paths (set_add seen (b_relPath f)) fs) (\<lambda>out. Inr (f # out))))"

definition relPathBytes :: "bundle_file \<Rightarrow> nat list" where
  "relPathBytes f = map unat (utf8_encode (b_relPath f))"

definition canonicalize_files :: "bundle_file list \<Rightarrow> sealed_error + bundle_file list" where
  "canonicalize_files files = try_then (check_paths [] files) (\<lambda>out. Inr (sort_key relPathBytes out))"

definition payload_row :: "bundle_file \<Rightarrow> jstr" where
  "payload_row f = lit ''{\"relPath\":'' @ quote_str (b_relPath f) @ lit '',\"content\":'' @
     quote_str (base64_encode (b_content f)) @ lit ''}'' @ [10]"

definition build_canonical_payload :: "bundle_file list \<Rightarrow> sealed_error + bytes" where
  "build_canonical_payload files =
     try_then (canonicalize_files files) (\<lambda>out. Inr (utf8_encode (concat (map payload_row out))))"

subsection \<open>Keys and nonce\<close>

definition derive_key :: "crypto \<Rightarrow> bytes \<Rightarrow> jstr \<Rightarrow> bytes" where
  "derive_key c contentKey info = hkdf c contentKey (lit ''caveat-sealed-v1'') info 32"

definition write_u32 :: "nat \<Rightarrow> sealed_error + bytes" where
  "write_u32 n = (if n < 2 ^ 32 then Inr (u32le n) else Inl Range_error)"

definition frame :: "bytes \<Rightarrow> sealed_error + bytes" where
  "frame bs = try_then (write_u32 (length bs)) (\<lambda>len. Inr (len @ bs))"

definition nonce_input :: "nat \<Rightarrow> jstr \<Rightarrow> jstr \<Rightarrow> bytes \<Rightarrow> sealed_error + bytes" where
  "nonce_input formatVersion keyId keyserverUrl payload =
     try_then (try_map frame [ [byte_of formatVersion], utf8_encode keyId, utf8_encode keyserverUrl, payload])
       (\<lambda>fs. Inr (concat fs))"

definition derive_nonce :: "crypto \<Rightarrow> bytes \<Rightarrow> nat \<Rightarrow> jstr \<Rightarrow> jstr \<Rightarrow> bytes \<Rightarrow> sealed_error + bytes" where
  "derive_nonce c nonceKey formatVersion keyId keyserverUrl payload =
     try_then (nonce_input formatVersion keyId keyserverUrl payload)
       (\<lambda>input. Inr (take 12 (hmac c nonceKey input)))"

subsection \<open>The header\<close>

definition serialize_header :: "sealed_header \<Rightarrow> bytes" where
  "serialize_header h = utf8_encode
     (lit ''{\"formatVersion\":'' @ nat_str (h_formatVersion h) @
      lit '',\"alg\":'' @ quote_str (h_alg h) @
      lit '',\"keyId\":'' @ quote_str (h_keyId h) @
      lit '',\"keyserverUrl\":'' @ quote_str (h_keyserverUrl h) @
      lit '',\"nonce\":'' @ quote_str (h_nonce h) @
      lit '',\"entryCount\":'' @ nat_str (h_entryCount h) @ lit ''}'')"

definition header_fields :: "json \<Rightarrow> sealed_header option" where
  "header_fields j =
     (if get_member j ''formatVersion'' \<noteq> Some (jint 1) \<or> get_member j ''alg'' \<noteq> Some (JStr sealed_alg) then None
      else (case (as_str (get_member j ''keyId''), as_str (get_member j ''keyserverUrl''),
                  as_str (get_member j ''nonce''), as_int (get_member j ''entryCount'')) of
          (Some keyId, Some url, Some nonce, Some n) \<Rightarrow>
            (if n < 0 then None
             else Some \<lparr>h_formatVersion = 1, h_alg = sealed_alg, h_keyId = keyId, h_keyserverUrl = url,
                        h_nonce = nonce, h_entryCount = nat n\<rparr>)
        | _ \<Rightarrow> None))"

definition parse_header_bytes :: "bytes \<Rightarrow> sealed_error + sealed_header" where
  "parse_header_bytes headerBytes =
     (case json_parse (utf8_decode headerBytes) of
        None \<Rightarrow> Inl (Sealed MALFORMED_HEADER)
      | Some j \<Rightarrow>
          (if \<not> is_object j then Inl (Sealed MALFORMED_HEADER)
           else (case header_fields j of
               None \<Rightarrow> Inl (Sealed MALFORMED_HEADER)
             | Some h \<Rightarrow>
                 (let nonce = base64_decode (h_nonce h) in
                  if length nonce \<noteq> 12 \<or> base64_encode nonce \<noteq> h_nonce h then Inl (Sealed MALFORMED_HEADER)
                  else Inr h))))"

subsection \<open>Sealing\<close>

definition seal_bundle ::
  "crypto \<Rightarrow> bundle_file list \<Rightarrow> bytes \<Rightarrow> jstr \<Rightarrow> jstr \<Rightarrow> sealed_error + bytes" where
  "seal_bundle c files contentKey keyId keyserverUrl =
     try_then (assert_content_key contentKey) (\<lambda>_.
     try_then (build_canonical_payload files) (\<lambda>payload.
     let encKey = derive_key c contentKey (lit ''enc''); nonceKey = derive_key c contentKey (lit ''nonce'') in
     try_then (derive_nonce c nonceKey 1 keyId keyserverUrl payload) (\<lambda>nonce.
     let headerBytes = serialize_header \<lparr>h_formatVersion = 1, h_alg = sealed_alg, h_keyId = keyId,
           h_keyserverUrl = keyserverUrl, h_nonce = base64_encode nonce, h_entryCount = length files\<rparr> in
     try_then (write_u32 (length headerBytes)) (\<lambda>headerLen.
     let (ciphertext, tag) = gcm_enc c encKey nonce headerBytes payload in
     Inr (magic_bytes @ [byte_of 1] @ headerLen @ headerBytes @ ciphertext @ tag)))))"

subsection \<open>Unsealing\<close>

definition read_sealed_header :: "bytes \<Rightarrow> sealed_error + sealed_header \<times> bytes \<times> nat" where
  "read_sealed_header bundle =
     (if length bundle < 9 then Inl (Sealed MALFORMED_HEADER)
      else if subarray bundle 0 4 \<noteq> magic_bytes then Inl (Sealed BAD_MAGIC)
      else if unat (bundle ! 4) > 1 then Inl (Sealed UNSUPPORTED_VERSION)
      else if unat (bundle ! 4) \<noteq> 1 then Inl (Sealed UNSUPPORTED_VERSION)
      else
        (let headerLen = read_u32le bundle 5; payloadOffset = 9 + headerLen in
         if headerLen = 0 \<or> payloadOffset > length bundle \<or> length bundle - payloadOffset < 16
         then Inl (Sealed MALFORMED_HEADER)
         else (let headerBytes = subarray bundle 9 payloadOffset in
           try_then (parse_header_bytes headerBytes) (\<lambda>h. Inr (h, headerBytes, payloadOffset)))))"

fun parse_rows :: "jstr list \<Rightarrow> jstr list \<Rightarrow> sealed_error + bundle_file list" where
  "parse_rows seen [] = Inr []"
| "parse_rows seen (row # rows) =
     (case json_parse row of
        None \<Rightarrow> Inl (Sealed MALFORMED_HEADER)
      | Some j \<Rightarrow>
          (case (as_str (get_member j ''relPath''), as_str (get_member j ''content'')) of
             (Some p, Some content) \<Rightarrow>
               try_then (assert_relPath p) (\<lambda>_.
               try_then (ensure (p \<notin> set seen) (Sealed DUPLICATE_RELPATH)) (\<lambda>_.
               try_then (parse_rows (set_add seen p) rows) (\<lambda>files.
               Inr (\<lparr>b_relPath = p, b_content = base64_decode content\<rparr> # files))))
           | _ \<Rightarrow> Inl (Sealed MALFORMED_HEADER)))"

definition parse_payload :: "bytes \<Rightarrow> nat \<Rightarrow> sealed_error + bundle_file list" where
  "parse_payload payload entryCount =
     (if payload = [] then (if entryCount \<noteq> 0 then Inl (Sealed ENTRYCOUNT_MISMATCH) else Inr [])
      else if last payload \<noteq> byte_of 10 then Inl (Sealed MALFORMED_HEADER)
      else (let rows = butlast (split_on 10 (utf8_decode payload)) in
        if length rows \<noteq> entryCount then Inl (Sealed ENTRYCOUNT_MISMATCH)
        else parse_rows [] rows))"

definition unseal_bundle :: "crypto \<Rightarrow> bytes \<Rightarrow> bytes \<Rightarrow> sealed_error + sealed_header \<times> bundle_file list" where
  "unseal_bundle c bundle contentKey =
     try_then (assert_content_key contentKey) (\<lambda>_.
     try_then (read_sealed_header bundle) (\<lambda>(header, headerBytes, payloadOffset).
     let encKey = derive_key c contentKey (lit ''enc''); nonceKey = derive_key c contentKey (lit ''nonce'');
         nonce = base64_decode (h_nonce header);
         ciphertext = subarray bundle payloadOffset (length bundle - 16);
         tag = drop (length bundle - 16) bundle in
     (case gcm_dec c encKey nonce headerBytes ciphertext tag of
        None \<Rightarrow> Inl (Sealed AUTH_FAILED)
      | Some plaintext \<Rightarrow>
          try_then (derive_nonce c nonceKey (h_formatVersion header) (h_keyId header) (h_keyserverUrl header) plaintext)
            (\<lambda>expected.
          if expected \<noteq> nonce then Inl (Sealed SEAL_INVARIANT_VIOLATION)
          else try_then (parse_payload plaintext (h_entryCount header)) (\<lambda>files. Inr (header, files))))))"

definition crypto_ok :: "crypto \<Rightarrow> bool" where
  "crypto_ok c \<longleftrightarrow>
     (\<forall>k n a p. gcm_dec c k n a (fst (gcm_enc c k n a p)) (snd (gcm_enc c k n a p)) = Some p \<and>
        length (snd (gcm_enc c k n a p)) = 16) \<and>
     (\<forall>k m. 12 \<le> length (hmac c k m))"

subsection \<open>Texts written are the texts read\<close>

text \<open>The header and the rows are the compact JSON of an object.\<close>

lemma dec_str_nat: "int n < 10 ^ 21 \<Longrightarrow> json_ser nl sp d (jint (int n)) = nat_str n"
  by (simp add: jint_def dec_str_int)

lemma header_json:
  assumes "int (h_formatVersion h) < 10 ^ 21" and "int (h_entryCount h) < 10 ^ 21"
  shows "serialize_header h = utf8_encode (json_stringify (JObj
    [(lit ''formatVersion'', jint (int (h_formatVersion h))), (lit ''alg'', JStr (h_alg h)),
     (lit ''keyId'', JStr (h_keyId h)), (lit ''keyserverUrl'', JStr (h_keyserverUrl h)),
     (lit ''nonce'', JStr (h_nonce h)), (lit ''entryCount'', jint (int (h_entryCount h)))]))"
  unfolding json_stringify_def serialize_header_def
  using assms by (simp add: dec_str_nat quote_str_def quote_unit_def is_high_def is_low_def lit_def)

definition row_object :: "bundle_file \<Rightarrow> json" where
  "row_object f = JObj [(lit ''relPath'', JStr (b_relPath f)), (lit ''content'', JStr (base64_encode (b_content f)))]"

definition row_text :: "bundle_file \<Rightarrow> jstr" where
  "row_text f = json_stringify (row_object f)"

lemma wf_row: "units (b_relPath f) \<Longrightarrow> wf_json (row_object f)"
  by (simp add: row_object_def text_ok_units text_ok_lit)

lemma row_json: "payload_row f = row_text f @ [10]"
  by (simp add: row_text_def row_object_def json_stringify_def payload_row_def quote_str_def quote_unit_def
      is_high_def is_low_def lit_def)

lemma text_ok_row: "units (b_relPath f) \<Longrightarrow> text_ok (payload_row f)"
  unfolding row_json row_text_def
  by (intro text_ok_append text_ok_stringify wf_row text_ok_ascii) simp_all

lemma row_text_no_newline:
  assumes "units (b_relPath f)" shows "10 \<notin> set (row_text f)"
proof -
  have "10 \<notin> set (quote_str (b_relPath f))" "10 \<notin> set (quote_str (base64_encode (b_content f)))"
    using quote_units_ok [OF assms] quote_units_ok [OF text_ok_units [OF text_ok_base64]] by (auto simp: quote_str_def)
  then have "10 \<notin> set (butlast (payload_row f))"
    by (simp add: payload_row_def butlast_append lit_def)
  then show ?thesis by (simp add: row_json)
qed

subsection \<open>The canonical order\<close>

definition paths_ok :: "bundle_file list \<Rightarrow> bool" where
  "paths_ok fs \<longleftrightarrow> (\<forall>f \<in> set fs. valid_relPath (b_relPath f)) \<and> distinct (map b_relPath fs)"

lemma check_paths_Inr:
  "check_paths seen fs = Inr out \<longleftrightarrow>
     out = fs \<and> paths_ok fs \<and> b_relPath ` set fs \<inter> set seen = {}"
  by (induction seen fs arbitrary: out rule: check_paths.induct)
    (auto simp: res paths_ok_def assert_relPath_def)

lemma canonicalize_Inr:
  "canonicalize_files fs = Inr out \<longleftrightarrow> out = sort_key relPathBytes fs \<and> paths_ok fs"
  by (auto simp: canonicalize_files_def res check_paths_Inr)

lemma build_payload_Inr:
  "build_canonical_payload fs = Inr p \<longleftrightarrow>
     paths_ok fs \<and> p = utf8_encode (concat (map payload_row (sort_key relPathBytes fs)))"
  by (auto simp: build_canonical_payload_def res canonicalize_Inr)

lemma valid_relPath_well_formed: "valid_relPath p \<Longrightarrow> is_well_formed p"
  by (simp add: valid_relPath_def)

lemma relPathBytes_inj:
  assumes "paths_ok fs" and "\<forall>f \<in> set fs. units (b_relPath f)"
  shows "inj_on relPathBytes (set fs)"
proof
  fix f g assume fg: "f \<in> set fs" "g \<in> set fs" "relPathBytes f = relPathBytes g"
  then have "map byte_of (relPathBytes f) = map byte_of (relPathBytes g)" by simp
  then have "utf8_encode (b_relPath f) = utf8_encode (b_relPath g)"
    by (simp add: relPathBytes_def o_def)
  then have "b_relPath f = b_relPath g"
    using fg(1,2) assms utf8_encode_inj [of "b_relPath f" "b_relPath g"] valid_relPath_well_formed
    by (auto simp: paths_ok_def)
  then show "f = g" using fg(1,2) assms(1) by (auto simp: paths_ok_def distinct_map inj_on_def)
qed

lemma paths_ok_mset: "mset fs = mset gs \<Longrightarrow> paths_ok fs \<longleftrightarrow> paths_ok gs"
  unfolding paths_ok_def by (metis mset_eq_imp_distinct_iff mset_eq_setD mset_map)

lemma sort_key_mset:
  assumes "mset fs = mset gs" and "inj_on k (set fs)"
  shows "sort_key k fs = sort_key k gs"
  by (rule sort_key_inj_key_eq) (use assms in simp_all)

subsection \<open>Reading the payload back\<close>

lemma code_points_snoc: "\<not> is_low c \<Longrightarrow> code_points (s @ [c]) = code_points s @ [c]"
proof (induction s rule: code_points.induct)
  case (3 h l s)
  then show ?case by (cases "is_high h \<and> is_low l") auto
qed auto

lemma utf8_encode_newline: "utf8_encode (s @ [10]) = utf8_encode s @ [byte_of 10]"
  by (simp add: utf8_encode_def code_points_snoc is_low_def utf8_cp_def)

lemma split_rows: "\<forall>r \<in> set rs. 10 \<notin> set r \<Longrightarrow> split_on 10 (concat (map (\<lambda>r. r @ [10]) rs)) = rs @ [ [] ]"
  by (induction rs) (simp_all add: split_on_append_sep)

lemma row_text_parse: "units (b_relPath f) \<Longrightarrow> json_parse (row_text f) = Some (row_object f)"
  using json_roundtrip [OF wf_row, of f "[]"] by (simp add: row_text_def blank_def)

lemma parse_rows_text:
  "paths_ok fs \<Longrightarrow> \<forall>f \<in> set fs. units (b_relPath f) \<Longrightarrow> b_relPath ` set fs \<inter> set seen = {} \<Longrightarrow>
     parse_rows seen (map row_text fs) = Inr fs"
proof (induction fs arbitrary: seen)
  case (Cons f fs)
  from Cons.prems have "parse_rows (set_add seen (b_relPath f)) (map row_text fs) = Inr fs"
    by (intro Cons.IH) (auto simp: paths_ok_def)
  then show ?case
    using Cons.prems
    by (simp add: row_text_parse row_object_def obj_get_def paths_ok_def assert_relPath_def base64_roundtrip)
qed simp

lemma parse_payload_rows:
  assumes "paths_ok fs" and "\<forall>f \<in> set fs. units (b_relPath f)"
  shows "parse_payload (utf8_encode (concat (map payload_row fs))) (length fs) = Inr fs"
proof (cases "fs = []")
  case True
  then show ?thesis by (simp add: parse_payload_def utf8_encode_def)
next
  case False
  let ?t = "concat (map payload_row fs)"
  have rows: "map payload_row fs = map (\<lambda>r. r @ [10]) (map row_text fs)"
    by (simp add: row_json)
  have "?t = concat (map payload_row (butlast fs)) @ row_text (last fs) @ [10]"
    using False by (cases fs rule: rev_cases) (simp_all add: row_json)
  then have enc: "utf8_encode ?t = utf8_encode (concat (map payload_row (butlast fs)) @ row_text (last fs)) @ [byte_of 10]"
    by (metis append_assoc utf8_encode_newline)
  have "utf8_decode (utf8_encode ?t) = ?t" using assms(2) by (intro text_ok_roundtrip text_ok_concat) (simp add: text_ok_row)
  then have "butlast (split_on 10 (utf8_decode (utf8_encode ?t))) = map row_text fs"
    using split_rows [of "map row_text fs"] assms(2) row_text_no_newline by (simp add: rows o_def)
  then show ?thesis
    using enc parse_rows_text [OF assms, of "[]"] by (simp add: parse_payload_def Let_def)
qed

subsection \<open>Reading the header back\<close>

definition header_object :: "sealed_header \<Rightarrow> json" where
  "header_object h = JObj
    [(lit ''formatVersion'', jint (int (h_formatVersion h))), (lit ''alg'', JStr (h_alg h)),
     (lit ''keyId'', JStr (h_keyId h)), (lit ''keyserverUrl'', JStr (h_keyserverUrl h)),
     (lit ''nonce'', JStr (h_nonce h)), (lit ''entryCount'', jint (int (h_entryCount h)))]"

definition header_ok :: "sealed_header \<Rightarrow> bool" where
  "header_ok h \<longleftrightarrow> h_formatVersion h = 1 \<and> h_alg h = sealed_alg \<and> units (h_keyId h) \<and> units (h_keyserverUrl h) \<and>
     (\<exists>nonce. h_nonce h = base64_encode nonce \<and> length nonce = 12) \<and> int (h_entryCount h) < 10 ^ 21"

lemma wf_header: "header_ok h \<Longrightarrow> wf_json (header_object h)"
  by (auto simp: header_ok_def header_object_def text_ok_units text_ok_lit sealed_alg_def)

lemma parse_header_serialize:
  assumes "header_ok h"
  shows "parse_header_bytes (serialize_header h) = Inr h"
proof -
  have ser: "serialize_header h = utf8_encode (json_stringify (header_object h))"
    using assms header_json [of h] by (simp add: header_ok_def header_object_def)
  have dec: "json_parse (utf8_decode (serialize_header h)) = Some (header_object h)"
    unfolding ser text_ok_roundtrip [OF text_ok_stringify [OF wf_header [OF assms]]]
    using json_roundtrip [OF wf_header [OF assms], of "[]"] by (simp add: blank_def)
  have "header_fields (header_object h) = Some h"
    using assms unfolding header_fields_def header_object_def header_ok_def
    by (auto simp: obj_get_def sealed_alg_def)
  then show ?thesis
    using assms dec by (auto simp: parse_header_bytes_def header_object_def header_ok_def base64_roundtrip Let_def)
qed

lemma header_bytes_not_Nil: "header_ok h \<Longrightarrow> serialize_header h \<noteq> []"
proof
  assume "header_ok h" and nil: "serialize_header h = []"
  have "json_parse [] = None" by (simp add: json_parse_def skip_ws_def)
  then have "parse_header_bytes [] = Inl (Sealed MALFORMED_HEADER)"
    by (simp add: parse_header_bytes_def utf8_decode_ascii)
  with parse_header_serialize [OF \<open>header_ok h\<close>] nil show False by simp
qed

lemma read_header_sealed:
  assumes "header_ok h" and "length (serialize_header h) < 2 ^ 32" and "length tag = 16"
    and "bundle = magic_bytes @ [byte_of 1] @ u32le (length (serialize_header h)) @ serialize_header h @ ct @ tag"
  shows "read_sealed_header bundle = Inr (h, serialize_header h, 9 + length (serialize_header h))"
    and "subarray bundle (9 + length (serialize_header h)) (length bundle - 16) = ct"
    and "drop (length bundle - 16) bundle = tag"
proof -
  let ?hb = "serialize_header h"
  have m: "length magic_bytes = 4" by (simp add: magic_bytes_def)
  have len: "length bundle = 9 + length ?hb + length ct + 16" using assms(3,4) m by simp
  have n: "read_u32le bundle 5 = length ?hb"
    using u32le_roundtrip [OF assms(2), of "magic_bytes @ [byte_of 1]" 5 "?hb @ ct @ tag"] m
    by (simp add: assms(4))
  have b4: "bundle ! 4 = byte_of 1" using m by (simp add: assms(4) nth_append)
  have magic: "subarray bundle 0 4 = magic_bytes" using m by (simp add: assms(4) subarray_def)
  have hb: "subarray bundle 9 (9 + length ?hb) = ?hb" using m by (simp add: assms(4) subarray_def)
  define pre where "pre = magic_bytes @ [byte_of 1] @ u32le (length ?hb) @ ?hb"
  have whole: "bundle = pre @ ct @ tag" and pre: "length pre = 9 + length ?hb"
    using m by (simp_all add: pre_def assms(4))
  show "read_sealed_header bundle = Inr (h, ?hb, 9 + length ?hb)"
    using header_bytes_not_Nil [OF assms(1)] parse_header_serialize [OF assms(1)]
    by (simp add: read_sealed_header_def Let_def len n b4 magic hb unat_byte_of)
  show "subarray bundle (9 + length ?hb) (length bundle - 16) = ct"
    unfolding subarray_def len by (simp add: whole pre)
  show "drop (length bundle - 16) bundle = tag"
    unfolding len by (simp add: whole pre)
qed

definition seal_header :: "nat \<Rightarrow> jstr \<Rightarrow> jstr \<Rightarrow> bytes \<Rightarrow> sealed_header" where
  "seal_header n keyId keyserverUrl nonce = \<lparr>h_formatVersion = 1, h_alg = sealed_alg, h_keyId = keyId,
     h_keyserverUrl = keyserverUrl, h_nonce = base64_encode nonce, h_entryCount = n\<rparr>"

subsection \<open>A concrete bundle\<close>

definition zeros :: "nat \<Rightarrow> bytes" where
  "zeros n = replicate n 0"

definition toy_crypto :: crypto where
  "toy_crypto = \<lparr>hkdf = \<lambda>key salt info n. take n key, hmac = \<lambda>key m. zeros 12,
     gcm_enc = \<lambda>key nonce aad p. (p, zeros 16),
     gcm_dec = \<lambda>key nonce aad ct tag. if tag = zeros 16 then Some ct else None\<rparr>"

lemma length_zeros [simp]: "length (zeros n) = n"
  by (simp add: zeros_def)

lemma toy_crypto_ok: "crypto_ok toy_crypto"
  by (simp add: crypto_ok_def toy_crypto_def)

definition note_file :: bundle_file where
  "note_file = \<lparr>b_relPath = lit ''a.md'', b_content = []\<rparr>"

lemma note_valid: "valid_relPath (lit ''a.md'')" "valid_relPath (lit ''b.md'')"
proof -
  have "\<not> rx_test drive_prefix (lit ''a.md'')" "\<not> rx_test drive_prefix (lit ''b.md'')" by code_simp+
  moreover have "\<not> has_sub [92] (lit ''a.md'')" "\<not> has_sub [92] (lit ''b.md'')"
    by (auto simp: has_sub_iff lit_def sublist_Cons_right)
  moreover have "split_on 47 (lit ''a.md'') = [lit ''a.md'']" "split_on 47 (lit ''b.md'') = [lit ''b.md'']"
    by (simp_all add: lit_def)
  ultimately show "valid_relPath (lit ''a.md'')" "valid_relPath (lit ''b.md'')"
    by (simp_all add: valid_relPath_def lit_def is_high_def is_low_def)
qed

lemma length_utf8_encode: "length (utf8_encode s) \<le> 4 * length s"
proof -
  have "length (code_points s) \<le> length s" by (induction s rule: code_points.induct) auto
  moreover have "length (concat (map utf8_cp cs)) \<le> 4 * length cs" for cs
    by (induction cs) (auto simp: utf8_cp_def)
  ultimately show ?thesis
    unfolding utf8_encode_def length_map by (meson le_trans mult_le_mono2)
qed

lemma frame_short: "length bs < 2 ^ 32 \<Longrightarrow> frame bs = Inr (u32le (length bs) @ bs)"
  by (simp add: frame_def write_u32_def)

lemma sealed_exists_at:
  assumes "paths_ok fs" and "length (concat (map payload_row (sort_key relPathBytes fs))) < 1000"
    and "length fs < 10" and "url \<in> {lit ''u'', lit ''https://u''}"
  shows "\<exists>b. seal_bundle toy_crypto fs (zeros 32) (lit ''keyserver:k'') url = Inr b"
proof -
  let ?nk = "derive_key toy_crypto (zeros 32) (lit ''nonce'')"
  let ?p = "utf8_encode (concat (map payload_row (sort_key relPathBytes fs)))"
  have p: "length ?p < 2 ^ 32"
    by (rule le_less_trans [OF length_utf8_encode]) (use assms(2) in simp)
  have payload: "build_canonical_payload fs = Inr ?p" using assms(1) by (simp add: build_payload_Inr)
  have k: "length (utf8_encode (lit ''keyserver:k'')) < 2 ^ 32" "length (utf8_encode url) < 2 ^ 32"
    using length_utf8_encode [of "lit ''keyserver:k''"] length_utf8_encode [of url] assms(4) by auto
  have nonce: "derive_nonce toy_crypto ?nk 1 (lit ''keyserver:k'') url ?p = Inr (zeros 12)"
  proof -
    have one: "frame [byte_of 1] = Inr (u32le (length [byte_of 1]) @ [byte_of 1])"
      by (rule frame_short) simp
    have "hmac toy_crypto = (\<lambda>key m. zeros 12)" by (simp add: toy_crypto_def)
    moreover have "take 12 (zeros 12) = zeros 12" by simp
    ultimately show ?thesis
      unfolding derive_nonce_def nonce_input_def try_map.simps one frame_short [OF k(1)]
        frame_short [OF k(2)] frame_short [OF p] try_then_simps by simp
  qed
  have "zeros 12 = [0, 0, 0, 0, 0, 0, 0, 0, 0, 0, 0, 0]" by (simp add: zeros_def numeral_eq_Suc)
  then have b64: "base64_encode (zeros 12) = lit ''AAAAAAAAAAAAAAAA''"
    by (simp add: base64_encode_def b64_char_def lit_def)
  let ?h = "seal_header (length fs) (lit ''keyserver:k'') url (zeros 12)"
  let ?t = "lit ''{\"formatVersion\":'' @ nat_str (h_formatVersion ?h) @
      lit '',\"alg\":'' @ quote_str (h_alg ?h) @ lit '',\"keyId\":'' @ quote_str (h_keyId ?h) @
      lit '',\"keyserverUrl\":'' @ quote_str (h_keyserverUrl ?h) @ lit '',\"nonce\":'' @ quote_str (h_nonce ?h) @
      lit '',\"entryCount\":'' @ nat_str (h_entryCount ?h) @ lit ''}''"
  have "nat_str (length fs) = [48 + length fs]" using assms(3) by (subst nat_str.simps) simp
  then have "length ?t < 1000"
    using assms(4) by (elim insertE emptyE; simp add: seal_header_def b64 quote_str_def quote_unit_def is_high_def is_low_def sealed_alg_def
        nat_str.simps [of "Suc 0"] lit_def)
  then have "length (serialize_header ?h) < 2 ^ 32"
    using length_utf8_encode [of ?t] by (simp add: serialize_header_def)
  then show ?thesis
    using nonce payload
    by (simp add: seal_bundle_def [folded seal_header_def] assert_content_key_def write_u32_def case_prod_beta Let_def)
qed

lemma sealed_exists:
  assumes "paths_ok fs" and "length (concat (map payload_row (sort_key relPathBytes fs))) < 1000" and "length fs < 10"
  shows "\<exists>b. seal_bundle toy_crypto fs (zeros 32) (lit ''keyserver:k'') (lit ''u'') = Inr b"
  using sealed_exists_at [OF assms] by blast

definition other_file :: bundle_file where
  "other_file = \<lparr>b_relPath = lit ''b.md'', b_content = []\<rparr>"

lemma short_row: "length (payload_row note_file) < 100" "length (payload_row other_file) < 100"
  by (simp_all add: payload_row_def note_file_def other_file_def quote_str_def base64_encode_def quote_unit_def
      is_high_def is_low_def lit_def)

lemma note_sealed: "\<exists>b. seal_bundle toy_crypto [note_file] (zeros 32) (lit ''keyserver:k'') (lit ''u'') = Inr b"
  using note_valid short_row by (intro sealed_exists) (simp_all add: paths_ok_def note_file_def)

lemma both_sealed: "\<exists>b. seal_bundle toy_crypto [note_file, other_file] (zeros 32) (lit ''keyserver:k'') (lit ''u'') = Inr b"
proof (rule sealed_exists)
  show "paths_ok [note_file, other_file]"
    using note_valid by (simp add: paths_ok_def note_file_def other_file_def)
  have "length (concat (map payload_row (sort_key relPathBytes [note_file, other_file]))) =
      length (payload_row note_file) + length (payload_row other_file)"
    by (simp add: insort_key.simps)
  then show "length (concat (map payload_row (sort_key relPathBytes [note_file, other_file]))) < 1000"
    using short_row by simp
qed simp

subsection \<open>Properties\<close>

lemma unseal_sealed:
  assumes "crypto_ok c" and "\<forall>f \<in> set files. units (b_relPath f)" and "units keyId" and "units url"
    and "int (length files) < 10 ^ 21" and "seal_bundle c files key keyId url = Inr bundle"
  shows "\<exists>h. unseal_bundle c bundle key = Inr (h, sort_key relPathBytes files) \<and>
    h_keyId h = keyId \<and> h_keyserverUrl h = url \<and> h_entryCount h = length files"
proof -
  let ?enc = "derive_key c key (lit ''enc'')" and ?nk = "derive_key c key (lit ''nonce'')"
  from assms(6) obtain payload nonce where
      key: "assert_content_key key = Inr ()"
    and payload: "build_canonical_payload files = Inr payload"
    and nonce: "derive_nonce c ?nk 1 keyId url payload = Inr nonce"
    and len: "length (serialize_header (seal_header (length files) keyId url nonce)) < 2 ^ 32"
    and bnd: "bundle = magic_bytes @ [byte_of 1] @
        u32le (length (serialize_header (seal_header (length files) keyId url nonce))) @
        serialize_header (seal_header (length files) keyId url nonce) @
        fst (gcm_enc c ?enc nonce (serialize_header (seal_header (length files) keyId url nonce)) payload) @
        snd (gcm_enc c ?enc nonce (serialize_header (seal_header (length files) keyId url nonce)) payload)"
    unfolding seal_bundle_def [folded seal_header_def] Let_def case_prod_beta
    by (auto simp: res write_u32_def split: if_splits)
  define h where "h = seal_header (length files) keyId url nonce"
  have fields: "h_formatVersion h = 1" "h_keyId h = keyId" "h_keyserverUrl h = url"
      "h_entryCount h = length files" "base64_decode (h_nonce h) = nonce"
    by (simp_all add: h_def seal_header_def base64_roundtrip)
  have "length nonce = 12"
    using nonce assms(1) by (auto simp: derive_nonce_def res crypto_ok_def)
  then have ok: "header_ok h" using assms(3-5) by (auto simp: h_def seal_header_def header_ok_def)
  have tag: "length (snd (gcm_enc c ?enc nonce (serialize_header h) payload)) = 16"
    using assms(1) by (simp add: crypto_ok_def)
  note parts = read_header_sealed [OF ok len [folded h_def] tag bnd [folded h_def]]
  have paths: "paths_ok files" and p: "payload = utf8_encode (concat (map payload_row (sort_key relPathBytes files)))"
    using payload by (simp_all add: build_payload_Inr)
  have "paths_ok (sort_key relPathBytes files)"
    using paths paths_ok_mset [of "sort_key relPathBytes files" files] by simp
  then have "parse_payload payload (length files) = Inr (sort_key relPathBytes files)"
    using parse_payload_rows [of "sort_key relPathBytes files"] assms(2) by (simp add: p)
  then have "unseal_bundle c bundle key = Inr (h, sort_key relPathBytes files)"
    using assms(1) nonce unfolding unseal_bundle_def Let_def key try_then_simps parts prod.case fields
    by (simp add: crypto_ok_def)
  then show ?thesis using fields by blast
qed

text \<open>
  C2: Unsealing inverts sealing: what \<open>sealBundle\<close> returns unseals under the same content key to
  the files in canonical order, with the key id, key server and entry count it was sealed with.
  The strings are JavaScript strings, lone surrogates allowed in the key id and server.
\<close>

theorem seal_unseal:
  assumes "crypto_ok c" and "\<forall>f \<in> set files. units (b_relPath f)" and "units keyId" and "units url"
    and "int (length files) < 10 ^ 21" and "seal_bundle c files key keyId url = Inr bundle"
  shows "\<exists>h. unseal_bundle c bundle key = Inr (h, sort_key relPathBytes files) \<and>
    h_keyId h = keyId \<and> h_keyserverUrl h = url \<and> h_entryCount h = length files"
  using assms by (rule unseal_sealed)

theorem seal_unseal_witness:
  "\<exists>b h. seal_bundle toy_crypto [note_file] (zeros 32) (lit ''keyserver:k'') (lit ''u'') = Inr b \<and>
     unseal_bundle toy_crypto b (zeros 32) = Inr (h, [note_file])"
proof -
  obtain b where b: "seal_bundle toy_crypto [note_file] (zeros 32) (lit ''keyserver:k'') (lit ''u'') = Inr b"
    using note_sealed by blast
  have u: "units (lit ''keyserver:k'')" "units (lit ''u'')" "\<forall>f \<in> set [note_file]. units (b_relPath f)"
    by (simp_all add: text_ok_units text_ok_lit note_file_def)
  from seal_unseal [OF toy_crypto_ok u(3) u(1,2) _ b] b show ?thesis by auto
qed

text \<open>
  A bundle does not depend on the order in which the files are given: sealing any reordering
  of the same files gives the same bytes.
\<close>

theorem seal_order_independent:
  assumes "mset files = mset files'" and "\<forall>f \<in> set files. units (b_relPath f)"
    and "seal_bundle c files key keyId url = Inr bundle"
  shows "seal_bundle c files' key keyId url = Inr bundle"
proof -
  from assms(3) obtain payload where "build_canonical_payload files = Inr payload"
    by (auto simp: seal_bundle_def res)
  moreover from this have "paths_ok files" by (simp add: build_payload_Inr)
  ultimately have "build_canonical_payload files' = Inr payload"
    using sort_key_mset [OF assms(1) relPathBytes_inj] assms(2) paths_ok_mset [OF assms(1)]
    by (simp add: build_payload_Inr)
  moreover have "length files' = length files" using assms(1) by (metis size_mset)
  ultimately show ?thesis
    using assms(3) \<open>build_canonical_payload files = Inr payload\<close> by (simp add: seal_bundle_def)
qed

theorem seal_order_independent_witness:
  "\<exists>b. seal_bundle toy_crypto [note_file, other_file] (zeros 32) (lit ''keyserver:k'') (lit ''u'') = Inr b \<and>
     seal_bundle toy_crypto [other_file, note_file] (zeros 32) (lit ''keyserver:k'') (lit ''u'') = Inr b"
proof -
  obtain b where b: "seal_bundle toy_crypto [note_file, other_file] (zeros 32) (lit ''keyserver:k'') (lit ''u'') = Inr b"
    using both_sealed by blast
  have "\<forall>f \<in> set [note_file, other_file]. units (b_relPath f)"
    by (simp add: text_ok_units text_ok_lit note_file_def other_file_def)
  from seal_order_independent [OF _ this b, of "[other_file, note_file]"] b show ?thesis by auto
qed

lemma frame_append_inj:
  assumes "frame a = Inr fa" and "frame b = Inr fb" and "fa @ x = fb @ y"
  shows "a = b \<and> x = y"
proof -
  from assms(1,2) have f: "fa = u32le (length a) @ a" "fb = u32le (length b) @ b"
      and l: "length a < 2 ^ 32" "length b < 2 ^ 32"
    by (auto simp: frame_def write_u32_def res split: if_splits)
  from assms(3) have "u32le (length a) = u32le (length b)" "a @ x = b @ y"
    by (simp_all add: f)
  with l show ?thesis using u32le_inj by simp
qed

text \<open>
  The input of the nonce's HMAC is injective: equal inputs come from the same format version,
  key id, key server and payload, so no field can be shifted into another.
\<close>

theorem nonce_input_injective:
  assumes "nonce_input v keyId url p = Inr i" and "nonce_input v' keyId' url' p' = Inr i"
    and "text_ok keyId" and "text_ok url" and "text_ok keyId'" and "text_ok url'" and "v < 256" and "v' < 256"
  shows "v = v' \<and> keyId = keyId' \<and> url = url' \<and> p = p'"
proof -
  from assms(1) obtain a b c d where f: "frame [byte_of v] = Inr a" "frame (utf8_encode keyId) = Inr b"
      "frame (utf8_encode url) = Inr c" "frame p = Inr d" "i = a @ b @ c @ d"
    by (auto simp: nonce_input_def res)
  from assms(2) obtain a' b' c' d' where g: "frame [byte_of v'] = Inr a'" "frame (utf8_encode keyId') = Inr b'"
      "frame (utf8_encode url') = Inr c'" "frame p' = Inr d'" "i = a' @ b' @ c' @ d'"
    by (auto simp: nonce_input_def res)
  from f(5) g(5) have "a @ b @ c @ d = a' @ b' @ c' @ d'" by simp
  from frame_append_inj [OF f(1) g(1) this] have 1: "byte_of v = byte_of v'" "b @ c @ d = b' @ c' @ d'" by auto
  from frame_append_inj [OF f(2) g(2) 1(2)] have 2: "utf8_encode keyId = utf8_encode keyId'" "c @ d = c' @ d'" by auto
  from frame_append_inj [OF f(3) g(3) 2(2)] have 3: "utf8_encode url = utf8_encode url'" "d @ [] = d' @ []" by auto
  from frame_append_inj [OF f(4) g(4) 3(2)] have "p = p'" by simp
  moreover have "v = v'" using 1(1) assms(7,8) by (metis unat_byte_of)
  ultimately show ?thesis
    using 2(1) 3(1) assms(3-6) utf8_encode_inj by (simp add: text_ok_def)
qed

theorem nonce_input_injective_witness:
  "\<exists>i. nonce_input 1 (lit ''k'') (lit ''u'') [] = Inr i \<and>
     nonce_input 1 (lit ''ku'') [] [] \<noteq> Inr i"
proof -
  have l: "length (utf8_encode (lit s)) < 2 ^ 32" if "length s < 9" for s
    using length_utf8_encode [of "lit s"] that by simp
  then obtain i where i: "nonce_input 1 (lit ''k'') (lit ''u'') [] = Inr i"
    using frame_short [of "[byte_of 1]"] frame_short [of "[]"]
    by (simp add: nonce_input_def frame_short l)
  have t: "text_ok (lit ''k'')" "text_ok (lit ''u'')" "text_ok (lit ''ku'')" by (simp_all add: text_ok_lit)
  have "nonce_input 1 (lit ''ku'') [] [] \<noteq> Inr i"
    using nonce_input_injective [OF i _ t(1,2,3) text_ok_Nil] by force
  with i show ?thesis by blast
qed

lemma parse_rows_Inr:
  "parse_rows seen rows = Inr fs \<Longrightarrow>
     length fs = length rows \<and> paths_ok fs \<and> b_relPath ` set fs \<inter> set seen = {}"
proof (induction seen rows arbitrary: fs rule: parse_rows.induct)
  case (2 seen row rows)
  then obtain j p ct gs where j: "json_parse row = Some j" "as_str (get_member j ''relPath'') = Some p"
      "as_str (get_member j ''content'') = Some ct" "valid_relPath p" "p \<notin> set seen"
      "parse_rows (set_add seen p) rows = Inr gs" "fs = \<lparr>b_relPath = p, b_content = base64_decode ct\<rparr> # gs"
    by (auto simp: res assert_relPath_def split: option.splits)
  from "2.IH" [OF j(1) refl j(2) j(3) j(6)] j(4,5) show ?case
    by (auto simp: j(7) paths_ok_def res assert_relPath_def)
qed (auto simp: paths_ok_def)

text \<open>
  C3: A bundle that unseals has been authenticated and checked: its header is the one read from
  the bundle's own first bytes, the files are those of the plaintext that the cipher returned when
  it verified the bundle's ciphertext and tag against exactly those header bytes under the derived
  encryption key and the header's nonce, and that nonce is the one derived from the plaintext and
  the header's version, key id and server. The paths are relative, well-formed, without a drive, a
  backslash or a dot segment and all different, and there are as many files as the header says.
\<close>

theorem unseal_checks:
  assumes "unseal_bundle c bundle key = Inr (h, fs)"
  shows "length key = 32 \<and> length fs = h_entryCount h \<and> distinct (map b_relPath fs) \<and>
    (\<forall>f \<in> set fs. valid_relPath (b_relPath f)) \<and>
    (\<exists>headerBytes off plaintext. read_sealed_header bundle = Inr (h, headerBytes, off) \<and>
      gcm_dec c (derive_key c key (lit ''enc'')) (base64_decode (h_nonce h)) headerBytes
        (subarray bundle off (length bundle - 16)) (drop (length bundle - 16) bundle) = Some plaintext \<and>
      derive_nonce c (derive_key c key (lit ''nonce'')) (h_formatVersion h) (h_keyId h)
        (h_keyserverUrl h) plaintext = Inr (base64_decode (h_nonce h)) \<and>
      parse_payload plaintext (h_entryCount h) = Inr fs)"
proof -
  from assms obtain hb off plaintext where u: "length key = 32" "read_sealed_header bundle = Inr (h, hb, off)"
      "gcm_dec c (derive_key c key (lit ''enc'')) (base64_decode (h_nonce h)) hb
        (subarray bundle off (length bundle - 16)) (drop (length bundle - 16) bundle) = Some plaintext"
      "derive_nonce c (derive_key c key (lit ''nonce'')) (h_formatVersion h) (h_keyId h)
        (h_keyserverUrl h) plaintext = Inr (base64_decode (h_nonce h))"
      "parse_payload plaintext (h_entryCount h) = Inr fs"
    by (auto simp: unseal_bundle_def res assert_content_key_def Let_def split: option.splits if_splits)
  then have "length fs = h_entryCount h \<and> paths_ok fs"
    by (auto simp: parse_payload_def Let_def paths_ok_def split: if_splits dest!: parse_rows_Inr)
  with u show ?thesis by (auto simp: paths_ok_def)
qed

theorem unseal_checks_witness:
  "\<exists>b h. unseal_bundle toy_crypto b (zeros 32) = Inr (h, [note_file]) \<and> h_entryCount h = 1"
proof -
  obtain b where b: "seal_bundle toy_crypto [note_file] (zeros 32) (lit ''keyserver:k'') (lit ''u'') = Inr b"
    using note_sealed by blast
  have u: "units (lit ''keyserver:k'')" "units (lit ''u'')" "\<forall>f \<in> set [note_file]. units (b_relPath f)"
    by (simp_all add: text_ok_units text_ok_lit note_file_def)
  have "\<exists>h. unseal_bundle toy_crypto b (zeros 32) = Inr (h, [note_file])"
    using unseal_sealed [OF toy_crypto_ok u(3) u(1,2) _ b] by auto
  with unseal_checks show ?thesis by fastforce
qed

end
