(* ===== verification/SealedKeys.thy ===== *)
theory SealedKeys
  imports UriText Url SealedBundle
begin

text \<open>
  The content keys of sealed bundles: the key provider of \<open>packages/core/src/sealedKeys.ts\<close>
  (memory over a disk cache over a fetch from the key server), the provider that only reads the
  cache, the key server's worker \<open>keyserver/src/worker.ts\<close> and the prewarming of
  \<open>packages/core/src/sealedIndex.ts\<close>. The WHATWG URL parser and SHA-256 are parameters
  (\<open>platform\<close>), the network and the disk's behaviour during a call is the argument \<open>env\<close>.

  The locale \<open>content_key_provider\<close> is the interface \<open>ContentKeyProvider\<close>; prewarming is
  proved against it and both providers interpret it.
\<close>

subsection \<open>Errors and identifiers\<close>

datatype key_code = KEY_UNAVAILABLE | KEY_INVALID | MALFORMED_KEY_ID

text \<open>A \<open>SealedKeyError\<close>, or the file system's error when the cache cannot be written.\<close>

datatype key_error = Key key_code | Cache_io

definition key_id_prefix :: jstr where
  "key_id_prefix = lit ''keyserver:''"

definition has_bad_id :: "jstr \<Rightarrow> bool" where
  "has_bad_id s \<longleftrightarrow> has_sub [47] s \<or> has_sub [92] s \<or> has_sub (lit ''..'') s"

definition parse_key_id :: "jstr \<Rightarrow> key_error + jstr" where
  "parse_key_id keyId =
     (if \<not> starts_with key_id_prefix keyId \<or> length keyId = length key_id_prefix then Inl (Key MALFORMED_KEY_ID)
      else (let bareId = drop (length key_id_prefix) keyId in
        if has_bad_id bareId then Inl (Key MALFORMED_KEY_ID) else Inr bareId))"

text \<open>\<open>s.replace(/\\/+$/, '')\<close> and \<open>s.replace(/\\/$/, '')\<close>.\<close>

definition strip_slashes :: "jstr \<Rightarrow> jstr" where
  "strip_slashes s = rev (dropWhile (\<lambda>c. c = 47) (rev s))"

definition strip_slash :: "jstr \<Rightarrow> jstr" where
  "strip_slash s = (if ends_with [47] s then butlast s else s)"

text \<open>
  The serialisation of an http(s) URL whose query and fragment are empty; the path of such a
  URL is never empty, setting it to the empty string gives \<open>/\<close>.
\<close>

definition url_string :: "url_parts \<Rightarrow> jstr \<Rightarrow> jstr" where
  "url_string u path = u_protocol u @ lit ''//'' @ u_authority u @ (if path = [] then [47] else path)"

definition is_loopback_http :: "url_parts \<Rightarrow> bool" where
  "is_loopback_http u \<longleftrightarrow> u_protocol u = lit ''http:'' \<and>
     (u_hostname u = lit ''127.0.0.1'' \<or> u_hostname u = lit ''::1'' \<or> u_hostname u = lit ''localhost'')"

definition normalize_url :: "platform \<Rightarrow> jstr \<Rightarrow> key_error + jstr" where
  "normalize_url pf keyserverUrl =
     (case url_parse pf keyserverUrl of
        None \<Rightarrow> Inl (Key KEY_INVALID)
      | Some u \<Rightarrow>
          (if u_protocol u \<noteq> lit ''https:'' \<and> \<not> is_loopback_http u then Inl (Key KEY_INVALID)
           else Inr (strip_slash (url_string u (strip_slashes (u_pathname u))))))"

definition memory_key :: "jstr \<Rightarrow> jstr \<Rightarrow> jstr" where
  "memory_key url keyId = url @ [10] @ keyId"

text \<open>The name of the cache file under \<open>keys/\<close>.\<close>

definition cache_file :: "platform \<Rightarrow> jstr \<Rightarrow> jstr \<Rightarrow> jstr" where
  "cache_file pf url keyId = slice (sha256_hex pf (url @ [10] @ keyId)) 0 32 @ lit ''.json''"

definition base64_strict :: rx where
  "base64_strict = Sq Bol (Sq (Rep (rx_exact is_b64 4) 0 None)
     (Sq (Rep (Or (Sq (rx_exact is_b64 2) (rx_str (lit ''==''))) (Sq (rx_exact is_b64 3) (rx_str (lit ''=''))))
        0 (Some 1)) Eol))"

definition decode_base64_key :: "json option \<Rightarrow> key_error + bytes" where
  "decode_base64_key v =
     (case as_str v of
        None \<Rightarrow> Inl (Key KEY_INVALID)
      | Some s \<Rightarrow>
          (if \<not> rx_test base64_strict s then Inl (Key KEY_INVALID)
           else (let key = base64_decode s in
             if length key \<noteq> 32 then Inl (Key KEY_INVALID) else Inr key)))"

subsection \<open>The cache on disk\<close>

type_synonym disk = "(jstr \<times> bytes) list"

definition disk_remove :: "disk \<Rightarrow> jstr \<Rightarrow> disk" where
  "disk_remove d p = filter (\<lambda>x. fst x \<noteq> p) d"

definition cached_entry :: "jstr \<Rightarrow> jstr \<Rightarrow> bytes \<Rightarrow> key_error + bytes" where
  "cached_entry url keyId content =
     (case json_parse (utf8_decode content) of
        None \<Rightarrow> Inl (Key KEY_INVALID)
      | Some j \<Rightarrow>
          (if \<not> is_object j \<or> get_member j ''keyserverUrl'' \<noteq> Some (JStr url) \<or>
              get_member j ''keyId'' \<noteq> Some (JStr keyId)
           then Inl (Key KEY_INVALID) else decode_base64_key (get_member j ''key'')))"

definition read_cache :: "disk \<Rightarrow> jstr \<Rightarrow> jstr \<Rightarrow> jstr \<Rightarrow> bool \<Rightarrow> bytes option \<times> disk" where
  "read_cache d path url keyId removeInvalid =
     (case map_of d path of
        None \<Rightarrow> (None, d)
      | Some content \<Rightarrow>
          (case cached_entry url keyId content of
             Inr key \<Rightarrow> (Some key, d)
           | Inl e \<Rightarrow> (None, if removeInvalid then disk_remove d path else d)))"

definition cache_text :: "jstr \<Rightarrow> jstr \<Rightarrow> bytes \<Rightarrow> jstr" where
  "cache_text url keyId key = json_pretty (JObj [(lit ''keyserverUrl'', JStr url), (lit ''keyId'', JStr keyId),
     (lit ''key'', JStr (base64_encode key))]) @ [10]"

text \<open>The file is written aside and renamed, so it is the old one or the new one.\<close>

definition write_cache :: "bool \<Rightarrow> disk \<Rightarrow> jstr \<Rightarrow> jstr \<Rightarrow> jstr \<Rightarrow> bytes \<Rightarrow> (key_error + unit) \<times> disk" where
  "write_cache works d path url keyId key =
     (if works then (Inr (), map_set d path (utf8_encode (cache_text url keyId key))) else (Inl Cache_io, d))"

subsection \<open>The provider\<close>

datatype reply = Fetch_failed | Reply bool jstr

record key_env =
  fetch :: "jstr \<Rightarrow> reply"
  disk_works :: bool

record key_state =
  key_memory :: "(jstr \<times> bytes) list"
  key_disk :: disk

definition fetch_key :: "key_env \<Rightarrow> jstr \<Rightarrow> jstr \<Rightarrow> key_error + bytes" where
  "fetch_key env keyId url =
     try_then (parse_key_id keyId) (\<lambda>bareId.
     case encode_uri bareId of
       None \<Rightarrow> Inl (Key KEY_UNAVAILABLE)
     | Some e \<Rightarrow>
         (case fetch env (url @ lit ''/v1/keys/'' @ e) of
            Fetch_failed \<Rightarrow> Inl (Key KEY_UNAVAILABLE)
          | Reply ok body \<Rightarrow>
              (if \<not> ok then Inl (Key KEY_UNAVAILABLE)
               else (case json_parse body of
                   None \<Rightarrow> Inl (Key KEY_INVALID)
                 | Some j \<Rightarrow>
                     (if \<not> is_object j \<or> get_member j ''keyId'' \<noteq> Some (JStr bareId) then Inl (Key KEY_INVALID)
                      else decode_base64_key (get_member j ''key''))))))"

definition resolve_content_key :: "platform \<Rightarrow> key_state \<Rightarrow> jstr \<Rightarrow> jstr \<Rightarrow> key_error + bytes" where
  "resolve_content_key pf s keyId keyserverUrl =
     try_then (normalize_url pf keyserverUrl) (\<lambda>url.
     try_then (parse_key_id keyId) (\<lambda>_.
     case map_of (key_memory s) (memory_key url keyId) of
       None \<Rightarrow> Inl (Key KEY_UNAVAILABLE)
     | Some key \<Rightarrow> Inr key))"

definition ensure_key_available ::
  "platform \<Rightarrow> key_env \<Rightarrow> key_state \<Rightarrow> jstr \<Rightarrow> jstr \<Rightarrow> (key_error + unit) \<times> key_state" where
  "ensure_key_available pf env s keyId keyserverUrl =
     (case try_then (normalize_url pf keyserverUrl) (\<lambda>url. try_then (parse_key_id keyId) (\<lambda>_. Inr url)) of
        Inl e \<Rightarrow> (Inl e, s)
      | Inr url \<Rightarrow>
          (let memKey = memory_key url keyId in
           if map_of (key_memory s) memKey \<noteq> None then (Inr (), s)
           else
             (let path = cache_file pf url keyId in
              case read_cache (key_disk s) path url keyId True of
                (Some key, d) \<Rightarrow> (Inr (), \<lparr>key_memory = map_set (key_memory s) memKey key, key_disk = d\<rparr>)
              | (None, d) \<Rightarrow>
                  (case fetch_key env keyId url of
                     Inl e \<Rightarrow> (Inl e, s\<lparr>key_disk := d\<rparr>)
                   | Inr key \<Rightarrow>
                       (case write_cache (disk_works env) d path url keyId key of
                          (r, d') \<Rightarrow> (r, \<lparr>key_memory = map_set (key_memory s) memKey key, key_disk = d'\<rparr>))))))"

text \<open>The provider that reads an existing cache only.\<close>

definition resolve_cached :: "platform \<Rightarrow> disk \<Rightarrow> jstr \<Rightarrow> jstr \<Rightarrow> key_error + bytes" where
  "resolve_cached pf d keyId keyserverUrl =
     try_then (normalize_url pf keyserverUrl) (\<lambda>url.
     try_then (parse_key_id keyId) (\<lambda>_.
     case fst (read_cache d (cache_file pf url keyId) url keyId False) of
       None \<Rightarrow> Inl (Key KEY_UNAVAILABLE)
     | Some key \<Rightarrow> Inr key))"

definition ensure_cached :: "platform \<Rightarrow> key_env \<Rightarrow> disk \<Rightarrow> jstr \<Rightarrow> jstr \<Rightarrow> (key_error + unit) \<times> disk" where
  "ensure_cached pf env d keyId keyserverUrl =
     (case resolve_cached pf d keyId keyserverUrl of Inl e \<Rightarrow> (Inl e, d) | Inr key \<Rightarrow> (Inr (), d))"

subsection \<open>The key server\<close>

text \<open>\<open>KEY_PATH_PATTERN\<close>: the one segment after \<open>/v1/keys/\<close>.\<close>

definition key_path_id :: "jstr \<Rightarrow> jstr option" where
  "key_path_id path =
     (let p = lit ''/v1/keys/''; r = drop (length p) path in
      if starts_with p path \<and> r \<noteq> [] \<and> 47 \<notin> set r then Some r else None)"

definition is_valid_id :: "jstr \<Rightarrow> bool" where
  "is_valid_id i \<longleftrightarrow> \<not> (length i = 0 \<or> length i > 128 \<or> has_sub [47] i \<or> has_sub [92] i \<or> has_sub (lit ''..'') i)"

definition json_response :: "json \<Rightarrow> nat \<Rightarrow> nat \<times> jstr" where
  "json_response body status = (status, json_stringify body)"

definition error_body :: "string \<Rightarrow> json" where
  "error_body msg = JObj [(lit ''error'', JStr (lit msg))]"

definition handle_key_request :: "(jstr \<Rightarrow> jstr option) \<Rightarrow> jstr \<Rightarrow> jstr \<Rightarrow> nat \<times> jstr" where
  "handle_key_request keys meth pathname =
     (if meth \<noteq> lit ''GET'' then json_response (error_body ''method not allowed'') 405
      else (case key_path_id pathname of
          None \<Rightarrow> json_response (error_body ''not found'') 404
        | Some rawId \<Rightarrow>
            (case decode_uri rawId of
               None \<Rightarrow> json_response (error_body ''malformed id'') 400
             | Some i \<Rightarrow>
                 (if \<not> is_valid_id i then json_response (error_body ''invalid id'') 400
                  else (case keys i of
                      None \<Rightarrow> json_response (error_body ''not found'') 404
                    | Some key \<Rightarrow>
                        json_response (JObj [(lit ''keyId'', JStr i), (lit ''key'', JStr key)]) 200)))))"

subsection \<open>Prewarming\<close>

text \<open>
  \<open>prewarmSealedKeys\<close> over the community repositories, each with its source name and, if it has a
  sealed bundle, what reading it gives: the message of the error, or the bytes. The calls of
  \<open>ensureKeyAvailable\<close>, which \<open>Promise.all\<close> lets overlap while they wait, run one after another
  here; a failure is recorded and the others go on.
\<close>

datatype prewarm_error = Read_failure jstr | Bundle_error sealed_error | Key_failure key_error

fun prewarm ::
  "('s \<Rightarrow> jstr \<Rightarrow> jstr \<Rightarrow> (key_error + unit) \<times> 's) \<Rightarrow> 's \<Rightarrow> (jstr \<times> (jstr + bytes) option) list \<Rightarrow>
     (jstr \<times> prewarm_error) list \<times> 's" where
  "prewarm ens s [] = ([], s)"
| "prewarm ens s ((source, None) # repos) = prewarm ens s repos"
| "prewarm ens s ((source, Some (Inl m)) # repos) =
     (case prewarm ens s repos of (fs, s') \<Rightarrow> ((source, Read_failure m) # fs, s'))"
| "prewarm ens s ((source, Some (Inr b)) # repos) =
     (case read_sealed_header b of
        Inl e \<Rightarrow> (case prewarm ens s repos of (fs, s') \<Rightarrow> ((source, Bundle_error e) # fs, s'))
      | Inr (h, hb, off) \<Rightarrow>
          (case ens s (h_keyId h) (h_keyserverUrl h) of
             (Inr _, s1) \<Rightarrow> prewarm ens s1 repos
           | (Inl e, s1) \<Rightarrow> (case prewarm ens s1 repos of (fs, s') \<Rightarrow> ((source, Key_failure e) # fs, s'))))"

subsection \<open>The contract of a provider\<close>

locale content_key_provider =
  fixes resolve :: "'s \<Rightarrow> jstr \<Rightarrow> jstr \<Rightarrow> key_error + bytes"
    and ens :: "'env \<Rightarrow> 's \<Rightarrow> jstr \<Rightarrow> jstr \<Rightarrow> (key_error + unit) \<times> 's"
    and inv :: "'s \<Rightarrow> bool"
  assumes ens_inv: "inv s \<Longrightarrow> inv (snd (ens env s k u))"
    and ens_resolves: "inv s \<Longrightarrow> ens env s k u = (Inr x, s') \<Longrightarrow> \<exists>key. resolve s' k u = Inr key"
    and ens_keeps: "inv s \<Longrightarrow> resolve s k u = Inr key \<Longrightarrow> resolve (snd (ens env s k' u')) k u = Inr key"
    and resolve_length: "inv s \<Longrightarrow> resolve s k u = Inr key \<Longrightarrow> length key = 32"
begin

lemma prewarm_inv_keeps:
  "inv s \<Longrightarrow> inv (snd (prewarm (ens env) s repos)) \<and>
     (resolve s k u = Inr key \<longrightarrow> resolve (snd (prewarm (ens env) s repos)) k u = Inr key)"
proof (induction "ens env" s repos rule: prewarm.induct)
  case (4 s source b repos)
  show ?case
  proof (cases "read_sealed_header b")
    case (Inl e)
    then show ?thesis using 4 by (auto split: prod.splits)
  next
    case (Inr x)
    obtain h hb off where x: "x = (h, hb, off)" by (cases x)
    obtain r s1 where r: "ens env s (h_keyId h) (h_keyserverUrl h) = (r, s1)"
      by (cases "ens env s (h_keyId h) (h_keyserverUrl h)")
    have s1: "inv s1" "resolve s k u = Inr key \<Longrightarrow> resolve s1 k u = Inr key"
      using ens_inv [OF 4(4), of env "h_keyId h" "h_keyserverUrl h"]
        ens_keeps [OF 4(4), of k u key env "h_keyId h" "h_keyserverUrl h"] r by auto
    show ?thesis
      using 4(2,3) [OF Inr x [symmetric] refl r [symmetric]] s1 Inr x r by (cases r) (auto split: prod.splits)
  qed
qed (auto split: prod.splits)

lemma prewarm_resolves:
  "inv s \<Longrightarrow> prewarm (ens env) s repos = (fs, s') \<Longrightarrow> (source, Some file) \<in> set repos \<Longrightarrow>
     distinct (map fst repos) \<Longrightarrow> source \<notin> fst ` set fs \<Longrightarrow>
     \<exists>b h hb off key. file = Inr b \<and> read_sealed_header b = Inr (h, hb, off) \<and>
       resolve s' (h_keyId h) (h_keyserverUrl h) = Inr key \<and> length key = 32"
proof (induction "ens env" s repos arbitrary: fs rule: prewarm.induct)
  case (4 s source' b' repos)
  show ?case
  proof (cases "read_sealed_header b'")
    case (Inl e)
    with 4 show ?thesis by (fastforce split: prod.splits)
  next
    case (Inr x)
    obtain h hb off where x: "x = (h, hb, off)" by (cases x)
    obtain r s1 where r: "ens env s (h_keyId h) (h_keyserverUrl h) = (r, s1)"
      by (cases "ens env s (h_keyId h) (h_keyserverUrl h)")
    have inv1: "inv s1" using ens_inv [OF 4(4), of env "h_keyId h" "h_keyserverUrl h"] r by simp
    obtain fs1 where rest: "prewarm (ens env) s1 repos = (fs1, s')" and
        fs: "fs = (case r of Inr _ \<Rightarrow> fs1 | Inl e \<Rightarrow> (source', Key_failure e) # fs1)"
      using 4(5) Inr x r by (auto split: sum.splits prod.splits)
    show ?thesis
    proof (cases "source = source'")
      case True
      with 4(6,7) have b: "file = Inr b'" by force
      obtain y where y: "r = Inr y" using fs True 4(8) by (auto split: sum.splits)
      obtain key where key: "resolve s1 (h_keyId h) (h_keyserverUrl h) = Inr key"
        using ens_resolves [OF 4(4) r [unfolded y]] by auto
      have "resolve s' (h_keyId h) (h_keyserverUrl h) = Inr key" "inv s'"
        using prewarm_inv_keeps [OF inv1, of env repos "h_keyId h" "h_keyserverUrl h" key] rest key by auto
      then show ?thesis using resolve_length b Inr x by blast
    next
      case False
      have "source \<notin> fst ` set fs1" using 4(8) fs by (auto split: sum.splits)
      then show ?thesis
        using 4(2,3) [OF Inr x [symmetric] refl r [symmetric]] rest inv1 4(6,7) False by (cases r) auto
    qed
  qed
qed (fastforce split: prod.splits)+

end

subsection \<open>Decoding keys\<close>

lemma decode_base64_length: "decode_base64_key v = Inr key \<Longrightarrow> length key = 32"
  by (auto simp: decode_base64_key_def Let_def split: option.splits if_splits)

lemma ends_exact:
  assumes "i + n \<le> length s" and "\<forall>c \<in> set (take n (drop i s)). P c"
  shows "i + n \<in> set (ends (rx_exact P n) s i)"
proof -
  have "run_of P s i (i + n)"
    unfolding run_of_def
  proof (intro conjI allI impI)
    fix j assume "i \<le> j \<and> j < i + n"
    then obtain d where d: "j = i + d" "d < n" by (metis add.commute le_Suc_ex nat_add_left_cancel_less)
    then have "s ! j = take n (drop i s) ! d" using assms(1) by simp
    moreover have "d < length (take n (drop i s))" using d assms(1) by simp
    ultimately show "P (s ! j)" using assms(2) nth_mem by metis
  qed (use assms(1) in simp_all)
  then show ?thesis using assms(1) by (subst set_ends_Rep_Ch) auto
qed

lemma Rep_stop: "i \<le> length s \<Longrightarrow> i \<in> set (ends (Rep r 0 hi) s i)"
  by (subst ends_Rep) (auto simp: Let_def)

lemma Rep_step:
  "i \<le> length s \<Longrightarrow> j \<in> set (ends r s i) \<Longrightarrow> j \<noteq> i \<Longrightarrow> k \<in> set (ends (Rep r 0 None) s j) \<Longrightarrow>
     k \<in> set (ends (Rep r 0 None) s i)"
  by (subst ends_Rep) (auto simp: Let_def)

lemma Rep_once:
  "i \<le> length s \<Longrightarrow> j \<in> set (ends r s i) \<Longrightarrow> j \<noteq> i \<Longrightarrow> j \<in> set (ends (Rep r 0 (Some 1)) s i)"
proof (subst ends_Rep)
  assume a: "i \<le> length s" "j \<in> set (ends r s i)" "j \<noteq> i"
  then have "j \<le> length s" using ends_bounds [OF a(1,2)] by simp
  then have "ends (Rep r 0 (Some 0)) s j = [j]" by (subst ends_Rep) auto
  with a show "j \<in> set (if (Some 1 :: nat option) = Some 0 then [i]
      else let more = concat (map (\<lambda>j. if (0::nat) = 0 \<and> j = i then []
             else ends (Rep r (0 - 1) (map_option (\<lambda>h. h - 1) (Some 1))) s j) (ends r s i))
           in if (0::nat) < 0 then more else more @ [i])"
    by auto
qed simp

definition base64_tail :: rx where
  "base64_tail = Rep (Or (Sq (rx_exact is_b64 2) (rx_str (lit ''=='')))
     (Sq (rx_exact is_b64 3) (rx_str (lit ''='')))) 0 (Some 1)"

lemma ends_Sq: "j \<in> set (ends a s i) \<Longrightarrow> k \<in> set (ends b s j) \<Longrightarrow> k \<in> set (ends (Sq a b) s i)"
  by auto

lemma base64_strict_ends:
  "\<forall>n \<in> set ns. n < 256 \<Longrightarrow> s = pre @ b64_enc ns \<Longrightarrow>
     \<exists>k \<in> set (ends (Rep (rx_exact is_b64 4) 0 None) s (length pre)). length s \<in> set (ends base64_tail s k)"
proof (induction ns arbitrary: pre rule: b64_enc.induct)
  case 1
  then show ?case using Rep_stop [of "length s" s] by (auto simp: base64_tail_def)
next
  case (2 a)
  let ?i = "length pre"
  from 2 have b: "a div 4 < 64" "a mod 4 * 16 < 64" by auto
  have x: "?i + 2 \<in> set (ends (rx_exact is_b64 2) s ?i)"
    using b unfolding 2(2) by (intro ends_exact) (auto simp: take_Cons')
  have y: "?i + 4 \<in> set (ends (rx_str (lit ''=='')) s (?i + 2))"
    unfolding 2(2) by (subst ends_rx_str) (simp_all add: take_Cons' lit_def)
  have z: "?i + 4 \<in> set (ends (Or (Sq (rx_exact is_b64 2) (rx_str (lit ''=='')))
      (Sq (rx_exact is_b64 3) (rx_str (lit ''='')))) s ?i)"
    unfolding ends.simps(4) set_append by (rule UnI1) (rule ends_Sq [OF x y])
  have "?i + 4 \<in> set (ends base64_tail s ?i)"
    unfolding base64_tail_def by (rule Rep_once [OF _ z]) (use 2 in simp_all)
  moreover have "length s = ?i + 4" using 2 by simp
  moreover have "?i \<in> set (ends (Rep (rx_exact is_b64 4) 0 None) s ?i)"
    by (rule Rep_stop) (use 2 in simp)
  ultimately show ?case by (metis (no_types))
next
  case (3 a b)
  let ?i = "length pre"
  from 3 have c: "a div 4 < 64" "a mod 4 * 16 + b div 16 < 64" "b mod 16 * 4 < 64" by auto
  have x: "?i + 3 \<in> set (ends (rx_exact is_b64 3) s ?i)"
    using c unfolding 3(2) by (intro ends_exact) (auto simp: take_Cons')
  have y: "?i + 4 \<in> set (ends (rx_str (lit ''='')) s (?i + 3))"
    unfolding 3(2) by (subst ends_rx_str) (simp_all add: take_Cons' lit_def)
  have z: "?i + 4 \<in> set (ends (Or (Sq (rx_exact is_b64 2) (rx_str (lit ''=='')))
      (Sq (rx_exact is_b64 3) (rx_str (lit ''='')))) s ?i)"
    unfolding ends.simps(4) set_append by (rule UnI2) (rule ends_Sq [OF x y])
  have "?i + 4 \<in> set (ends base64_tail s ?i)"
    unfolding base64_tail_def by (rule Rep_once [OF _ z]) (use 3 in simp_all)
  moreover have "length s = ?i + 4" using 3 by simp
  moreover have "?i \<in> set (ends (Rep (rx_exact is_b64 4) 0 None) s ?i)"
    by (rule Rep_stop) (use 3 in simp)
  ultimately show ?case by (metis (no_types))
next
  case (4 a b c bs)
  let ?i = "length pre"
  let ?q = "[b64_char (a div 4), b64_char (a mod 4 * 16 + b div 16), b64_char (b mod 16 * 4 + c div 64), b64_char (c mod 64)]"
  from 4 have d: "a div 4 < 64" "a mod 4 * 16 + b div 16 < 64" "b mod 16 * 4 + c div 64 < 64" "c mod 64 < 64"
    by auto
  have s: "s = (pre @ ?q) @ b64_enc bs" using "4.prems"(2) by simp
  have pos: "length (pre @ ?q) = ?i + 4" by simp
  from 4 obtain k where k: "k \<in> set (ends (Rep (rx_exact is_b64 4) 0 None) s (length (pre @ ?q)))"
      "length s \<in> set (ends base64_tail s k)"
    using "4.IH" [OF _ s] by auto
  have x: "?i + 4 \<in> set (ends (rx_exact is_b64 4) s ?i)"
    using d unfolding s by (intro ends_exact) (auto simp: take_Cons')
  have "k \<in> set (ends (Rep (rx_exact is_b64 4) 0 None) s ?i)"
  proof (rule Rep_step [OF _ x])
    show "?i \<le> length s" unfolding s by simp
    show "k \<in> set (ends (Rep (rx_exact is_b64 4) 0 None) s (?i + 4))" using k(1) by (simp only: pos)
  qed simp
  with k(2) show ?case by blast
qed

lemma base64_strict_encode: "rx_test base64_strict (base64_encode bs)"
proof -
  let ?s = "base64_encode bs"
  obtain k where k: "k \<in> set (ends (Rep (rx_exact is_b64 4) 0 None) ?s 0)" "length ?s \<in> set (ends base64_tail ?s k)"
    using base64_strict_ends [of "map unat bs" ?s "[]"] by (auto simp: base64_encode_def)
  have "length ?s \<in> set (ends base64_strict ?s 0)"
    unfolding base64_strict_def base64_tail_def [symmetric]
  proof (rule ends_Sq)
    show "0 \<in> set (ends Bol ?s 0)" by simp
    have "length ?s \<in> set (ends (Sq base64_tail Eol) ?s k)" by (rule ends_Sq [OF k(2)]) simp
    then show "length ?s \<in> set (ends (Sq (Rep (rx_exact is_b64 4) 0 None) (Sq base64_tail Eol)) ?s 0)"
      by (rule ends_Sq [OF k(1)])
  qed
  then have "ends base64_strict ?s 0 \<noteq> []" by (metis empty_iff empty_set)
  then show ?thesis unfolding rx_test_def search_None by blast
qed

lemma decode_base64_key_encode:
  "length key = 32 \<Longrightarrow> decode_base64_key (Some (JStr (base64_encode key))) = Inr key"
  by (simp add: decode_base64_key_def base64_strict_encode base64_roundtrip)

subsection \<open>The providers keep the contract\<close>

definition keys_inv :: "key_state \<Rightarrow> bool" where
  "keys_inv s \<longleftrightarrow> (\<forall>x key. map_of (key_memory s) x = Some key \<longrightarrow> length key = 32)"

lemma read_cache_length: "read_cache d path url keyId r = (Some key, d') \<Longrightarrow> length key = 32"
  by (auto simp: read_cache_def cached_entry_def split: option.splits sum.splits if_splits
      dest: decode_base64_length)

lemma fetch_key_length: "fetch_key env keyId url = Inr key \<Longrightarrow> length key = 32"
proof -
  assume a: "fetch_key env keyId url = Inr key"
  obtain i where i: "parse_key_id keyId = Inr i" using a by (cases "parse_key_id keyId") (simp_all add: fetch_key_def)
  obtain e where e: "encode_uri i = Some e" using a i by (cases "encode_uri i") (simp_all add: fetch_key_def)
  obtain body where f: "fetch env (url @ lit ''/v1/keys/'' @ e) = Reply True body"
    using a i e by (cases "fetch env (url @ lit ''/v1/keys/'' @ e)") (auto simp: fetch_key_def split: if_splits)
  obtain j where "json_parse body = Some j" using a i e f by (cases "json_parse body") (simp_all add: fetch_key_def)
  with a i e f have "decode_base64_key (get_member j ''key'') = Inr key"
    by (simp add: fetch_key_def split: if_splits)
  then show ?thesis by (rule decode_base64_length)
qed

lemma resolve_Inr:
  "resolve_content_key pf s k u = Inr key \<longleftrightarrow>
     (\<exists>url i. normalize_url pf u = Inr url \<and> parse_key_id k = Inr i \<and>
       map_of (key_memory s) (memory_key url k) = Some key)"
  by (auto simp: resolve_content_key_def res split: option.splits)

text \<open>What a call of \<open>ensureKeyAvailable\<close> does to the memory: nothing, or one new key.\<close>

lemma ensure_memory:
  assumes "ensure_key_available pf env s k u = (r, s')"
  shows "key_memory s' = key_memory s \<and>
      (\<forall>x. r = Inr x \<longrightarrow> (\<exists>key. resolve_content_key pf s k u = Inr key)) \<or>
    (\<exists>url i key. normalize_url pf u = Inr url \<and> parse_key_id k = Inr i \<and>
      map_of (key_memory s) (memory_key url k) = None \<and>
      key_memory s' = map_set (key_memory s) (memory_key url k) key \<and> length key = 32)"
proof (cases "try_then (normalize_url pf u) (\<lambda>url. try_then (parse_key_id k) (\<lambda>_. Inr url))")
  case (Inl e)
  with assms have "r = Inl e" "s' = s" by (simp_all add: ensure_key_available_def)
  then show ?thesis by simp
next
  case (Inr url)
  then obtain i where i: "normalize_url pf u = Inr url" "parse_key_id k = Inr i" by (auto simp: res)
  show ?thesis
  proof (cases "map_of (key_memory s) (memory_key url k)")
    case (Some key)
    with assms Inr i show ?thesis by (auto simp: ensure_key_available_def Let_def resolve_Inr)
  next
    case None
    obtain c d where c: "read_cache (key_disk s) (cache_file pf url k) url k True = (c, d)"
      by (cases "read_cache (key_disk s) (cache_file pf url k) url k True")
    show ?thesis
    proof (cases c)
      case (Some key)
      with assms Inr None c i read_cache_length [of "key_disk s" _ url k True key d] show ?thesis
        by (auto simp: ensure_key_available_def Let_def)
    next
      case nocache: None
      show ?thesis
      proof (cases "fetch_key env k url")
        case (Inl e)
        with assms Inr None c nocache \<open>try_then _ _ = Inr url\<close> show ?thesis
          by (auto simp: ensure_key_available_def Let_def)
      next
        case (Inr key)
        with assms None c nocache \<open>try_then _ _ = Inr url\<close> i fetch_key_length [OF Inr] show ?thesis
          by (auto simp: ensure_key_available_def Let_def split: prod.splits)
      qed
    qed
  qed
qed

interpretation keyserver: content_key_provider "resolve_content_key pf" "ensure_key_available pf" keys_inv for pf
proof
  fix s env k u
  assume inv: "keys_inv s"
  obtain r s' where e: "ensure_key_available pf env s k u = (r, s')"
    by (cases "ensure_key_available pf env s k u")
  from ensure_memory [OF e] inv show "keys_inv (snd (ensure_key_available pf env s k u))"
    by (auto simp: e keys_inv_def split: if_splits)
next
  fix s env k u x s'
  assume "ensure_key_available pf env s k u = (Inr x, s')"
  from ensure_memory [OF this] show "\<exists>key. resolve_content_key pf s' k u = Inr key"
    by (auto simp: resolve_Inr)
next
  fix s k u key env k' u'
  assume key: "resolve_content_key pf s k u = Inr key"
  obtain r s' where e: "ensure_key_available pf env s k' u' = (r, s')"
    by (cases "ensure_key_available pf env s k' u'")
  from ensure_memory [OF e] key show "resolve_content_key pf (snd (ensure_key_available pf env s k' u')) k u = Inr key"
    by (auto simp: e resolve_Inr)
next
  fix s k u key
  assume "keys_inv s" "resolve_content_key pf s k u = Inr key"
  then show "length key = 32" by (auto simp: resolve_Inr keys_inv_def)
qed

interpretation cached: content_key_provider "resolve_cached pf" "ensure_cached pf" "\<lambda>_. True" for pf
proof
  fix s k u key
  assume "resolve_cached pf s k u = Inr key"
  then obtain p url i d where "read_cache s p url i False = (Some key, d)"
    by (auto simp: resolve_cached_def res split: option.splits) (metis prod.collapse)
  then show "length key = 32" by (rule read_cache_length)
qed (auto simp: ensure_cached_def split: sum.splits)

subsection \<open>A concrete platform\<close>

definition toy_platform :: platform where
  "toy_platform = \<lparr>url_parse = \<lambda>s. Some (simple_url ''https:'' ''u'' ''/''), sha256_hex = \<lambda>s. lit ''00''\<rparr>"

definition toy_keys :: "jstr \<Rightarrow> jstr option" where
  "toy_keys = [lit ''k'' \<mapsto> base64_encode (zeros 32)]"

definition toy_env :: key_env where
  "toy_env = \<lparr>fetch = \<lambda>url. (case handle_key_request toy_keys (lit ''GET'') (drop (length (lit ''https://u'')) url) of
     (status, body) \<Rightarrow> Reply (200 \<le> status \<and> status < 300) body), disk_works = True\<rparr>"

lemma toy_url: "normalize_url toy_platform u = Inr (lit ''https://u'')"
  by (simp add: normalize_url_def toy_platform_def simple_url_def u_authority_def url_string_def strip_slashes_def strip_slash_def
      ends_with_def lit_def)

lemma toy_id: "parse_key_id (lit ''keyserver:k'') = Inr (lit ''k'')"
  by (simp add: parse_key_id_def key_id_prefix_def starts_with_def has_bad_id_def has_sub_iff lit_def
      sublist_Cons_right)

lemma toy_encode: "encode_uri (lit ''k'') = Some (lit ''k'')"
  by (simp add: encode_uri_def encode_cp_def uri_unreserved_def lit_def is_high_def is_low_def)

subsection \<open>Properties\<close>

text \<open>
  C4: After prewarming, whatever the network and the disk did, every community repository with a
  sealed bundle that is not reported as a failure could be read and has a readable header, and the key its header
  names resolves to 32 bytes, which is what scanning the source asks for synchronously.
\<close>

theorem prewarmed_keys_resolve:
  assumes "keys_inv s" and "prewarm (ensure_key_available pf env) s repos = (failures, s')"
    and "(source, Some file) \<in> set repos" and "distinct (map fst repos)" and "source \<notin> fst ` set failures"
  shows "\<exists>b h hb off key. file = Inr b \<and> read_sealed_header b = Inr (h, hb, off) \<and>
    resolve_content_key pf s' (h_keyId h) (h_keyserverUrl h) = Inr key \<and> length key = 32"
  using assms by (rule keyserver.prewarm_resolves)

definition warm_state :: key_state where
  "warm_state = \<lparr>key_memory = [(memory_key (lit ''https://u'') (lit ''keyserver:k''), zeros 32)], key_disk = []\<rparr>"

theorem prewarmed_keys_resolve_witness:
  "\<exists>b h key. resolve_content_key toy_platform warm_state (h_keyId h) (h_keyserverUrl h) = Inr key \<and>
     length key = 32 \<and> unseal_bundle toy_crypto b (zeros 32) = Inr (h, [note_file])"
proof -
  obtain b where b: "seal_bundle toy_crypto [note_file] (zeros 32) (lit ''keyserver:k'') (lit ''u'') = Inr b"
    using note_sealed by blast
  have u: "units (lit ''keyserver:k'')" "units (lit ''u'')" "\<forall>f \<in> set [note_file]. units (b_relPath f)"
    by (simp_all add: text_ok_units text_ok_lit note_file_def)
  obtain h where h: "unseal_bundle toy_crypto b (zeros 32) = Inr (h, [note_file])"
      "h_keyId h = lit ''keyserver:k''" "h_keyserverUrl h = lit ''u''"
    using unseal_sealed [OF toy_crypto_ok u(3) u(1,2) _ b] by auto
  then obtain hb off where r: "read_sealed_header b = Inr (h, hb, off)"
    by (auto simp: unseal_bundle_def res Let_def split: option.splits if_splits)
  have "keys_inv warm_state" by (simp add: keys_inv_def warm_state_def)
  moreover have "prewarm (ensure_key_available toy_platform toy_env) warm_state [(lit ''community/x'', Some (Inr b))] = ([], warm_state)"
    using r h toy_url toy_id by (simp add: ensure_key_available_def warm_state_def)
  ultimately have "\<exists>b' h hb off key. Inr b = (Inr b' :: jstr + bytes) \<and> read_sealed_header b' = Inr (h, hb, off) \<and>
      resolve_content_key toy_platform warm_state (h_keyId h) (h_keyserverUrl h) = Inr key \<and> length key = 32"
    by (rule prewarmed_keys_resolve) simp_all
  with r h show ?thesis by fastforce
qed

lemma cached_entry_text:
  assumes "units url" and "units k" and "length key = 32"
  shows "cached_entry url k (utf8_encode (cache_text url k key)) = Inr key"
proof -
  let ?j = "JObj [(lit ''keyserverUrl'', JStr url), (lit ''keyId'', JStr k), (lit ''key'', JStr (base64_encode key))]"
  have wf: "wf_json ?j" using assms by (simp add: text_ok_units text_ok_lit)
  have "text_ok (json_pretty ?j @ [10])"
    by (intro text_ok_append text_ok_pretty wf text_ok_ascii) simp
  then have "utf8_decode (utf8_encode (cache_text url k key)) = json_pretty ?j @ [10]"
    by (simp add: cache_text_def text_ok_roundtrip)
  moreover have "json_parse (json_pretty ?j @ [10]) = Some ?j"
    by (rule json_pretty_roundtrip [OF wf]) (simp add: blank_def is_ws_def)
  ultimately show ?thesis
    using decode_base64_key_encode [OF assms(3)] by (simp add: cached_entry_def obj_get_def)
qed

text \<open>
  A key obtained once is available offline: when \<open>ensureKeyAvailable\<close> succeeds, the provider
  that only reads the cache resolves the same key from the disk that is left, in another process.
\<close>

theorem ensured_key_is_cached:
  assumes "ensure_key_available pf env s k u = (Inr x, s')"
    and "normalize_url pf u = Inr url" and "units url" and "units k"
    and "map_of (key_memory s) (memory_key url k) = None"
  shows "\<exists>key. resolve_content_key pf s' k u = Inr key \<and> resolve_cached pf (key_disk s') k u = Inr key"
proof -
  let ?p = "cache_file pf url k"
  obtain i where i: "parse_key_id k = Inr i"
    using assms(1,2) by (cases "parse_key_id k") (auto simp: ensure_key_available_def)
  obtain c d where c: "read_cache (key_disk s) ?p url k True = (c, d)"
    by (cases "read_cache (key_disk s) ?p url k True")
  show ?thesis
  proof (cases c)
    case (Some key)
    then have s': "s' = \<lparr>key_memory = map_set (key_memory s) (memory_key url k) key, key_disk = d\<rparr>"
      using assms i c by (auto simp: ensure_key_available_def Let_def)
    from c Some have "d = key_disk s" "fst (read_cache d ?p url k False) = Some key"
      by (auto simp: read_cache_def split: option.splits sum.splits)
    then show ?thesis using assms(2) i by (auto simp: s' resolve_Inr resolve_cached_def)
  next
    case None
    then obtain key where key: "fetch_key env k url = Inr key"
      using assms i c by (cases "fetch_key env k url") (auto simp: ensure_key_available_def Let_def)
    then have s': "s' = \<lparr>key_memory = map_set (key_memory s) (memory_key url k) key,
        key_disk = map_set d ?p (utf8_encode (cache_text url k key))\<rparr>"
      using assms i c None by (auto simp: ensure_key_available_def Let_def write_cache_def split: if_splits)
    have "fst (read_cache (key_disk s') ?p url k False) = Some key"
      using cached_entry_text [OF assms(3,4) fetch_key_length [OF key]] by (simp add: s' read_cache_def)
    then show ?thesis using assms(2) i by (auto simp: s' resolve_Inr resolve_cached_def)
  qed
qed

theorem ensured_key_is_cached_witness:
  "\<exists>s' key. ensure_key_available toy_platform \<lparr>fetch = \<lambda>_. Fetch_failed, disk_works = False\<rparr>
       \<lparr>key_memory = [], key_disk = [(lit ''00.json'', utf8_encode (cache_text (lit ''https://u'') (lit ''keyserver:k'') (zeros 32)))]\<rparr>
       (lit ''keyserver:k'') (lit ''v'') = (Inr (), s') \<and>
     resolve_cached toy_platform (key_disk s') (lit ''keyserver:k'') (lit ''v'') = Inr key"
proof -
  let ?d = "[(lit ''00.json'', utf8_encode (cache_text (lit ''https://u'') (lit ''keyserver:k'') (zeros 32)))]"
  let ?s = "\<lparr>key_memory = [], key_disk = ?d\<rparr>"
  let ?e = "\<lparr>fetch = \<lambda>_. Fetch_failed, disk_works = False\<rparr>"
  have u: "units (lit ''https://u'')" "units (lit ''keyserver:k'')" by (simp_all add: text_ok_units text_ok_lit)
  have "cache_file toy_platform (lit ''https://u'') (lit ''keyserver:k'') = lit ''00.json''"
    by (simp add: cache_file_def toy_platform_def slice_def lit_def)
  then have "read_cache ?d (cache_file toy_platform (lit ''https://u'') (lit ''keyserver:k'')) (lit ''https://u'')
      (lit ''keyserver:k'') True = (Some (zeros 32), ?d)"
    using cached_entry_text [OF u, of "zeros 32"] by (simp add: read_cache_def)
  then obtain s' where e: "ensure_key_available toy_platform ?e ?s (lit ''keyserver:k'') (lit ''v'') = (Inr (), s')"
    using toy_url toy_id by (simp add: ensure_key_available_def Let_def)
  from ensured_key_is_cached [OF e toy_url u] e show ?thesis by auto
qed

lemma parse_key_id_Inr:
  "parse_key_id k = Inr i \<Longrightarrow> k = key_id_prefix @ i \<and> i \<noteq> [] \<and> \<not> has_bad_id i"
proof -
  assume a: "parse_key_id k = Inr i"
  then have "take (length key_id_prefix) k = key_id_prefix" "length k \<noteq> length key_id_prefix"
      "i = drop (length key_id_prefix) k" "\<not> has_bad_id i"
    by (auto simp: parse_key_id_def Let_def starts_with_def split: if_splits)
  then show ?thesis by (metis append_self_conv append_take_drop_id)
qed

text \<open>
  Client and key server fit: if the request the client makes for a key id reaches the worker,
  and the worker's store has the base64 of a 32-byte key under the bare id, the client accepts the
  response and gets that key. The id is any well-formed string of at most 128 code units that the
  client lets through; it is escaped on the way and compared after unescaping.
\<close>

theorem worker_serves_client:
  assumes "parse_key_id k = Inr i" and "text_ok i" and "length i \<le> 128" and "encode_uri i = Some e"
    and "keys i = Some (base64_encode key)" and "length key = 32"
    and "fetch env (url @ lit ''/v1/keys/'' @ e) =
      (case handle_key_request keys (lit ''GET'') (lit ''/v1/keys/'' @ e) of
         (status, body) \<Rightarrow> Reply (200 \<le> status \<and> status < 300) body)"
  shows "fetch_key env k url = Inr key"
proof -
  from parse_key_id_Inr [OF assms(1)] have i: "i \<noteq> []" "\<not> has_bad_id i" by auto
  have e: "47 \<notin> set e" "e \<noteq> []" using encode_uri_segment [OF assms(4)] i(1) by auto
  have path: "key_path_id (lit ''/v1/keys/'' @ e) = Some e"
    using e by (simp add: key_path_id_def starts_with_def Let_def)
  have dec: "decode_uri e = Some i" using uri_roundtrip [OF assms(2)] assms(4) by auto
  have valid: "is_valid_id i" using i assms(3) by (simp add: is_valid_id_def has_bad_id_def)
  let ?j = "JObj [(lit ''keyId'', JStr i), (lit ''key'', JStr (base64_encode key))]"
  have "wf_json ?j" using assms(2) by (simp add: text_ok_units text_ok_lit)
  then have "json_parse (json_stringify ?j) = Some ?j"
    using json_roundtrip [of ?j "[]"] by (simp add: blank_def)
  then show ?thesis
    using assms(1,4-7) path dec valid decode_base64_key_encode [OF assms(6)]
    by (simp add: fetch_key_def handle_key_request_def json_response_def obj_get_def)
qed

theorem worker_serves_client_witness:
  "fetch_key toy_env (lit ''keyserver:k'') (lit ''https://u'') = Inr (zeros 32)"
  by (rule worker_serves_client [OF toy_id _ _ toy_encode, of toy_keys])
    (simp_all add: text_ok_lit toy_keys_def toy_env_def)

end
