(* ===== verification/Reindex.thy ===== *)
theory Reindex
  imports EntryIndex SealedKeys
begin

text \<open>
  Rebuilding the index from everything on disk: \<open>reindexAllSources\<close>, \<open>computeEntriesDigest\<close> and
  the digest marker of \<open>packages/core/src/autoReindex.ts\<close>, and \<open>scanSealedSource\<close> of
  \<open>sealedIndex.ts\<close>. Each source is scanned in a savepoint: a scan that throws leaves the database
  as it was. What the directories hold is a \<open>home\<close>.
\<close>

record community_repo =
  cr_name :: jstr
  cr_bundle :: "bytes option"
  cr_bundle_mtime :: jstr
  cr_bundle_mtime_ms :: jstr
  cr_entries :: "md_file list option"

record home =
  h_entries :: "md_file list option"
  h_community :: "community_repo list option"

definition community_source :: "community_repo \<Rightarrow> jstr" where
  "community_source repo = lit ''community/'' @ cr_name repo"

definition own_source :: jstr where
  "own_source = lit ''own''"

subsection \<open>The digest\<close>

definition digest_line :: "jstr \<Rightarrow> jstr \<Rightarrow> jstr \<Rightarrow> nat \<Rightarrow> jstr" where
  "digest_line source name mtime_ms bytes = source @ [9] @ name @ [9] @ mtime_ms @ [9] @ nat_str bytes"

definition file_lines :: "jstr \<Rightarrow> md_file list \<Rightarrow> jstr list" where
  "file_lines source files = map (\<lambda>f. digest_line source (mf_path f) (mf_mtime_ms f) (mf_size f)) files"

definition repo_lines :: "community_repo \<Rightarrow> jstr list" where
  "repo_lines repo =
     (case cr_bundle repo of
        Some bytes \<Rightarrow> [digest_line (community_source repo) (lit ''bundle'') (cr_bundle_mtime_ms repo) (length bytes)]
      | None \<Rightarrow> (case cr_entries repo of None \<Rightarrow> [] | Some files \<Rightarrow> file_lines (community_source repo) files))"

definition digest_lines :: "home \<Rightarrow> jstr list" where
  "digest_lines h =
     (case h_entries h of None \<Rightarrow> [] | Some files \<Rightarrow> file_lines own_source files) @
     (case h_community h of None \<Rightarrow> [] | Some repos \<Rightarrow> concat (map repo_lines repos))"

record entries_digest =
  ed_digest :: jstr
  ed_fileCount :: nat

definition compute_entries_digest :: "platform \<Rightarrow> home \<Rightarrow> entries_digest" where
  "compute_entries_digest pf h =
     \<lparr>ed_digest = sha256_hex pf (join [10] (sort (digest_lines h))), ed_fileCount = length (digest_lines h)\<rparr>"

definition marker_text :: "entries_digest \<Rightarrow> jstr \<Rightarrow> jstr" where
  "marker_text d at = json_stringify (JObj [(lit ''digest'', JStr (ed_digest d)), (lit ''fileCount'', jint (int (ed_fileCount d))),
     (lit ''generatedAt'', JStr at)])"

text \<open>\<open>readDigestMarker\<close> on the file's text, None when it is missing: the three fields, or null.\<close>

fun is_number :: "json option \<Rightarrow> bool" where
  "is_number (Some (JNum _)) = True"
| "is_number _ = False"

definition read_digest_marker :: "jstr option \<Rightarrow> json option" where
  "read_digest_marker file =
     (case file of
        None \<Rightarrow> None
      | Some t \<Rightarrow>
          (case json_parse t of
             None \<Rightarrow> None
           | Some v \<Rightarrow>
               (if is_object v \<and> as_str (get_member v ''digest'') \<noteq> None \<and> is_number (get_member v ''fileCount'') \<and>
                   as_str (get_member v ''generatedAt'') \<noteq> None then Some v else None)))"

subsection \<open>A sealed source\<close>

definition sealed_md_file :: "(bytes \<Rightarrow> jstr) \<Rightarrow> jstr \<Rightarrow> bundle_file \<Rightarrow> md_file" where
  "sealed_md_file sha mtime f = \<lparr>mf_path = b_relPath f, mf_mtime = mtime, mf_mtime_ms = [], mf_size = length (b_content f),
     mf_text = utf8_decode (b_content f), mf_file_sha = sha (b_content f), mf_text_sha = sha (b_content f)\<rparr>"

datatype scan_error = Entry entry_error | Sealed_failure sealed_error | Key_failed key_error

definition scan_sealed_source ::
  "entry_codec \<Rightarrow> sql_binding \<Rightarrow> crypto \<Rightarrow> (jstr \<Rightarrow> jstr \<Rightarrow> key_error + bytes) \<Rightarrow> (bytes \<Rightarrow> jstr) \<Rightarrow> jstr \<Rightarrow> jstr \<Rightarrow> jstr \<Rightarrow>
     bytes \<Rightarrow> entry_db \<Rightarrow> scan_error + entry_db \<times> scan_result" where
  "scan_sealed_source co b cr resolve sha now source mtime bundle db =
     (case read_sealed_header bundle of
        Inl e \<Rightarrow> Inl (Sealed_failure e)
      | Inr (header, _) \<Rightarrow>
          (case resolve (h_keyId header) (h_keyserverUrl header) of
             Inl e \<Rightarrow> Inl (Key_failed e)
           | Inr key \<Rightarrow>
               (case unseal_bundle cr bundle key of
                  Inl e \<Rightarrow> Inl (Sealed_failure e)
                | Inr (_, files) \<Rightarrow>
                    (case scan_source co b True now source
                        (map (sealed_md_file sha mtime) (filter (\<lambda>f. ends_with (lit ''.md'') (b_relPath f)) files)) db of
                       Inl e \<Rightarrow> Inl (Entry e)
                     | Inr r \<Rightarrow> Inr r))))"

subsection \<open>All sources\<close>

record reindex_env =
  re_codec :: entry_codec
  re_binding :: sql_binding
  re_crypto :: crypto
  re_keys :: "(jstr \<Rightarrow> jstr \<Rightarrow> key_error + bytes) option"
  re_sha :: "bytes \<Rightarrow> jstr"
  re_force :: bool
  re_now :: jstr

record reindex_state =
  rx_db :: entry_db
  rx_per_source :: "(jstr \<times> scan_result) list"
  rx_warned :: "jstr list"

text \<open>\<open>withSourceSavepoint\<close> and the catch around it: a throwing scan leaves the database and warns.\<close>

definition savepoint :: "jstr \<Rightarrow> scan_error + entry_db \<times> scan_result \<Rightarrow> reindex_state \<Rightarrow> reindex_state" where
  "savepoint source outcome st =
     (case outcome of
        Inl e \<Rightarrow> st\<lparr>rx_warned := rx_warned st @ [source]\<rparr>
      | Inr (db, result) \<Rightarrow> st\<lparr>rx_db := db, rx_per_source := map_set (rx_per_source st) source result\<rparr>)"

definition plain_scan :: "reindex_env \<Rightarrow> jstr \<Rightarrow> md_file list \<Rightarrow> entry_db \<Rightarrow> scan_error + entry_db \<times> scan_result" where
  "plain_scan env source files db =
     (case scan_source (re_codec env) (re_binding env) (re_force env) (re_now env) source files db of
        Inl e \<Rightarrow> Inl (Entry e) | Inr r \<Rightarrow> Inr r)"

definition reindex_own :: "reindex_env \<Rightarrow> home \<Rightarrow> reindex_state \<Rightarrow> reindex_state" where
  "reindex_own env h st =
     (case h_entries h of
        None \<Rightarrow> st\<lparr>rx_warned := rx_warned st @ [own_source]\<rparr>
      | Some files \<Rightarrow> savepoint own_source (plain_scan env own_source files (rx_db st)) st)"

definition reindex_repo :: "reindex_env \<Rightarrow> community_repo \<Rightarrow> reindex_state \<Rightarrow> reindex_state" where
  "reindex_repo env repo st =
     (let source = community_source repo in
      case cr_bundle repo of
        Some bundle \<Rightarrow>
          (case re_keys env of
             None \<Rightarrow> st\<lparr>rx_warned := rx_warned st @ [source]\<rparr>
           | Some resolve \<Rightarrow>
               savepoint source (scan_sealed_source (re_codec env) (re_binding env) (re_crypto env) resolve (re_sha env)
                 (re_now env) source (cr_bundle_mtime repo) bundle (rx_db st)) st)
      | None \<Rightarrow>
          (case cr_entries repo of
             None \<Rightarrow> st
           | Some files \<Rightarrow> savepoint source (plain_scan env source files (rx_db st)) st))"

text \<open>SQLite's \<open>LIKE 'community/%'\<close> ignores the case of ASCII letters.\<close>

definition like_community :: "jstr \<Rightarrow> bool" where
  "like_community source \<longleftrightarrow> starts_with (lit ''community/'') (ascii_lower source)"

definition repos_of :: "home \<Rightarrow> community_repo list" where
  "repos_of h = (case h_community h of None \<Rightarrow> [] | Some repos \<Rightarrow> repos)"

definition present_sources :: "home \<Rightarrow> jstr list" where
  "present_sources h = map community_source (repos_of h)"

definition drop_absent :: "home \<Rightarrow> entry_db \<Rightarrow> entry_db" where
  "drop_absent h db = db\<lparr>rows := filter (\<lambda>r. \<not> (like_community (r_source r) \<and> r_source r \<notin> set (present_sources h))) (rows db)\<rparr>"

definition reindex_all :: "reindex_env \<Rightarrow> home \<Rightarrow> entry_db \<Rightarrow> reindex_state" where
  "reindex_all env h db =
     (let st = reindex_own env h \<lparr>rx_db = db, rx_per_source = [], rx_warned = []\<rparr>;
          st = fold (reindex_repo env) (repos_of h) st
      in st\<lparr>rx_db := drop_absent h (rx_db st)\<rparr>)"

text \<open>The diagnostics file: what the scanned sources report, and what is kept for the others.\<close>

definition merge_diagnostics :: "home \<Rightarrow> (jstr \<times> scan_result) list \<Rightarrow> read_diagnostic list \<Rightarrow> read_diagnostic list" where
  "merge_diagnostics h perSource previous =
     filter (\<lambda>d. rd_source d \<notin> fst ` set perSource \<and> (rd_source d = own_source \<or> rd_source d \<in> set (present_sources h))) previous @
     concat (map (\<lambda>(_, r). sr_diagnostics r) perSource)"

subsection \<open>What a rebuild preserves\<close>

definition rows_of :: "jstr \<Rightarrow> entry_db \<Rightarrow> row list" where
  "rows_of source db = filter (\<lambda>r. r_source r = source) (rows db)"

text \<open>A step for one source keeps the table well formed, and other sources' rows.\<close>

definition source_step :: "jstr \<Rightarrow> reindex_state \<Rightarrow> reindex_state \<Rightarrow> bool" where
  "source_step source st st' \<longleftrightarrow> (wf_db (rx_db st) \<longrightarrow> wf_db (rx_db st')) \<and>
     fst ` set (rx_per_source st) \<subseteq> fst ` set (rx_per_source st') \<and>
     (\<forall>s. wf_db (rx_db st) \<longrightarrow> (s \<noteq> source \<or> s \<notin> fst ` set (rx_per_source st')) \<longrightarrow> rows_of s (rx_db st') = rows_of s (rx_db st))"

lemma rows_of_other:
  assumes "filter (\<lambda>r. r_source r \<noteq> source) (rows db') = filter (\<lambda>r. r_source r \<noteq> source) (rows db)" and "s \<noteq> source"
  shows "rows_of s db' = rows_of s db"
proof -
  have "rows_of s d = filter (\<lambda>r. r_source r = s) (filter (\<lambda>r. r_source r \<noteq> source) (rows d))" for d
    unfolding rows_of_def filter_filter by (rule filter_cong) (use assms(2) in auto)
  with assms(1) show ?thesis by metis
qed

lemma savepoint_step:
  assumes "\<And>db' r. outcome = Inr (db', r) \<Longrightarrow> wf_db (rx_db st) \<Longrightarrow> wf_db db' \<and>
      filter (\<lambda>r. r_source r \<noteq> source) (rows db') = filter (\<lambda>r. r_source r \<noteq> source) (rows (rx_db st))"
  shows "source_step source st (savepoint source outcome st)"
proof (cases outcome)
  case (Inr p)
  obtain db' r where p: "p = (db', r)" by fastforce
  show ?thesis
    using assms [of db' r] rows_of_other [of source db' "rx_db st"]
    by (auto simp: source_step_def savepoint_def Inr p)
qed (simp add: source_step_def savepoint_def)

lemma plain_scan_step: "source_step source st (savepoint source (plain_scan env source files (rx_db st)) st)"
  by (rule savepoint_step) (auto simp: plain_scan_def dest!: scan_effect split: sum.splits)

lemma source_step_skip: "source_step source st (st\<lparr>rx_warned := w\<rparr>)" "source_step source st st"
  by (auto simp: source_step_def)

lemma reindex_own_step: "source_step own_source st (reindex_own env h st)"
  by (auto simp: reindex_own_def source_step_skip plain_scan_step split: option.splits)

lemma reindex_repo_step: "source_step (community_source repo) st (reindex_repo env repo st)"
proof -
  have "source_step source st (savepoint source (scan_sealed_source co b cr resolve sha now source mtime bytes (rx_db st)) st)"
    for source co b cr resolve sha now mtime bytes
    by (rule savepoint_step)
      (auto simp: scan_sealed_source_def dest!: scan_effect split: sum.splits prod.splits)
  then show ?thesis
    by (auto simp: reindex_repo_def Let_def source_step_skip plain_scan_step split: option.splits)
qed

definition sources_step :: "jstr set \<Rightarrow> reindex_state \<Rightarrow> reindex_state \<Rightarrow> bool" where
  "sources_step S st st' \<longleftrightarrow> (wf_db (rx_db st) \<longrightarrow> wf_db (rx_db st')) \<and>
     fst ` set (rx_per_source st) \<subseteq> fst ` set (rx_per_source st') \<and>
     (\<forall>s. wf_db (rx_db st) \<longrightarrow> (s \<notin> S \<or> s \<notin> fst ` set (rx_per_source st')) \<longrightarrow> rows_of s (rx_db st') = rows_of s (rx_db st))"

lemma sources_step_one: "source_step source st st' \<Longrightarrow> sources_step {source} st st'"
  by (simp add: source_step_def sources_step_def)

lemma sources_step_trans:
  assumes "sources_step S st st'" and "sources_step T st' st''"
  shows "sources_step (S \<union> T) st st''"
  unfolding sources_step_def
proof (intro conjI allI impI)
  show "fst ` set (rx_per_source st) \<subseteq> fst ` set (rx_per_source st'')"
    using assms by (meson order_trans sources_step_def)
  show "wf_db (rx_db st'')" if "wf_db (rx_db st)" using assms that by (simp add: sources_step_def)
  show "rows_of s (rx_db st'') = rows_of s (rx_db st)"
    if wf: "wf_db (rx_db st)" and s: "s \<notin> S \<union> T \<or> s \<notin> fst ` set (rx_per_source st'')" for s
  proof -
    have "s \<notin> S \<or> s \<notin> fst ` set (rx_per_source st')" "s \<notin> T \<or> s \<notin> fst ` set (rx_per_source st'')"
      using s assms(2) by (auto simp: sources_step_def)
    with assms wf show ?thesis by (simp add: sources_step_def)
  qed
qed

lemma reindex_repos_step: "sources_step (set (map community_source repos)) st (fold (reindex_repo env) repos st)"
proof (induction repos arbitrary: st)
  case (Cons repo repos)
  from sources_step_trans [OF sources_step_one [OF reindex_repo_step [of repo st env]] Cons.IH]
  show ?case by simp
qed (simp add: sources_step_def)

lemma rows_of_drop_absent:
  "s \<in> set (present_sources h) \<or> \<not> like_community s \<Longrightarrow> rows_of s (drop_absent h db) = rows_of s db"
  unfolding rows_of_def drop_absent_def by (simp, rule filter_cong) auto

lemma own_not_community: "\<not> like_community own_source" "community_source repo \<noteq> own_source"
proof -
  have own: "own_source = [111, 119, 110]" by (simp add: own_source_def lit_def)
  have com: "lit ''community/'' = 99 # lit ''ommunity/''" by (simp add: lit_def)
  show "\<not> like_community own_source"
    unfolding like_community_def own com by (simp add: starts_with_def ascii_lower_def)
  show "community_source repo \<noteq> own_source"
    unfolding community_source_def own com by simp
qed

lemma own_not_present: "own_source \<notin> set (present_sources h)"
  using own_not_community(2) by (auto simp: present_sources_def dest: sym)

definition reindex_start :: "entry_db \<Rightarrow> reindex_state" where
  "reindex_start db = \<lparr>rx_db = db, rx_per_source = [], rx_warned = []\<rparr>"

lemma reindex_start_sel [simp]: "rx_db (reindex_start db) = db" "rx_per_source (reindex_start db) = []"
  by (simp_all add: reindex_start_def)

definition reindex_scans :: "reindex_env \<Rightarrow> home \<Rightarrow> entry_db \<Rightarrow> reindex_state" where
  "reindex_scans env h db = fold (reindex_repo env) (repos_of h) (reindex_own env h (reindex_start db))"

lemma reindex_all_scans:
  "rx_db (reindex_all env h db) = drop_absent h (rx_db (reindex_scans env h db))"
  "rx_per_source (reindex_all env h db) = rx_per_source (reindex_scans env h db)"
  by (simp_all add: reindex_all_def reindex_scans_def reindex_start_def Let_def)

lemma reindex_repos_present: "sources_step (set (present_sources h)) st (fold (reindex_repo env) (repos_of h) st)"
  using reindex_repos_step by (simp add: present_sources_def)

lemma reindex_scans_step: "sources_step ({own_source} \<union> set (present_sources h)) (reindex_start db) (reindex_scans env h db)"
  unfolding reindex_scans_def
  by (rule sources_step_trans [OF sources_step_one [OF reindex_own_step] reindex_repos_present])

lemma wf_drop_absent: "wf_db db \<Longrightarrow> wf_db (drop_absent h db)"
  by (auto simp: drop_absent_def wf_db_def intro: distinct_map_filter)

lemma repos_leave_own:
  "own_source \<notin> fst ` set (rx_per_source st) \<Longrightarrow> own_source \<notin> fst ` set (rx_per_source (fold (reindex_repo env) repos st))"
proof (induction repos arbitrary: st)
  case (Cons repo repos)
  have "own_source \<notin> fst ` set (rx_per_source (savepoint (community_source repo) out st))" for out
    using Cons.prems own_not_community(2) [of repo] by (auto simp: savepoint_def split: sum.splits)
  then have "own_source \<notin> fst ` set (rx_per_source (reindex_repo env repo st))"
    using Cons.prems by (simp add: reindex_repo_def Let_def split: option.splits)
  with Cons.IH show ?case by simp
qed simp

text \<open>After a scan of the own source that succeeded, every readable file of it has its row.\<close>

lemma own_files_indexed:
  assumes wf: "wf_db db" and files: "h_entries h = Some files" and own: "own_source \<in> fst ` set (rx_per_source (reindex_scans env h db))"
    and f: "f \<in> set files" "readable (re_codec env) f"
  shows "\<exists>r \<in> set (rows (drop_absent h (rx_db (reindex_scans env h db)))). row_of_file (re_codec env) (re_binding env) own_source f r"
proof (cases "plain_scan env own_source files db")
  case (Inl e)
  then have "own_source \<notin> fst ` set (rx_per_source (reindex_own env h (reindex_start db)))"
    by (simp add: reindex_own_def files savepoint_def)
  with repos_leave_own own show ?thesis by (simp add: reindex_scans_def)
next
  case (Inr p)
  obtain db' r where p: "p = (db', r)" by fastforce
  let ?s1 = "reindex_own env h (reindex_start db)"
  have s1: "rx_db ?s1 = db'" by (simp add: reindex_own_def files savepoint_def Inr p)
  have "scan_source (re_codec env) (re_binding env) (re_force env) (re_now env) own_source files db = Inr (db', r)"
    using Inr p by (simp add: plain_scan_def split: sum.splits)
  from scan_effect [OF this wf] f obtain x where x: "x \<in> set (rows db')" "row_of_file (re_codec env) (re_binding env) own_source f x"
    and wf': "wf_db db'" by blast
  have "rows_of own_source (drop_absent h (rx_db (reindex_scans env h db))) = rows_of own_source db'"
    using reindex_repos_present [of h ?s1 env] own_not_present [of h] wf' rows_of_drop_absent [of own_source h] own_not_community(1)
    by (auto simp: sources_step_def s1 reindex_scans_def)
  moreover have "x \<in> set (rows_of own_source db')" using x by (simp add: rows_of_def row_of_file_def)
  ultimately have "x \<in> set (rows_of own_source (drop_absent h (rx_db (reindex_scans env h db))))" by simp
  then have "x \<in> set (rows (drop_absent h (rx_db (reindex_scans env h db))))" by (simp add: rows_of_def)
  with x(2) show ?thesis by (rule bexI)
qed

text \<open>
  C15: Rebuilding the index never damages what it could not read: the table's keys stay unique; a
  source on disk whose scan threw, or that has no key or no entries, keeps exactly its rows; the
  own source keeps its rows when its directory is missing; no row of a community source that is no
  longer on disk is left; and once the own source was scanned every readable file of it has its row.
\<close>

theorem reindex_preserves_unread_sources:
  assumes wf: "wf_db db"
  shows "wf_db (rx_db (reindex_all env h db)) \<and>
    (\<forall>s. s \<notin> fst ` set (rx_per_source (reindex_all env h db)) \<longrightarrow> s = own_source \<or> s \<in> set (present_sources h) \<longrightarrow>
       rows_of s (rx_db (reindex_all env h db)) = rows_of s db) \<and>
    (\<forall>r \<in> set (rows (rx_db (reindex_all env h db))). like_community (r_source r) \<longrightarrow> r_source r \<in> set (present_sources h)) \<and>
    (\<forall>files f. h_entries h = Some files \<and> own_source \<in> fst ` set (rx_per_source (reindex_all env h db)) \<and>
       f \<in> set files \<and> readable (re_codec env) f \<longrightarrow>
       (\<exists>r \<in> set (rows (rx_db (reindex_all env h db))). row_of_file (re_codec env) (re_binding env) own_source f r))"
  unfolding reindex_all_scans
proof (intro conjI allI impI)
  have wf2: "wf_db (rx_db (reindex_scans env h db))" using reindex_scans_step [of h db env] wf by (simp add: sources_step_def)
  then show "wf_db (drop_absent h (rx_db (reindex_scans env h db)))" by (rule wf_drop_absent)
  show "rows_of s (drop_absent h (rx_db (reindex_scans env h db))) = rows_of s db"
    if "s \<notin> fst ` set (rx_per_source (reindex_scans env h db))" "s = own_source \<or> s \<in> set (present_sources h)" for s
    using that reindex_scans_step [of h db env] wf rows_of_drop_absent [of s h] own_not_community(1)
    by (auto simp: sources_step_def)
  show "\<forall>r \<in> set (rows (drop_absent h (rx_db (reindex_scans env h db)))). like_community (r_source r) \<longrightarrow> r_source r \<in> set (present_sources h)"
    by (auto simp: drop_absent_def)
qed (use own_files_indexed [OF wf] in blast)

definition toy_reindex_env :: reindex_env where
  "toy_reindex_env = \<lparr>re_codec = toy_codec, re_binding = toy_binding,
     re_crypto = toy_crypto,
     re_keys = None, re_sha = (\<lambda>_. []), re_force = False, re_now = lit ''t''\<rparr>"

definition toy_home :: home where
  "toy_home = \<lparr>h_entries = Some [toy_file ''a''], h_community = None\<rparr>"

theorem reindex_preserves_unread_sources_witness:
  "\<exists>r \<in> set (rows (rx_db (reindex_all toy_reindex_env toy_home empty_db))). row_of_file toy_codec toy_binding own_source (toy_file ''a'') r"
proof -
  have "own_source \<in> fst ` set (rx_per_source (reindex_all toy_reindex_env toy_home empty_db))"
    using toy_scan unfolding reindex_all_scans
    by (auto simp: reindex_scans_def repos_of_def toy_home_def reindex_own_def savepoint_def plain_scan_def toy_reindex_env_def
        own_source_def isl_def split: sum.splits)
  moreover have "readable toy_codec (toy_file ''a'')"
    by (simp add: readable_def toy_file_def toy_parse limit_markdown_def)
  ultimately show ?thesis
    using reindex_preserves_unread_sources [OF wf_empty_db, of toy_reindex_env toy_home]
    by (simp add: toy_reindex_env_def toy_home_def)
qed

end
