(* ===== verification/Publish.thy ===== *)
theory Publish
  imports Effects PublishScan SealedKeys EntryText
begin

text \<open>
  Publishing the public entries: \<open>packages/core/src/publish.ts\<close> and \<open>visibility.ts\<close>. The
  entries directory, git, the key provider, the mirror directory, the terminal and the log are
  calls (\<open>pub_call\<close>) with arbitrary answers; which entries are collected, the generated README,
  the diff, the gates and the order of the calls are computed as the code computes them.
\<close>

subsection \<open>Visibility\<close>

datatype visibility = Public | Private | Invalid

definition classify_visibility :: "json option \<Rightarrow> visibility" where
  "classify_visibility value =
     (if value = Some (JStr (lit ''public'')) then Public
      else if value = Some (JStr (lit ''private'')) then Private else Invalid)"

text \<open>\<open>findBlockedFiles\<close> of \<open>visibilityGate.ts\<close>, the gate of a commit.\<close>

definition blocked_file :: "entry_codec \<Rightarrow> jstr \<Rightarrow> bool" where
  "blocked_file co source_text =
     (case parse_markdown co True source_text of
        Inl (Constraint _) \<Rightarrow> True
      | Inl Format_error \<Rightarrow> True
      | Inl (Other_entry_error _) \<Rightarrow> False
      | Inr p \<Rightarrow> get_member (pm_frontmatter p) ''visibility'' = Some (JStr (lit ''private'')))"

definition find_blocked_files :: "entry_codec \<Rightarrow> (jstr \<times> jstr) list \<Rightarrow> jstr list" where
  "find_blocked_files co staged = map fst (filter (\<lambda>(_, c). blocked_file co c) staged)"

subsection \<open>The publish set\<close>

datatype reason = Bad_visibility | Unreadable entry_error

definition visibility_of :: "entry_codec \<Rightarrow> bytes \<Rightarrow> entry_error + visibility" where
  "visibility_of co bytes =
     try_then (parse_markdown co False (utf8_decode bytes)) (\<lambda>p.
     Inr (classify_visibility (get_member (pm_frontmatter p) ''visibility'')))"

definition is_showcase :: "entry_codec \<Rightarrow> bytes \<Rightarrow> bool" where
  "is_showcase co bytes =
     (case parse_markdown co False (utf8_decode bytes) of
        Inl _ \<Rightarrow> False
      | Inr p \<Rightarrow> get_member (pm_frontmatter p) ''showcase'' = Some (JBool True))"

fun collect_publish_set :: "entry_codec \<Rightarrow> (jstr \<times> bytes) list \<Rightarrow> publish_file list \<times> (jstr \<times> reason) list" where
  "collect_publish_set co [] = ([], [])"
| "collect_publish_set co ((path, bytes) # rest) =
     (let (files, invalid) = collect_publish_set co rest in
      case visibility_of co bytes of
        Inl e \<Rightarrow> (files, (path, Unreadable e) # invalid)
      | Inr Public \<Rightarrow> (\<lparr>relPath = path, content = bytes, showcase = is_showcase co bytes\<rparr> # files, invalid)
      | Inr Private \<Rightarrow> (files, invalid)
      | Inr Invalid \<Rightarrow> (files, (path, Bad_visibility) # invalid))"

definition bundle_files :: "publish_file list \<Rightarrow> bundle_file list" where
  "bundle_files = map (\<lambda>f. \<lparr>b_relPath = relPath f, b_content = content f\<rparr>)"

subsection \<open>The generated README\<close>

definition readme_head :: "nat \<Rightarrow> jstr list" where
  "readme_head n =
     [lit ''# Caveat-Public'', [],
      lit ''This repository is generated by `caveat publish`. Do not edit it by hand.'', [],
      lit ''Subscribe with:'', [],
      lit ''```sh'',
      lit ''npm i -g caveat-cli && caveat community add <https URL or username>'',
      lit ''```'', [],
      lit ''## Threat Model'', [],
      lit ''This sealed mirror is designed to block casual browsing, copying, LLM training crawlers, and GitHub-hosted AI training from reading entry text directly.'', [],
      lit ''It is not designed to stop a motivated human from analyzing the published bundle or client code.'', [],
      lit ''Public entries: '' @ nat_str n, [],
      lit ''Caveat: https://github.com/kitepon/Caveat'', []]"

definition showcase_order :: "publish_file list \<Rightarrow> publish_file list" where
  "showcase_order files = sort_key (\<lambda>f. map unat (utf8_encode (relPath f))) (filter showcase files)"

definition showcase_lines :: "entry_codec \<Rightarrow> publish_file \<Rightarrow> entry_error + jstr list" where
  "showcase_lines co f =
     try_then (parse_markdown co False (utf8_decode (content f))) (\<lambda>p.
     Inr [lit ''### '' @ relPath f, [], trim_end (pm_body p), []])"

definition build_sealed_readme :: "entry_codec \<Rightarrow> nat \<Rightarrow> publish_file list \<Rightarrow> entry_error + jstr" where
  "build_sealed_readme co n files =
     (let shown = showcase_order files in
      try_then (try_map (showcase_lines co) shown) (\<lambda>parts.
      Inr (trim_end (join [10] (readme_head n @ (if shown = [] then [] else [lit ''## Showcase'', []] @ concat parts))) @ [10])))"

subsection \<open>What changes\<close>

record publish_changes =
  pc_lines :: "jstr list"
  pc_added :: nat
  pc_modified :: nat
  pc_deleted :: nat

definition hash_map :: "(bytes \<Rightarrow> jstr) \<Rightarrow> (jstr \<times> bytes) list \<Rightarrow> (jstr \<times> jstr) list" where
  "hash_map sha files = fold (\<lambda>(p, c) m. map_set m p (sha c)) files []"

definition diff_path :: "(jstr \<times> jstr) list \<Rightarrow> (jstr \<times> jstr) list \<Rightarrow> jstr \<Rightarrow> publish_changes \<Rightarrow> publish_changes" where
  "diff_path old new path c =
     (case (map_of old path, map_of new path) of
        (None, Some _) \<Rightarrow> c\<lparr>pc_lines := pc_lines c @ [lit ''A '' @ path], pc_added := pc_added c + 1\<rparr>
      | (Some _, None) \<Rightarrow> c\<lparr>pc_lines := pc_lines c @ [lit ''D '' @ path], pc_deleted := pc_deleted c + 1\<rparr>
      | (o1, n1) \<Rightarrow>
          (if o1 \<noteq> n1 then c\<lparr>pc_lines := pc_lines c @ [lit ''M '' @ path], pc_modified := pc_modified c + 1\<rparr> else c))"

definition diff_paths :: "(jstr \<times> jstr) list \<Rightarrow> (jstr \<times> jstr) list \<Rightarrow> jstr list" where
  "diff_paths old new = sort (fold (\<lambda>p s. set_add s p) (map fst old @ map fst new) [])"

definition diff_files :: "(bytes \<Rightarrow> jstr) \<Rightarrow> bundle_file list \<Rightarrow> publish_file list \<Rightarrow> publish_changes" where
  "diff_files sha previous following =
     (let old = hash_map sha (map (\<lambda>f. (b_relPath f, b_content f)) previous);
          new = hash_map sha (map (\<lambda>f. (relPath f, content f)) following)
      in fold (diff_path old new) (diff_paths old new)
           \<lparr>pc_lines = [], pc_added = 0, pc_modified = 0, pc_deleted = 0\<rparr>)"

subsection \<open>Calls and answers\<close>

datatype pub_call =
    Read_entries | User_name | Home_dir | Read_allow | Write_allow jstr
  | Ensure_key jstr jstr | Resolve_key jstr jstr
  | Mirror_exists | Make_mirror_parent | Clone jstr | Git_raw "jstr list" | Reset_hard jstr | Git_add | Git_commit jstr
  | List_mirror | Remove_item jstr | Make_bundle_dir | Write_file jstr bytes | Walk_mirror | Read_mirror jstr
  | Stdin_is_tty | Confirm jstr | Info jstr | Warning jstr

text \<open>
  An answer: the message of the error thrown, if one was, else the text, truth value, bytes (None
  for a missing file), names or entries the call returns, or the outcome of the key provider.
\<close>

record pub_answer =
  pa_failed :: "jstr option"
  pa_out :: jstr
  pa_flag :: bool
  pa_bytes :: "bytes option"
  pa_names :: "jstr list"
  pa_entries :: "(jstr \<times> bytes) list option"
  pa_key :: "key_error + bytes"

datatype pub_error = Failed jstr | Invalid_entries "(jstr \<times> reason) list" | Scan_blocked "scan_finding list"
  | Sealing sealed_error | Key_problem key_error | Entry_problem entry_error

type_synonym 'a pub_io = "(pub_call, pub_answer, pub_error + 'a) io"

definition ask :: "pub_call \<Rightarrow> pub_answer pub_io" where
  "ask c = Do c (\<lambda>a. Ret (case pa_failed a of Some m \<Rightarrow> Inl (Failed m) | None \<Rightarrow> Inr a))"

definition tell :: "pub_call \<Rightarrow> unit pub_io" where
  "tell c = Do c (\<lambda>_. Ret (Inr ()))"

definition lift_error :: "('e \<Rightarrow> pub_error) \<Rightarrow> 'e + 'a \<Rightarrow> 'a pub_io" where
  "lift_error f x = Ret (case x of Inl e \<Rightarrow> Inl (f e) | Inr y \<Rightarrow> Inr y)"

record pub_env =
  pe_codec :: entry_codec
  pe_crypto :: crypto
  pe_platform :: platform
  pe_sha :: "bytes \<Rightarrow> jstr"

record pub_opts =
  po_target :: "jstr option"
  po_keyserver :: "jstr option"
  po_keyId :: jstr
  po_dryRun :: bool
  po_yes :: bool
  po_allow :: "jstr list"
  po_saveAllow :: bool

record publish_result =
  pr_fileCount :: nat
  pr_changed :: bool
  pr_dryRun :: bool

definition is_set :: "jstr option \<Rightarrow> bool" where
  "is_set v \<longleftrightarrow> v \<noteq> None \<and> v \<noteq> Some []"

subsection \<open>The allow file\<close>

definition allow_file_error :: pub_error where
  "allow_file_error = Failed (lit ''.publish-allow.json must contain an \"allow\" array'')"

definition load_publish_allow :: "jstr option \<Rightarrow> pub_error + jstr list" where
  "load_publish_allow file =
     (case file of
        None \<Rightarrow> Inr []
      | Some t \<Rightarrow>
          (case json_parse t of
             None \<Rightarrow> Inl (Failed (lit ''JSON''))
           | Some v \<Rightarrow>
               (case get_member v ''allow'' of
                  Some (JArr xs) \<Rightarrow>
                    Inr (fold (\<lambda>x out. case x of JStr d \<Rightarrow> (if digest_re d then set_add out d else out) | _ \<Rightarrow> out) xs [])
                | _ \<Rightarrow> Inl allow_file_error)))"

definition save_publish_allow :: "jstr option \<Rightarrow> jstr list \<Rightarrow> pub_error + jstr" where
  "save_publish_allow file digests =
     try_then (load_publish_allow file) (\<lambda>existing.
     let allow = sort (fold (\<lambda>d out. if digest_re d then set_add out d else out) digests existing) in
     Inr (json_pretty (JObj [(lit ''allow'', JArr (map JStr allow))]) @ [10]))"

definition allow_text :: "pub_answer \<Rightarrow> jstr option" where
  "allow_text a = map_option utf8_decode (pa_bytes a)"

subsection \<open>The gate of the scan\<close>

text \<open>A throwing \<open>userInfo()\<close> or \<open>homedir()\<close> gives no token.\<close>

definition optional_text :: "pub_call \<Rightarrow> jstr option pub_io" where
  "optional_text c = bind (ask c) (\<lambda>x. retE (case x of Inl _ \<Rightarrow> None | Inr a \<Rightarrow> Some (pa_out a)))"

definition warning_text :: "scan_finding \<Rightarrow> jstr" where
  "warning_text w = lit ''publish scan warning: '' @ f_relPath w @ lit '':'' @ nat_str (f_line w) @ lit '' '' @
     rule_name (f_rule w) @ lit '' '' @ f_excerpt w"

definition report_scan :: "pub_opts \<Rightarrow> scan_finding list \<Rightarrow> scan_finding list \<Rightarrow> unit pub_io" where
  "report_scan opts found warned =
     seqE (for_each warned () (\<lambda>w _. tell (Warning (warning_text w)))) (\<lambda>_.
     seqE (if po_saveAllow opts \<and> po_allow opts \<noteq> []
           then seqE (ask Read_allow) (\<lambda>b.
                seqE (lift_error id (save_publish_allow (allow_text b) (po_allow opts))) (\<lambda>t.
                seqE (ask (Write_allow t)) (\<lambda>_. retE ())))
           else retE ()) (\<lambda>_.
     if found \<noteq> [] then throw (Scan_blocked found) else retE ()))"

definition scan_gate :: "pub_env \<Rightarrow> pub_opts \<Rightarrow> publish_file list \<Rightarrow> unit pub_io" where
  "scan_gate env opts files =
     seqE (optional_text User_name) (\<lambda>user.
     seqE (optional_text Home_dir) (\<lambda>home.
     seqE (ask Read_allow) (\<lambda>a.
     seqE (lift_error id (load_publish_allow (allow_text a))) (\<lambda>loaded.
     let (found, warned) =
       scan_publish_files (pe_sha env) (loaded @ po_allow opts) (publish_self_identity_tokens user home) files in
     report_scan opts found warned))))"

subsection \<open>The mirror\<close>

definition git_raw :: "string list \<Rightarrow> pub_call" where
  "git_raw args = Git_raw (map lit args)"

text \<open>\<open>git.raw(args).catch(() => '')\<close>.\<close>

definition quiet :: "pub_call \<Rightarrow> jstr pub_io" where
  "quiet c = bind (ask c) (\<lambda>x. retE (case x of Inl _ \<Rightarrow> [] | Inr a \<Rightarrow> pa_out a))"

definition wrong_target :: "jstr \<Rightarrow> jstr \<Rightarrow> jstr \<Rightarrow> pub_error" where
  "wrong_target old target mirrorDir = Failed (lit ''publish mirror points at '' @ old @ lit '' but publishTarget is '' @ target)"

definition prepare_mirror :: "jstr \<Rightarrow> unit pub_io" where
  "prepare_mirror target =
     seqE (ask Mirror_exists) (\<lambda>e.
     seqE (if \<not> pa_flag e
           then seqE (ask Make_mirror_parent) (\<lambda>_. seqE (ask (Clone target)) (\<lambda>_. retE ()))
           else seqE (ask (git_raw [''remote'', ''get-url'', ''origin''])) (\<lambda>o1.
                if trim (pa_out o1) \<noteq> target then throw (wrong_target (trim (pa_out o1)) target []) else retE ())) (\<lambda>_.
     seqE (ask (git_raw [''fetch'', ''--prune'', ''origin''])) (\<lambda>_.
     seqE (quiet (git_raw [''symbolic-ref'', ''--quiet'', ''refs/remotes/origin/HEAD''])) (\<lambda>h.
     let head = trim h in
     seqE (if head = [] then retE False
           else seqE (quiet (Git_raw (map lit [''rev-parse'', ''--verify'', ''--quiet''] @ [head]))) (\<lambda>r. retE (trim r \<noteq> []))) (\<lambda>resolvable.
     seqE (whenE (head \<noteq> [] \<and> resolvable) (seqE (ask (Reset_hard head)) (\<lambda>_. retE ()))) (\<lambda>_.
     seqE (ask (git_raw [''clean'', ''-ffdx''])) (\<lambda>_. retE ())))))))"

definition readme_path :: jstr where "readme_path = lit ''README.md''"
definition bundle_path :: jstr where "bundle_path = lit ''bundle/entries.caveat''"
definition tmp_branch :: jstr where "tmp_branch = lit ''caveat-publish-tmp''"
definition git_dir_name :: jstr where "git_dir_name = lit ''.git''"

definition write_sealed_mirror :: "bytes \<Rightarrow> jstr \<Rightarrow> unit pub_io" where
  "write_sealed_mirror bundle readme =
     seqE (ask List_mirror) (\<lambda>l.
     seqE (for_each (pa_names l) () (\<lambda>n _.
             if n = git_dir_name then retE () else seqE (ask (Remove_item n)) (\<lambda>_. retE ()))) (\<lambda>_.
     seqE (ask Make_bundle_dir) (\<lambda>_.
     seqE (ask (Write_file readme_path (utf8_encode readme))) (\<lambda>_.
     seqE (ask (Write_file bundle_path bundle)) (\<lambda>_. retE ())))))"

definition missing :: "jstr \<Rightarrow> pub_error" where
  "missing name = Failed (lit ''ENOENT: '' @ name)"

definition read_mirror :: "jstr \<Rightarrow> bytes pub_io" where
  "read_mirror name = seqE (ask (Read_mirror name)) (\<lambda>a. case pa_bytes a of None \<Rightarrow> throw (missing name) | Some b \<Rightarrow> retE b)"

definition verification_failed :: "jstr \<Rightarrow> pub_error" where
  "verification_failed why = Failed (lit ''publish mirror verification failed: '' @ why)"

definition all_public :: "entry_codec \<Rightarrow> bundle_file list \<Rightarrow> bool" where
  "all_public co files \<longleftrightarrow> list_all (\<lambda>f. visibility_of co (b_content f) = Inr Public) files"

definition verify_sealed_mirror :: "pub_env \<Rightarrow> bytes \<Rightarrow> bytes \<Rightarrow> nat \<Rightarrow> jstr \<Rightarrow> nat pub_io" where
  "verify_sealed_mirror env bundle contentKey expectedFileCount readme =
     seqE (ask Walk_mirror) (\<lambda>w.
     if sort (pa_names w) \<noteq> [readme_path, bundle_path] then throw (verification_failed (lit ''unexpected sealed mirror tree'')) else
     seqE (read_mirror readme_path) (\<lambda>diskReadme.
     if utf8_decode diskReadme \<noteq> readme then throw (verification_failed (lit ''README.md content changed after generation'')) else
     seqE (read_mirror bundle_path) (\<lambda>diskBundle.
     if diskBundle \<noteq> bundle then throw (verification_failed (lit ''sealed bundle bytes changed after generation'')) else
     seqE (lift_error Sealing (unseal_bundle (pe_crypto env) diskBundle contentKey)) (\<lambda>(_, files).
     if \<not> all_public (pe_codec env) files \<or> length files \<noteq> expectedFileCount
     then throw (verification_failed (lit ''visibility or file count''))
     else retE (length files)))))"

text \<open>\<open>/^ref:\s+refs\/heads\/(.+)\s+HEAD$/m\<close>: the first capture in the order of backtracking.\<close>

definition symref_start :: rx where
  "symref_start = Sq bol_m (Sq (rx_str (lit ''ref:'')) (Sq (rx_many is_space 1) (rx_str (lit ''refs/heads/''))))"

definition symref_end :: rx where
  "symref_end = Sq (rx_many is_space 1) (Sq (rx_str (lit ''HEAD'')) eol_m)"

definition symref_branch :: "jstr \<Rightarrow> jstr option" where
  "symref_branch s =
     (case [(k, j). i \<leftarrow> [0..<Suc (length s)], k \<leftarrow> ends symref_start s i, j \<leftarrow> ends (rx_many (\<lambda>c. \<not> line_end c) 1) s k,
             ends symref_end s j \<noteq> []] of
        [] \<Rightarrow> None
      | (k, j) # _ \<Rightarrow> Some (slice s k j))"

definition current_branch :: "jstr pub_io" where
  "current_branch =
     seqE (quiet (git_raw [''symbolic-ref'', ''--short'', ''HEAD''])) (\<lambda>l.
     let local = trim l in
     if local \<noteq> [] \<and> local \<noteq> tmp_branch then retE local
     else seqE (quiet (git_raw [''ls-remote'', ''--symref'', ''origin'', ''HEAD''])) (\<lambda>r.
          retE (case symref_branch r of Some b \<Rightarrow> b | None \<Rightarrow> lit ''main'')))"

definition local_head_sha :: "jstr option pub_io" where
  "local_head_sha = seqE (quiet (git_raw [''rev-parse'', ''--verify'', ''HEAD''])) (\<lambda>r. retE (if trim r = [] then None else Some (trim r)))"

definition remote_branch_sha :: "jstr \<Rightarrow> jstr option pub_io" where
  "remote_branch_sha branch =
     seqE (quiet (Git_raw (map lit [''ls-remote'', ''origin''] @ [branch]))) (\<lambda>r.
     retE (map_option (takeWhile (\<lambda>c. \<not> is_space c)) (find (\<lambda>l. l \<noteq> []) (split_lines (trim r)))))"

definition checkout_orphan :: "unit pub_io" where
  "checkout_orphan =
     seqE (quiet (git_raw [''checkout'', ''--detach''])) (\<lambda>_.
     seqE (quiet (Git_raw [lit ''branch'', lit ''-D'', tmp_branch])) (\<lambda>_.
     seqE (ask (Git_raw [lit ''checkout'', lit ''--orphan'', tmp_branch])) (\<lambda>_. retE ())))"

text \<open>The number git printed, None when it is not a decimal one.\<close>

definition commit_count :: "jstr \<Rightarrow> nat option" where
  "commit_count s = (let t = trim s in if t \<noteq> [] \<and> list_all is_digit t then Some (digits_val 0 t) else None)"

definition publish_message :: "nat \<Rightarrow> publish_changes \<Rightarrow> jstr" where
  "publish_message n c = lit ''caveat publish: '' @ nat_str n @ lit '' public entries (+'' @ nat_str (pc_added c) @
     lit '' ~'' @ nat_str (pc_modified c) @ lit '' -'' @ nat_str (pc_deleted c) @ lit '')''"

definition count_call :: pub_call where
  "count_call = git_raw [''rev-list'', ''--count'', ''HEAD'']"

definition push_call :: "jstr \<Rightarrow> pub_call" where
  "push_call branch = Git_raw (map lit [''push'', ''--force'', ''origin''] @ [branch])"

definition commit_sealed_mirror :: "jstr \<Rightarrow> nat \<Rightarrow> publish_changes \<Rightarrow> unit pub_io" where
  "commit_sealed_mirror branch n changes =
     seqE (ask Git_add) (\<lambda>_.
     seqE (ask (Git_commit (publish_message n changes))) (\<lambda>_.
     seqE (ask (Git_raw [lit ''branch'', lit ''-M'', branch])) (\<lambda>_.
     seqE (ask count_call) (\<lambda>c.
     if commit_count (pa_out c) \<noteq> Some 1
     then throw (Failed (lit ''publish mirror history verification failed: expected 1 commit, got '' @ trim (pa_out c))) else
     seqE (ask (push_call branch)) (\<lambda>_.
     seqE (quiet (git_raw [''gc'', ''--prune=now''])) (\<lambda>_. retE ()))))))"

subsection \<open>Publishing\<close>

definition ask_key :: "pub_call \<Rightarrow> bytes pub_io" where
  "ask_key c = Do c (\<lambda>a. Ret (case pa_key a of Inl e \<Rightarrow> Inl (Key_problem e) | Inr k \<Rightarrow> Inr k))"

definition publish_key :: "pub_env \<Rightarrow> pub_opts \<Rightarrow> (jstr \<times> jstr \<times> bytes) pub_io" where
  "publish_key env opts =
     seqE (lift_error Key_problem (normalize_url (pe_platform env) (the (po_keyserver opts)))) (\<lambda>url.
     let keyId = lit ''keyserver:'' @ po_keyId opts in
     seqE (ask_key (Ensure_key keyId url)) (\<lambda>_.
     seqE (ask_key (Resolve_key keyId url)) (\<lambda>key.
     retE (keyId, url, key))))"

definition build_publish_diff :: "pub_env \<Rightarrow> bytes option \<Rightarrow> publish_file list \<Rightarrow> publish_changes pub_io" where
  "build_publish_diff env previous files =
     (case previous of
        None \<Rightarrow> retE (diff_files (pe_sha env) [] files)
      | Some b \<Rightarrow>
          catch (seqE (lift_error Sealing (read_sealed_header b)) (\<lambda>(h, _).
                 seqE (ask_key (Ensure_key (h_keyId h) (h_keyserverUrl h))) (\<lambda>_.
                 seqE (ask_key (Resolve_key (h_keyId h) (h_keyserverUrl h))) (\<lambda>k.
                 seqE (lift_error Sealing (unseal_bundle (pe_crypto env) b k)) (\<lambda>(_, old).
                 retE (diff_files (pe_sha env) old files))))))
            (\<lambda>e. seqE (tell (Warning (lit ''previous sealed bundle could not be decrypted; showing all entries as added'')))
                   (\<lambda>_. retE (diff_files (pe_sha env) [] files))))"

text \<open>What the mirror holds against what is to be published: the old bundle, and whether anything differs.\<close>

definition compare_mirror :: "jstr \<Rightarrow> bytes \<Rightarrow> jstr \<Rightarrow> (bytes option \<times> bool \<times> bool) pub_io" where
  "compare_mirror branch bundle readme =
     seqE (ask (Read_mirror readme_path)) (\<lambda>r.
     seqE (ask (Read_mirror bundle_path)) (\<lambda>b.
     seqE (remote_branch_sha branch) (\<lambda>remote.
     seqE local_head_sha (\<lambda>local.
     retE (pa_bytes b, \<not> (pa_bytes b = Some bundle \<and> map_option utf8_decode (pa_bytes r) = Some readme),
       remote \<noteq> None \<and> remote = local)))))"

definition question :: "publish_changes \<Rightarrow> jstr" where
  "question c = lit ''publish '' @ nat_str (length (pc_lines c)) @ lit '' entry change(s)? [y/N]''"

definition approve :: "pub_opts \<Rightarrow> publish_changes \<Rightarrow> unit pub_io" where
  "approve opts changes =
     (if po_yes opts then retE ()
      else seqE (ask Stdin_is_tty) (\<lambda>t.
           if \<not> pa_flag t then throw (Failed (question changes @ lit ''; rerun with --yes to approve non-interactively'')) else
           seqE (ask (Confirm (question changes))) (\<lambda>c.
           if pa_flag c then retE () else throw (Failed (lit ''publish cancelled'')))))"

definition publish_mirror ::
  "pub_env \<Rightarrow> jstr \<Rightarrow> bytes \<Rightarrow> bytes \<Rightarrow> jstr \<Rightarrow> nat \<Rightarrow> publish_changes \<Rightarrow> publish_result pub_io" where
  "publish_mirror env branch key bundle readme n changes =
     seqE checkout_orphan (\<lambda>_.
     seqE (write_sealed_mirror bundle readme) (\<lambda>_.
     seqE (verify_sealed_mirror env bundle key n readme) (\<lambda>count.
     seqE (commit_sealed_mirror branch count changes) (\<lambda>_.
     retE \<lparr>pr_fileCount = count, pr_changed = True, pr_dryRun = False\<rparr>))))"

definition publish_difference ::
  "pub_env \<Rightarrow> pub_opts \<Rightarrow> publish_file list \<Rightarrow> bytes \<Rightarrow> bytes \<Rightarrow> jstr \<Rightarrow> jstr \<Rightarrow> bytes option \<Rightarrow> bool \<Rightarrow> publish_result pub_io" where
  "publish_difference env opts files key bundle readme branch old matches =
     seqE (build_publish_diff env old files) (\<lambda>changes.
     seqE (for_each (pc_lines changes) () (\<lambda>l _. tell (Info l))) (\<lambda>_.
     seqE (whenE (\<not> matches) (tell (Info (lit ''remote branch differs or is missing; sealed mirror will be pushed'')))) (\<lambda>_.
     if po_dryRun opts then retE \<lparr>pr_fileCount = length files, pr_changed = True, pr_dryRun = True\<rparr>
     else seqE (approve opts changes) (\<lambda>_.
          publish_mirror env branch key bundle readme (length files) changes))))"

definition publish_changes_of ::
  "pub_env \<Rightarrow> pub_opts \<Rightarrow> publish_file list \<Rightarrow> bytes \<Rightarrow> bytes \<Rightarrow> jstr \<Rightarrow> publish_result pub_io" where
  "publish_changes_of env opts files key bundle readme =
     seqE current_branch (\<lambda>branch.
     seqE (compare_mirror branch bundle readme) (\<lambda>(old, changed, matches).
     if \<not> changed \<and> matches
     then seqE (tell (Info (lit ''no changes to publish''))) (\<lambda>_.
          retE \<lparr>pr_fileCount = length files, pr_changed = False, pr_dryRun = po_dryRun opts\<rparr>)
     else publish_difference env opts files key bundle readme branch old matches))"

definition publish_own :: "pub_env \<Rightarrow> pub_opts \<Rightarrow> publish_result pub_io" where
  "publish_own env opts =
     (if \<not> is_set (po_target opts) then throw (Failed (lit ''publishTarget is not configured''))
      else if \<not> is_set (po_keyserver opts) then throw (Failed (lit ''sealedKeyserverUrl is not configured''))
      else
        seqE (ask Read_entries) (\<lambda>a.
        let (files, invalid) = collect_publish_set (pe_codec env) (case pa_entries a of None \<Rightarrow> [] | Some es \<Rightarrow> es) in
        if invalid \<noteq> [] then throw (Invalid_entries invalid) else
        seqE (scan_gate env opts files) (\<lambda>_.
        seqE (publish_key env opts) (\<lambda>(keyId, url, key).
        seqE (lift_error Sealing (seal_bundle (pe_crypto env) (bundle_files files) key keyId url)) (\<lambda>bundle.
        seqE (lift_error Entry_problem (build_sealed_readme (pe_codec env) (length files) files)) (\<lambda>readme.
        seqE (prepare_mirror (the (po_target opts))) (\<lambda>_.
        publish_changes_of env opts files key bundle readme)))))))"

subsection \<open>What is pushed was checked\<close>

fun is_push :: "pub_call \<Rightarrow> bool" where
  "is_push (Git_raw (a # args)) \<longleftrightarrow> a = lit ''push''"
| "is_push _ \<longleftrightarrow> False"

text \<open>The calls that can change the files, the branches or the history of the mirror.\<close>

fun alters_mirror :: "pub_call \<Rightarrow> bool" where
  "alters_mirror (Write_file _ _) = True"
| "alters_mirror (Remove_item _) = True"
| "alters_mirror Make_bundle_dir = True"
| "alters_mirror Git_add = True"
| "alters_mirror (Git_commit _) = True"
| "alters_mirror (Clone _) = True"
| "alters_mirror (Reset_hard _) = True"
| "alters_mirror (Git_raw (a # args)) \<longleftrightarrow> a \<in> {lit ''checkout'', lit ''branch'', lit ''clean'', lit ''fetch'', lit ''gc'', lit ''push''}"
| "alters_mirror _ = False"

text \<open>
  Those of them that only bring it to what the target has published: cloning the target, fetching it,
  resetting to the head the remote named, and removing what is not tracked.
\<close>

definition head_call :: pub_call where
  "head_call = git_raw [''symbolic-ref'', ''--quiet'', ''refs/remotes/origin/HEAD'']"

definition to_published :: "pub_opts \<Rightarrow> (pub_call \<times> pub_answer) list \<Rightarrow> pub_call \<Rightarrow> bool" where
  "to_published opts h c \<longleftrightarrow>
     c = Clone (the (po_target opts)) \<or> c = git_raw [''fetch'', ''--prune'', ''origin''] \<or> c = git_raw [''clean'', ''-ffdx''] \<or>
     (\<exists>a. (head_call, a) \<in> set h \<and> pa_failed a = None \<and> c = Reset_hard (trim (pa_out a)))"

definition optional_answer :: "pub_answer \<Rightarrow> jstr option" where
  "optional_answer a = (case pa_failed a of None \<Rightarrow> Some (pa_out a) | Some _ \<Rightarrow> None)"

text \<open>The scan of the files under the tokens and the allow file that were read found nothing.\<close>

definition scan_passed :: "pub_env \<Rightarrow> pub_opts \<Rightarrow> publish_file list \<Rightarrow> (pub_call \<times> pub_answer) list \<Rightarrow> bool" where
  "scan_passed env opts files h \<longleftrightarrow>
     (\<exists>u d a loaded. (User_name, u) \<in> set h \<and> (Home_dir, d) \<in> set h \<and> (Read_allow, a) \<in> set h \<and>
        load_publish_allow (allow_text a) = Inr loaded \<and>
        fst (scan_publish_files (pe_sha env) (loaded @ po_allow opts)
          (publish_self_identity_tokens (optional_answer u) (optional_answer d)) files) = [])"

definition collected :: "pub_env \<Rightarrow> publish_file list \<Rightarrow> (pub_call \<times> pub_answer) list \<Rightarrow> bool" where
  "collected env files h \<longleftrightarrow>
     (\<exists>a. (Read_entries, a) \<in> set h \<and>
        collect_publish_set (pe_codec env) (case pa_entries a of None \<Rightarrow> [] | Some es \<Rightarrow> es) = (files, []))"

definition approved :: "pub_opts \<Rightarrow> (pub_call \<times> pub_answer) list \<Rightarrow> bool" where
  "approved opts h \<longleftrightarrow> \<not> po_dryRun opts \<and> (po_yes opts \<or> (\<exists>q a. (Confirm q, a) \<in> set h \<and> pa_flag a))"

text \<open>What was decided before the mirror is written.\<close>

definition decided ::
  "pub_env \<Rightarrow> pub_opts \<Rightarrow> publish_file list \<Rightarrow> bytes \<Rightarrow> jstr \<Rightarrow> (pub_call \<times> pub_answer) list \<Rightarrow> bool" where
  "decided env opts files bundle readme h \<longleftrightarrow>
     collected env files h \<and> scan_passed env opts files h \<and>
     (\<exists>key keyId url. seal_bundle (pe_crypto env) (bundle_files files) key keyId url = Inr bundle) \<and>
     build_sealed_readme (pe_codec env) (length files) files = Inr readme"

text \<open>
  The mirror as it is read back: the two files, their contents, and what the bundle unseals to;
  then the commit and the count of commits, and nothing else in between.
\<close>

definition verified ::
  "pub_env \<Rightarrow> pub_opts \<Rightarrow> (pub_call \<times> pub_answer) list \<Rightarrow> bool" where
  "verified env opts h \<longleftrightarrow>
     (\<exists>pre files bundle readme key hdr fs w r b g1 m g2 branch g3 c.
        h = pre @ [(Walk_mirror, w), (Read_mirror readme_path, r), (Read_mirror bundle_path, b), (Git_add, g1), (Git_commit m, g2),
                   (Git_raw [lit ''branch'', lit ''-M'', branch], g3), (count_call, c)] \<and>
        decided env opts files bundle readme pre \<and> approved opts pre \<and>
        sort (pa_names w) = [readme_path, bundle_path] \<and> map_option utf8_decode (pa_bytes r) = Some readme \<and>
        pa_bytes b = Some bundle \<and> unseal_bundle (pe_crypto env) bundle key = Inr (hdr, fs) \<and>
        all_public (pe_codec env) fs \<and> length fs = length files \<and> commit_count (pa_out c) = Some 1)"

definition publish_guard :: "pub_env \<Rightarrow> pub_opts \<Rightarrow> (pub_call \<times> pub_answer) list \<Rightarrow> pub_call \<Rightarrow> bool" where
  "publish_guard env opts h c \<longleftrightarrow>
     (is_push c \<longrightarrow> verified env opts h) \<and>
     (alters_mirror c \<longrightarrow>
        (\<exists>files bundle readme. decided env opts files bundle readme h) \<and> (to_published opts h c \<or> approved opts h))"

definition preparing :: "pub_call \<Rightarrow> bool" where
  "preparing c \<longleftrightarrow> \<not> is_push c \<and> \<not> alters_mirror c"

lemma guard_preparing: "preparing c \<Longrightarrow> publish_guard env opts h c"
  by (simp add: preparing_def publish_guard_def)

lemma okay_pub_ask: "okay (ask c) G P h \<longleftrightarrow> G h c \<and> (\<forall>a. pa_failed a = None \<longrightarrow> P (h @ [(c, a)]) a)"
  by (auto simp: ask_def okay_def split: option.splits)

lemma okay_tell: "okay (tell c) G P h \<longleftrightarrow> G h c \<and> (\<forall>a. P (h @ [(c, a)]) ())"
  by (simp add: tell_def okay_def)

lemma okay_pub_lift: "okay (lift_error f x) G P h \<longleftrightarrow> (\<forall>y. x = Inr y \<longrightarrow> P h y)"
  by (cases x) (auto simp: lift_error_def okay_def)

lemma okay_ask_key: "okay (ask_key c) G P h \<longleftrightarrow> G h c \<and> (\<forall>a k. pa_key a = Inr k \<longrightarrow> P (h @ [(c, a)]) k)"
  by (auto simp: ask_key_def okay_def split: sum.splits)

lemma uses_pub_ask [calls]: "C c \<Longrightarrow> uses (ask c) C"
  by (simp add: ask_def)

lemma uses_tell [calls]: "C c \<Longrightarrow> uses (tell c) C"
  by (simp add: tell_def)

lemma uses_pub_lift [calls]: "uses (lift_error f x) C"
  by (simp add: lift_error_def)

lemma uses_ask_key [calls]: "C c \<Longrightarrow> uses (ask_key c) C"
  by (simp add: ask_key_def)

lemma uses_quiet [calls]: "C c \<Longrightarrow> uses (quiet c) C"
  unfolding quiet_def by (intro calls)

lemma preparing_simps [simp]:
  "preparing Walk_mirror" "preparing (Read_mirror p)" "preparing List_mirror"
  "preparing Read_entries" "preparing User_name" "preparing Home_dir" "preparing Read_allow"
  "preparing (Write_allow t)" "preparing (Ensure_key k u)" "preparing (Resolve_key k u)" "preparing Mirror_exists"
  "preparing Make_mirror_parent" "preparing Stdin_is_tty" "preparing (Confirm q)"
  "preparing (Info t)" "preparing (Warning t)" 
  "preparing (Git_raw (a # args)) \<longleftrightarrow> a \<notin> {lit ''checkout'', lit ''branch'', lit ''clean'', lit ''fetch'', lit ''gc'', lit ''push''}"
  by (auto simp: preparing_def)

lemma decided_mono: "decided env opts files bundle readme h \<Longrightarrow> decided env opts files bundle readme (h @ h')"
  unfolding decided_def collected_def scan_passed_def by (auto 0 4)

lemma approved_mono: "approved opts h \<Longrightarrow> approved opts (h @ h')"
  by (auto simp: approved_def)

lemma okay_optional: "okay (optional_text c) G P h \<longleftrightarrow> G h c \<and> (\<forall>a. P (h @ [(c, a)]) (optional_answer a))"
  by (auto simp: optional_text_def ask_def okay_def optional_answer_def split: option.splits)

lemma okay_quiet: "okay (quiet c) G P h \<longleftrightarrow> G h c \<and> (\<forall>a. P (h @ [(c, a)]) (case pa_failed a of None \<Rightarrow> pa_out a | Some _ \<Rightarrow> []))"
  by (auto simp: quiet_def ask_def okay_def split: option.splits)

lemma uses_publish_steps [calls]:
  "uses current_branch preparing" "uses (compare_mirror b bs r) preparing"
  "uses (build_publish_diff env old files) preparing" "uses (publish_key env opts) preparing"
  unfolding current_branch_def compare_mirror_def build_publish_diff_def publish_key_def
    remote_branch_sha_def local_head_sha_def Let_def git_raw_def
  by (intro calls; simp add: lit_def)+

lemma scan_passed_mono: "scan_passed env opts files h \<Longrightarrow> scan_passed env opts files (h @ h')"
  unfolding scan_passed_def by (auto 0 4)

lemma okay_report_scan:
  assumes "found = [] \<Longrightarrow> scan_passed env opts files h"
  shows "okay (report_scan opts found ws) (publish_guard env opts) (\<lambda>h _. scan_passed env opts files h) h"
proof (cases "found = []")
  case True
  show ?thesis unfolding report_scan_def
    by (rule uses_okay [where C = preparing]) (use assms True in \<open>auto intro!: calls guard_preparing scan_passed_mono\<close>)
next
  case False
  have "okay (for_each ws () (\<lambda>w _. tell (Warning (warning_text w)))) (publish_guard env opts) (\<lambda>_ _. True) h"
    by (rule uses_okay [where C = preparing]) (auto intro!: calls guard_preparing)
  then show ?thesis
    by (simp add: False report_scan_def) (elim okay_mono, auto simp: okay_pub_ask okay_pub_lift guard_preparing)
qed

lemma okay_scan_gate: "okay (scan_gate env opts files) (publish_guard env opts) (\<lambda>h _. scan_passed env opts files h) h"
  unfolding scan_gate_def okay_seqE okay_optional okay_pub_ask okay_pub_lift
proof (simp add: guard_preparing split_beta, intro allI impI)
  fix u d a loaded
  assume "load_publish_allow (allow_text a) = Inr loaded"
  then show "okay (report_scan opts
      (fst (scan_publish_files (pe_sha env) (loaded @ po_allow opts) (publish_self_identity_tokens (optional_answer u) (optional_answer d)) files))
      (snd (scan_publish_files (pe_sha env) (loaded @ po_allow opts) (publish_self_identity_tokens (optional_answer u) (optional_answer d)) files)))
    (publish_guard env opts) (\<lambda>h _. scan_passed env opts files h) (h @ [(User_name, u), (Home_dir, d), (Read_allow, a)])"
    by (intro okay_report_scan) (auto simp: scan_passed_def)
qed

lemma guard_commit_push:
  assumes "decided env opts files bundle readme h" and "approved opts h"
    and "sort (pa_names w) = [readme_path, bundle_path]" and "pa_bytes r = Some dr" and "utf8_decode dr = readme"
    and "pa_bytes b = Some bundle" and "unseal_bundle (pe_crypto env) bundle key = Inr (hdr, fs)"
    and "all_public (pe_codec env) fs" and "length fs = length files" and "commit_count (pa_out c) = Some 1"
  shows "publish_guard env opts (h @ [(Walk_mirror, w), (Read_mirror readme_path, r), (Read_mirror bundle_path, b), (Git_add, g1),
     (Git_commit m, g2), (Git_raw [lit ''branch'', lit ''-M'', branch], g3), (count_call, c)]) (push_call branch)"
proof -
  have "map_option utf8_decode (pa_bytes r) = Some readme" using assms(4,5) by simp
  with assms have "verified env opts (h @ [(Walk_mirror, w), (Read_mirror readme_path, r), (Read_mirror bundle_path, b), (Git_add, g1),
     (Git_commit m, g2), (Git_raw [lit ''branch'', lit ''-M'', branch], g3), (count_call, c)])"
    unfolding verified_def by (auto simp del: append.simps append_Cons map_option_eq_Some)
  then show ?thesis
    unfolding publish_guard_def using decided_mono [OF assms(1)] approved_mono [OF assms(2)] by blast
qed

lemma guard_write:
  "decided env opts files bundle readme h \<Longrightarrow> approved opts h \<Longrightarrow> \<not> is_push c \<Longrightarrow> publish_guard env opts (h @ h') c"
  using decided_mono approved_mono by (fastforce simp: publish_guard_def)

lemma not_push: "\<not> is_push (Git_raw (lit ''branch'' # args))" "\<not> is_push (Git_raw (lit ''gc'' # args))"
  "\<not> is_push (Git_raw (lit ''rev-list'' # args))"
  by (simp_all add: lit_def)

lemma okay_verify_commit:
  assumes "decided env opts files bundle readme h" and "approved opts h"
  shows "okay (seqE (verify_sealed_mirror env bundle key (length files) readme) (\<lambda>count.
      seqE (commit_sealed_mirror branch count changes) (\<lambda>_. retE (f count)))) (publish_guard env opts) (\<lambda>_ _. True) h"
  unfolding verify_sealed_mirror_def commit_sealed_mirror_def read_mirror_def
  by (auto simp: okay_pub_ask okay_pub_lift okay_quiet guard_preparing count_call_def git_raw_def not_push
        guard_commit_push [OF assms, unfolded count_call_def git_raw_def, simplified]
      intro!: guard_write [OF assms] split: option.splits prod.splits)

lemma okay_preparing:
  "uses m preparing \<Longrightarrow> (\<And>h' x. P (h @ h') x) \<Longrightarrow> okay m (publish_guard env opts) P h"
  by (rule uses_okay [of m preparing]) (auto intro: guard_preparing)

lemma okay_decided:
  "uses m preparing \<Longrightarrow> decided env opts files bundle readme h \<Longrightarrow>
     okay m (publish_guard env opts) (\<lambda>h' _. decided env opts files bundle readme h') h"
  by (rule okay_preparing) (auto intro: decided_mono)

text \<open>The mirror is brought to the published state by calls that do no more than that.\<close>

lemma okay_prepare_mirror:
  assumes "decided env opts files bundle readme h"
  shows "okay (prepare_mirror (the (po_target opts))) (publish_guard env opts) (\<lambda>h' _. decided env opts files bundle readme h') h"
proof -
  have g: "publish_guard env opts (h @ t) c" if "\<not> is_push c" "to_published opts (h @ t) c" for t c
    using that decided_mono [OF assms] unfolding publish_guard_def by blast
  have f: "lit ''fetch'' \<noteq> lit ''push''" "lit ''clean'' \<noteq> lit ''push''" by (simp_all add: lit_def)
  have p: "preparing (Git_raw (lit ''remote'' # args))" "preparing (Git_raw (lit ''symbolic-ref'' # args))" "preparing (Git_raw (lit ''rev-parse'' # args))" for args
    by (simp_all add: lit_def)
  show ?thesis
    unfolding prepare_mirror_def git_raw_def
    by (auto simp: okay_pub_ask okay_quiet guard_preparing p f to_published_def head_call_def git_raw_def Let_def
        intro!: g decided_mono [OF assms] split: option.splits if_splits)
qed

lemma okay_publish_mirror:
  assumes "decided env opts files bundle readme h" and "approved opts h"
  shows "okay (publish_mirror env branch key bundle readme (length files) changes) (publish_guard env opts) (\<lambda>_ _. True) h"
proof -
  let ?P = "\<lambda>h' _. decided env opts files bundle readme h' \<and> approved opts h'"
  have first: "okay checkout_orphan (publish_guard env opts) ?P h"
    unfolding checkout_orphan_def git_raw_def
    by (rule uses_okay [where C = "\<lambda>c. \<not> is_push c"])
      (use assms in \<open>auto intro!: calls guard_write decided_mono approved_mono simp: lit_def\<close>)
  have wr: "okay (write_sealed_mirror bundle readme) (publish_guard env opts) ?P h'"
    if "decided env opts files bundle readme h'" "approved opts h'" for h'
    unfolding write_sealed_mirror_def
    by (rule uses_okay [where C = "\<lambda>c. \<not> is_push c"]) (use that in \<open>auto intro!: calls guard_write decided_mono approved_mono\<close>)
  show ?thesis unfolding publish_mirror_def
    by (rule okay_seqI [OF first], rule okay_seqI [OF wr], simp, simp, rule okay_verify_commit) simp_all
qed

lemma okay_approve:
  "\<not> po_dryRun opts \<Longrightarrow> okay (approve opts changes) (publish_guard env opts) (\<lambda>h' _. approved opts h') h"
  by (auto simp: approve_def okay_pub_ask guard_preparing approved_def)

lemma uses_approve [calls]: "uses (approve opts c) preparing"
  unfolding approve_def by (intro calls) simp_all

lemma okay_publish_difference:
  assumes "decided env opts files bundle readme h"
  shows "okay (publish_difference env opts files key bundle readme branch old matches) (publish_guard env opts) (\<lambda>_ _. True) h"
  unfolding publish_difference_def
proof (rule okay_seqI [OF okay_decided [OF _ assms]], rule calls, rule okay_seqI [OF okay_decided], (intro calls, simp), assumption,
    rule okay_seqI [OF okay_decided], (intro calls, simp), assumption)
  fix c :: publish_changes and h' :: "(pub_call \<times> pub_answer) list"
  assume d: "decided env opts files bundle readme h'"
  show "okay (if po_dryRun opts then retE \<lparr>pr_fileCount = length files, pr_changed = True, pr_dryRun = True\<rparr>
     else seqE (approve opts c) (\<lambda>_. publish_mirror env branch key bundle readme (length files) c)) (publish_guard env opts) (\<lambda>_ _. True) h'"
  proof (cases "po_dryRun opts")
    case False
    have "okay (seqE (approve opts c) (\<lambda>_. publish_mirror env branch key bundle readme (length files) c)) (publish_guard env opts) (\<lambda>_ _. True) h'"
      by (rule okay_seqI [OF okay_conj [OF okay_decided [OF uses_approve d] okay_approve [OF False]]]) (auto intro: okay_publish_mirror)
    with False show ?thesis by (simp only: if_False)
  qed (simp only: if_True okay_retE)
qed

lemma okay_publish_changes:
  assumes "decided env opts files bundle readme h"
  shows "okay (publish_changes_of env opts files key bundle readme) (publish_guard env opts) (\<lambda>_ _. True) h"
  unfolding publish_changes_of_def
  by (rule okay_seqI [OF okay_decided [OF _ assms]], rule calls, rule okay_seqI [OF okay_decided], rule calls, assumption)
    (auto simp: okay_tell guard_preparing intro: okay_publish_difference)

lemma uses_scan_gate [calls]: "uses (scan_gate env opts files) preparing"
  unfolding scan_gate_def report_scan_def optional_text_def Let_def by (intro calls) simp_all

lemma collected_mono: "collected env files h \<Longrightarrow> collected env files (h @ h')"
  by (auto simp: collected_def)

lemma collectedI:
  "(Read_entries, a) \<in> set h \<Longrightarrow> snd (collect_publish_set (pe_codec env) (case pa_entries a of None \<Rightarrow> [] | Some es \<Rightarrow> es)) = [] \<Longrightarrow>
     collected env (fst (collect_publish_set (pe_codec env) (case pa_entries a of None \<Rightarrow> [] | Some es \<Rightarrow> es))) h"
  unfolding collected_def by (intro exI conjI, assumption) (rule prod_eqI, simp_all)

text \<open>The files were collected and their scan passed: the rest of the publication.\<close>

lemma okay_scanned:
  assumes "collected env files h" and "scan_passed env opts files h"
  shows "okay (seqE (publish_key env opts) (\<lambda>(keyId, url, key).
      seqE (lift_error Sealing (seal_bundle (pe_crypto env) (bundle_files files) key keyId url)) (\<lambda>bundle.
      seqE (lift_error Entry_problem (build_sealed_readme (pe_codec env) (length files) files)) (\<lambda>readme.
      seqE (prepare_mirror (the (po_target opts))) (\<lambda>_.
      publish_changes_of env opts files key bundle readme))))) (publish_guard env opts) (\<lambda>_ _. True) h"
proof -
  have sealed: "okay (seqE (prepare_mirror (the (po_target opts))) (\<lambda>_. publish_changes_of env opts files key bdl readme)) (publish_guard env opts) (\<lambda>_ _. True) h'"
    if "decided env opts files bdl readme h'" for key bdl readme h'
    by (rule okay_seqI [OF okay_prepare_mirror [OF that]], rule okay_publish_changes)
  show ?thesis
  proof (rule okay_seqI [OF okay_preparing [where P = "\<lambda>h' _. collected env files h' \<and> scan_passed env opts files h'"]])
    fix h' y
    assume "collected env files (h @ h') \<and> scan_passed env opts files (h @ h')"
    then show "okay (case y of (keyId, url, key) \<Rightarrow>
      seqE (lift_error Sealing (seal_bundle (pe_crypto env) (bundle_files files) key keyId url)) (\<lambda>bundle.
      seqE (lift_error Entry_problem (build_sealed_readme (pe_codec env) (length files) files)) (\<lambda>readme.
      seqE (prepare_mirror (the (po_target opts))) (\<lambda>_.
      publish_changes_of env opts files key bundle readme)))) (publish_guard env opts) (\<lambda>_ _. True) (h @ h')"
      by (cases y) (simp only: prod.case okay_seqE [of "lift_error _ _"] okay_pub_lift, intro allI impI sealed, unfold decided_def, blast)
  qed (use assms in \<open>auto intro!: calls collected_mono scan_passed_mono\<close>)
qed

lemma okay_publish_own: "okay (publish_own env opts) (publish_guard env opts) (\<lambda>_ _. True) []"
proof -
  have main: "okay (seqE (scan_gate env opts files) (\<lambda>_. m)) (publish_guard env opts) (\<lambda>_ _. True) h"
    if c: "collected env files h" and m: "\<And>h'. collected env files (h @ h') \<Longrightarrow> scan_passed env opts files (h @ h') \<Longrightarrow>
      okay m (publish_guard env opts) (\<lambda>_ _. True) (h @ h')" for files h and m :: "publish_result pub_io"
    by (rule okay_seqI [OF okay_conj [OF okay_preparing [OF uses_scan_gate, of "\<lambda>h' _. collected env files h'"] okay_scan_gate]])
      (use c m in \<open>auto intro: collected_mono\<close>)
  have entries: "okay (ask Read_entries) (publish_guard env opts) (\<lambda>h' a. (Read_entries, a) \<in> set h') []"
    by (simp add: okay_pub_ask guard_preparing)
  show ?thesis
  proof (cases "is_set (po_target opts) \<and> is_set (po_keyserver opts)")
    case True
    show ?thesis
      unfolding publish_own_def using True
      by (simp only: if_False simp_thms, intro okay_seqI [OF entries])
        (auto simp only: Let_def split_beta okay_if okay_throw append_Nil intro!: main okay_scanned [simplified split_beta] elim!: collectedI)
  qed (auto simp: publish_own_def)
qed

text \<open>
  C16: In every execution of a publication, whatever git, the mirror directory, the key provider and
  the user answer: a push happens only when the publish set collected from the entries has no
  invalid entry, its scan under the recorded allow set found nothing, the user approved and it is no
  dry run; and immediately before it the mirror was read back as exactly README.md and the sealed
  bundle of that set, whose every unsealed entry is public, then committed, as the only commit.
  Every call that can change the mirror's files, branches or history comes after that set was
  collected, scanned and sealed; and also after the approval, save those that only bring the mirror
  to what the target has published: the clone and the fetch of the target, the reset to the head
  the remote named, and the removal of what is not tracked.
\<close>

theorem publish_pushes_only_checked_bundle:
  assumes "exec (publish_own env opts) (pre @ (c, r) # post) x"
  shows "(is_push c \<longrightarrow> verified env opts pre) \<and>
    (alters_mirror c \<longrightarrow>
       (\<exists>files bundle readme. decided env opts files bundle readme pre) \<and> (to_published opts pre c \<or> approved opts pre))"
  using okay_exec_call [OF okay_publish_own assms] by (simp add: publish_guard_def)

subsection \<open>A concrete publication\<close>

text \<open>One public entry without text, a fresh mirror, and a world in which every call succeeds.\<close>

definition demo_codec :: entry_codec where
  "demo_codec = \<lparr>yaml_load = (\<lambda>_. Inr None), yaml_dump = (\<lambda>_. []), matter_language = (\<lambda>_. []),
     matter = (\<lambda>_ _. Inr (JObj [(lit ''visibility'', JStr (lit ''public''))], []))\<rparr>"

definition demo_env :: pub_env where
  "demo_env = \<lparr>pe_codec = demo_codec, pe_crypto = toy_crypto, pe_platform = toy_platform, pe_sha = (\<lambda>_. [])\<rparr>"

definition demo_opts :: pub_opts where
  "demo_opts = \<lparr>po_target = Some (lit ''m''), po_keyserver = Some (lit ''u''), po_keyId = lit ''k'', po_dryRun = False,
     po_yes = True, po_allow = [], po_saveAllow = False\<rparr>"

definition demo_file :: publish_file where
  "demo_file = \<lparr>relPath = lit ''a.md'', content = [], showcase = False\<rparr>"

definition demo_readme :: jstr where
  "demo_readme = trim_end (join [10] (readme_head 1)) @ [10]"

definition demo_answer :: "bytes \<Rightarrow> pub_call \<Rightarrow> pub_answer" where
  "demo_answer b c = \<lparr>pa_failed = (if c = User_name \<or> c = Home_dir then Some [] else None),
     pa_out = (case c of Git_raw (a # _) \<Rightarrow> if a = lit ''rev-list'' then [49] else if a = lit ''ls-remote'' then [] else lit ''m'' | _ \<Rightarrow> []),
     pa_flag = False,
     pa_bytes = (case c of Read_mirror n \<Rightarrow> Some (if n = bundle_path then b else utf8_encode demo_readme) | _ \<Rightarrow> None),
     pa_names = (case c of Walk_mirror \<Rightarrow> [readme_path, bundle_path] | _ \<Rightarrow> []),
     pa_entries = Some [(lit ''a.md'', [])], pa_key = Inr (zeros 32)\<rparr>"

lemma run_calls [run_eval]:
  "run (ask c) w h = ([(c, w h c)], case pa_failed (w h c) of Some e \<Rightarrow> Inl (Failed e) | None \<Rightarrow> Inr (w h c))"
  "run (tell c) w h = ([(c, w h c)], Inr ())"
  "run (lift_error f x) w h = ([], case x of Inl e \<Rightarrow> Inl (f e) | Inr y \<Rightarrow> Inr y)"
  "run (ask_key c) w h = ([(c, w h c)], case pa_key (w h c) of Inl e \<Rightarrow> Inl (Key_problem e) | Inr k \<Rightarrow> Inr k)"
  "run (optional_text c) w h = ([(c, w h c)], Inr (optional_answer (w h c)))"
  "run (quiet c) w h = ([(c, w h c)], Inr (case pa_failed (w h c) of None \<Rightarrow> pa_out (w h c) | Some _ \<Rightarrow> []))"
  by (simp_all add: ask_def tell_def lift_error_def ask_key_def optional_text_def quiet_def run_bind retE_def optional_answer_def Let_def
      split: option.splits)

lemma demo_parse: "parse_markdown demo_codec False (utf8_decode []) =
    Inr \<lparr>pm_frontmatter = JObj [(lit ''visibility'', JStr (lit ''public''))], pm_body = [], pm_sections = extract_sections []\<rparr>"
proof -
  have "utf8_decode [] = []" using utf8_roundtrip_ascii [of "[]"] by (simp add: utf8_encode_def)
  then show ?thesis
    by (simp add: parse_markdown_def demo_codec_def limited_def assert_utf8_limit_def byte_length_ascii starts_with_def Let_def)
qed

lemma demo_visibility: "visibility_of demo_codec [] = Inr Public"
  by (simp add: visibility_of_def demo_parse classify_visibility_def obj_get_def)

lemma demo_collect: "collect_publish_set demo_codec [(lit ''a.md'', [])] = ([demo_file], [])"
  by (simp add: demo_visibility is_showcase_def demo_parse demo_file_def obj_get_def)

lemma demo_bundle: "bundle_files [demo_file] = [note_file]"
  by (simp add: bundle_files_def demo_file_def note_file_def)

lemma demo_built: "build_sealed_readme demo_codec (Suc 0) [demo_file] = Inr demo_readme"
  by (simp add: build_sealed_readme_def showcase_order_def demo_file_def demo_readme_def Let_def)

lemma demo_readme_roundtrip: "utf8_decode (utf8_encode demo_readme) = demo_readme"
proof (rule utf8_roundtrip_ascii, rule ballI)
  fix c assume "c \<in> set demo_readme"
  then have "c = 10 \<or> c \<in> set (join [10] (readme_head 1))"
    by (auto simp: demo_readme_def trim_end_def dest!: set_dropWhileD)
  moreover have "\<forall>l \<in> set (readme_head 1). \<forall>c \<in> set l. c < 128"
    by (simp add: readme_head_def) (simp add: lit_def nat_str.simps)
  ultimately show "c < 128" using set_join [of "[10]" "readme_head 1"] by fastforce
qed

lemma demo_scan: "fst (scan_publish_files (\<lambda>_. []) [] [] [demo_file]) = []"
proof -
  have "file_lines demo_file = [[]]"
    using utf8_roundtrip_ascii [of "[]"] by (simp add: demo_file_def utf8_encode_def split_lines_free)
  moreover have "block_opts [] (lit ''a.md'') [] (Suc 0) [] = []" by code_simp
  ultimately show ?thesis
    by (simp add: scan_publish_files_def scan_files_def scan_file_def scan_line_eq on_blocking_def on_warnings_def demo_file_def
        Let_def split: prod.split)
qed

lemma published_answer_simps [simp]:
  "pa_failed (demo_answer b c) = (if c = User_name \<or> c = Home_dir then Some [] else None)" "pa_flag (demo_answer b c) = False"
  "pa_bytes (demo_answer b (Read_mirror n)) = Some (if n = bundle_path then b else utf8_encode demo_readme)"
  "pa_bytes (demo_answer b Read_allow) = None" "pa_names (demo_answer b Walk_mirror) = [readme_path, bundle_path]"
  "pa_names (demo_answer b List_mirror) = []" "pa_entries (demo_answer b c) = Some [(lit ''a.md'', [])]" "pa_key (demo_answer b c) = Inr (zeros 32)"
  by (simp_all add: demo_answer_def)

lemma demo_git [simp]:
  "pa_out (demo_answer b (Git_raw (a # args))) = (if a = lit ''rev-list'' then [49] else if a = lit ''ls-remote'' then [] else lit ''m'')"
  by (simp add: demo_answer_def)

lemma published_texts: "trim (lit ''m'') = lit ''m''" "trim [] = []" "commit_count [49] = Some (Suc 0)" "lit ''m'' \<noteq> tmp_branch"
  "readme_path \<noteq> bundle_path"
  by (simp_all add: trim_def trim_end_def is_space_def lit_def commit_count_def is_digit_def tmp_branch_def readme_path_def bundle_path_def)

lemma demo_sel [simp]:
  "pe_codec demo_env = demo_codec" "pe_crypto demo_env = toy_crypto" "pe_platform demo_env = toy_platform" "pe_sha demo_env = (\<lambda>_. [])"
  "po_target demo_opts = Some (lit ''m'')" "po_keyserver demo_opts = Some (lit ''u'')" "po_keyId demo_opts = lit ''k''"
  "\<not> po_dryRun demo_opts" "po_yes demo_opts" "po_allow demo_opts = []" "\<not> po_saveAllow demo_opts"
  by (simp_all add: demo_env_def demo_opts_def)

text \<open>What a program returns in a world that does not look at the history, and the calls of its continuation.\<close>

definition gives :: "'a pub_io \<Rightarrow> (pub_call \<Rightarrow> pub_answer) \<Rightarrow> 'a \<Rightarrow> bool" where
  "gives m w x \<longleftrightarrow> (\<forall>h. snd (run m (\<lambda>_. w) h) = Inr x)"

definition calls_in :: "'a pub_io \<Rightarrow> (pub_call \<Rightarrow> pub_answer) \<Rightarrow> pub_call \<Rightarrow> bool" where
  "calls_in m w c \<longleftrightarrow> (\<forall>h. (c, w c) \<in> set (fst (run m (\<lambda>_. w) h)))"

lemma calls_in_seqE: "gives m w x \<Longrightarrow> calls_in (f x) w c \<Longrightarrow> calls_in (seqE m f) w c"
  unfolding calls_in_def gives_def run_seqE by (auto split: prod.splits sum.splits) (metis fst_conv snd_conv sum.inject(2) sum.simps(4))+

lemma gives_lift: "gives (lift_error f (Inr x)) w x"
  by (simp add: gives_def run_eval)

lemma gives_ask: "pa_failed (w c) = None \<Longrightarrow> gives (ask c) w (w c)"
  by (simp add: gives_def run_eval)

lemma gives_seqE: "gives m w x \<Longrightarrow> gives (f x) w y \<Longrightarrow> gives (seqE m f) w y"
  unfolding gives_def run_seqE by (auto split: prod.splits sum.splits) (metis fst_conv snd_conv sum.inject(2) sum.simps(4))+

lemma gives_retE: "gives (retE x) w x"
  by (simp add: gives_def run_eval)

lemma gives_tells: "gives (for_each ls () (\<lambda>l _. tell (f l))) w ()"
  by (induction ls) (auto simp: gives_def run_eval split_beta)

lemma demo_scan_gate: "gives (scan_gate demo_env demo_opts [demo_file]) (demo_answer b) ()"
proof -
  have ids: "publish_self_identity_tokens None None = []" by (simp add: publish_self_identity_tokens_def add_identity_def)
  obtain ws where sc: "scan_publish_files (\<lambda>_. []) [] [] [demo_file] = ([], ws)" using demo_scan by (metis prod.collapse)
  have "gives (report_scan demo_opts [] ws) (demo_answer b) ()"
    unfolding report_scan_def by (rule gives_seqE [OF gives_tells]) (simp add: gives_def run_eval)
  then show ?thesis
    by (simp add: gives_def run_eval scan_gate_def load_publish_allow_def allow_text_def optional_answer_def ids sc split_beta)
qed

lemma demo_key: "gives (publish_key demo_env demo_opts) (demo_answer b) (lit ''keyserver:k'', lit ''https://u'', zeros 32)"
  by (simp add: gives_def run_eval publish_key_def toy_url Let_def) (simp add: lit_def)

lemma demo_prepare: "gives (prepare_mirror (lit ''m'')) (demo_answer b) ()"
  by (simp add: gives_def run_eval prepare_mirror_def git_raw_def published_texts Let_def)

lemma demo_branch: "gives current_branch (demo_answer b) (lit ''m'')"
  by (simp add: gives_def run_eval current_branch_def git_raw_def published_texts Let_def)

lemma demo_compare: "gives (compare_mirror (lit ''m'') b demo_readme) (demo_answer b) (Some b, False, False)"
  by (simp add: gives_def run_eval compare_mirror_def git_raw_def published_texts Let_def remote_branch_sha_def local_head_sha_def
      demo_readme_roundtrip split_lines_free)

lemma demo_diff: "\<exists>c. gives (build_publish_diff demo_env (Some b) [demo_file]) (demo_answer b) c"
proof (cases "read_sealed_header b")
  case (Inl e)
  then show ?thesis by (auto simp: gives_def run_eval build_publish_diff_def)
next
  case (Inr p)
  then show ?thesis
    by (cases p; cases "unseal_bundle toy_crypto b (zeros 32)") (auto simp: gives_def run_eval build_publish_diff_def)
qed

lemma demo_mirror:
  assumes "unseal_bundle toy_crypto b (zeros 32) = Inr (hdr, [note_file])"
  shows "calls_in (publish_mirror demo_env (lit ''m'') (zeros 32) b demo_readme (Suc 0) changes) (demo_answer b) (push_call (lit ''m''))"
proof -
  have order: "sort [readme_path, bundle_path] = [readme_path, bundle_path]" by (simp add: readme_path_def bundle_path_def lit_def)
  have pub: "all_public demo_codec [note_file]" by (simp add: all_public_def note_file_def demo_visibility)
  show ?thesis
    unfolding publish_mirror_def
    by (simp add: calls_in_def run_eval checkout_orphan_def write_sealed_mirror_def verify_sealed_mirror_def commit_sealed_mirror_def
        read_mirror_def git_raw_def count_call_def push_call_def published_texts demo_readme_roundtrip order pub assms del: sort_key_simps)
qed

lemma demo_publish:
  assumes "seal_bundle toy_crypto [note_file] (zeros 32) (lit ''keyserver:k'') (lit ''https://u'') = Inr b"
    and "unseal_bundle toy_crypto b (zeros 32) = Inr (hdr, [note_file])"
  shows "calls_in (publish_own demo_env demo_opts) (demo_answer b) (push_call (lit ''m''))"
proof -
  obtain c where c: "gives (build_publish_diff demo_env (Some b) [demo_file]) (demo_answer b) c" using demo_diff by blast
  have "calls_in (publish_difference demo_env demo_opts [demo_file] (zeros 32) b demo_readme (lit ''m'') (Some b) False) (demo_answer b) (push_call (lit ''m''))"
    unfolding publish_difference_def
    by (rule calls_in_seqE [OF c], rule calls_in_seqE [OF gives_tells], rule calls_in_seqE [where x = "()"], simp add: gives_def run_eval)
      (use demo_mirror [OF assms(2)] in \<open>simp add: calls_in_seqE [where x = "()"] approve_def gives_retE\<close>)
  then have main: "calls_in (publish_changes_of demo_env demo_opts [demo_file] (zeros 32) b demo_readme) (demo_answer b) (push_call (lit ''m''))"
    unfolding publish_changes_of_def by (intro calls_in_seqE [OF demo_branch] calls_in_seqE [OF demo_compare]) simp
  have found: "collect_publish_set demo_codec (case pa_entries (demo_answer b Read_entries) of None \<Rightarrow> [] | Some es \<Rightarrow> es) = ([demo_file], [])"
    using demo_collect by simp
  show ?thesis
    unfolding publish_own_def is_set_def demo_sel
    apply (simp del: collect_publish_set.simps)
    apply (rule calls_in_seqE [OF gives_ask], simp)
    apply (simp add: found demo_bundle demo_built assms(1) del: collect_publish_set.simps published_answer_simps)
    apply (rule calls_in_seqE [OF demo_scan_gate], rule calls_in_seqE [OF demo_key])
    apply (simp add: demo_bundle demo_built assms(1))
    apply (rule calls_in_seqE [OF gives_lift], rule calls_in_seqE [OF gives_lift], rule calls_in_seqE [OF demo_prepare], rule main)
    done
qed

theorem publish_pushes_only_checked_bundle_witness:
  "\<exists>pre r post x. exec (publish_own demo_env demo_opts) (pre @ (push_call (lit ''m''), r) # post) x \<and> verified demo_env demo_opts pre"
proof -
  have "\<exists>b. seal_bundle toy_crypto [note_file] (zeros 32) (lit ''keyserver:k'') (lit ''https://u'') = Inr b"
    using note_valid short_row by (intro sealed_exists_at) (simp_all add: paths_ok_def note_file_def)
  then obtain b where b: "seal_bundle toy_crypto [note_file] (zeros 32) (lit ''keyserver:k'') (lit ''https://u'') = Inr b" ..
  have "\<forall>f \<in> set [note_file]. units (b_relPath f)" "units (lit ''keyserver:k'')" "units (lit ''https://u'')"
    by (simp_all add: text_ok_units text_ok_lit note_file_def)
  from unseal_sealed [OF toy_crypto_ok this _ b] obtain hdr where "unseal_bundle toy_crypto b (zeros 32) = Inr (hdr, [note_file])"
    by auto
  from demo_publish [OF b this] obtain pre post where t: "fst (run (publish_own demo_env demo_opts) (\<lambda>_. demo_answer b) []) =
      pre @ (push_call (lit ''m''), demo_answer b (push_call (lit ''m''))) # post"
    unfolding calls_in_def by (metis split_list)
  obtain x where "exec (publish_own demo_env demo_opts) (pre @ (push_call (lit ''m''), demo_answer b (push_call (lit ''m''))) # post) x"
    using exec_run [of "publish_own demo_env demo_opts" "\<lambda>_. demo_answer b" "[]"] t by (metis prod.collapse)
  with publish_pushes_only_checked_bundle [OF this] show ?thesis by (auto simp: push_call_def)
qed

end
