(* ===== verification/AutoSync.thy ===== *)
theory AutoSync
  imports Effects Remote Json PublishScan "HOL-Library.List_Lexorder"
begin

text \<open>
  The background cycle: \<open>packages/core/src/autoSync.ts\<close> and \<open>periodicSync.ts\<close>. A cycle takes the
  cycle lock and the index lock, pulls the community sources, attempts the own synchronisation unless
  repeated failures have put it on a backoff, reindexes, tells the user what changed and stores its
  state. Locks, clock, git, index and files are calls with arbitrary answers; the decisions, the
  failure counter, the backoff and the notification are computed. Times are milliseconds. Lemmas: what
  the trace of a cycle attempts and stores (\<open>cycle_kept\<close>), the stored state is read back, and
  over sequences of cycles and resets (\<open>sync_chain\<close>) what the counter counts and how attempts are
  spaced.
\<close>

definition ms_minute :: int where "ms_minute = 60 * 1000"
definition ms_hour :: int where "ms_hour = 60 * ms_minute"
definition debounce_ms :: int where "debounce_ms = 15 * ms_minute"
definition write_lock_wait_ms :: int where "write_lock_wait_ms = 30000"
definition suspend_threshold :: nat where "suspend_threshold = 3"
definition degraded_retry_ms :: int where "degraded_retry_ms = 6 * ms_hour"
definition notice_repeat_ms :: int where "notice_repeat_ms = 24 * ms_hour"

subsection \<open>The stored state\<close>

record own_state =
  os_signature :: "jstr option"
  os_count :: nat
  os_lastAttemptAt :: "jstr option"

record auto_state =
  as_finishedAt :: jstr
  as_startedAt :: "jstr option"
  as_contextSha :: "jstr option"
  as_signature :: jstr
  as_lastNotifiedAt :: "jstr option"
  as_own :: own_state

text \<open>
  \<open>Date\<close>: \<open>to_iso\<close> is \<open>toISOString\<close>, \<open>date_parse\<close> is \<open>Date.parse\<close>, None for NaN; which other
  texts than ISO ones it parses is left to the engine.
\<close>

record calendar =
  to_iso :: "int \<Rightarrow> jstr"
  date_parse :: "jstr \<Rightarrow> int option"

definition parses_iso :: "calendar \<Rightarrow> bool" where
  "parses_iso cal \<longleftrightarrow> (\<forall>t. date_parse cal (to_iso cal t) = Some t)"

fun optional_string :: "json option \<Rightarrow> bool" where
  "optional_string None = True"
| "optional_string (Some (JStr _)) = True"
| "optional_string (Some _) = False"

definition valid_own_state :: "json \<Rightarrow> bool" where
  "valid_own_state own \<longleftrightarrow> is_object own \<and>
     (get_member own ''consecutiveFailureSignature'' = Some JNull \<or> as_str (get_member own ''consecutiveFailureSignature'') \<noteq> None) \<and>
     (case as_int (get_member own ''consecutiveFailureCount'') of Some n \<Rightarrow> 0 \<le> n | None \<Rightarrow> False) \<and>
     optional_string (get_member own ''lastAttemptAt'')"

definition is_auto_state :: "calendar \<Rightarrow> json \<Rightarrow> bool" where
  "is_auto_state cal v \<longleftrightarrow> is_object v \<and>
     as_str (get_member v ''finishedAt'') \<noteq> None \<and>
     (case get_member v ''startedAt'' of None \<Rightarrow> True | Some (JStr s) \<Rightarrow> date_parse cal s \<noteq> None | _ \<Rightarrow> False) \<and>
     (case get_member v ''contextSha256'' of None \<Rightarrow> True | Some (JStr s) \<Rightarrow> digest_re s | _ \<Rightarrow> False) \<and>
     as_str (get_member v ''signature'') \<noteq> None \<and>
     optional_string (get_member v ''lastNotifiedAt'') \<and>
     (case get_member v ''ownSync'' of Some own \<Rightarrow> valid_own_state own | None \<Rightarrow> False)"

definition own_state_of :: "json \<Rightarrow> own_state" where
  "own_state_of own = \<lparr>os_signature = as_str (get_member own ''consecutiveFailureSignature''),
     os_count = nat (the (as_int (get_member own ''consecutiveFailureCount''))),
     os_lastAttemptAt = as_str (get_member own ''lastAttemptAt'')\<rparr>"

definition read_auto_state :: "calendar \<Rightarrow> jstr option \<Rightarrow> auto_state option" where
  "read_auto_state cal file =
     (case file of
        None \<Rightarrow> None
      | Some t \<Rightarrow>
          (case json_parse t of
             None \<Rightarrow> None
           | Some v \<Rightarrow>
               (if is_auto_state cal v
                then Some \<lparr>as_finishedAt = the (as_str (get_member v ''finishedAt'')), as_startedAt = as_str (get_member v ''startedAt''),
                  as_contextSha = as_str (get_member v ''contextSha256''), as_signature = the (as_str (get_member v ''signature'')),
                  as_lastNotifiedAt = as_str (get_member v ''lastNotifiedAt''), as_own = own_state_of (the (get_member v ''ownSync''))\<rparr>
                else None)))"

definition optional_member :: "string \<Rightarrow> jstr option \<Rightarrow> (jstr \<times> json) list" where
  "optional_member k v = (case v of None \<Rightarrow> [] | Some s \<Rightarrow> [(lit k, JStr s)])"

definition auto_state_text :: "auto_state \<Rightarrow> jstr" where
  "auto_state_text st = json_stringify (JObj
     ([(lit ''finishedAt'', JStr (as_finishedAt st))] @ optional_member ''startedAt'' (as_startedAt st) @
      optional_member ''contextSha256'' (as_contextSha st) @ [(lit ''signature'', JStr (as_signature st))] @
      optional_member ''lastNotifiedAt'' (as_lastNotifiedAt st) @
      [(lit ''ownSync'', JObj ([(lit ''consecutiveFailureSignature'', case os_signature (as_own st) of None \<Rightarrow> JNull | Some s \<Rightarrow> JStr s),
          (lit ''consecutiveFailureCount'', jint (int (os_count (as_own st))))] @ optional_member ''lastAttemptAt'' (os_lastAttemptAt (as_own st))))]))"

definition fresh_own :: own_state where
  "fresh_own = \<lparr>os_signature = None, os_count = 0, os_lastAttemptAt = None\<rparr>"

text \<open>\<open>resetAutoSyncFailureState\<close>: the state a manual synchronisation leaves.\<close>

definition reset_state :: "calendar \<Rightarrow> auto_state option \<Rightarrow> auto_state" where
  "reset_state cal current =
     (case current of
        None \<Rightarrow> \<lparr>as_finishedAt = to_iso cal 0, as_startedAt = None, as_contextSha = None, as_signature = [], as_lastNotifiedAt = None,
          as_own = fresh_own\<rparr>
      | Some st \<Rightarrow> st\<lparr>as_own := fresh_own\<rparr>)"

definition parse_timestamp :: "calendar \<Rightarrow> jstr option \<Rightarrow> int" where
  "parse_timestamp cal v = (case v of None \<Rightarrow> 0 | Some s \<Rightarrow> (case date_parse cal s of None \<Rightarrow> 0 | Some ms \<Rightarrow> ms))"

subsection \<open>The outcome of the own synchronisation\<close>

datatype own_disposition = Success | Skip | Network_skip | Fail

definition probe_request_failed :: jstr where
  "probe_request_failed = lit ''anonymous read probe request failed''"

definition classify_own_sync_outcome :: "sync_error \<Rightarrow> remote_access option \<Rightarrow> own_disposition" where
  "classify_own_sync_outcome err lastProbe =
     (case err of
        Sync_code c \<Rightarrow>
          (if c \<in> {NOT_A_REPO, NO_REMOTE, EXTERNAL_TOPLEVEL, DETACHED_HEAD, OWN_REPO_EXISTS, BOTH_HAVE_ENTRIES, WORKTREE_DIRTY, SYNC_BUSY}
           then Skip
           else if c = REMOTE_VISIBILITY_INDETERMINATE
           then (if lastProbe = Some (Indeterminate probe_request_failed) then Network_skip else Fail)
           else Fail)
      | _ \<Rightarrow> Fail)"

text \<open>The names of the codes are the code's own.\<close>

fun code_name :: "sync_code \<Rightarrow> jstr" where
  "code_name CAVEAT_GIT_ENV_UNSAFE = lit ''CAVEAT_GIT_ENV_UNSAFE''"
| "code_name NOT_A_REPO = lit ''NOT_A_REPO''"
| "code_name EXTERNAL_TOPLEVEL = lit ''EXTERNAL_TOPLEVEL''"
| "code_name DETACHED_HEAD = lit ''DETACHED_HEAD''"
| "code_name NO_REMOTE = lit ''NO_REMOTE''"
| "code_name REMOTE_PUBLIC = lit ''REMOTE_PUBLIC''"
| "code_name REMOTE_VISIBILITY_INDETERMINATE = lit ''REMOTE_VISIBILITY_INDETERMINATE''"
| "code_name SYNC_CONFLICT = lit ''SYNC_CONFLICT''"
| "code_name REBASE_IN_PROGRESS = lit ''REBASE_IN_PROGRESS''"
| "code_name OWN_REPO_EXISTS = lit ''OWN_REPO_EXISTS''"
| "code_name BOTH_HAVE_ENTRIES = lit ''BOTH_HAVE_ENTRIES''"
| "code_name WORKTREE_DIRTY = lit ''WORKTREE_DIRTY''"
| "code_name SYNC_BUSY = lit ''SYNC_BUSY''"
| "code_name c = (case map_of account_codes c of Some t \<Rightarrow> t | None \<Rightarrow> [])"

fun phase_name :: "sync_phase \<Rightarrow> jstr" where
  "phase_name Inspect = lit ''INSPECT''"
| "phase_name Pull = lit ''PULL''"
| "phase_name Push = lit ''PUSH''"
| "phase_name Fetch = lit ''FETCH''"

fun sync_failure_code :: "sync_error \<Rightarrow> jstr" where
  "sync_failure_code (Sync_code c) = code_name c"
| "sync_failure_code (Remote_error p) = lit ''REMOTE_'' @ phase_name p @ lit ''_FAILED''"
| "sync_failure_code Recovery_error = lit ''RECOVERY_FAILED''"
| "sync_failure_code (Other_error _) = lit ''UNKNOWN''"

record own_outcome =
  ow_disposition :: own_disposition
  ow_code :: "jstr option"
  ow_pulled :: "bool option"
  ow_changedFiles :: "nat option"
  ow_suspended :: bool
  ow_escalated :: bool
  ow_degraded :: bool

text \<open>What an attempt gave: the error and the last probe, or whether updates came and how many files changed.\<close>

type_synonym attempt = "(sync_error \<times> remote_access option) + (bool \<times> nat)"

definition plain_outcome :: "own_disposition \<Rightarrow> own_outcome" where
  "plain_outcome d = \<lparr>ow_disposition = d, ow_code = None, ow_pulled = None, ow_changedFiles = None, ow_suspended = False,
     ow_escalated = False, ow_degraded = False\<rparr>"

definition own_due :: "calendar \<Rightarrow> int \<Rightarrow> own_state \<Rightarrow> bool" where
  "own_due cal now st \<longleftrightarrow>
     \<not> (suspend_threshold \<le> os_count st \<and> now - parse_timestamp cal (os_lastAttemptAt st) < degraded_retry_ms)"

definition failed_own :: "(jstr \<Rightarrow> jstr) \<Rightarrow> jstr \<Rightarrow> sync_error \<Rightarrow> own_state \<Rightarrow> own_state" where
  "failed_own sha now_iso err st =
     (let sig = sha (sync_failure_code err) in
      \<lparr>os_signature = Some sig, os_count = (if os_signature st = Some sig then os_count st + 1 else 1), os_lastAttemptAt = Some now_iso\<rparr>)"

definition attempt_own :: "(jstr \<Rightarrow> jstr) \<Rightarrow> jstr \<Rightarrow> own_state \<Rightarrow> attempt \<Rightarrow> own_outcome \<times> own_state" where
  "attempt_own sha now_iso st a =
     (let tried = st\<lparr>os_lastAttemptAt := Some now_iso\<rparr> in
      case a of
        Inr (pulled, changed) \<Rightarrow>
          ((plain_outcome Success)\<lparr>ow_pulled := Some pulled, ow_changedFiles := Some changed\<rparr>, fresh_own)
      | Inl (err, probe) \<Rightarrow>
          (let d = classify_own_sync_outcome err probe; code = sync_failure_code err;
               out = (plain_outcome d)\<lparr>ow_code := (if code = lit ''UNKNOWN'' then None else Some code)\<rparr> in
           if d \<noteq> Fail then (out, tried)
           else (let st' = failed_own sha now_iso err tried in
                 (out\<lparr>ow_escalated := (os_count st' = suspend_threshold)\<rparr>, st'))))"

definition mark_degraded :: "own_outcome \<times> own_state \<Rightarrow> own_outcome \<times> own_state" where
  "mark_degraded p = (case p of (out, st) \<Rightarrow> (out\<lparr>ow_degraded := (suspend_threshold \<le> os_count st)\<rparr>, st))"

subsection \<open>The notification\<close>

record community_status =
  cs_handle :: jstr
  cs_failed :: "jstr option"

record sync_outcome =
  so_community :: "community_status list"
  so_own :: own_outcome

definition retry_text :: "bool \<Rightarrow> jstr" where
  "retry_text managed =
     (if managed then lit ''call the Caveat MCP tool caveat_sync with {}. If unavailable, stop; do not use a PATH command or another context''
      else lit ''run `caveat sync`'')"

definition notification_lines :: "sync_outcome \<Rightarrow> bool \<Rightarrow> jstr list" where
  "notification_lines outcome managed =
     (let own = so_own outcome;
          failedHandles = sort (map cs_handle (filter (\<lambda>c. cs_failed c \<noteq> None) (so_community outcome))) in
      (if ow_pulled own = Some True then [lit ''autosync: pulled updates from your private remote''] else []) @
      (if ow_degraded own
       then [lit ''autosync: own sync keeps failing; auto-retry is backed off to every 6h. '' @ retry_text managed @ lit '' to resolve now.'']
       else if ow_disposition own = Fail
       then [lit ''autosync: own sync failed ('' @ (case ow_code own of None \<Rightarrow> lit ''UNKNOWN'' | Some c \<Rightarrow> c) @ lit ''). '' @
             retry_text managed @ lit '' to resolve.'']
       else []) @
      (if failedHandles = [] then []
       else [lit ''autosync: community pull failed: '' @ join (lit '', '') failedHandles]))"

definition auto_sync_notification :: "(jstr \<Rightarrow> jstr) \<Rightarrow> sync_outcome \<Rightarrow> bool \<Rightarrow> jstr \<times> jstr option" where
  "auto_sync_notification sha outcome managed =
     (let lines = notification_lines outcome managed in
      (sha (json_stringify (JArr (map JStr lines))), if lines = [] then None else Some (join [10] lines)))"

definition should_notify :: "calendar \<Rightarrow> int \<Rightarrow> auto_state option \<Rightarrow> own_outcome \<Rightarrow> jstr \<Rightarrow> jstr option \<Rightarrow> bool" where
  "should_notify cal now previous own sig message \<longleftrightarrow> message \<noteq> None \<and>
     (map_option as_signature previous \<noteq> Some sig \<or>
      (ow_degraded own \<and> notice_repeat_ms \<le> now - parse_timestamp cal (Option.bind previous as_lastNotifiedAt)))"

subsection \<open>One cycle\<close>

datatype auto_call =
    Env_off | Acquire_cycle | Acquire_index | Clock | Read_state | Community_pull | Own_sync bool
  | Prewarm | Make_index_dir | Open_db | Reindex_all | Write_marker | Close_db
  | Managed_guidance | Append_reminder jstr | Write_state jstr | Release_index | Release_cycle | Warn_log jstr
  | Monotonic | Sleep int
  | Acquire_periodic | Release_periodic | Read_periodic | Write_periodic jstr

record auto_answer =
  aa_failed :: "jstr option"
  aa_flag :: bool
  aa_time :: int
  aa_text :: "jstr option"
  aa_names :: "jstr list"
  aa_community :: "community_status list"
  aa_attempt :: attempt

type_synonym 'a auto_io = "(auto_call, auto_answer, jstr + 'a) io"

definition ask :: "auto_call \<Rightarrow> auto_answer auto_io" where
  "ask c = Do c (\<lambda>a. Ret (case aa_failed a of Some m \<Rightarrow> Inl m | None \<Rightarrow> Inr a))"

text \<open>A call that does not throw.\<close>

definition look :: "auto_call \<Rightarrow> auto_answer auto_io" where
  "look c = Do c (\<lambda>a. Ret (Inr a))"

record auto_opts =
  ao_ownDir :: jstr
  ao_dbPath :: jstr
  ao_entriesDir :: jstr
  ao_communityDir :: jstr
  ao_githubUser :: "jstr option"
  ao_refuse :: bool
  ao_debounceMs :: "int option"
  ao_writeRequestedAt :: "int option"
  ao_calendar :: calendar
  ao_sha :: "jstr \<Rightarrow> jstr"

datatype skip_reason = Disabled | Sync_busy | Index_busy | Interval_wait | Write_already_synced | Write_lock_timeout

record run_result =
  rr_ran :: bool
  rr_outcome :: "sync_outcome option"
  rr_notified :: "bool option"
  rr_skip :: "skip_reason option"
  rr_cycleFailed :: bool

definition not_run :: "skip_reason \<Rightarrow> run_result" where
  "not_run why = \<lparr>rr_ran = False, rr_outcome = None, rr_notified = None, rr_skip = Some why, rr_cycleFailed = False\<rparr>"

definition cycle_failed :: run_result where
  "cycle_failed = \<lparr>rr_ran = True, rr_outcome = None, rr_notified = None, rr_skip = None, rr_cycleFailed = True\<rparr>"

definition cycle_done :: "sync_outcome \<Rightarrow> bool \<Rightarrow> run_result" where
  "cycle_done outcome notified =
     \<lparr>rr_ran = True, rr_outcome = Some outcome, rr_notified = Some notified, rr_skip = None, rr_cycleFailed = False\<rparr>"

definition context_sha :: "auto_opts \<Rightarrow> jstr" where
  "context_sha opts = ao_sha opts (json_stringify (JArr [JStr (ao_ownDir opts), JStr (ao_dbPath opts), JStr (ao_entriesDir opts),
     JStr (ao_communityDir opts), (case ao_githubUser opts of None \<Rightarrow> JNull | Some u \<Rightarrow> JStr u)]))"

definition write_already_synced :: "auto_opts \<Rightarrow> auto_state option \<Rightarrow> bool" where
  "write_already_synced opts previous \<longleftrightarrow>
     (case (ao_writeRequestedAt opts, previous) of
        (Some w, Some st) \<Rightarrow>
          as_startedAt st \<noteq> None \<and> as_startedAt st \<noteq> Some [] \<and> as_contextSha st = Some (context_sha opts) \<and>
          w < parse_timestamp (ao_calendar opts) (as_startedAt st)
      | _ \<Rightarrow> False)"

definition interval_wait :: "auto_opts \<Rightarrow> int \<Rightarrow> auto_state option \<Rightarrow> bool" where
  "interval_wait opts now previous \<longleftrightarrow>
     (case (ao_writeRequestedAt opts, ao_debounceMs opts, previous) of
        (None, Some d, Some st) \<Rightarrow> now - parse_timestamp (ao_calendar opts) (Some (as_finishedAt st)) < d
      | _ \<Rightarrow> False)"

definition own_part :: "auto_opts \<Rightarrow> int \<Rightarrow> own_state \<Rightarrow> (own_outcome \<times> own_state) auto_io" where
  "own_part opts now st =
     (if \<not> own_due (ao_calendar opts) now st
      then retE (mark_degraded ((plain_outcome Skip)\<lparr>ow_suspended := True\<rparr>, st))
      else seqE (look (Own_sync (ao_refuse opts))) (\<lambda>a.
           retE (mark_degraded (attempt_own (ao_sha opts) (to_iso (ao_calendar opts) now) st (aa_attempt a)))))"

definition reindex_and_mark :: "unit auto_io" where
  "reindex_and_mark =
     seqE (ask Prewarm) (\<lambda>failures.
     seqE (for_each (aa_names failures) () (\<lambda>source _.
             seqE (look (Warn_log (source @ lit '': sealed key prewarm failed''))) (\<lambda>_. retE ()))) (\<lambda>_.
     seqE (ask Make_index_dir) (\<lambda>_.
     seqE (ask Open_db) (\<lambda>_.
     bind (seqE (ask Reindex_all) (\<lambda>_. seqE (ask Write_marker) (\<lambda>_. retE ()))) (\<lambda>x.
     seqE (ask Close_db) (\<lambda>_. Ret x))))))"

definition refused_code :: "own_outcome \<Rightarrow> bool" where
  "refused_code own \<longleftrightarrow> ow_code own = Some (lit ''WORKTREE_DIRTY'') \<or> ow_code own = Some (lit ''SYNC_BUSY'')"

definition new_state :: "auto_opts \<Rightarrow> int \<Rightarrow> auto_state option \<Rightarrow> jstr \<Rightarrow> bool \<Rightarrow> own_state \<Rightarrow> auto_state" where
  "new_state opts now previous sig notified own =
     (let iso = to_iso (ao_calendar opts) now in
      \<lparr>as_finishedAt = iso, as_startedAt = Some iso, as_contextSha = Some (context_sha opts), as_signature = sig,
        as_lastNotifiedAt = (if notified then Some iso else Option.bind previous as_lastNotifiedAt), as_own = own\<rparr>)"

text \<open>After the own part: reindex, tell the user, store the state.\<close>

definition finish_cycle ::
  "auto_opts \<Rightarrow> int \<Rightarrow> auto_state option \<Rightarrow> community_status list \<Rightarrow> own_outcome \<times> own_state \<Rightarrow> run_result auto_io" where
  "finish_cycle opts now previous community p =
     (case p of (own, ownState) \<Rightarrow>
      let outcome = \<lparr>so_community = community, so_own = own\<rparr> in
      if refused_code own then retE (cycle_done outcome False)
      else
        seqE reindex_and_mark (\<lambda>_.
        seqE (look Managed_guidance) (\<lambda>m.
        let (sig, message) = auto_sync_notification (ao_sha opts) outcome (aa_flag m);
            notify = should_notify (ao_calendar opts) now previous own sig message in
        seqE (if notify then seqE (ask (Append_reminder (the message))) (\<lambda>_. retE ()) else retE ()) (\<lambda>_.
        seqE (ask (Write_state (auto_state_text (new_state opts now previous sig notify ownState)))) (\<lambda>_.
        retE (cycle_done outcome notify))))))"

definition previous_own :: "auto_state option \<Rightarrow> own_state" where
  "previous_own previous = (case previous of None \<Rightarrow> fresh_own | Some st \<Rightarrow> as_own st)"

definition cycle_body :: "auto_opts \<Rightarrow> run_result auto_io" where
  "cycle_body opts =
     seqE (look Clock) (\<lambda>t.
     seqE (look Read_state) (\<lambda>s.
     let now = aa_time t; previous = read_auto_state (ao_calendar opts) (aa_text s) in
     if write_already_synced opts previous then retE (not_run Write_already_synced)
     else if interval_wait opts now previous then retE (not_run Interval_wait)
     else
       seqE (ask Community_pull) (\<lambda>c.
       seqE (own_part opts now (previous_own previous)) (\<lambda>p.
       finish_cycle opts now previous (aa_community c) p))))"

text \<open>A lock release in the \<open>finally\<close> block only warns when it fails.\<close>

definition release :: "auto_call \<Rightarrow> unit auto_io" where
  "release c = bind (ask c) (\<lambda>x. case x of
     Inl e \<Rightarrow> seqE (look (Warn_log (lit ''lock release failed: '' @ e))) (\<lambda>_. retE ()) | Inr _ \<Rightarrow> retE ())"

definition warn_failed :: "jstr \<Rightarrow> run_result auto_io" where
  "warn_failed e = seqE (look (Warn_log (lit ''autosync failed: '' @ e))) (\<lambda>_. retE cycle_failed)"

definition cycle_under_lock :: "auto_opts \<Rightarrow> run_result auto_io" where
  "cycle_under_lock opts =
     bind (ask Acquire_index) (\<lambda>x. case x of
       Inl e \<Rightarrow> warn_failed e
     | Inr l \<Rightarrow>
         (if \<not> aa_flag l then retE (not_run Index_busy)
          else finally_do (catch (cycle_body opts) warn_failed) (release Release_index)))"

definition run_auto_sync_cycle :: "auto_opts \<Rightarrow> run_result auto_io" where
  "run_auto_sync_cycle opts =
     seqE (look Env_off) (\<lambda>off.
     if aa_flag off then retE (not_run Disabled)
     else seqE (ask Acquire_cycle) (\<lambda>l.
          if \<not> aa_flag l then retE (not_run Sync_busy)
          else finally_do (cycle_under_lock opts) (release Release_cycle)))"

subsection \<open>A write waits for its cycle\<close>

definition busy_result :: "run_result \<Rightarrow> bool" where
  "busy_result r \<longleftrightarrow> rr_skip r = Some Sync_busy \<or> rr_skip r = Some Index_busy \<or>
     (case rr_outcome r of Some out \<Rightarrow> ow_code (so_own out) = Some (lit ''SYNC_BUSY'') | None \<Rightarrow> False)"

text \<open>The loop of \<open>runAutoSync\<close>; None when it is still waiting after \<open>fuel\<close> cycles.\<close>

fun write_loop :: "nat \<Rightarrow> auto_opts \<Rightarrow> int \<Rightarrow> run_result option auto_io" where
  "write_loop 0 opts deadline = retE None"
| "write_loop (Suc fuel) opts deadline =
     seqE (run_auto_sync_cycle opts) (\<lambda>r.
     if \<not> busy_result r then retE (Some r)
     else seqE (look Monotonic) (\<lambda>t.
          let remaining = deadline - aa_time t in
          if remaining \<le> 0 then retE (Some (r\<lparr>rr_skip := Some Write_lock_timeout\<rparr>))
          else seqE (look (Sleep (min 100 remaining))) (\<lambda>_. write_loop fuel opts deadline)))"

definition safe_integer :: "int \<Rightarrow> bool" where
  "safe_integer n \<longleftrightarrow> \<bar>n\<bar> \<le> 9007199254740991"

definition run_auto_sync :: "nat \<Rightarrow> auto_opts \<Rightarrow> run_result option auto_io" where
  "run_auto_sync fuel opts =
     (case ao_writeRequestedAt opts of
        None \<Rightarrow> seqE (run_auto_sync_cycle opts) (\<lambda>r. retE (Some r))
      | Some w \<Rightarrow>
          (if \<not> safe_integer w \<or> w < 0 then throw (lit ''autosync_write_requested_at_invalid'')
           else seqE (look Monotonic) (\<lambda>t. write_loop fuel opts (aa_time t + write_lock_wait_ms))))"

text \<open>
  \<open>triggerAutoSync\<close>: the arguments of the worker to spawn, None when none is. \<open>age\<close> is the age of
  the state file, None when it is missing or unreadable.
\<close>

definition trigger_auto_sync ::
  "bool \<Rightarrow> int option \<Rightarrow> int \<Rightarrow> int option \<Rightarrow> jstr list \<Rightarrow> jstr \<Rightarrow> jstr + jstr list option" where
  "trigger_auto_sync off writeRequestedAt debounceMs age execArgv cliScript =
     (if off then Inr None
      else if (case writeRequestedAt of None \<Rightarrow> False | Some w \<Rightarrow> \<not> safe_integer w \<or> w < 0)
      then Inl (lit ''autosync_write_requested_at_invalid'')
      else if writeRequestedAt = None \<and> (case age of None \<Rightarrow> False | Some a \<Rightarrow> a < debounceMs) then Inr None
      else if cliScript = [] then Inl (lit ''current Caveat CLI script path is unavailable'')
      else Inr (Some (execArgv @ map lit [''--disable-warning=ExperimentalWarning''] @ [cliScript] @ map lit [''hook'', ''autosync''] @
        (case writeRequestedAt of None \<Rightarrow> [] | Some w \<Rightarrow> [nat_str (nat w)]))))"

subsection \<open>The periodic run\<close>

datatype periodic_status = Run_success | Run_skipped | Run_failed

record periodic_result =
  pp_status :: periodic_status
  pp_reason :: jstr
  pp_startedAt :: jstr
  pp_finishedAt :: jstr

record periodic_state =
  ps_last :: periodic_result
  ps_lastAttempt :: "periodic_result option"
  ps_lastSuccessAt :: "jstr option"
  ps_lastFailure :: "periodic_result option"

fun skip_name :: "skip_reason \<Rightarrow> jstr" where
  "skip_name Disabled = lit ''disabled''"
| "skip_name Sync_busy = lit ''sync_busy''"
| "skip_name Index_busy = lit ''index_busy''"
| "skip_name Interval_wait = lit ''interval_wait''"
| "skip_name Write_already_synced = lit ''write_already_synced''"
| "skip_name Write_lock_timeout = lit ''write_lock_timeout''"

definition code_or :: "jstr option \<Rightarrow> string \<Rightarrow> jstr" where
  "code_or code other = (case code of None \<Rightarrow> lit other | Some c \<Rightarrow> ascii_lower c)"

definition periodic_disposition :: "run_result \<Rightarrow> periodic_status \<times> jstr" where
  "periodic_disposition r =
     (if \<not> rr_ran r then (Run_skipped, case rr_skip r of None \<Rightarrow> lit ''not_run'' | Some w \<Rightarrow> skip_name w)
      else case rr_outcome r of
        None \<Rightarrow> (Run_failed, lit ''cycle_failed'')
      | Some out \<Rightarrow>
          (if rr_cycleFailed r then (Run_failed, lit ''cycle_failed'')
           else if \<exists>c \<in> set (so_community out). cs_failed c \<noteq> None then (Run_failed, lit ''community_failed'')
           else if ow_disposition (so_own out) = Success then (Run_success, lit ''synced_and_indexed'')
           else if ow_suspended (so_own out) then (Run_skipped, lit ''degraded_wait'')
           else if ow_disposition (so_own out) = Skip then (Run_skipped, code_or (ow_code (so_own out)) ''own_skipped'')
           else (Run_failed, code_or (ow_code (so_own out)) ''own_sync_failed'')))"

definition status_name :: "periodic_status \<Rightarrow> jstr" where
  "status_name s = (case s of Run_success \<Rightarrow> lit ''success'' | Run_skipped \<Rightarrow> lit ''skipped'' | Run_failed \<Rightarrow> lit ''failed'')"

definition status_of :: "jstr \<Rightarrow> periodic_status option" where
  "status_of t = find (\<lambda>s. status_name s = t) [Run_success, Run_skipped, Run_failed]"

definition result_schema :: jstr where "result_schema = lit ''caveat.periodic_sync.v1''"
definition state_schema :: jstr where "state_schema = lit ''caveat.periodic_sync_state.v1''"

definition result_json :: "periodic_result \<Rightarrow> json" where
  "result_json r = JObj [(lit ''schema'', JStr result_schema), (lit ''status'', JStr (status_name (pp_status r))),
     (lit ''reason'', JStr (pp_reason r)), (lit ''started_at'', JStr (pp_startedAt r)), (lit ''finished_at'', JStr (pp_finishedAt r))]"

definition nullable :: "('a \<Rightarrow> json) \<Rightarrow> 'a option \<Rightarrow> json" where
  "nullable f v = (case v of None \<Rightarrow> JNull | Some x \<Rightarrow> f x)"

definition periodic_state_text :: "periodic_state \<Rightarrow> jstr" where
  "periodic_state_text st = json_stringify (JObj [(lit ''schema'', JStr state_schema), (lit ''last_result'', result_json (ps_last st)),
     (lit ''last_attempt'', nullable result_json (ps_lastAttempt st)), (lit ''last_success_at'', nullable JStr (ps_lastSuccessAt st)),
     (lit ''last_failure'', nullable result_json (ps_lastFailure st))])"

definition valid_time :: "calendar \<Rightarrow> jstr \<Rightarrow> bool" where
  "valid_time cal t \<longleftrightarrow> date_parse cal t \<noteq> None"

text \<open>\<open>/^[a-z_]{1,64}$/\<close>\<close>

definition reason_ok :: "jstr \<Rightarrow> bool" where
  "reason_ok s \<longleftrightarrow> s \<noteq> [] \<and> length s \<le> 64 \<and> list_all (\<lambda>c. is_lower c \<or> c = 95) s"

text \<open>A stored result that is valid, as the public fields of it.\<close>

definition result_of :: "calendar \<Rightarrow> json \<Rightarrow> periodic_result option" where
  "result_of cal v =
     (case (as_str (get_member v ''schema''), as_str (get_member v ''status''), as_str (get_member v ''reason''),
            as_str (get_member v ''started_at''), as_str (get_member v ''finished_at'')) of
        (Some schema, Some status, Some reason, Some start, Some finish) \<Rightarrow>
          (case status_of status of
             Some s \<Rightarrow>
               (if schema = result_schema \<and> reason_ok reason \<and> valid_time cal start \<and> valid_time cal finish
                then Some \<lparr>pp_status = s, pp_reason = reason, pp_startedAt = start, pp_finishedAt = finish\<rparr> else None)
           | None \<Rightarrow> None)
      | _ \<Rightarrow> None)"

text \<open>A field that must be null or valid: the value, or None when it is neither.\<close>

definition null_or :: "(json \<Rightarrow> 'a option) \<Rightarrow> json option \<Rightarrow> 'a option option" where
  "null_or f v = (case v of None \<Rightarrow> None | Some JNull \<Rightarrow> Some None | Some x \<Rightarrow> map_option Some (f x))"

definition time_of :: "calendar \<Rightarrow> json \<Rightarrow> jstr option" where
  "time_of cal v = (case v of JStr s \<Rightarrow> (if valid_time cal s then Some s else None) | _ \<Rightarrow> None)"

definition read_periodic_state :: "calendar \<Rightarrow> jstr option \<Rightarrow> periodic_state option" where
  "read_periodic_state cal file =
     (case Option.bind file json_parse of
        None \<Rightarrow> None
      | Some v \<Rightarrow>
          (if get_member v ''schema'' \<noteq> Some (JStr state_schema) then None
           else case (Option.bind (get_member v ''last_result'') (result_of cal), null_or (result_of cal) (get_member v ''last_attempt''),
                      null_or (time_of cal) (get_member v ''last_success_at''), null_or (result_of cal) (get_member v ''last_failure'')) of
             (Some latest, Some att, Some succ, Some failure) \<Rightarrow>
               Some \<lparr>ps_last = latest, ps_lastAttempt = att, ps_lastSuccessAt = succ, ps_lastFailure = failure\<rparr>
           | _ \<Rightarrow> None))"

definition next_periodic_state :: "periodic_state option \<Rightarrow> bool \<Rightarrow> periodic_result \<Rightarrow> periodic_state" where
  "next_periodic_state previous did_run result =
     \<lparr>ps_last = result,
      ps_lastAttempt = (if did_run then Some result else Option.bind previous ps_lastAttempt),
      ps_lastSuccessAt = (if pp_status result = Run_success then Some (pp_finishedAt result) else Option.bind previous ps_lastSuccessAt),
      ps_lastFailure = (if pp_status result = Run_failed then Some result else Option.bind previous ps_lastFailure)\<rparr>"

definition periodic_opts :: "auto_opts \<Rightarrow> int \<Rightarrow> auto_opts" where
  "periodic_opts opts interval = opts\<lparr>ao_refuse := True, ao_debounceMs := Some interval, ao_writeRequestedAt := None\<rparr>"

definition busy_periodic :: "jstr \<Rightarrow> jstr \<Rightarrow> periodic_result" where
  "busy_periodic start finish = \<lparr>pp_status = Run_skipped, pp_reason = lit ''periodic_busy'', pp_startedAt = start, pp_finishedAt = finish\<rparr>"

definition periodic_under_lock :: "auto_opts \<Rightarrow> int \<Rightarrow> jstr \<Rightarrow> periodic_result auto_io" where
  "periodic_under_lock opts interval start =
     seqE (look Read_periodic) (\<lambda>s.
     let previous = read_periodic_state (ao_calendar opts) (aa_text s) in
     seqE (run_auto_sync_cycle (periodic_opts opts interval)) (\<lambda>cycle.
     seqE (look Clock) (\<lambda>t.
     let (status, reason) = periodic_disposition cycle;
         result = \<lparr>pp_status = status, pp_reason = reason, pp_startedAt = start, pp_finishedAt = to_iso (ao_calendar opts) (aa_time t)\<rparr> in
     seqE (ask (Write_periodic (periodic_state_text (next_periodic_state previous (rr_ran cycle) result)))) (\<lambda>_.
     retE result))))"

definition run_periodic_sync :: "auto_opts \<Rightarrow> int \<Rightarrow> periodic_result auto_io" where
  "run_periodic_sync opts interval =
     (if interval < 0 then throw (lit ''periodic_sync_interval_invalid'')
      else
        seqE (look Clock) (\<lambda>t.
        let start = to_iso (ao_calendar opts) (aa_time t) in
        seqE (ask Acquire_periodic) (\<lambda>l.
        if \<not> aa_flag l
        then seqE (look Clock) (\<lambda>u. retE (busy_periodic start (to_iso (ao_calendar opts) (aa_time u))))
        else bind (periodic_under_lock opts interval start) (\<lambda>x.
             seqE (ask Release_periodic) (\<lambda>_. Ret x)))))"

subsection \<open>Runs of equal failures\<close>

text \<open>What an attempt means for the counter: None when it is skipped, else the signature of a failure, if it failed.\<close>

definition verdict :: "(jstr \<Rightarrow> jstr) \<Rightarrow> attempt \<Rightarrow> jstr option option" where
  "verdict sha a =
     (case a of
        Inr _ \<Rightarrow> Some None
      | Inl (err, probe) \<Rightarrow>
          (if classify_own_sync_outcome err probe = Fail then Some (Some (sha (sync_failure_code err))) else None))"

text \<open>The length of the run of equal failures that ended last.\<close>

definition failure_streak :: "jstr option list \<Rightarrow> nat" where
  "failure_streak vs = (case vs of Some s # _ \<Rightarrow> length (takeWhile (\<lambda>v. v = Some s) vs) | _ \<Rightarrow> 0)"

lemma streak_simps [simp]:
  "failure_streak [] = 0" "failure_streak (None # vs) = 0"
  "failure_streak (Some s # vs) = Suc (if vs \<noteq> [] \<and> hd vs = Some s then failure_streak vs else 0)"
  by (auto simp: failure_streak_def split: list.splits option.splits)

definition toy_calendar :: calendar where
  "toy_calendar = \<lparr>to_iso = (\<lambda>t. if t < 0 then 45 # replicate (nat (- t)) 48 else replicate (nat t) 48),
     date_parse = (\<lambda>s. Some (case s of c # r \<Rightarrow> if c = 45 then - int (length r) else int (length s) | [] \<Rightarrow> 0))\<rparr>"

lemma toy_parses_iso: "parses_iso toy_calendar"
proof -
  have "date_parse toy_calendar (to_iso toy_calendar t) = Some t" for t
    by (cases "nat t") (auto simp: toy_calendar_def)
  then show ?thesis by (simp add: parses_iso_def)
qed

subsection \<open>The calls of a cycle\<close>

lemma holds_ask_auto: "holds (ask c) G Q h \<longleftrightarrow>
    G h c \<and> (\<forall>a. Q (h @ [(c, a)]) (case aa_failed a of Some m \<Rightarrow> Inl m | None \<Rightarrow> Inr a))"
  by (simp add: ask_def)

lemma holds_look: "holds (look c) G Q h \<longleftrightarrow> G h c \<and> (\<forall>a. Q (h @ [(c, a)]) (Inr a))"
  by (simp add: look_def)

lemma uses_auto [calls]: "C c \<Longrightarrow> uses (ask c) C" "C c \<Longrightarrow> uses (look c) C"
  by (simp_all add: ask_def look_def)

lemma uses_release [calls]: "C c \<Longrightarrow> (\<And>m. C (Warn_log m)) \<Longrightarrow> uses (release c) C"
  unfolding release_def by (intro calls) auto

text \<open>Calls that neither attempt the own synchronisation nor pull.\<close>

definition aftermath :: "auto_call \<Rightarrow> bool" where
  "aftermath c \<longleftrightarrow> (\<forall>b. c \<noteq> Own_sync b) \<and> c \<noteq> Community_pull"

lemma uses_finish [calls]: "uses (finish_cycle opts now previous community p) aftermath"
  unfolding finish_cycle_def reindex_and_mark_def Let_def
  by (cases p) (auto intro!: calls simp: aftermath_def split: prod.splits)

text \<open>A cycle that got past the community pull attempted the own synchronisation exactly when it was due.\<close>

definition attempted_when_due :: "auto_opts \<Rightarrow> (auto_call \<times> auto_answer) list \<Rightarrow> bool" where
  "attempted_when_due opts h \<longleftrightarrow>
     (\<forall>c. (Community_pull, c) \<in> set h \<longrightarrow> aa_failed c = None \<longrightarrow>
        (\<exists>t s. (Clock, t) \<in> set h \<and> (Read_state, s) \<in> set h \<and>
           ((\<exists>b a. (Own_sync b, a) \<in> set h) \<longleftrightarrow>
            own_due (ao_calendar opts) (aa_time t) (previous_own (read_auto_state (ao_calendar opts) (aa_text s))))))"

definition quiet_history :: "(auto_call \<times> auto_answer) list \<Rightarrow> bool" where
  "quiet_history h \<longleftrightarrow> (\<forall>x \<in> set h. aftermath (fst x))"

lemma attempted_aftermath:
  "attempted_when_due opts h \<Longrightarrow> quiet_history h' \<Longrightarrow> attempted_when_due opts (h @ h')"
  unfolding attempted_when_due_def quiet_history_def aftermath_def by (simp add: Ball_def split_paired_all) (metis fst_conv)

lemma quiet_attempted: "quiet_history h \<Longrightarrow> attempted_when_due opts h"
  unfolding attempted_when_due_def quiet_history_def aftermath_def by (auto dest!: bspec)

lemma holds_aftermath:
  assumes "uses m aftermath" and "attempted_when_due opts h"
  shows "holds m (\<lambda>_ _. True) (\<lambda>h' _. attempted_when_due opts h') h"
  by (rule holds_post [OF uses_history [OF assms(1)]])
    (use attempted_aftermath [OF assms(2)] in \<open>auto simp: quiet_history_def\<close>)

lemma uses_warn_failed [calls]: "(\<And>m. C (Warn_log m)) \<Longrightarrow> uses (warn_failed e) C"
  unfolding warn_failed_def by (intro calls) auto

lemma attemptedI:
  "(Clock, t) \<in> set h \<Longrightarrow> (Read_state, s) \<in> set h \<Longrightarrow>
     (\<exists>b a. (Own_sync b, a) \<in> set h) \<longleftrightarrow> own_due (ao_calendar opts) (aa_time t) (previous_own (read_auto_state (ao_calendar opts) (aa_text s))) \<Longrightarrow>
     attempted_when_due opts h"
  unfolding attempted_when_due_def by blast

lemma holds_own_part:
  assumes "quiet_history h" and "(Clock, t) \<in> set h" and "(Read_state, s) \<in> set h" and "aa_failed c = None"
  shows "holds (own_part opts (aa_time t) (previous_own (read_auto_state (ao_calendar opts) (aa_text s)))) (\<lambda>_ _. True)
    (\<lambda>h' _. attempted_when_due opts h') (h @ [(Community_pull, c)])"
proof -
  have no: "(Own_sync b, a) \<notin> set h" for b a using assms(1) by (force simp: quiet_history_def aftermath_def)
  show ?thesis
    unfolding own_part_def
    by (simp add: holds_look) (auto simp: no intro!: attemptedI [of t _ s] assms(2,3))
qed

lemma holds_cycle_body:
  assumes "quiet_history h"
  shows "holds (cycle_body opts) (\<lambda>_ _. True) (\<lambda>h' _. attempted_when_due opts h') h"
proof -
  have "holds (own_part opts (aa_time t) (previous_own (read_auto_state (ao_calendar opts) (aa_text s)))) (\<lambda>_ _. True)
      (\<lambda>h' x. case x of Inl e \<Rightarrow> attempted_when_due opts h' | Inr p \<Rightarrow> holds (finish_cycle opts (aa_time t) previous community p) (\<lambda>_ _. True)
        (\<lambda>h' _. attempted_when_due opts h') h')
      (h @ [(Clock, t), (Read_state, s), (Community_pull, c)])" if "aa_failed c = None" for t s c previous community
  proof -
    have "quiet_history (h @ [(Clock, t), (Read_state, s)])" using assms by (auto simp: quiet_history_def aftermath_def)
    from holds_own_part [OF this, of t s c opts] that
    have own: "holds (own_part opts (aa_time t) (previous_own (read_auto_state (ao_calendar opts) (aa_text s)))) (\<lambda>_ _. True)
        (\<lambda>h' _. attempted_when_due opts h') (h @ [(Clock, t), (Read_state, s), (Community_pull, c)])" by simp
    show ?thesis
      by (rule holds_post [OF own]) (auto intro: holds_aftermath [OF uses_finish] split: sum.splits)
  qed
  moreover have "attempted_when_due opts (h @ [(Clock, t), (Read_state, s)])" for t s
    using assms by (intro quiet_attempted) (auto simp: quiet_history_def aftermath_def)
  moreover have "attempted_when_due opts (h @ [(Clock, t), (Read_state, s), (Community_pull, c)])" if "aa_failed c = Some m" for t s c m
    using assms that by (auto simp: attempted_when_due_def quiet_history_def aftermath_def)
  ultimately show ?thesis
    unfolding cycle_body_def Let_def by (simp add: holds_look holds_ask_auto split: option.splits)
qed

lemma holds_cycle: "holds (run_auto_sync_cycle opts) (\<lambda>_ _. True) (\<lambda>h' _. attempted_when_due opts h') []"
proof -
  have body: "holds (catch (cycle_body opts) warn_failed) (\<lambda>_ _. True) (\<lambda>h' _. attempted_when_due opts h') h" if "quiet_history h" for h
    unfolding holds_catch
    by (rule holds_post [OF holds_cycle_body [OF that]])
      (auto intro!: holds_aftermath calls simp: aftermath_def split: sum.splits)
  have rel: "holds (release c) (\<lambda>_ _. True) (\<lambda>h' _. attempted_when_due opts h') h" if "attempted_when_due opts h" "aftermath c" for h c
    by (rule holds_aftermath [OF _ that(1)]) (use that(2) in \<open>auto intro!: calls simp: aftermath_def\<close>)
  have locked: "holds (cycle_under_lock opts) (\<lambda>_ _. True) (\<lambda>h' _. attempted_when_due opts h') h" if "quiet_history h" for h
  proof -
    have q: "quiet_history (h @ [(Acquire_index, a)])" for a using that by (auto simp: quiet_history_def aftermath_def)
    have "holds (warn_failed e) (\<lambda>_ _. True) (\<lambda>h' _. attempted_when_due opts h') (h @ [(Acquire_index, a)])" for e a
      by (rule holds_aftermath [OF _ quiet_attempted [OF q]]) (auto intro!: calls simp: aftermath_def)
    moreover have "holds (catch (cycle_body opts) warn_failed) (\<lambda>_ _. True)
        (\<lambda>h' x. holds (release Release_index) (\<lambda>_ _. True) (\<lambda>h'' _. attempted_when_due opts h'') h') (h @ [(Acquire_index, a)])" for a
      by (rule holds_post [OF body [OF q]]) (auto intro: rel simp: aftermath_def)
    ultimately show ?thesis
      unfolding cycle_under_lock_def using quiet_attempted [OF q]
      by (simp add: holds_ask_auto del: holds_catch split: option.splits)
  qed
  have "holds (cycle_under_lock opts) (\<lambda>_ _. True)
      (\<lambda>h' x. holds (release Release_cycle) (\<lambda>_ _. True) (\<lambda>h'' _. attempted_when_due opts h'') h') [(Env_off, a), (Acquire_cycle, b)]" for a b
    by (rule holds_post [OF locked]) (auto intro: rel simp: aftermath_def quiet_history_def)
  moreover have "attempted_when_due opts [(Env_off, a)]" "attempted_when_due opts [(Env_off, a), (Acquire_cycle, b)]" for a b
    by (auto intro!: quiet_attempted simp: quiet_history_def aftermath_def)
  ultimately show ?thesis
    unfolding run_auto_sync_cycle_def by (simp add: holds_look holds_ask_auto split: option.splits)
qed

text \<open>
  C18: The backoff never stops the synchronisation for good: in every execution of a cycle whose
  community pull returned, the own synchronisation is attempted if, and only if, the stored
  failures are below the threshold or the stored last attempt is at least six hours old.
\<close>

theorem degraded_sync_is_retried:
  assumes "exec (run_auto_sync_cycle opts) t r" and "(Community_pull, c) \<in> set t" and "aa_failed c = None"
  shows "\<exists>n s. (Clock, n) \<in> set t \<and> (Read_state, s) \<in> set t \<and>
    ((\<exists>b a. (Own_sync b, a) \<in> set t) \<longleftrightarrow>
     (let st = previous_own (read_auto_state (ao_calendar opts) (aa_text s)) in
      os_count st < suspend_threshold \<or>
      aa_time n - parse_timestamp (ao_calendar opts) (os_lastAttemptAt st) \<ge> degraded_retry_ms))"
proof -
  have "attempted_when_due opts t" using holds_exec_result [OF holds_cycle assms(1)] by simp
  with assms(2,3) show ?thesis
    unfolding attempted_when_due_def own_due_def Let_def by (auto simp: not_le not_less)
qed

subsection \<open>The stored state is read back\<close>

definition storable :: "calendar \<Rightarrow> auto_state \<Rightarrow> bool" where
  "storable cal st \<longleftrightarrow> units (as_finishedAt st) \<and> units (as_signature st) \<and> int (os_count (as_own st)) < 10 ^ 21 \<and>
     (\<forall>t. as_startedAt st = Some t \<longrightarrow> units t \<and> date_parse cal t \<noteq> None) \<and>
     (\<forall>t. as_contextSha st = Some t \<longrightarrow> units t \<and> digest_re t) \<and>
     (\<forall>t. as_lastNotifiedAt st = Some t \<longrightarrow> units t) \<and>
     (\<forall>t. os_signature (as_own st) = Some t \<longrightarrow> units t) \<and> (\<forall>t. os_lastAttemptAt (as_own st) = Some t \<longrightarrow> units t)"

lemma units_lit: "units (lit s)"
  by (auto simp: units_def lit_def intro: less_trans [OF nat_of_char_less_256])

definition auto_state_json :: "auto_state \<Rightarrow> json" where
  "auto_state_json st = JObj
     ([(lit ''finishedAt'', JStr (as_finishedAt st))] @ optional_member ''startedAt'' (as_startedAt st) @
      optional_member ''contextSha256'' (as_contextSha st) @ [(lit ''signature'', JStr (as_signature st))] @
      optional_member ''lastNotifiedAt'' (as_lastNotifiedAt st) @
      [(lit ''ownSync'', JObj ([(lit ''consecutiveFailureSignature'', case os_signature (as_own st) of None \<Rightarrow> JNull | Some s \<Rightarrow> JStr s),
          (lit ''consecutiveFailureCount'', jint (int (os_count (as_own st))))] @ optional_member ''lastAttemptAt'' (os_lastAttemptAt (as_own st))))])"

lemma auto_state_wf: "storable cal st \<Longrightarrow> wf_json (auto_state_json st)"
  by (auto simp: auto_state_json_def storable_def optional_member_def units_lit split: option.splits)

lemma optional_members: "map_of (optional_member k v) (lit j) = (if j = k then map_option JStr v else None)"
  by (cases v) (simp_all add: optional_member_def)

lemma optional_string_map: "optional_string (map_option JStr v)"
  by (cases v) simp_all

lemma auto_state_members:
  "get_member (auto_state_json st) ''finishedAt'' = Some (JStr (as_finishedAt st))"
  "get_member (auto_state_json st) ''startedAt'' = map_option JStr (as_startedAt st)"
  "get_member (auto_state_json st) ''contextSha256'' = map_option JStr (as_contextSha st)"
  "get_member (auto_state_json st) ''signature'' = Some (JStr (as_signature st))"
  "get_member (auto_state_json st) ''lastNotifiedAt'' = map_option JStr (as_lastNotifiedAt st)"
  by (simp_all add: auto_state_json_def obj_get_def map_add_def optional_members split: option.split)

definition own_json :: "own_state \<Rightarrow> json" where
  "own_json own = JObj ([(lit ''consecutiveFailureSignature'', case os_signature own of None \<Rightarrow> JNull | Some s \<Rightarrow> JStr s),
     (lit ''consecutiveFailureCount'', jint (int (os_count own)))] @ optional_member ''lastAttemptAt'' (os_lastAttemptAt own))"

lemma own_member: "get_member (auto_state_json st) ''ownSync'' = Some (own_json (as_own st))"
  by (simp add: auto_state_json_def own_json_def obj_get_def map_add_def optional_members split: option.split)

lemma own_members:
  "get_member (own_json own) ''consecutiveFailureSignature'' = Some (case os_signature own of None \<Rightarrow> JNull | Some s \<Rightarrow> JStr s)"
  "get_member (own_json own) ''consecutiveFailureCount'' = Some (jint (int (os_count own)))"
  "get_member (own_json own) ''lastAttemptAt'' = map_option JStr (os_lastAttemptAt own)"
  by (simp_all add: own_json_def obj_get_def map_add_def optional_members split: option.split)

lemma as_str_map: "as_str (map_option JStr v) = v"
  by (cases v) simp_all

lemma own_state_roundtrip: "valid_own_state (own_json own)" "own_state_of (own_json own) = own"
proof -
  show "valid_own_state (own_json own)"
    by (simp add: valid_own_state_def own_members optional_string_map split: option.split) (simp add: own_json_def)
  show "own_state_of (own_json own) = own"
    by (cases own) (simp add: own_state_of_def own_members as_str_map split: option.split)
qed

lemma auto_state_roundtrip:
  assumes "storable cal st"
  shows "read_auto_state cal (Some (auto_state_text st)) = Some st"
proof -
  have parse: "json_parse (auto_state_text st) = Some (auto_state_json st)"
    using json_roundtrip [OF auto_state_wf [OF assms], of "[]"] by (simp add: auto_state_text_def auto_state_json_def blank_def)
  have "is_object (auto_state_json st)" by (simp add: auto_state_json_def)
  then have "is_auto_state cal (auto_state_json st)"
    using assms by (cases "as_startedAt st"; cases "as_contextSha st")
      (simp_all add: is_auto_state_def auto_state_members own_member own_state_roundtrip optional_string_map storable_def)
  then show ?thesis
    by (simp add: read_auto_state_def parse auto_state_members own_member own_state_roundtrip as_str_map)
qed

abbreviation anywhere :: "(auto_call \<times> auto_answer) list \<Rightarrow> auto_call \<Rightarrow> bool" where
  "anywhere \<equiv> \<lambda>_ _. True"

subsection \<open>What a cycle attempts and stores\<close>

text \<open>What a trace of a cycle tells: the attempts, the texts stored as the state file, the times read.\<close>

definition own_attempts :: "(auto_call \<times> auto_answer) list \<Rightarrow> attempt list" where
  "own_attempts h = List.map_filter (\<lambda>(c, a). case c of Own_sync _ \<Rightarrow> Some (aa_attempt a) | _ \<Rightarrow> None) h"

definition stored_texts :: "(auto_call \<times> auto_answer) list \<Rightarrow> jstr list" where
  "stored_texts h = List.map_filter (\<lambda>(c, a). case c of Write_state x \<Rightarrow> (if aa_failed a = None then Some x else None) | _ \<Rightarrow> None) h"

definition clock_times :: "(auto_call \<times> auto_answer) list \<Rightarrow> int list" where
  "clock_times h = List.map_filter (\<lambda>(c, a). if c = Clock then Some (aa_time a) else None) h"

lemma map_filter_append: "List.map_filter f (xs @ ys) = List.map_filter f xs @ List.map_filter f ys"
  by (simp add: List.map_filter_def)

lemma notes_snoc [simp]:
  "own_attempts (h @ t) = own_attempts h @ own_attempts t" "stored_texts (h @ t) = stored_texts h @ stored_texts t"
  "clock_times (h @ t) = clock_times h @ clock_times t"
  by (simp_all add: own_attempts_def stored_texts_def clock_times_def map_filter_append)

lemma notes_Cons [simp]:
  "own_attempts ((c, a) # t) = (case c of Own_sync _ \<Rightarrow> [aa_attempt a] | _ \<Rightarrow> []) @ own_attempts t"
  "stored_texts ((c, a) # t) = (case c of Write_state x \<Rightarrow> (if aa_failed a = None then [x] else []) | _ \<Rightarrow> []) @ stored_texts t"
  "clock_times ((c, a) # t) = (if c = Clock then [aa_time a] else []) @ clock_times t"
  by (cases c; cases "aa_failed a"; simp add: own_attempts_def stored_texts_def clock_times_def List.map_filter_simps)+

lemma notes_Nil [simp]: "own_attempts [] = []" "stored_texts [] = []" "clock_times [] = []"
  by (simp_all add: own_attempts_def stored_texts_def clock_times_def List.map_filter_simps)

definition silent :: "auto_call \<Rightarrow> bool" where
  "silent c \<longleftrightarrow> (\<forall>b. c \<noteq> Own_sync b) \<and> (\<forall>x. c \<noteq> Write_state x) \<and> c \<noteq> Clock"

lemma silent_notes: "\<forall>x \<in> set t. silent (fst x) \<Longrightarrow> own_attempts t = [] \<and> stored_texts t = [] \<and> clock_times t = []"
  by (induction t)
    (auto simp: own_attempts_def stored_texts_def clock_times_def List.map_filter_simps silent_def split: auto_call.splits)

lemma holds_silent:
  assumes "uses m silent" and "\<And>t x. own_attempts t = [] \<Longrightarrow> stored_texts t = [] \<Longrightarrow> clock_times t = [] \<Longrightarrow> Q (h @ t) x"
  shows "holds m anywhere Q h"
  by (rule holds_post [OF uses_history [OF assms(1)]]) (use assms(2) silent_notes in auto)

text \<open>A refusal: the repository is dirty or busy.\<close>

definition refused_attempt :: "attempt \<Rightarrow> bool" where
  "refused_attempt a \<longleftrightarrow> (case a of Inl (err, _) \<Rightarrow> sync_failure_code err \<in> {lit ''WORKTREE_DIRTY'', lit ''SYNC_BUSY''} | Inr _ \<Rightarrow> False)"

lemma refused_attempt: "refused_code (fst (mark_degraded (attempt_own sha t st a))) \<longleftrightarrow> refused_attempt a"
proof -
  have d: "lit ''UNKNOWN'' \<noteq> lit ''WORKTREE_DIRTY''" "lit ''UNKNOWN'' \<noteq> lit ''SYNC_BUSY''" by (simp_all add: lit_def)
  then show ?thesis
    by (cases a) (auto simp: mark_degraded_def attempt_own_def refused_code_def refused_attempt_def plain_outcome_def Let_def
        split: prod.splits)
qed

text \<open>
  What a cycle leaves: nothing attempted and nothing stored; or it waits for the backoff and stores
  the own state it read; or it attempts once, because it is due, and stores what the attempt makes
  of the state it read, except after a refusal or when it fails.
\<close>

definition kept_at :: "auto_opts \<Rightarrow> bool \<Rightarrow> int \<Rightarrow> auto_state option \<Rightarrow> attempt list \<Rightarrow> jstr list \<Rightarrow> bool" where
  "kept_at opts failed n previous tried texts \<longleftrightarrow>
     (let own = previous_own previous;
          keeps = (\<lambda>st. \<exists>y b. texts = [auto_state_text (new_state opts n previous (ao_sha opts y) b st)]) in
      (tried = [] \<and> keeps own) \<or>
      (own_due (ao_calendar opts) n own \<and>
        (\<exists>a. tried = [a] \<and>
          (if failed \<or> refused_attempt a then texts = []
           else keeps (snd (attempt_own (ao_sha opts) (to_iso (ao_calendar opts) n) own a))))))"

definition cycle_kept :: "auto_opts \<Rightarrow> bool \<Rightarrow> (auto_call \<times> auto_answer) list \<Rightarrow> bool" where
  "cycle_kept opts failed h \<longleftrightarrow>
     (own_attempts h = [] \<and> stored_texts h = []) \<or>
     (\<exists>n s. clock_times h = [n] \<and> (Read_state, s) \<in> set h \<and>
       kept_at opts failed n (read_auto_state (ao_calendar opts) (aa_text s)) (own_attempts h) (stored_texts h))"

lemma cycle_kept_silent:
  "cycle_kept opts failed h \<Longrightarrow> own_attempts t = [] \<Longrightarrow> stored_texts t = [] \<Longrightarrow> clock_times t = [] \<Longrightarrow> cycle_kept opts failed (h @ t)"
  unfolding cycle_kept_def by auto

lemma kept_nothing: "own_attempts h = [] \<Longrightarrow> stored_texts h = [] \<Longrightarrow> cycle_kept opts failed h"
  by (simp add: cycle_kept_def)

lemma uses_silent [calls]: "uses reindex_and_mark silent" "uses (warn_failed e) silent"
  unfolding reindex_and_mark_def warn_failed_def by (auto intro!: calls simp: silent_def)

lemma holds_finish:
  assumes "stored_texts h = []"
  shows "holds (finish_cycle opts now previous community (out, own)) anywhere
    (\<lambda>h' x. own_attempts h' = own_attempts h \<and> clock_times h' = clock_times h \<and> set h \<subseteq> set h' \<and> x \<noteq> Inr cycle_failed \<and>
      (if isl x \<or> refused_code out then stored_texts h' = []
       else \<exists>y b. stored_texts h' = [auto_state_text (new_state opts now previous (ao_sha opts y) b own)])) h"
proof (cases "refused_code out")
  case True
  with assms show ?thesis by (simp add: finish_cycle_def cycle_done_def cycle_failed_def)
next
  case False
  have sig: "fst (auto_sync_notification sha outcome m) = sha (json_stringify (JArr (map JStr (notification_lines outcome m))))" for sha outcome m
    by (simp add: auto_sync_notification_def Let_def)
  define rest where "rest = (\<lambda>_ :: unit. seqE (look Managed_guidance) (\<lambda>m.
        let (sig, message) = auto_sync_notification (ao_sha opts) \<lparr>so_community = community, so_own = out\<rparr> (aa_flag m);
            notify = should_notify (ao_calendar opts) now previous out sig message in
        seqE (if notify then seqE (ask (Append_reminder (the message))) (\<lambda>_. retE ()) else retE ()) (\<lambda>_.
        seqE (ask (Write_state (auto_state_text (new_state opts now previous sig notify own)))) (\<lambda>_.
        retE (cycle_done \<lparr>so_community = community, so_own = out\<rparr> notify)))))"
  have tail: "holds (rest u) anywhere
      (\<lambda>h' x. own_attempts h' = own_attempts h \<and> clock_times h' = clock_times h \<and> set h \<subseteq> set h' \<and> x \<noteq> Inr cycle_failed \<and>
        (if isl x \<or> refused_code out then stored_texts h' = []
         else \<exists>y b. stored_texts h' = [auto_state_text (new_state opts now previous (ao_sha opts y) b own)])) (h @ t)"
    if "own_attempts t = []" "stored_texts t = []" "clock_times t = []" for t u
    using that assms False sig [of "ao_sha opts"] unfolding rest_def Let_def
    by (auto simp: holds_look holds_ask_auto split_beta cycle_done_def cycle_failed_def split: option.splits)
  have steps: "finish_cycle opts now previous community (out, own) = seqE reindex_and_mark rest"
    using False by (simp add: finish_cycle_def rest_def Let_def)
  show ?thesis
    unfolding steps holds_seqE [of reindex_and_mark rest]
  proof (rule holds_silent [OF uses_silent(1)])
    fix t and x :: "jstr + unit"
    assume t: "own_attempts t = []" "stored_texts t = []" "clock_times t = []"
    show "case x of Inl e \<Rightarrow> own_attempts (h @ t) = own_attempts h \<and> clock_times (h @ t) = clock_times h \<and> set h \<subseteq> set (h @ t) \<and> Inl e \<noteq> Inr cycle_failed \<and>
        (if isl (Inl e :: jstr + run_result) \<or> refused_code out then stored_texts (h @ t) = []
         else \<exists>y b. stored_texts (h @ t) = [auto_state_text (new_state opts now previous (ao_sha opts y) b own)])
      | Inr u \<Rightarrow> holds (rest u) anywhere
      (\<lambda>h' x. own_attempts h' = own_attempts h \<and> clock_times h' = clock_times h \<and> set h \<subseteq> set h' \<and> x \<noteq> Inr cycle_failed \<and>
        (if isl x \<or> refused_code out then stored_texts h' = []
         else \<exists>y b. stored_texts h' = [auto_state_text (new_state opts now previous (ao_sha opts y) b own)])) (h @ t)"
      using t assms tail [OF t] by (cases x) simp_all
  qed
qed

lemma holds_first_call:
  "holds (seqE (look c) f) G Q h \<longleftrightarrow> G h c \<and> (\<forall>a. holds (f a) G Q (h @ [(c, a)]))"
  "holds (seqE (ask c) k) G Q h \<longleftrightarrow>
     G h c \<and> (\<forall>a. case aa_failed a of Some m \<Rightarrow> Q (h @ [(c, a)]) (Inl m) | None \<Rightarrow> holds (k a) G Q (h @ [(c, a)]))"
  by (auto simp: holds_look holds_ask_auto split: option.split)

lemma mark_degraded_snd: "snd (mark_degraded p) = snd p"
  by (simp add: mark_degraded_def split: prod.split)

lemma holds_kept_body:
  assumes "own_attempts h = []" and "stored_texts h = []" and "clock_times h = []"
  shows "holds (cycle_body opts) anywhere (\<lambda>h' x. x \<noteq> Inr cycle_failed \<and> cycle_kept opts (isl x) h') h"
proof -
  have finish: "holds (finish_cycle opts n previous community p) anywhere (\<lambda>h' x. x \<noteq> Inr cycle_failed \<and> cycle_kept opts (isl x) h') h'"
    if h': "stored_texts h' = []" "clock_times h' = [n]" "(Read_state, s) \<in> set h'" "previous = read_auto_state (ao_calendar opts) (aa_text s)"
      and p: "(own_attempts h' = [] \<and> snd p = previous_own previous \<and> \<not> refused_code (fst p)) \<or>
        (own_due (ao_calendar opts) n (previous_own previous) \<and>
         (\<exists>a. own_attempts h' = [a] \<and> p = mark_degraded (attempt_own (ao_sha opts) (to_iso (ao_calendar opts) n) (previous_own previous) a)))"
    for h' n s previous community p
  proof -
    have f: "holds (finish_cycle opts n previous community (fst p, snd p)) anywhere
      (\<lambda>h'' x. own_attempts h'' = own_attempts h' \<and> clock_times h'' = clock_times h' \<and> set h' \<subseteq> set h'' \<and> x \<noteq> Inr cycle_failed \<and>
        (if isl x \<or> refused_code (fst p) then stored_texts h'' = []
         else \<exists>y b. stored_texts h'' = [auto_state_text (new_state opts n previous (ao_sha opts y) b (snd p))])) h'"
      by (rule holds_finish [OF h'(1)])
    show ?thesis
    proof (rule holds_post [OF f [unfolded prod.collapse]])
      fix t and x :: "jstr + run_result"
      let ?h = "h' @ t"
      assume e: "own_attempts ?h = own_attempts h' \<and> clock_times ?h = clock_times h' \<and> set h' \<subseteq> set ?h \<and> x \<noteq> Inr cycle_failed \<and>
        (if isl x \<or> refused_code (fst p) then stored_texts ?h = []
         else \<exists>y b. stored_texts ?h = [auto_state_text (new_state opts n previous (ao_sha opts y) b (snd p))])"
      have at: "clock_times ?h = [n] \<and> (Read_state, s) \<in> set ?h" using e h' by auto
      from p show "x \<noteq> Inr cycle_failed \<and> cycle_kept opts (isl x) ?h"
      proof (elim disjE conjE exE)
        assume "own_attempts h' = []" "snd p = previous_own previous" "\<not> refused_code (fst p)"
        with e have "own_attempts ?h = [] \<and> (stored_texts ?h = [] \<or>
            kept_at opts (isl x) n previous (own_attempts ?h) (stored_texts ?h))"
          unfolding kept_at_def Let_def by (cases "isl x") simp_all
        with at e h'(4) show ?thesis unfolding cycle_kept_def by metis
      next
        fix a
        assume due: "own_due (ao_calendar opts) n (previous_own previous)" and a: "own_attempts h' = [a]"
          and pa: "p = mark_degraded (attempt_own (ao_sha opts) (to_iso (ao_calendar opts) n) (previous_own previous) a)"
        have "refused_code (fst p) \<longleftrightarrow> refused_attempt a" "snd p = snd (attempt_own (ao_sha opts) (to_iso (ao_calendar opts) n) (previous_own previous) a)"
          by (simp_all add: pa refused_attempt mark_degraded_snd)
        with e a due have "kept_at opts (isl x) n previous (own_attempts ?h) (stored_texts ?h)"
          unfolding kept_at_def Let_def by (cases "isl x \<or> refused_attempt a") (simp_all del: notes_snoc)
        with at e h'(4) show ?thesis unfolding cycle_kept_def by metis
      qed
    qed
  qed
  have nothing: "cycle_kept opts failed (h @ [(Clock, a), (Read_state, b)])"
    "cycle_kept opts failed (h @ [(Clock, a), (Read_state, b), (Community_pull, c)])" for failed a b c
    using assms by (simp_all add: kept_nothing)
  have own: "holds (seqE (own_part opts (aa_time t) (previous_own (read_auto_state (ao_calendar opts) (aa_text s))))
      (finish_cycle opts (aa_time t) (read_auto_state (ao_calendar opts) (aa_text s)) community)) anywhere
      (\<lambda>h' x. x \<noteq> Inr cycle_failed \<and> cycle_kept opts (isl x) h') (h @ [(Clock, t), (Read_state, s), (Community_pull, c)])" for t s c community
  proof (cases "own_due (ao_calendar opts) (aa_time t) (previous_own (read_auto_state (ao_calendar opts) (aa_text s)))")
    case True
    then show ?thesis
      unfolding own_part_def using assms
      by (simp add: holds_look) (intro allI finish [where s = s], simp_all)
  next
    case False
    then show ?thesis
      unfolding own_part_def using assms
      by (simp, intro finish [where s = s]) (simp_all add: mark_degraded_def refused_code_def plain_outcome_def)
  qed
  have skip: "retE (not_run w) = Ret (Inr (not_run w))" "not_run w \<noteq> cycle_failed" for w
    by (simp_all add: retE_def not_run_def cycle_failed_def)
  show ?thesis
    unfolding cycle_body_def Let_def using own
    apply (simp add: holds_first_call skip del: holds_seqE split: option.split)
    apply (intro allI conjI impI; rule kept_nothing; simp add: assms)
    done
qed

text \<open>The same of the whole cycle: a throw ends as a failed cycle, and the releases store nothing.\<close>

lemma holds_kept: "holds (run_auto_sync_cycle opts) anywhere (\<lambda>h x. cycle_kept opts (x = Inr cycle_failed) h) []"
proof -
  let ?Q = "\<lambda>h x. cycle_kept opts (x = Inr cycle_failed) h"
  have keep: "holds m anywhere (\<lambda>h' _. ?Q h' x) h" if "uses m silent" "?Q h x" for m :: "unit auto_io" and h and x :: "jstr + run_result"
    by (rule holds_silent [OF that(1)]) (rule cycle_kept_silent [OF that(2)])
  have release: "uses (release Release_index) silent" "uses (release Release_cycle) silent"
    by (auto intro!: calls simp: silent_def)
  have warned: "holds (warn_failed e) anywhere ?Q h" if "cycle_kept opts True h" for e h
    using cycle_kept_silent [OF that] by (simp add: warn_failed_def holds_look)
  have body: "holds (catch (cycle_body opts) warn_failed) anywhere ?Q h" if "own_attempts h = []" "stored_texts h = []" "clock_times h = []" for h
    unfolding holds_catch
  proof (rule holds_post [OF holds_kept_body [OF that]])
    fix t and x :: "jstr + run_result"
    assume "x \<noteq> Inr cycle_failed \<and> cycle_kept opts (isl x) (h @ t)"
    then show "case x of Inl e \<Rightarrow> holds (warn_failed e) anywhere ?Q (h @ t) | Inr y \<Rightarrow> cycle_kept opts (Inr y = Inr cycle_failed) (h @ t)"
      using warned by (cases x) auto
  qed
  have nothing: "?Q h x" if "own_attempts h = []" "stored_texts h = []" for h x by (rule kept_nothing [OF that])
  have locked: "holds (cycle_under_lock opts) anywhere ?Q h" if h: "own_attempts h = []" "stored_texts h = []" "clock_times h = []" for h
  proof -
    have n: "own_attempts (h @ [(Acquire_index, a)]) = []" "stored_texts (h @ [(Acquire_index, a)]) = []" "clock_times (h @ [(Acquire_index, a)]) = []" for a
      using h by simp_all
    have "holds (finally_do (catch (cycle_body opts) warn_failed) (release Release_index)) anywhere ?Q (h @ [(Acquire_index, a)])" for a
      unfolding holds_finally by (rule holds_post [OF body [OF n]]) (rule keep [OF release(1)])
    then show ?thesis
      unfolding cycle_under_lock_def
      by (simp add: holds_ask_auto nothing n warned kept_nothing del: holds_finally notes_snoc split: option.split)
  qed
  have "holds (finally_do (cycle_under_lock opts) (release Release_cycle)) anywhere ?Q [(Env_off, a), (Acquire_cycle, b)]" for a b
    unfolding holds_finally by (rule holds_post [OF locked]) (simp_all add: keep [OF release(2)])
  then show ?thesis
    unfolding run_auto_sync_cycle_def
    by (simp add: holds_look holds_ask_auto kept_nothing del: holds_finally split: option.split)
qed

subsection \<open>The backoff over many cycles\<close>

text \<open>
  What happens to the state file: cycles, each with its trace and its result, and resets after a
  manual synchronisation; the latest first. A cycle reads the file as its predecessors left it.
\<close>

datatype sync_event = Cycle "(auto_call \<times> auto_answer) list" "jstr + run_result" | Manual_sync

definition latest_file :: "jstr option \<Rightarrow> (auto_call \<times> auto_answer) list \<Rightarrow> jstr option" where
  "latest_file file t = (if stored_texts t = [] then file else Some (List.last (stored_texts t)))"

inductive sync_chain :: "calendar \<Rightarrow> (jstr \<Rightarrow> jstr) \<Rightarrow> jstr option \<Rightarrow> sync_event list \<Rightarrow> bool" for cal sha where
  chain_start: "read_auto_state cal file = None \<Longrightarrow> sync_chain cal sha file []"
| chain_cycle: "sync_chain cal sha file evs \<Longrightarrow> exec (run_auto_sync_cycle opts) t r \<Longrightarrow> ao_calendar opts = cal \<Longrightarrow> ao_sha opts = sha \<Longrightarrow>
    \<forall>a. (Read_state, a) \<in> set t \<longrightarrow> aa_text a = file \<Longrightarrow> sync_chain cal sha (latest_file file t) (Cycle t r # evs)"
| chain_manual: "sync_chain cal sha file evs \<Longrightarrow>
    sync_chain cal sha (Some (auto_state_text (reset_state cal (read_auto_state cal file)))) (Manual_sync # evs)"

text \<open>The attempts since the last manual synchronisation: when, with which answer, and whether the cycle stored its state.\<close>

record made_attempt =
  am_time :: int
  am_attempt :: attempt
  am_stored :: bool

definition cycle_attempts :: "(auto_call \<times> auto_answer) list \<Rightarrow> made_attempt list" where
  "cycle_attempts t = map (\<lambda>a. \<lparr>am_time = hd (clock_times t), am_attempt = a, am_stored = (stored_texts t \<noteq> [])\<rparr>) (own_attempts t)"

fun attempts_made :: "sync_event list \<Rightarrow> made_attempt list" where
  "attempts_made [] = []"
| "attempts_made (Manual_sync # evs) = []"
| "attempts_made (Cycle t r # evs) = cycle_attempts t @ attempts_made evs"

definition verdicts :: "(jstr \<Rightarrow> jstr) \<Rightarrow> made_attempt list \<Rightarrow> jstr option list" where
  "verdicts sha ms = List.map_filter (\<lambda>m. if am_stored m then verdict sha (am_attempt m) else None) ms"

lemma verdicts_simps [simp]:
  "verdicts sha [] = []"
  "verdicts sha (m # ms) =
     (if am_stored m then (case verdict sha (am_attempt m) of None \<Rightarrow> [] | Some v \<Rightarrow> [v]) else []) @ verdicts sha ms"
  "verdicts sha (ms @ ms') = verdicts sha ms @ verdicts sha ms'"
  by (simp_all add: verdicts_def List.map_filter_simps map_filter_append split: option.splits)

text \<open>Every attempt made while the stored ones end in three equal failures comes six hours after the last stored one.\<close>

fun all_spaced :: "(jstr \<Rightarrow> jstr) \<Rightarrow> made_attempt list \<Rightarrow> bool" where
  "all_spaced sha [] = True"
| "all_spaced sha (m # before) \<longleftrightarrow> all_spaced sha before \<and>
     (suspend_threshold \<le> failure_streak (verdicts sha before) \<longrightarrow>
        degraded_retry_ms \<le> am_time m - am_time (hd (filter am_stored before)))"

text \<open>What the stored own state is of the attempts.\<close>

definition tracks :: "calendar \<Rightarrow> (jstr \<Rightarrow> jstr) \<Rightarrow> own_state \<Rightarrow> made_attempt list \<Rightarrow> bool" where
  "tracks cal sha own ms \<longleftrightarrow> os_count own = failure_streak (verdicts sha ms) \<and>
     os_signature own = (case verdicts sha ms of Some s # _ \<Rightarrow> Some s | _ \<Rightarrow> None) \<and>
     os_lastAttemptAt own = (case filter am_stored ms of
        [] \<Rightarrow> None | m # _ \<Rightarrow> (if isl (am_attempt m) then Some (to_iso cal (am_time m)) else None))"

lemma verdict_fail: "classify_own_sync_outcome err probe = Fail \<Longrightarrow> verdict sha (Inl (err, probe)) = Some (Some (sha (sync_failure_code err)))"
  by (simp add: verdict_def)

lemma tracks_unstored: "\<not> am_stored m \<Longrightarrow> tracks cal sha own (m # ms) \<longleftrightarrow> tracks cal sha own ms"
  by (simp add: tracks_def)

lemma tracks_step:
  assumes "tracks cal sha own ms" and "am_stored m"
  shows "tracks cal sha (snd (attempt_own sha (to_iso cal (am_time m)) own (am_attempt m))) (m # ms)"
proof (cases "am_attempt m")
  case (Inr y)
  with assms(2) show ?thesis by (cases y) (simp add: tracks_def attempt_own_def verdict_def fresh_own_def)
next
  case (Inl y)
  obtain err probe where y: "y = (err, probe)" by fastforce
  show ?thesis
  proof (cases "classify_own_sync_outcome err probe = Fail")
    case False
    with assms Inl y show ?thesis by (simp add: tracks_def attempt_own_def verdict_def Let_def)
  next
    case True
    with assms Inl y show ?thesis
      by (auto simp: tracks_def attempt_own_def verdict_def failed_own_def Let_def split: list.splits option.splits)
  qed
qed

lemma tracks_fresh: "tracks cal sha fresh_own []"
  by (simp add: tracks_def fresh_own_def)

lemma streak_bound: "failure_streak vs \<le> length vs"
  by (auto simp: failure_streak_def length_takeWhile_le split: list.split option.split)

lemma verdicts_length: "length (verdicts sha ms) \<le> length ms"
  by (induction ms) (auto split: option.split)

lemma streak_stored: "0 < failure_streak (verdicts sha ms) \<Longrightarrow> filter am_stored ms \<noteq> []"
  by (induction ms) (auto split: if_splits)

lemma verdict_success_last:
  "0 < failure_streak (verdicts sha ms) \<Longrightarrow> filter am_stored ms = m # older \<Longrightarrow> isl (am_attempt m)"
proof (induction ms)
  case (Cons k ms)
  then show ?case by (cases "am_attempt k") (auto simp: verdict_def split: if_splits)
qed simp

text \<open>An attempt that is due by the stored state is spaced.\<close>

lemma due_is_spaced:
  assumes "tracks cal sha own ms" and "parses_iso cal" and "own_due cal n own" and "suspend_threshold \<le> failure_streak (verdicts sha ms)"
  shows "degraded_retry_ms \<le> n - am_time (hd (filter am_stored ms))"
proof -
  have pos: "0 < failure_streak (verdicts sha ms)" using assms(4) by (simp add: suspend_threshold_def)
  then obtain m older where m: "filter am_stored ms = m # older" by (meson streak_stored list.exhaust)
  then have "os_lastAttemptAt own = Some (to_iso cal (am_time m))"
    using assms(1) verdict_success_last [OF pos m] by (simp add: tracks_def)
  then have "parse_timestamp cal (os_lastAttemptAt own) = am_time m"
    using assms(2) by (simp add: parse_timestamp_def parses_iso_def)
  with assms m show ?thesis by (simp add: own_due_def tracks_def)
qed

lemma cycle_attempts_simps:
  "own_attempts t = [] \<Longrightarrow> cycle_attempts t = []"
  "own_attempts t = [a] \<Longrightarrow> clock_times t = [n] \<Longrightarrow> cycle_attempts t = [\<lparr>am_time = n, am_attempt = a, am_stored = (stored_texts t \<noteq> [])\<rparr>]"
  by (simp_all add: cycle_attempts_def)

text \<open>The facts about the texts of a chain: ISO times are read back, digests are digests.\<close>

definition faithful_texts :: "calendar \<Rightarrow> (jstr \<Rightarrow> jstr) \<Rightarrow> bool" where
  "faithful_texts cal sha \<longleftrightarrow> parses_iso cal \<and> (\<forall>n. units (to_iso cal n)) \<and> (\<forall>x. digest_re (sha x) \<and> units (sha x))"

definition chain_state :: "calendar \<Rightarrow> (jstr \<Rightarrow> jstr) \<Rightarrow> jstr option \<Rightarrow> sync_event list \<Rightarrow> bool" where
  "chain_state cal sha file evs \<longleftrightarrow>
     (\<forall>st. read_auto_state cal file = Some st \<longrightarrow> storable cal st) \<and>
     tracks cal sha (previous_own (read_auto_state cal file)) (attempts_made evs) \<and>
     all_spaced sha (attempts_made evs) \<and> length (attempts_made evs) \<le> length evs"

text \<open>What is stored for an own state that tracks the attempts is read back.\<close>

lemma verdict_sha: "verdict sha a = Some (Some s) \<Longrightarrow> \<exists>c. s = sha c"
proof (cases a)
  case (Inl y)
  moreover assume "verdict sha a = Some (Some s)"
  ultimately have "s = sha (sync_failure_code (fst y))" by (cases y) (simp add: verdict_def split: if_splits)
  then show ?thesis by blast
qed (simp add: verdict_def)

lemma verdicts_sha: "Some s \<in> set (verdicts sha ms) \<Longrightarrow> \<exists>c. s = sha c"
proof -
  assume "Some s \<in> set (verdicts sha ms)"
  then obtain m :: made_attempt where "verdict sha (am_attempt m) = Some (Some s)"
    by (auto simp: verdicts_def List.map_filter_def split: if_splits)
  then show ?thesis by (rule verdict_sha)
qed

lemma tracks_units:
  assumes "tracks cal sha own ms" and "faithful_texts cal sha"
  shows "os_signature own = Some s \<Longrightarrow> units s" "os_lastAttemptAt own = Some s \<Longrightarrow> units s"
proof -
  show "units s" if "os_signature own = Some s"
    using assms that verdicts_sha [of s sha ms] by (auto simp: tracks_def faithful_texts_def split: list.splits option.splits)
  show "units s" if "os_lastAttemptAt own = Some s"
    using assms that by (auto simp: tracks_def faithful_texts_def split: list.splits if_splits)
qed

lemma stored_is_read_back:
  assumes "faithful_texts cal sha" and "ao_calendar opts = cal" and "ao_sha opts = sha"
    and "\<forall>st. previous = Some st \<longrightarrow> storable cal st" and "tracks cal sha own ms" and "int (length ms) < 10 ^ 21"
  shows "storable cal (new_state opts n previous (sha y) b own)"
    "read_auto_state cal (Some (auto_state_text (new_state opts n previous (sha y) b own))) = Some (new_state opts n previous (sha y) b own)"
proof -
  have "int (os_count own) < 10 ^ 21"
    using assms(5,6) streak_bound [of "verdicts sha ms"] verdicts_length [of sha ms] by (simp add: tracks_def)
  then show st: "storable cal (new_state opts n previous (sha y) b own)"
    using assms tracks_units [OF assms(5,1)]
    by (auto simp: storable_def new_state_def Let_def faithful_texts_def parses_iso_def context_sha_def split: bind_splits)
  show "read_auto_state cal (Some (auto_state_text (new_state opts n previous (sha y) b own))) = Some (new_state opts n previous (sha y) b own)"
    by (rule auto_state_roundtrip [OF st])
qed

lemma previous_own_new: "previous_own (Some (new_state opts n previous sig b own)) = own"
  by (simp add: previous_own_def new_state_def Let_def)

text \<open>One more cycle keeps it.\<close>

lemma chain_state_cycle:
  assumes facts: "faithful_texts cal sha" and opts: "ao_calendar opts = cal" "ao_sha opts = sha"
    and st: "chain_state cal sha file evs" and short: "int (length evs) + 1 < 10 ^ 21"
    and kept: "cycle_kept opts failed t" and reads: "\<forall>a. (Read_state, a) \<in> set t \<longrightarrow> aa_text a = file"
  shows "chain_state cal sha (latest_file file t) (Cycle t r # evs)"
proof -
  let ?previous = "read_auto_state cal file" and ?ms = "attempts_made evs"
  have before: "\<forall>x. ?previous = Some x \<longrightarrow> storable cal x" "tracks cal sha (previous_own ?previous) ?ms"
    "all_spaced sha ?ms" "length ?ms \<le> length evs"
    using st by (simp_all add: chain_state_def)
  have stored: "chain_state cal sha (latest_file file t) (Cycle t r # evs)"
    if t: "stored_texts t = [auto_state_text (new_state opts n ?previous (sha y) b own)]" and own: "tracks cal sha own (attempts_made (Cycle t r # evs))"
      and sp: "all_spaced sha (attempts_made (Cycle t r # evs))" and len: "length (attempts_made (Cycle t r # evs)) \<le> length evs + 1" for n y b own
  proof -
    have "int (length (attempts_made (Cycle t r # evs))) < 10 ^ 21" using len short by linarith
    from stored_is_read_back [OF facts opts before(1) own this]
    show ?thesis using t own sp len by (simp add: chain_state_def latest_file_def previous_own_new)
  qed
  show ?thesis
  proof (cases "own_attempts t = [] \<and> stored_texts t = []")
    case True
    with st show ?thesis by (simp add: chain_state_def latest_file_def cycle_attempts_simps)
  next
    case False
    with kept reads obtain n where clock: "clock_times t = [n]"
      and k: "kept_at opts failed n ?previous (own_attempts t) (stored_texts t)"
      unfolding cycle_kept_def opts(1) by metis
    show ?thesis
    proof (cases "own_attempts t = []")
      case True
      with k opts obtain y b where "stored_texts t = [auto_state_text (new_state opts n ?previous (sha y) b (previous_own ?previous))]"
        by (auto simp: kept_at_def Let_def)
      from stored [OF this] True before show ?thesis by (simp add: cycle_attempts_simps)
    next
      case tried: False
      with k opts obtain a where due: "own_due cal n (previous_own ?previous)" and a: "own_attempts t = [a]"
        and keeps: "stored_texts t = [] \<or> (\<exists>y b. stored_texts t =
          [auto_state_text (new_state opts n ?previous (sha y) b (snd (attempt_own sha (to_iso cal n) (previous_own ?previous) a)))])"
        unfolding kept_at_def Let_def by (auto split: if_splits)
      let ?m = "\<lparr>am_time = n, am_attempt = a, am_stored = (stored_texts t \<noteq> [])\<rparr>"
      have made: "attempts_made (Cycle t r # evs) = ?m # ?ms" using a clock by (simp add: cycle_attempts_simps)
      have sp: "all_spaced sha (?m # ?ms)"
        using before(3) due_is_spaced [OF before(2) _ due] facts by (simp add: faithful_texts_def)
      show ?thesis
      proof (cases "stored_texts t = []")
        case True
        with st sp made show ?thesis by (simp add: chain_state_def latest_file_def tracks_unstored)
      next
        case False
        with keeps obtain y b where kpt: "stored_texts t =
            [auto_state_text (new_state opts n ?previous (sha y) b (snd (attempt_own sha (to_iso cal n) (previous_own ?previous) a)))]"
          by blast
        have "tracks cal sha (snd (attempt_own sha (to_iso cal n) (previous_own ?previous) a)) (?m # ?ms)"
          using tracks_step [OF before(2), of ?m] False by simp
        from stored [OF kpt] this sp made before(4) show ?thesis by simp
      qed
    qed
  qed
qed

lemma chain_state_manual:
  assumes "faithful_texts cal sha" and "chain_state cal sha file evs"
  shows "chain_state cal sha (Some (auto_state_text (reset_state cal (read_auto_state cal file)))) (Manual_sync # evs)"
proof -
  have "storable cal (reset_state cal (read_auto_state cal file))"
    using assms by (cases "read_auto_state cal file")
      (auto simp: chain_state_def storable_def reset_state_def fresh_own_def faithful_texts_def units_def)
  from this auto_state_roundtrip [OF this] show ?thesis
    by (cases "read_auto_state cal file") (simp_all add: chain_state_def previous_own_def reset_state_def tracks_fresh)
qed

lemma chain_invariant:
  assumes "sync_chain cal sha file evs" and "faithful_texts cal sha" and "int (length evs) < 10 ^ 21"
  shows "chain_state cal sha file evs \<and>
    (\<forall>t r. Cycle t r \<in> set evs \<longrightarrow> (\<exists>opts. cycle_kept opts (r = Inr cycle_failed) t))"
  using assms(1,3)
proof (induction rule: sync_chain.induct)
  case (chain_start f)
  then show ?case by (simp add: chain_state_def previous_own_def tracks_fresh)
next
  case (chain_cycle f evs opts t r)
  have kept: "cycle_kept opts (r = Inr cycle_failed) t"
    using holds_exec_result [OF holds_kept chain_cycle.hyps(2)] by simp
  have IH: "chain_state cal sha f evs" "\<forall>t r. Cycle t r \<in> set evs \<longrightarrow> (\<exists>opts. cycle_kept opts (r = Inr cycle_failed) t)"
    using chain_cycle.IH chain_cycle.prems by simp_all
  have "chain_state cal sha (latest_file f t) (Cycle t r # evs)"
    by (rule chain_state_cycle [OF assms(2) chain_cycle.hyps(3,4) IH(1) _ kept chain_cycle.hyps(5)]) (use chain_cycle.prems in simp)
  with kept IH(2) show ?case by auto
next
  case (chain_manual f evs)
  then show ?case using chain_state_manual [OF assms(2)] by simp
qed

lemma kept_attempts: "cycle_kept opts failed t \<Longrightarrow>
    length (own_attempts t) \<le> 1 \<and> (\<forall>a \<in> set (own_attempts t). stored_texts t = [] \<longleftrightarrow> refused_attempt a \<or> failed)"
  unfolding cycle_kept_def kept_at_def Let_def by (auto split: if_splits)


subsection \<open>What a reported success means\<close>

definition own_synced :: "bool \<Rightarrow> (auto_call \<times> auto_answer) list \<Rightarrow> bool" where
  "own_synced refuse h \<longleftrightarrow> (\<exists>a y. (Own_sync refuse, a) \<in> set h \<and> aa_attempt a = Inr y)"

definition reindexed :: "(auto_call \<times> auto_answer) list \<Rightarrow> bool" where
  "reindexed h \<longleftrightarrow> (\<exists>x y. (Reindex_all, x) \<in> set h \<and> aa_failed x = None \<and> (Write_marker, y) \<in> set h \<and> aa_failed y = None)"

definition pulled_all :: "sync_outcome \<Rightarrow> (auto_call \<times> auto_answer) list \<Rightarrow> bool" where
  "pulled_all out h \<longleftrightarrow> (\<exists>c. (Community_pull, c) \<in> set h \<and> aa_failed c = None \<and> aa_community c = so_community out)"

definition real_success :: "bool \<Rightarrow> (auto_call \<times> auto_answer) list \<Rightarrow> run_result \<Rightarrow> bool" where
  "real_success refuse h r \<longleftrightarrow>
     (\<forall>out. rr_outcome r = Some out \<longrightarrow> ow_disposition (so_own out) = Success \<longrightarrow>
        own_synced refuse h \<and> reindexed h \<and> pulled_all out h)"

lemma real_success_mono: "real_success refuse h r \<Longrightarrow> real_success refuse (h @ h') r"
  unfolding real_success_def own_synced_def reindexed_def pulled_all_def by (simp del: split_paired_Ex) blast

lemma no_success [simp]: "real_success refuse h (not_run w)" "real_success refuse h cycle_failed"
  by (simp_all add: real_success_def not_run_def cycle_failed_def)

lemma okay_ask_auto: "okay (ask c) G P h \<longleftrightarrow> G h c \<and> (\<forall>a. aa_failed a = None \<longrightarrow> P (h @ [(c, a)]) a)"
  by (auto simp: okay_def holds_ask_auto split: option.splits)

lemma okay_look: "okay (look c) G P h \<longleftrightarrow> G h c \<and> (\<forall>a. P (h @ [(c, a)]) a)"
  by (simp add: okay_def holds_look)

lemma okay_kept: "(\<And>h' x. P (h @ h') x) \<Longrightarrow> okay m anywhere P h"
  by (rule uses_okay [OF uses_any]) auto

lemma okay_finally:
  assumes "okay m anywhere P h" and "\<And>h' h'' y. P h' y \<Longrightarrow> P (h' @ h'') y"
  shows "okay (finally_do m c) anywhere P h"
  unfolding okay_def holds_finally
  by (rule holds_post [OF assms(1) [unfolded okay_def]], rule uses_holds [OF uses_any])
    (auto intro: assms(2) split: sum.splits simp flip: append_assoc)

lemma okay_reindex_and_mark: "okay reindex_and_mark anywhere (\<lambda>h' _. reindexed h') h"
proof -
  have mono: "reindexed h \<Longrightarrow> reindexed (h @ h')" for h h' unfolding reindexed_def by auto
  have close: "okay (seqE (ask Close_db) (\<lambda>_. Ret x)) anywhere (\<lambda>h' _. reindexed h') h" if "isl x \<or> reindexed h"
    for x :: "jstr + unit" and h
    using that by (cases x) (auto simp: okay_ask_auto okay_def [of "Ret _"] intro: mono)
  have "holds (seqE (ask Reindex_all) (\<lambda>_. seqE (ask Write_marker) (\<lambda>_. retE ()))) anywhere (\<lambda>h' x. isl x \<or> reindexed h') h" for h
    by (simp add: holds_ask_auto reindexed_def split: option.splits) blast
  then have "okay (bind (seqE (ask Reindex_all) (\<lambda>_. seqE (ask Write_marker) (\<lambda>_. retE ()))) (\<lambda>x. seqE (ask Close_db) (\<lambda>_. Ret x)))
      anywhere (\<lambda>h' _. reindexed h') h" for h
    unfolding okay_bind by (rule holds_post) (rule close)
  then show ?thesis
    unfolding reindex_and_mark_def by (auto simp: okay_ask_auto intro!: okay_kept)
qed

lemma attempt_success: "ow_disposition (fst (mark_degraded (attempt_own sha t st a))) = Success \<longleftrightarrow> \<not> isl a"
  by (cases a) (auto simp: mark_degraded_def attempt_own_def plain_outcome_def classify_own_sync_outcome_def Let_def
      split: prod.splits if_splits sync_error.splits)

lemma okay_finish:
  assumes "ow_disposition (fst p) = Success \<longrightarrow> own_synced refuse h" and "\<exists>c. (Community_pull, c) \<in> set h \<and> aa_failed c = None \<and> aa_community c = community"
    and "refused_code (fst p) \<longrightarrow> ow_disposition (fst p) \<noteq> Success"
  shows "okay (finish_cycle opts now previous community p) anywhere (\<lambda>h' r. real_success refuse h' r) h"
proof -
  obtain own st where p: "p = (own, st)" by fastforce
  define R where "R h' \<longleftrightarrow> reindexed h' \<and> (ow_disposition own = Success \<longrightarrow> own_synced refuse h') \<and>
      (\<exists>c. (Community_pull, c) \<in> set h' \<and> aa_failed c = None \<and> aa_community c = community)" for h'
  have first: "okay reindex_and_mark anywhere (\<lambda>h' _. R h') h"
    unfolding R_def by (rule okay_conj [OF okay_reindex_and_mark okay_kept]) (use assms p in \<open>auto simp: own_synced_def\<close>)
  have done_: "real_success refuse h' (cycle_done \<lparr>so_community = community, so_own = own\<rparr> n)" if "R h'" for h' n
    using that by (auto simp: R_def real_success_def cycle_done_def pulled_all_def)
  have R_mono: "R (h' @ h'')" if "R h'" for h' h''
    using that unfolding R_def own_synced_def reindexed_def by (simp del: split_paired_Ex) blast
  have tail: "real_success refuse (h @ h' @ t) (cycle_done \<lparr>so_community = community, so_own = own\<rparr> n)" if "R (h @ h')" for h' t n
    using done_ [OF R_mono [OF that]] by simp
  show ?thesis
  proof (cases "refused_code own")
    case True
    with assms(3) p show ?thesis
      by (simp add: finish_cycle_def real_success_def cycle_done_def)
  next
    case False
    then show ?thesis
      unfolding finish_cycle_def p prod.case Let_def if_not_P [OF False]
      by (intro okay_seqI [OF first]) (auto simp: okay_look okay_ask_auto split_beta intro: tail)
  qed
qed

lemma attempt_refused: "refused_code (fst (mark_degraded (attempt_own sha t st a))) \<Longrightarrow> isl a"
  by (cases a) (auto simp: mark_degraded_def attempt_own_def refused_code_def plain_outcome_def split: prod.splits)

lemma okay_own_part: "okay (own_part opts now st) anywhere
    (\<lambda>h' p. (ow_disposition (fst p) = Success \<longrightarrow> own_synced (ao_refuse opts) h') \<and> (refused_code (fst p) \<longrightarrow> ow_disposition (fst p) \<noteq> Success)) h"
proof (cases "own_due (ao_calendar opts) now st")
  case True
  have "own_synced (ao_refuse opts) (h @ [(Own_sync (ao_refuse opts), a)])" if "\<not> isl (aa_attempt a)" for a
    using that by (cases "aa_attempt a") (auto simp: own_synced_def)
  with True show ?thesis
    unfolding own_part_def by (auto simp: okay_look attempt_success dest: attempt_refused)
next
  case False
  then show ?thesis by (simp add: own_part_def mark_degraded_def plain_outcome_def)
qed

lemma okay_cycle_body: "okay (cycle_body opts) anywhere (real_success (ao_refuse opts)) h"
proof -
  have body: "okay (seqE (own_part opts now st) (finish_cycle opts now previous (aa_community c))) anywhere (real_success (ao_refuse opts)) (h' @ [(Community_pull, c)])"
    if "aa_failed c = None" for now st previous c h'
    by (rule okay_seqI [OF okay_conj [OF okay_own_part okay_kept [where P = "\<lambda>h'' _. (Community_pull, c) \<in> set h''"]]])
      (use that in \<open>auto intro!: okay_finish\<close>)
  have pull: "okay (seqE (ask Community_pull) (\<lambda>c. seqE (own_part opts now st) (finish_cycle opts now previous (aa_community c)))) anywhere
      (real_success (ao_refuse opts)) h'" for now st previous h'
  proof (rule okay_seqI [where Q = "\<lambda>h'' c. \<exists>k. h'' = k @ [(Community_pull, c)] \<and> aa_failed c = None"])
    show "okay (ask Community_pull) anywhere (\<lambda>h'' c. \<exists>k. h'' = k @ [(Community_pull, c)] \<and> aa_failed c = None) h'"
      by (simp add: okay_ask_auto)
  qed (metis body)
  show ?thesis
    unfolding cycle_body_def Let_def
    by (rule okay_seqI [OF okay_kept [where P = "\<lambda>_ _. True"]], rule TrueI, rule okay_seqI [OF okay_kept [where P = "\<lambda>_ _. True"]], rule TrueI)
      (simp add: pull del: okay_seqE)
qed

lemma okay_catch:
  assumes "okay m anywhere P h" and "\<And>e h'. okay (f e) anywhere P (h @ h')"
  shows "okay (catch m f) anywhere P h"
  unfolding okay_def holds_catch
  by (rule holds_post [OF assms(1) [unfolded okay_def]]) (auto split: sum.splits intro: assms(2) [unfolded okay_def])

lemma okay_warn: "okay (warn_failed e) anywhere (real_success refuse) h"
  by (simp add: warn_failed_def okay_look)

lemma okay_cycle: "okay (run_auto_sync_cycle opts) anywhere (real_success (ao_refuse opts)) h"
proof -
  have locked: "okay (cycle_under_lock opts) anywhere (real_success (ao_refuse opts)) h" for h
    unfolding cycle_under_lock_def okay_bind
    by (auto simp: holds_ask_auto intro!: okay_finally okay_catch okay_cycle_body okay_warn real_success_mono split: option.splits)
  show ?thesis
    unfolding run_auto_sync_cycle_def
    by (auto simp: okay_look okay_ask_auto intro!: okay_finally locked real_success_mono)
qed

definition all_synced :: "(auto_call \<times> auto_answer) list \<Rightarrow> bool" where
  "all_synced h \<longleftrightarrow> own_synced True h \<and> reindexed h \<and>
     (\<exists>c. (Community_pull, c) \<in> set h \<and> aa_failed c = None \<and> (\<forall>s \<in> set (aa_community c). cs_failed s = None))"

lemma all_synced_mono: "all_synced h \<Longrightarrow> all_synced (h @ h')"
  unfolding all_synced_def own_synced_def reindexed_def by (simp del: split_paired_Ex) blast

lemma disposition_success: "fst (periodic_disposition r) = Run_success \<Longrightarrow> real_success True h r \<Longrightarrow> all_synced h"
  by (auto simp: periodic_disposition_def real_success_def pulled_all_def all_synced_def split: if_splits option.splits)

lemma okay_periodic_locked:
  "okay (periodic_under_lock opts interval start) anywhere (\<lambda>h' r. pp_status r = Run_success \<longrightarrow> all_synced h') h"
proof -
  have cycle: "okay (run_auto_sync_cycle (periodic_opts opts interval)) anywhere (\<lambda>h' r. fst (periodic_disposition r) = Run_success \<longrightarrow> all_synced h') h" for h
    by (rule okay_mono [OF okay_cycle]) (auto simp: periodic_opts_def intro: disposition_success)
  show ?thesis
    unfolding periodic_under_lock_def Let_def
  proof (rule okay_seqI [OF okay_kept [where P = "\<lambda>_ _. True"]], rule TrueI, rule okay_seqI [OF cycle])
    fix h' y h'' r
    assume "fst (periodic_disposition r) = Run_success \<longrightarrow> all_synced ((h @ h') @ h'')"
    then show "okay (seqE (look Clock) (\<lambda>t. case periodic_disposition r of (status, reason) \<Rightarrow>
       seqE (ask (Write_periodic (periodic_state_text (next_periodic_state (read_periodic_state (ao_calendar opts) (aa_text y)) (rr_ran r)
          \<lparr>pp_status = status, pp_reason = reason, pp_startedAt = start, pp_finishedAt = to_iso (ao_calendar opts) (aa_time t)\<rparr>))))
        (\<lambda>_. retE \<lparr>pp_status = status, pp_reason = reason, pp_startedAt = start, pp_finishedAt = to_iso (ao_calendar opts) (aa_time t)\<rparr>)))
      anywhere (\<lambda>h' r. pp_status r = Run_success \<longrightarrow> all_synced h') ((h @ h') @ h'')"
      using all_synced_mono [of "(h @ h') @ h''"] by (auto simp: okay_look okay_ask_auto split_beta)
  qed
qed

lemma okay_periodic:
  "okay (run_periodic_sync opts interval) anywhere (\<lambda>h' r. pp_status r = Run_success \<longrightarrow> all_synced h') []"
proof -
  have "okay (bind (periodic_under_lock opts interval start) (\<lambda>x. seqE (ask Release_periodic) (\<lambda>_. Ret x))) anywhere
      (\<lambda>h' r. pp_status r = Run_success \<longrightarrow> all_synced h') h" for start h
    unfolding okay_bind
  proof (rule holds_post [OF okay_periodic_locked [unfolded okay_def]])
    fix h' and x :: "jstr + periodic_result"
    assume "case x of Inl e \<Rightarrow> True | Inr r \<Rightarrow> pp_status r = Run_success \<longrightarrow> all_synced (h @ h')"
    then show "okay (seqE (ask Release_periodic) (\<lambda>_. Ret x)) anywhere (\<lambda>h' r. pp_status r = Run_success \<longrightarrow> all_synced h') (h @ h')"
      using all_synced_mono [of "h @ h'"] by (cases x) (auto simp: okay_ask_auto okay_def [of "Ret _"])
  qed
  then show ?thesis
    unfolding run_periodic_sync_def Let_def by (auto simp: okay_look okay_ask_auto busy_periodic_def)
qed

text \<open>
  C19: A periodic run that reports success has synchronised the own repository in this run, under
  the policy that refuses a dirty tree, has pulled every community source without a failure, and
  has reindexed and marked the index afterwards.
\<close>

theorem periodic_success_is_real:
  assumes "exec (run_periodic_sync opts interval) t (Inr r)" and "pp_status r = Run_success"
  shows "own_synced True t \<and> reindexed t \<and>
    (\<exists>c. (Community_pull, c) \<in> set t \<and> aa_failed c = None \<and> (\<forall>s \<in> set (aa_community c). cs_failed s = None))"
  using holds_exec_result [OF okay_periodic [unfolded okay_def] assms(1)] assms(2)
  by (simp add: all_synced_def)

text \<open>A world in which every call succeeds and nothing has changed.\<close>

definition calm_answer :: "auto_call \<Rightarrow> auto_answer" where
  "calm_answer c = \<lparr>aa_failed = None, aa_flag = (c \<noteq> Env_off), aa_time = 0, aa_text = None, aa_names = [], aa_community = [],
     aa_attempt = Inr (False, 0)\<rparr>"

lemma calm_simps [simp]:
  "aa_failed (calm_answer c) = None" "aa_flag (calm_answer c) \<longleftrightarrow> c \<noteq> Env_off" "aa_time (calm_answer c) = 0"
  "aa_text (calm_answer c) = None" "aa_names (calm_answer c) = []" "aa_community (calm_answer c) = []"
  "aa_attempt (calm_answer c) = Inr (False, 0)"
  by (simp_all add: calm_answer_def)

definition calm_opts :: auto_opts where
  "calm_opts = \<lparr>ao_ownDir = [], ao_dbPath = [], ao_entriesDir = [], ao_communityDir = [], ao_githubUser = None, ao_refuse = False,
     ao_debounceMs = None, ao_writeRequestedAt = None, ao_calendar = toy_calendar, ao_sha = id\<rparr>"

lemma run_auto [run_eval]:
  "run (ask c) w h = ([(c, w h c)], case aa_failed (w h c) of Some e \<Rightarrow> Inl e | None \<Rightarrow> Inr (w h c))"
  "run (look c) w h = ([(c, w h c)], Inr (w h c))"
  "run (finally_do m f) w h = (case run m w h of (t, x) \<Rightarrow> (case run f w (h @ t) of (t', _) \<Rightarrow> (t @ t', x)))"
  by (simp_all add: ask_def look_def Let_def finally_do_def run_bind split: prod.splits)

lemmas cycle_run = run_eval run_auto_sync_cycle_def cycle_under_lock_def cycle_body_def own_part_def finish_cycle_def reindex_and_mark_def
  release_def attempt_own_def mark_degraded_def read_auto_state_def write_already_synced_def interval_wait_def previous_own_def
  own_due_def fresh_own_def suspend_threshold_def plain_outcome_def refused_code_def auto_sync_notification_def notification_lines_def
  should_notify_def Let_def

lemma calm_cycle: "(Community_pull, calm_answer Community_pull) \<in> set (fst (run (run_auto_sync_cycle calm_opts) (\<lambda>_. calm_answer) []))"
  by (simp add: cycle_run calm_opts_def)

text \<open>A world in which the own synchronisation ends in a conflict.\<close>

definition conflict_answer :: "auto_call \<Rightarrow> auto_answer" where
  "conflict_answer c = (calm_answer c)\<lparr>aa_attempt := Inl (Sync_code SYNC_CONFLICT, None)\<rparr>"

definition zero_digest :: "jstr \<Rightarrow> jstr" where
  "zero_digest x = replicate 64 48"

lemma conflict_simps [simp]:
  "aa_failed (conflict_answer c) = None" "aa_flag (conflict_answer c) \<longleftrightarrow> c \<noteq> Env_off" "aa_time (conflict_answer c) = 0"
  "aa_text (conflict_answer c) = None" "aa_names (conflict_answer c) = []" "aa_community (conflict_answer c) = []"
  "aa_attempt (conflict_answer c) = Inl (Sync_code SYNC_CONFLICT, None)"
  by (simp_all add: conflict_answer_def)

lemma toy_faithful: "faithful_texts toy_calendar zero_digest"
proof -
  have "units (to_iso toy_calendar n)" for n by (auto simp: toy_calendar_def units_def)
  moreover have "digest_re (zero_digest x) \<and> units (zero_digest x)" for x
    by (auto simp: digest_re_def zero_digest_def units_def list_all_iff is_digit_def)
  ultimately show ?thesis by (simp add: faithful_texts_def toy_parses_iso)
qed


theorem degraded_sync_is_retried_witness:
  "\<exists>t r b a. exec (run_auto_sync_cycle calm_opts) t r \<and> (Own_sync b, a) \<in> set t"
proof -
  let ?t = "fst (run (run_auto_sync_cycle calm_opts) (\<lambda>_. calm_answer) [])"
  obtain r where e: "exec (run_auto_sync_cycle calm_opts) ?t r"
    using exec_run [of "run_auto_sync_cycle calm_opts" "\<lambda>_. calm_answer" "[]"] by (metis prod.collapse)
  have state: "aa_text s = None" if "(Read_state, s) \<in> set ?t" for s
    using that by (simp add: cycle_run calm_opts_def)
  have "previous_own (read_auto_state cal None) = fresh_own" for cal by (simp add: previous_own_def read_auto_state_def)
  with degraded_sync_is_retried [OF e calm_cycle] state e show ?thesis
    by (auto simp: fresh_own_def suspend_threshold_def Let_def)
qed

theorem periodic_success_is_real_witness:
  "\<exists>t r. exec (run_periodic_sync calm_opts 0) t (Inr r) \<and> own_synced True t"
proof -
  let ?m = "run_periodic_sync calm_opts 0"
  obtain r where r: "snd (run ?m (\<lambda>_. calm_answer) []) = Inr r" "pp_status r = Run_success"
    by (simp add: cycle_run calm_opts_def run_periodic_sync_def periodic_under_lock_def periodic_opts_def read_periodic_state_def
        periodic_disposition_def not_run_def cycle_done_def)
  then have "exec ?m (fst (run ?m (\<lambda>_. calm_answer) [])) (Inr r)"
    using exec_run [of ?m "\<lambda>_. calm_answer" "[]"] by (metis prod.collapse)
  from periodic_success_is_real [OF this r(2)] this show ?thesis by blast
qed

end
