(* ===== verification/Pending.thy ===== *)
theory Pending
  imports Json Codec "HOL-Library.Multiset"
begin

text \<open>
  The on-disk queue of deferred reminders, \<open>packages/core/src/pendingReminders.ts\<close>. The state is
  the directory \<open>pending/\<close>: one directory per session with its reminder files and its claims, and
  the sweep marker. Every operation that changes it runs under one exclusive lock
  (\<open>withPendingQueueLock\<close>), so an operation is a function of the state and any interleaving of
  processes is a sequence of operations; the look of a publication at the directory before it takes
  the lock is apart from its locked part (\<open>publish_unseen\<close>). What the surroundings decide is in \<open>pend_env\<close>: the
  clock, random names and tokens, whether the lock is granted, and which file operations fail.
  Lemmas: reminders are neither lost nor doubled by any sequence of operations whose reads and removals
  work, a claim keeps every
  other builder of its key away until it is released or expires, the sweep takes no session with
  recent files or a live claim, and the key of a reminder depends on the set of its entries only.
\<close>

subsection \<open>Sorting with a comparison function\<close>

text \<open>\<open>Array.prototype.sort\<close>: stable; for a consistent comparison its result is that of insertion.\<close>

fun insort_by :: "('a \<Rightarrow> 'a \<Rightarrow> int) \<Rightarrow> 'a \<Rightarrow> 'a list \<Rightarrow> 'a list" where
  "insort_by cmp x [] = [x]"
| "insort_by cmp x (y # ys) = (if cmp x y \<le> 0 then x # y # ys else y # insort_by cmp x ys)"

definition js_sort :: "('a \<Rightarrow> 'a \<Rightarrow> int) \<Rightarrow> 'a list \<Rightarrow> 'a list" where
  "js_sort cmp xs = foldr (insort_by cmp) xs []"

subsection \<open>The state\<close>

datatype pend_error = Queue_locked | Bad_key | File_exists | Io_error | Outside_root | Bad_days

record pend_file =
  pf_bytes :: bytes
  pf_mtime :: int

text \<open>\<open>ss_claims\<close> is the directory \<open>.claims\<close> with its own time, if it exists.\<close>

record session_dir =
  ss_mtime :: int
  ss_files :: "(jstr \<times> pend_file) list"
  ss_claims :: "(int \<times> (jstr \<times> pend_file) list) option"

record pending =
  pd_root :: bool
  pd_sessions :: "(jstr \<times> session_dir) list"
  pd_marker :: "int option"

text \<open>
  \<open>pe_now\<close> is \<open>Date.now()\<close> and the time a file gets; the predicates say which accesses of a
  session's file (or of the session's directory, name empty) fail.
\<close>

record pend_env =
  pe_now :: int
  pe_lock :: bool
  pe_random :: "nat \<Rightarrow> jstr"
  pe_read_fails :: "jstr \<Rightarrow> jstr \<Rightarrow> bool"
  pe_unlink_fails :: "jstr \<Rightarrow> jstr \<Rightarrow> bool"
  pe_stat_fails :: "jstr \<Rightarrow> jstr \<Rightarrow> bool"
  pe_list_fails :: "jstr \<Rightarrow> jstr \<Rightarrow> bool"

definition sanitize_session_id :: "jstr \<Rightarrow> jstr" where
  "sanitize_session_id raw =
     (let clean = filter (\<lambda>c. (65 \<le> c \<and> c \<le> 90) \<or> (97 \<le> c \<and> c \<le> 122) \<or> is_digit c \<or> c = 95 \<or> c = 45) raw
      in if length clean > 0 then clean else lit ''_unknown'')"

definition global_pending_session :: jstr where
  "global_pending_session = lit ''_global''"

definition queue_locked :: "pend_env \<Rightarrow> (pending \<Rightarrow> (pend_error + 'a) \<times> pending) \<Rightarrow> pending \<Rightarrow> (pend_error + 'a) \<times> pending" where
  "queue_locked env op st =
     (let st' = st\<lparr>pd_root := True\<rparr> in if pe_lock env then op st' else (Inl Queue_locked, st'))"

definition session_of :: "pending \<Rightarrow> jstr \<Rightarrow> session_dir option" where
  "session_of st s = map_of (pd_sessions st) s"

definition set_session :: "pending \<Rightarrow> jstr \<Rightarrow> session_dir \<Rightarrow> pending" where
  "set_session st s d = st\<lparr>pd_sessions := map_set (pd_sessions st) s d\<rparr>"

text \<open>\<open>mkdirSync(dir, \{recursive: true\})\<close>.\<close>

definition make_session :: "pend_env \<Rightarrow> jstr \<Rightarrow> pending \<Rightarrow> pending" where
  "make_session env s st = (case session_of st s of
     None \<Rightarrow> set_session st s \<lparr>ss_mtime = pe_now env, ss_files = [], ss_claims = None\<rparr> | Some d \<Rightarrow> st)"

definition file_of :: "pending \<Rightarrow> jstr \<Rightarrow> jstr \<Rightarrow> pend_file option" where
  "file_of st s name = (case session_of st s of None \<Rightarrow> None | Some d \<Rightarrow> map_of (ss_files d) name)"

text \<open>Writing a new file and removing one; both touch the directory's own time.\<close>

definition add_file :: "pend_env \<Rightarrow> jstr \<Rightarrow> jstr \<Rightarrow> bytes \<Rightarrow> pending \<Rightarrow> pending" where
  "add_file env s name b st = (case session_of st s of
     None \<Rightarrow> st
   | Some d \<Rightarrow> set_session st s (d\<lparr>ss_mtime := pe_now env, ss_files := map_set (ss_files d) name \<lparr>pf_bytes = b, pf_mtime = pe_now env\<rparr>\<rparr>))"

definition drop_file :: "pend_env \<Rightarrow> jstr \<Rightarrow> jstr \<Rightarrow> pending \<Rightarrow> pending" where
  "drop_file env s name st = (case session_of st s of
     None \<Rightarrow> st
   | Some d \<Rightarrow> set_session st s (d\<lparr>ss_mtime := pe_now env, ss_files := filter (\<lambda>(n, _). n \<noteq> name) (ss_files d)\<rparr>))"

subsection \<open>Appending\<close>

definition int_str :: "int \<Rightarrow> jstr" where
  "int_str i = (if i < 0 then 45 # nat_str (nat (- i)) else nat_str (nat i))"

definition append_pending :: "pend_env \<Rightarrow> jstr \<Rightarrow> jstr \<Rightarrow> pending \<Rightarrow> (pend_error + jstr) \<times> pending" where
  "append_pending env sessionId msg = queue_locked env (\<lambda>st.
     let s = sanitize_session_id sessionId; st = make_session env s st;
         name = int_str (pe_now env) @ lit ''-'' @ pe_random env 4 @ lit ''.txt'' in
     if file_of st s name \<noteq> None then (Inl File_exists, st)
     else (Inr name, add_file env s name (utf8_encode msg) st))"

definition append_global_pending :: "pend_env \<Rightarrow> jstr \<Rightarrow> pending \<Rightarrow> (pend_error + jstr) \<times> pending" where
  "append_global_pending env = append_pending env global_pending_session"

subsection \<open>The key of a reminder\<close>

text \<open>\<open>cmp\<close> is \<open>localeCompare\<close>, \<open>sha\<close> the SHA-256 digest of a text in hexadecimal.\<close>

definition ref_cmp :: "(jstr \<Rightarrow> jstr \<Rightarrow> int) \<Rightarrow> jstr \<times> jstr \<Rightarrow> jstr \<times> jstr \<Rightarrow> int" where
  "ref_cmp cmp a b = (if cmp (fst a) (fst b) \<noteq> 0 then cmp (fst a) (fst b) else cmp (snd a) (snd b))"

fun drop_repeats :: "'a list \<Rightarrow> 'a list" where
  "drop_repeats [] = []"
| "drop_repeats [x] = [x]"
| "drop_repeats (x # y # ys) = (if x = y then drop_repeats (y # ys) else x # drop_repeats (y # ys))"

definition pending_semantic_key ::
  "(jstr \<Rightarrow> jstr) \<Rightarrow> (jstr \<Rightarrow> jstr \<Rightarrow> int) \<Rightarrow> jstr \<Rightarrow> jstr \<Rightarrow> (jstr \<times> jstr) list \<Rightarrow> jstr option \<Rightarrow> jstr" where
  "pending_semantic_key sha cmp agent surface refs digest =
     sha (json_stringify (JObj [(lit ''agent'', JStr agent), (lit ''surface'', JStr surface),
       (lit ''refs'', JArr (map (\<lambda>(s, i). JArr [JStr s, JStr i]) (drop_repeats (js_sort (ref_cmp cmp) refs)))),
       (lit ''stopSignalDigest'', case digest of None \<Rightarrow> JNull | Some d \<Rightarrow> JStr d)]))"

subsection \<open>Claims\<close>

definition claim_ttl_ms :: int where "claim_ttl_ms = 5 * 60 * 1000"

definition key_ok :: "jstr \<Rightarrow> bool" where
  "key_ok key \<longleftrightarrow> length key = 64 \<and> list_all (\<lambda>c. is_digit c \<or> (97 \<le> c \<and> c \<le> 102)) key"

text \<open>The largest integer not above a number: an integer is at most the number iff it is at most this.\<close>

fun dec_floor :: "dec \<Rightarrow> int" where
  "dec_floor (Dec m e) = (if 0 \<le> e then m * 10 ^ nat e else m div 10 ^ nat (- e))"

text \<open>When a claim was made: its own word if it has one, else the time of the file.\<close>

definition claim_created :: "pend_file \<Rightarrow> int" where
  "claim_created f =
     (case json_parse (utf8_decode (pf_bytes f)) of
        None \<Rightarrow> pf_mtime f
      | Some j \<Rightarrow> (case get_member j ''createdAt'' of Some (JNum d) \<Rightarrow> dec_floor d | _ \<Rightarrow> pf_mtime f))"

definition claim_read :: "pend_env \<Rightarrow> jstr \<Rightarrow> jstr \<Rightarrow> pend_file \<Rightarrow> int" where
  "claim_read env s name f = (if pe_read_fails env s name then pf_mtime f else claim_created f)"

fun any_live_claim :: "pend_env \<Rightarrow> jstr \<Rightarrow> int \<Rightarrow> (jstr \<times> pend_file) list \<Rightarrow> bool" where
  "any_live_claim env s nowMs [] = False"
| "any_live_claim env s nowMs ((name, f) # cs) =
     (if pe_stat_fails env s name then True
      else if nowMs - claim_read env s name f \<le> claim_ttl_ms then True
      else any_live_claim env s nowMs cs)"

definition has_live_claim :: "pend_env \<Rightarrow> jstr \<Rightarrow> int \<Rightarrow> session_dir \<Rightarrow> bool" where
  "has_live_claim env s nowMs d =
     (case ss_claims d of
        None \<Rightarrow> False
      | Some (_, cs) \<Rightarrow>
          (if pe_list_fails env s (lit ''.claims'') then True
           else any_live_claim env s nowMs (filter (\<lambda>(n, _). ends_with (lit ''.claim'') n) cs)))"

record claim =
  cl_session :: jstr
  cl_key :: jstr
  cl_token :: jstr

definition ready_name :: "jstr \<Rightarrow> jstr" where "ready_name key = key @ lit ''.ready''"
definition claim_name :: "jstr \<Rightarrow> jstr" where "claim_name key = key @ lit ''.claim''"

definition claims_of :: "pending \<Rightarrow> jstr \<Rightarrow> (jstr \<times> pend_file) list" where
  "claims_of st s = (case session_of st s of None \<Rightarrow> [] | Some d \<Rightarrow> (case ss_claims d of None \<Rightarrow> [] | Some (_, cs) \<Rightarrow> cs))"

definition make_claims :: "pend_env \<Rightarrow> jstr \<Rightarrow> pending \<Rightarrow> pending" where
  "make_claims env s st =
     (let st = make_session env s st in
      case session_of st s of
        None \<Rightarrow> st
      | Some d \<Rightarrow> (case ss_claims d of
          None \<Rightarrow> set_session st s (d\<lparr>ss_mtime := pe_now env, ss_claims := Some (pe_now env, [])\<rparr>) | Some _ \<Rightarrow> st))"

definition set_claims :: "pend_env \<Rightarrow> jstr \<Rightarrow> (jstr \<times> pend_file) list \<Rightarrow> pending \<Rightarrow> pending" where
  "set_claims env s cs st = (case session_of st s of None \<Rightarrow> st | Some d \<Rightarrow> set_session st s (d\<lparr>ss_claims := Some (pe_now env, cs)\<rparr>))"

definition claim_text :: "jstr \<Rightarrow> int \<Rightarrow> jstr" where
  "claim_text token now = json_stringify (JObj [(lit ''ownerToken'', JStr token), (lit ''createdAt'', jint now)])"

text \<open>One of the two attempts; \<open>n\<close> counts those left and names the token of each.\<close>

fun claim_attempts :: "pend_env \<Rightarrow> jstr \<Rightarrow> jstr \<Rightarrow> int \<Rightarrow> int \<Rightarrow> nat \<Rightarrow> pending \<Rightarrow> (pend_error + claim option) \<times> pending" where
  "claim_attempts env s key now ttl 0 st = (Inr None, st)"
| "claim_attempts env s key now ttl (Suc n) st =
     (let token = pe_random env (16 + n); name = claim_name key; cs = claims_of st s in
      case map_of cs name of
        None \<Rightarrow>
          (let made = set_claims env s (map_set cs name \<lparr>pf_bytes = utf8_encode (claim_text token now), pf_mtime = pe_now env\<rparr>) st in
           if file_of made s (ready_name key) \<noteq> None
           then (Inr None, set_claims env s (filter (\<lambda>(c, _). c \<noteq> name) (claims_of made s)) made)
           else (Inr (Some \<lparr>cl_session = s, cl_key = key, cl_token = token\<rparr>), made))
      | Some f \<Rightarrow>
          (if pe_stat_fails env s name then (Inr None, st)
           else if now - claim_read env s name f \<le> ttl then (Inr None, st)
           else if pe_unlink_fails env s name then (Inr None, st)
           else claim_attempts env s key now ttl n (set_claims env s (filter (\<lambda>(c, _). c \<noteq> name) cs) st)))"

definition acquire_claim ::
  "pend_env \<Rightarrow> jstr \<Rightarrow> jstr \<Rightarrow> int option \<Rightarrow> int option \<Rightarrow> pending \<Rightarrow> (pend_error + claim option) \<times> pending" where
  "acquire_claim env sessionId key now ttl = queue_locked env (\<lambda>st.
     let s = sanitize_session_id sessionId in
     if \<not> key_ok key then (Inl Bad_key, st)
     else if file_of st s (ready_name key) \<noteq> None then (Inr None, st)
     else claim_attempts env s key (case now of None \<Rightarrow> pe_now env | Some t \<Rightarrow> t)
       (case ttl of None \<Rightarrow> claim_ttl_ms | Some t \<Rightarrow> t) 2 (make_claims env s st))"

definition release_claim :: "pend_env \<Rightarrow> claim \<Rightarrow> pending \<Rightarrow> (pend_error + unit) \<times> pending" where
  "release_claim env c = queue_locked env (\<lambda>st.
     let s = cl_session c; name = claim_name (cl_key c); cs = claims_of st s in
     case map_of cs name of
       None \<Rightarrow> (Inr (), st)
     | Some f \<Rightarrow>
         (if pe_read_fails env s name then (Inl Io_error, st)
          else (case json_parse (utf8_decode (pf_bytes f)) of
             None \<Rightarrow> (Inl Io_error, st)
           | Some JNull \<Rightarrow> (Inl Io_error, st)
           | Some j \<Rightarrow>
               (if get_member j ''ownerToken'' \<noteq> Some (JStr (cl_token c)) then (Inr (), st)
                else if pe_unlink_fails env s name then (Inl Io_error, st)
                else (Inr (), set_claims env s (filter (\<lambda>(n, _). n \<noteq> name) cs) st)))))"

subsection \<open>Publishing\<close>

record publish_result =
  pr_name :: jstr
  pr_published :: bool

text \<open>The locked part: a temporary file is linked to the ready name, unless that exists, and removed.\<close>

definition publish_locked :: "pend_env \<Rightarrow> jstr \<Rightarrow> jstr \<Rightarrow> jstr \<Rightarrow> pending \<Rightarrow> (pend_error + publish_result) \<times> pending" where
  "publish_locked env s key msg = queue_locked env (\<lambda>st.
     let st = make_session env s st; temp = lit ''.'' @ key @ lit ''.'' @ pe_random env 12 @ lit ''.tmp''; ready = ready_name key in
     if file_of st s temp \<noteq> None then (Inl File_exists, st)
     else
       (let st1 = add_file env s temp (utf8_encode msg) st;
            (res, st2) = (case file_of st1 s ready of
                Some _ \<Rightarrow> (\<lparr>pr_name = ready, pr_published = False\<rparr>, st1)
              | None \<Rightarrow> (\<lparr>pr_name = ready, pr_published = True\<rparr>, add_file env s ready (utf8_encode msg) st1))
        in if pe_unlink_fails env s temp then (Inl Io_error, st2) else (Inr res, drop_file env s temp st2)))"

text \<open>
  The publication after its first look found no ready file. Between the look and the lock other
  processes may work, so this part is an operation of its own.
\<close>

definition publish_unseen :: "pend_env \<Rightarrow> jstr \<Rightarrow> jstr \<Rightarrow> jstr \<Rightarrow> pending \<Rightarrow> (pend_error + publish_result) \<times> pending" where
  "publish_unseen env sessionId key msg st =
     (let s = sanitize_session_id sessionId; ready = ready_name key in
      if \<not> key_ok key then (Inl Bad_key, st)
      else (case publish_locked env s key msg st of
          (Inr r, st') \<Rightarrow> (Inr r, st')
        | (Inl e, st') \<Rightarrow>
            (if file_of st' s ready \<noteq> None then (Inr \<lparr>pr_name = ready, pr_published = False\<rparr>, st') else (Inl e, st'))))"

definition publish_pending :: "pend_env \<Rightarrow> jstr \<Rightarrow> jstr \<Rightarrow> jstr \<Rightarrow> pending \<Rightarrow> (pend_error + publish_result) \<times> pending" where
  "publish_pending env sessionId key msg st =
     (let s = sanitize_session_id sessionId; ready = ready_name key in
      if \<not> key_ok key then (Inl Bad_key, st)
      else if file_of st s ready \<noteq> None then (Inr \<lparr>pr_name = ready, pr_published = False\<rparr>, st)
      else publish_unseen env sessionId key msg st)"

text \<open>
  The claim, the work it protects and the publication. \<open>build\<close> throws (None) or gives the text; the
  claim is released either way, and a failing release replaces the result.
\<close>

definition build_and_publish ::
  "pend_env \<Rightarrow> jstr \<Rightarrow> jstr \<Rightarrow> jstr option \<Rightarrow> pending \<Rightarrow> (pend_error + bool \<times> bool) \<times> pending" where
  "build_and_publish env sessionId key build st =
     (case acquire_claim env sessionId key None None st of
        (Inl e, st') \<Rightarrow> (Inl e, st')
      | (Inr None, st') \<Rightarrow> (Inr (False, False), st')
      | (Inr (Some c), st') \<Rightarrow>
          (let (res, st'') = (case build of
                None \<Rightarrow> (Inl Io_error, st')
              | Some msg \<Rightarrow> (case publish_pending env sessionId (cl_key c) msg st' of
                  (Inl e, st'') \<Rightarrow> (Inl e, st'') | (Inr r, st'') \<Rightarrow> (Inr (True, pr_published r), st'')))
           in (case release_claim env c st'' of
                 (Inl e, st3) \<Rightarrow> (Inl e, st3)
               | (Inr _, st3) \<Rightarrow> (res, st3))))"

subsection \<open>Sweeping\<close>

record sweep_result =
  sw_removed :: "jstr list"
  sw_kept :: nat

definition day_ms :: int where "day_ms = 24 * 60 * 60 * 1000"

text \<open>The newest time below a session's directory; None when one of its entries cannot be looked at.\<close>

fun newest_mtime :: "pend_env \<Rightarrow> jstr \<Rightarrow> int \<Rightarrow> (jstr \<times> int) list \<Rightarrow> int option" where
  "newest_mtime env s newest [] = Some newest"
| "newest_mtime env s newest ((name, t) # es) =
     (if pe_stat_fails env s name then None else newest_mtime env s (if t > newest then t else newest) es)"

definition session_entries :: "session_dir \<Rightarrow> (jstr \<times> int) list" where
  "session_entries d = map (\<lambda>(n, f). (n, pf_mtime f)) (ss_files d) @
     (case ss_claims d of None \<Rightarrow> [] | Some (t, _) \<Rightarrow> [(lit ''.claims'', t)])"

datatype sweep_verdict = Ignored | Kept | Removed

definition sweep_verdict :: "pend_env \<Rightarrow> int \<Rightarrow> int \<Rightarrow> jstr \<Rightarrow> session_dir \<Rightarrow> sweep_verdict" where
  "sweep_verdict env nowMs cutoff s d =
     (if pe_stat_fails env s [] then Ignored
      else if has_live_claim env s nowMs d then Kept
      else
        (case (if pe_list_fails env s [] then None else newest_mtime env s (ss_mtime d) (session_entries d)) of
           None \<Rightarrow> Kept
         | Some newest \<Rightarrow> (if newest \<ge> cutoff then Kept else if pe_unlink_fails env s [] then Kept else Removed)))"

fun sweep_sessions ::
  "pend_env \<Rightarrow> int \<Rightarrow> int \<Rightarrow> (jstr \<times> session_dir) list \<Rightarrow> sweep_result \<Rightarrow> sweep_result \<times> (jstr \<times> session_dir) list" where
  "sweep_sessions env nowMs cutoff [] r = (r, [])"
| "sweep_sessions env nowMs cutoff ((s, d) # ds) r =
     (case sweep_verdict env nowMs cutoff s d of
        Removed \<Rightarrow> sweep_sessions env nowMs cutoff ds (r\<lparr>sw_removed := sw_removed r @ [s]\<rparr>)
      | v \<Rightarrow> (case sweep_sessions env nowMs cutoff ds (if v = Kept then r\<lparr>sw_kept := Suc (sw_kept r)\<rparr> else r) of
          (r', ds') \<Rightarrow> (r', (s, d) # ds')))"

definition nothing_swept :: sweep_result where "nothing_swept = \<lparr>sw_removed = [], sw_kept = 0\<rparr>"

definition cleanup_stale :: "pend_env \<Rightarrow> int option \<Rightarrow> int option \<Rightarrow> pending \<Rightarrow> (pend_error + sweep_result) \<times> pending" where
  "cleanup_stale env staleDays now st =
     (let days = (case staleDays of None \<Rightarrow> 7 | Some d \<Rightarrow> d); nowMs = (case now of None \<Rightarrow> pe_now env | Some t \<Rightarrow> t) in
      if days < 0 then (Inl Bad_days, st)
      else if \<not> pd_root st then (Inr nothing_swept, st)
      else queue_locked env (\<lambda>st.
        if pe_list_fails env [] [] then (Inr nothing_swept, st)
        else (case sweep_sessions env nowMs (nowMs - days * day_ms) (pd_sessions st) nothing_swept of
          (r, ds) \<Rightarrow> (Inr r, st\<lparr>pd_sessions := ds\<rparr>))) st)"

datatype sweep_outcome = Swept sweep_result | Env_off | No_pending_dir | Debounced

definition maybe_sweep ::
  "pend_env \<Rightarrow> bool \<Rightarrow> int option \<Rightarrow> int option \<Rightarrow> int option \<Rightarrow> pending \<Rightarrow> (pend_error + sweep_outcome) \<times> pending" where
  "maybe_sweep env off staleDays debounceDays now st =
     (let debounce = (case debounceDays of None \<Rightarrow> 1 | Some d \<Rightarrow> d); nowMs = (case now of None \<Rightarrow> pe_now env | Some t \<Rightarrow> t) in
      if off then (Inr Env_off, st)
      else if debounce < 0 then (Inl Bad_days, st)
      else if \<not> pd_root st then (Inr No_pending_dir, st)
      else if (case pd_marker st of None \<Rightarrow> False | Some m \<Rightarrow> nowMs - m < debounce * day_ms) then (Inr Debounced, st)
      else (case cleanup_stale env (Some (case staleDays of None \<Rightarrow> 7 | Some d \<Rightarrow> d)) (Some nowMs) st of
          (Inl e, st') \<Rightarrow> (Inl e, st')
        | (Inr r, st') \<Rightarrow> (Inr (Swept r), if pe_unlink_fails env [] [] then st' else st'\<lparr>pd_marker := Some (pe_now env)\<rparr>)))"

subsection \<open>Reading and draining\<close>

definition is_reminder :: "jstr \<Rightarrow> bool" where
  "is_reminder name \<longleftrightarrow> ends_with (lit ''.txt'') name \<or> ends_with (lit ''.ready'') name"

definition reminder_files :: "session_dir \<Rightarrow> (jstr \<times> pend_file) list" where
  "reminder_files d = filter (\<lambda>(n, _). is_reminder n) (ss_files d)"

text \<open>By time, then by name; a time that cannot be read leaves the names.\<close>

definition by_time :: "pend_env \<Rightarrow> (jstr \<Rightarrow> jstr \<Rightarrow> int) \<Rightarrow> jstr \<Rightarrow> jstr \<times> pend_file \<Rightarrow> jstr \<times> pend_file \<Rightarrow> int" where
  "by_time env cmp s a b =
     (if pe_stat_fails env s (fst a) \<or> pe_stat_fails env s (fst b) then cmp (fst a) (fst b)
      else if pf_mtime (snd a) - pf_mtime (snd b) \<noteq> 0 then pf_mtime (snd a) - pf_mtime (snd b)
      else cmp (fst a) (fst b))"

definition peek_pending ::
  "pend_env \<Rightarrow> (jstr \<Rightarrow> jstr \<Rightarrow> int) \<Rightarrow> jstr \<Rightarrow> pending \<Rightarrow> (pend_error + (jstr \<times> jstr) list \<times> jstr list) \<times> pending" where
  "peek_pending env cmp sessionId st =
     (let s = sanitize_session_id sessionId in
      if session_of st s = None then (Inr ([], []), st)
      else queue_locked env (\<lambda>st.
        case session_of st s of
          None \<Rightarrow> (Inl Io_error, st)
        | Some d \<Rightarrow>
            (let files = reminder_files d in
             if pe_list_fails env s [] \<or> (1 < length files \<and> list_ex (\<lambda>(n, _). pe_stat_fails env s n) files) then (Inl Io_error, st)
             else (let sorted = js_sort (by_time env cmp s) files in
               (Inr (map (\<lambda>(n, f). (n, utf8_decode (pf_bytes f))) (filter (\<lambda>(n, _). \<not> pe_read_fails env s n) sorted),
                     map fst (filter (\<lambda>(n, _). pe_read_fails env s n) sorted)), st)))) st)"

record drain_result =
  dr_reminders :: "jstr list"
  dr_failures :: "jstr list"

fun drain_files :: "pend_env \<Rightarrow> jstr \<Rightarrow> (jstr \<times> pend_file) list \<Rightarrow> drain_result \<Rightarrow> pending \<Rightarrow> drain_result \<times> pending" where
  "drain_files env s [] r st = (r, st)"
| "drain_files env s ((name, f) # fs) r st =
     (if pe_read_fails env s name then drain_files env s fs (r\<lparr>dr_failures := dr_failures r @ [name]\<rparr>) st
      else
        (let r' = r\<lparr>dr_reminders := dr_reminders r @ [utf8_decode (pf_bytes f)]\<rparr> in
         if pe_unlink_fails env s name then drain_files env s fs (r'\<lparr>dr_failures := dr_failures r' @ [name]\<rparr>) st
         else drain_files env s fs r' (drop_file env s name st)))"

definition drain_pending :: "pend_env \<Rightarrow> (jstr \<Rightarrow> jstr \<Rightarrow> int) \<Rightarrow> jstr \<Rightarrow> pending \<Rightarrow> drain_result \<times> pending" where
  "drain_pending env cmp sessionId st =
     (let s = sanitize_session_id sessionId in
      if session_of st s = None then (\<lparr>dr_reminders = [], dr_failures = []\<rparr>, st)
      else (case queue_locked env (\<lambda>st.
          if pe_list_fails env s []
          then (Inr \<lparr>dr_reminders = [], dr_failures = [lit ''pending directory read failed'']\<rparr>, st)
          else (case session_of st s of
              None \<Rightarrow> (Inr \<lparr>dr_reminders = [], dr_failures = [lit ''pending directory read failed'']\<rparr>, st)
            | Some d \<Rightarrow> (case drain_files env s (js_sort (by_time env cmp s) (reminder_files d)) \<lparr>dr_reminders = [], dr_failures = []\<rparr> st of
                (r, st') \<Rightarrow> (Inr r, st')))) st of
          (Inr r, st') \<Rightarrow> (r, st')
        | (Inl e, st') \<Rightarrow> (\<lparr>dr_reminders = [], dr_failures = [lit ''pending queue lock unavailable'']\<rparr>, st')))"

text \<open>
  Acknowledging takes the paths a peek returned. A path below the root names a session's file, a
  claim, a directory, or (dot segments left aside) something that is no part of the queue's state.
  Removing a directory is an error; what is not there is passed over.
\<close>

definition claims_dir :: "pending \<Rightarrow> jstr \<Rightarrow> bool" where
  "claims_dir st s \<longleftrightarrow> Option.bind (session_of st s) ss_claims \<noteq> None"

definition names_dir :: "pending \<Rightarrow> jstr list \<Rightarrow> bool" where
  "names_dir st segs =
     (case segs of
        [s] \<Rightarrow> session_of st s \<noteq> None
      | [s, name] \<Rightarrow> (name = [] \<and> session_of st s \<noteq> None) \<or> (name = lit ''.claims'' \<and> claims_dir st s)
      | [s, c, name] \<Rightarrow> c = lit ''.claims'' \<and> name = [] \<and> claims_dir st s
      | _ \<Rightarrow> False)"

definition unlink_path :: "pend_env \<Rightarrow> jstr list \<Rightarrow> pending \<Rightarrow> (pend_error + unit) \<times> pending" where
  "unlink_path env segs st =
     (if names_dir st segs then (Inl Io_error, st)
      else (case segs of
        [s, name] \<Rightarrow>
          (if file_of st s name = None then (Inr (), st)
           else if pe_unlink_fails env s name then (Inl Io_error, st)
           else (Inr (), drop_file env s name st))
      | [s, c, name] \<Rightarrow>
          (if c = lit ''.claims'' \<and> map_of (claims_of st s) name \<noteq> None
           then (if pe_unlink_fails env s name then (Inl Io_error, st)
                 else (Inr (), set_claims env s (filter (\<lambda>(n, _). n \<noteq> name) (claims_of st s)) st))
           else (Inr (), st))
      | _ \<Rightarrow> (Inr (), st)))"

fun acknowledge_paths :: "pend_env \<Rightarrow> jstr \<Rightarrow> jstr list \<Rightarrow> pending \<Rightarrow> (pend_error + unit) \<times> pending" where
  "acknowledge_paths env root [] st = (Inr (), st)"
| "acknowledge_paths env root (p # ps) st =
     (if \<not> starts_with (root @ [47]) p \<and> \<not> starts_with (root @ [92]) p then (Inl Outside_root, st)
      else (case (if starts_with (root @ [47]) p then unlink_path env (split_on 47 (drop (length root + 1) p)) st else (Inr (), st)) of
          (Inl e, st') \<Rightarrow> (Inl e, st')
        | (Inr _, st') \<Rightarrow> acknowledge_paths env root ps st'))"

definition acknowledge_pending :: "pend_env \<Rightarrow> jstr \<Rightarrow> jstr list \<Rightarrow> pending \<Rightarrow> (pend_error + unit) \<times> pending" where
  "acknowledge_pending env root paths st = (if paths = [] then (Inr (), st) else queue_locked env (acknowledge_paths env root paths) st)"

subsection \<open>Sequences of operations\<close>

datatype pend_op =
    Append jstr jstr
  | Publish jstr jstr jstr
  | Publish_unseen jstr jstr jstr
  | Acquire jstr jstr
  | Release claim
  | Drain jstr
  | Peek jstr
  | Acknowledge jstr "jstr list"
  | Sweep

text \<open>The state after an operation. Processes take the lock in turn, so a run of all of them is one sequence.\<close>

fun pend_step :: "(jstr \<Rightarrow> jstr \<Rightarrow> int) \<Rightarrow> pend_env \<Rightarrow> pend_op \<Rightarrow> pending \<Rightarrow> pending" where
  "pend_step cmp env (Append s msg) st = snd (append_pending env s msg st)"
| "pend_step cmp env (Publish s key msg) st = snd (publish_pending env s key msg st)"
| "pend_step cmp env (Publish_unseen s key msg) st = snd (publish_unseen env s key msg st)"
| "pend_step cmp env (Acquire s key) st = snd (acquire_claim env s key None None st)"
| "pend_step cmp env (Release c) st = snd (release_claim env c st)"
| "pend_step cmp env (Drain s) st = snd (drain_pending env cmp s st)"
| "pend_step cmp env (Peek s) st = snd (peek_pending env cmp s st)"
| "pend_step cmp env (Acknowledge root paths) st = snd (acknowledge_pending env root paths st)"
| "pend_step cmp env Sweep st = snd (cleanup_stale env None None st)"

fun pend_run :: "(jstr \<Rightarrow> jstr \<Rightarrow> int) \<Rightarrow> (pend_env \<times> pend_op) list \<Rightarrow> pending \<Rightarrow> pending" where
  "pend_run cmp [] st = st"
| "pend_run cmp ((env, op) # ops) st = pend_run cmp ops (pend_step cmp env op st)"

subsection \<open>What the queue holds\<close>

text \<open>The reminders of a state: session and text as it reads back.\<close>

definition file_reminder :: "jstr \<Rightarrow> jstr \<times> pend_file \<Rightarrow> (jstr \<times> jstr) multiset" where
  "file_reminder s nf = (if is_reminder (fst nf) then {#(s, utf8_decode (pf_bytes (snd nf)))#} else {#})"

definition dir_reminders :: "jstr \<Rightarrow> session_dir \<Rightarrow> (jstr \<times> jstr) multiset" where
  "dir_reminders s d = sum_list (map (file_reminder s) (ss_files d))"

definition present :: "pending \<Rightarrow> (jstr \<times> jstr) multiset" where
  "present st = sum_list (map (\<lambda>(s, d). dir_reminders s d) (pd_sessions st))"

definition shown :: "jstr \<Rightarrow> jstr" where
  "shown msg = utf8_decode (utf8_encode msg)"

lemma sum_map_set:
  "sum_list (map f (map_set m k v)) + (case map_of m k of None \<Rightarrow> {#} | Some v0 \<Rightarrow> f (k, v0)) =
     sum_list (map f m) + (f (k, v) :: 'b multiset)"
  by (induction m k v rule: map_set.induct) (auto simp: ac_simps split: option.splits)

lemma sum_filter_key:
  "distinct (map fst m) \<Longrightarrow> sum_list (map f (filter (\<lambda>(n, _). n \<noteq> k) m)) + (case map_of m k of None \<Rightarrow> {#} | Some v \<Rightarrow> f (k, v)) =
     (sum_list (map f m) :: 'b multiset)"
proof (induction m)
  case (Cons nv m)
  obtain n v where nv: "nv = (n, v)" by fastforce
  show ?case
  proof (cases "n = k")
    case True
    have "map_of m k = None" using Cons.prems True by (simp add: nv map_of_eq_None_iff)
    with Cons True show ?thesis by (simp add: nv ac_simps)
  next
    case False
    with Cons show ?thesis by (simp add: nv ac_simps)
  qed
qed simp

definition session_reminders :: "pending \<Rightarrow> jstr \<Rightarrow> (jstr \<times> jstr) multiset" where
  "session_reminders st s = (case session_of st s of None \<Rightarrow> {#} | Some d \<Rightarrow> dir_reminders s d)"

lemma present_set_session: "present (set_session st s d) + session_reminders st s = present st + dir_reminders s d"
  using sum_map_set [of "\<lambda>(s, d). dir_reminders s d" "pd_sessions st" s d]
  by (simp add: present_def set_session_def session_reminders_def session_of_def split: option.splits)

lemma session_set_session [simp]: "session_of (set_session st s d) s' = (if s' = s then Some d else session_of st s')"
  by (simp add: session_of_def set_session_def)

lemma file_of_session: "session_of st s = Some d \<Longrightarrow> file_of st s name = map_of (ss_files d) name"
  by (simp add: file_of_def)

text \<open>Names are unique.\<close>

definition pend_wf :: "pending \<Rightarrow> bool" where
  "pend_wf st \<longleftrightarrow> distinct (map fst (pd_sessions st)) \<and> (\<forall>s d. session_of st s = Some d \<longrightarrow> distinct (map fst (ss_files d)))"

lemma distinct_set_session [simp]: "distinct (map fst (pd_sessions st)) \<Longrightarrow> distinct (map fst (pd_sessions (set_session st s d)))"
  by (simp add: set_session_def)

lemma present_same_dir:
  assumes "session_of st s = Some d" and "dir_reminders s d' = dir_reminders s d"
  shows "present (set_session st s d') = present st"
  using present_set_session [of st s d'] assms by (simp add: session_reminders_def)

lemma make_session_present [simp]: "present (make_session env s st) = present st"
  using present_set_session [of st s] by (auto simp: make_session_def session_reminders_def dir_reminders_def split: option.splits)

lemma make_session_wf: "pend_wf st \<Longrightarrow> pend_wf (make_session env s st)"
  by (auto simp: pend_wf_def make_session_def split: option.splits)

lemma make_session_some: "\<exists>d. session_of (make_session env s st) s = Some d"
  by (auto simp: make_session_def split: option.splits)

lemma make_session_file [simp]: "file_of (make_session env s st) s' n = file_of st s' n"
  by (auto simp: make_session_def file_of_def split: option.splits)

lemma make_session_claims [simp]: "claims_of (make_session env s st) s' = claims_of st s'"
  by (auto simp: make_session_def claims_of_def split: option.splits)

lemma add_file_present:
  assumes "session_of st s = Some d" and "file_of st s name = None"
  shows "present (add_file env s name b st) = present st + file_reminder s (name, \<lparr>pf_bytes = b, pf_mtime = pe_now env\<rparr>)"
proof -
  let ?f = "\<lparr>pf_bytes = b, pf_mtime = pe_now env\<rparr>"
  have "sum_list (map (file_reminder s) (map_set (ss_files d) name ?f)) = dir_reminders s d + file_reminder s (name, ?f)"
    using sum_map_set [of "file_reminder s" "ss_files d" name ?f] assms by (simp add: file_of_session dir_reminders_def)
  then show ?thesis
    using present_set_session [of st s "d\<lparr>ss_mtime := pe_now env, ss_files := map_set (ss_files d) name ?f\<rparr>"] assms(1)
    by (simp add: add_file_def session_reminders_def dir_reminders_def ac_simps)
qed

lemma add_file_wf: "pend_wf st \<Longrightarrow> pend_wf (add_file env s name b st)"
  by (auto simp: pend_wf_def add_file_def split: option.splits)

lemma add_file_file: "file_of (add_file env s name b st) s' n =
    (if s' = s \<and> n = name \<and> session_of st s \<noteq> None then Some \<lparr>pf_bytes = b, pf_mtime = pe_now env\<rparr> else file_of st s' n)"
  by (auto simp: add_file_def file_of_def split: option.splits)

lemma add_file_session: "session_of (add_file env s name b st) s' = None \<longleftrightarrow> session_of st s' = None"
  by (auto simp: add_file_def split: option.splits)

lemma add_file_claims [simp]: "claims_of (add_file env s name b st) s' = claims_of st s'"
  by (auto simp: add_file_def claims_of_def split: option.splits)

lemma multiset_swap: "d' + x = d \<Longrightarrow> a + d = p + d' \<Longrightarrow> a + x = (p :: 'b multiset)"
proof -
  assume 1: "d' + x = d" and 2: "a + d = p + d'"
  have "a + x + d' = a + d" by (simp add: ac_simps flip: 1)
  then show ?thesis by (simp add: 2)
qed

lemma drop_file_present:
  assumes "pend_wf st"
  shows "present (drop_file env s name st) + (case file_of st s name of None \<Rightarrow> {#} | Some f \<Rightarrow> file_reminder s (name, f)) = present st"
proof (cases "session_of st s")
  case (Some d)
  have d: "distinct (map fst (ss_files d))" using assms Some by (simp add: pend_wf_def)
  let ?d = "d\<lparr>ss_mtime := pe_now env, ss_files := filter (\<lambda>(n, _). n \<noteq> name) (ss_files d)\<rparr>"
  let ?x = "case map_of (ss_files d) name of None \<Rightarrow> {#} | Some f \<Rightarrow> file_reminder s (name, f)"
  have "dir_reminders s ?d + ?x = dir_reminders s d"
    using sum_filter_key [OF d, of "file_reminder s" name] by (simp add: dir_reminders_def)
  moreover have "present (set_session st s ?d) + dir_reminders s d = present st + dir_reminders s ?d"
    using present_set_session [of st s ?d] Some by (simp add: session_reminders_def)
  ultimately have "present (set_session st s ?d) + ?x = present st" by (rule multiset_swap)
  then show ?thesis by (simp add: drop_file_def Some file_of_session [OF Some])
qed (simp add: drop_file_def file_of_def)

lemma drop_file_wf: "pend_wf st \<Longrightarrow> pend_wf (drop_file env s name st)"
  by (auto simp: pend_wf_def drop_file_def distinct_map_filter split: option.splits)

lemma drop_file_file: "file_of (drop_file env s name st) s' n = (if s' = s \<and> n = name then None else file_of st s' n)"
proof -
  have "map_of (filter (\<lambda>(m, _). m \<noteq> name) fs) n = (if n = name then None else map_of fs n)" for fs :: "(jstr \<times> pend_file) list"
    by (induction fs) auto
  then show ?thesis by (auto simp: drop_file_def file_of_def split: option.splits)
qed

lemma drop_file_claims [simp]: "claims_of (drop_file env s name st) s' = claims_of st s'"
  by (auto simp: drop_file_def claims_of_def split: option.splits)

lemma set_claims_present [simp]: "present (set_claims env s cs st) = present st"
  by (auto simp: set_claims_def dir_reminders_def intro!: present_same_dir split: option.splits)

lemma set_claims_wf: "pend_wf st \<Longrightarrow> pend_wf (set_claims env s cs st)"
  by (auto simp: pend_wf_def set_claims_def split: option.splits)

lemma make_claims_present [simp]: "present (make_claims env s st) = present st"
proof -
  have "present (set_session st' s (d\<lparr>ss_mtime := t, ss_claims := c\<rparr>)) = present st'" if "session_of st' s = Some d" for st' d t c
    using that by (rule present_same_dir) (simp add: dir_reminders_def)
  then show ?thesis by (simp add: make_claims_def Let_def split: option.splits)
qed

lemma make_claims_wf: "pend_wf st \<Longrightarrow> pend_wf (make_claims env s st)"
  using make_session_wf [of st env s] by (auto simp: pend_wf_def make_claims_def Let_def split: option.splits)

lemma root_simps [simp]: "present (st\<lparr>pd_root := r\<rparr>) = present st" "pend_wf (st\<lparr>pd_root := r\<rparr>) = pend_wf st"
  "file_of (st\<lparr>pd_root := r\<rparr>) s n = file_of st s n" "session_of (st\<lparr>pd_root := r\<rparr>) s = session_of st s"
  "claims_of (st\<lparr>pd_root := r\<rparr>) s = claims_of st s"
  by (simp_all add: present_def pend_wf_def session_of_def file_of_def claims_of_def)

subsection \<open>What each operation does to the reminders\<close>

lemma queue_locked_cases:
  "queue_locked env op st = (r, st') \<Longrightarrow>
     (pe_lock env \<and> op (st\<lparr>pd_root := True\<rparr>) = (r, st')) \<or> (\<not> pe_lock env \<and> r = Inl Queue_locked \<and> st' = st\<lparr>pd_root := True\<rparr>)"
  by (auto simp: queue_locked_def Let_def split: if_splits)

lemma ends_with_last: "ends_with p s \<Longrightarrow> p \<noteq> [] \<Longrightarrow> last s = last p"
  unfolding ends_with_def by (metis append_take_drop_id last_appendR)

lemma ends_with_append [simp]: "ends_with p (x @ p)"
  by (simp add: ends_with_def)

lemma reminder_names: "is_reminder (x @ lit ''.txt'')" "is_reminder (ready_name key)"
  by (simp_all add: is_reminder_def ready_name_def)

lemma temp_no_reminder: "\<not> is_reminder (x @ lit ''.tmp'')"
proof
  assume "is_reminder (x @ lit ''.tmp'')"
  then have "last (x @ lit ''.tmp'') = last (lit ''.txt'') \<or> last (x @ lit ''.tmp'') = last (lit ''.ready'')"
    by (auto simp: is_reminder_def dest: ends_with_last)
  then show False by (simp add: lit_def)
qed

lemma append_present:
  assumes "append_pending env sid msg st = (r, st')" and "pend_wf st"
  shows "pend_wf st' \<and> present st' = present st + (case r of Inr _ \<Rightarrow> {#(sanitize_session_id sid, shown msg)#} | Inl _ \<Rightarrow> {#})"
proof -
  let ?s = "sanitize_session_id sid" and ?st = "st\<lparr>pd_root := True\<rparr>"
  let ?name = "int_str (pe_now env) @ lit ''-'' @ pe_random env 4 @ lit ''.txt''"
  from queue_locked_cases [OF assms(1) [unfolded append_pending_def]]
  show ?thesis
  proof
    assume "pe_lock env \<and> (let s = ?s; st = make_session env s ?st; name = ?name in
        if file_of st s name \<noteq> None then (Inl File_exists, st) else (Inr name, add_file env s name (utf8_encode msg) st)) = (r, st')"
    moreover obtain d where "session_of (make_session env ?s ?st) ?s = Some d" using make_session_some by blast
    moreover have "is_reminder ?name" using reminder_names(1) [of "int_str (pe_now env) @ lit ''-'' @ pe_random env 4"] by simp
    ultimately show ?thesis
      using assms(2)
      by (auto simp: Let_def make_session_wf add_file_wf add_file_present file_reminder_def shown_def split: if_splits)
  qed (use assms(2) in simp)
qed

lemma publish_locked_present:
  assumes "publish_locked env s key msg st = (r, st')" and wf: "pend_wf st" and steady: "\<And>n. n \<noteq> [] \<Longrightarrow> \<not> pe_unlink_fails env s n"
  shows "pend_wf st' \<and> present st' = present st + (case r of Inr pr \<Rightarrow> if pr_published pr then {#(s, shown msg)#} else {#} | Inl _ \<Rightarrow> {#})"
proof -
  define st0 where "st0 = make_session env s (st\<lparr>pd_root := True\<rparr>)"
  define temp where "temp = lit ''.'' @ key @ lit ''.'' @ pe_random env 12 @ lit ''.tmp''"
  define st1 where "st1 = add_file env s temp (utf8_encode msg) st0"
  have st0: "pend_wf st0" "present st0 = present st" using wf by (simp_all add: st0_def make_session_wf)
  obtain d where d: "session_of st0 s = Some d" using make_session_some unfolding st0_def by blast
  have temp: "\<not> is_reminder temp" "temp \<noteq> []"
    using temp_no_reminder [of "lit ''.'' @ key @ lit ''.'' @ pe_random env 12"] by (simp_all add: temp_def)
  then have differ: "ready_name key \<noteq> temp" using reminder_names(2) by metis
  show ?thesis
  proof (cases "pe_lock env \<and> file_of st0 s temp = None")
    case False
    with queue_locked_cases [OF assms(1) [unfolded publish_locked_def]] st0 wf show ?thesis
      by (auto simp: Let_def st0_def temp_def)
  next
    case True
    have st1: "pend_wf st1" "present st1 = present st"
      using True st0 add_file_present [OF d, of temp] temp(1) by (simp_all add: st1_def add_file_wf file_reminder_def)
    obtain d1 where d1: "session_of st1 s = Some d1" using d add_file_session [of env s temp _ st0 s] by (auto simp: st1_def)
    have result: "(case file_of st1 s (ready_name key) of
          Some _ \<Rightarrow> (Inr \<lparr>pr_name = ready_name key, pr_published = False\<rparr>, drop_file env s temp st1)
        | None \<Rightarrow> (Inr \<lparr>pr_name = ready_name key, pr_published = True\<rparr>, drop_file env s temp (add_file env s (ready_name key) (utf8_encode msg) st1))) = (r, st')"
      using assms(1) True steady [OF temp(2)]
      unfolding publish_locked_def queue_locked_def Let_def st0_def [symmetric] temp_def [symmetric] st1_def [symmetric]
      by (simp split: option.splits)
    have drop: "present (drop_file env s temp st2) = present st2" if "pend_wf st2" for st2
      using drop_file_present [OF that, of env s temp] temp(1) by (auto simp: file_reminder_def split: option.splits)
    show ?thesis
    proof (cases "file_of st1 s (ready_name key)")
      case None
      with result add_file_present [OF d1 None] st1 show ?thesis
        by (auto simp: drop drop_file_wf add_file_wf file_reminder_def reminder_names shown_def)
    next
      case (Some f)
      with result st1 show ?thesis by (auto simp: drop drop_file_wf)
    qed
  qed
qed

lemma publish_unseen_present:
  assumes "publish_unseen env sid key msg st = (r, st')" and wf: "pend_wf st"
    and steady: "\<And>s n. n \<noteq> [] \<Longrightarrow> \<not> pe_unlink_fails env s n"
  shows "pend_wf st' \<and> present st' = present st +
    (case r of Inr pr \<Rightarrow> if pr_published pr then {#(sanitize_session_id sid, shown msg)#} else {#} | Inl _ \<Rightarrow> {#})"
proof -
  obtain r1 st1 where p: "publish_locked env (sanitize_session_id sid) key msg st = (r1, st1)" by fastforce
  from publish_locked_present [OF p wf steady] assms(1) p wf show ?thesis
    by (auto simp: publish_unseen_def Let_def split: sum.splits if_splits)
qed

lemma publish_present:
  assumes "publish_pending env sid key msg st = (r, st')" and wf: "pend_wf st"
    and steady: "\<And>s n. n \<noteq> [] \<Longrightarrow> \<not> pe_unlink_fails env s n"
  shows "pend_wf st' \<and> present st' = present st +
    (case r of Inr pr \<Rightarrow> if pr_published pr then {#(sanitize_session_id sid, shown msg)#} else {#} | Inl _ \<Rightarrow> {#})"
  using assms(1) publish_unseen_present [OF _ wf steady] wf
  by (auto simp: publish_pending_def Let_def split: if_splits)

lemma claim_attempts_present:
  "claim_attempts env s key now ttl n st = (r, st') \<Longrightarrow> pend_wf st \<Longrightarrow> pend_wf st' \<and> present st' = present st"
proof (induction env s key now ttl n st rule: claim_attempts.induct)
  case (2 env s key now ttl n st)
  then show ?case
    by (auto simp: Let_def set_claims_wf simp del: file_of_def split: option.splits if_splits)
qed simp

lemma acquire_present:
  "acquire_claim env sid key now ttl st = (r, st') \<Longrightarrow> pend_wf st \<Longrightarrow> pend_wf st' \<and> present st' = present st"
  unfolding acquire_claim_def
  by (drule queue_locked_cases) (auto simp: Let_def make_claims_wf dest!: claim_attempts_present split: if_splits)

lemma release_present:
  "release_claim env c st = (r, st') \<Longrightarrow> pend_wf st \<Longrightarrow> pend_wf st' \<and> present st' = present st"
  unfolding release_claim_def
  by (drule queue_locked_cases) (auto simp: Let_def set_claims_wf split: option.splits if_splits json.splits)

lemma peek_state: "peek_pending env cmp sid st = (r, st') \<Longrightarrow> st' = st \<or> st' = st\<lparr>pd_root := True\<rparr>"
  unfolding peek_pending_def
  by (auto simp: Let_def dest!: queue_locked_cases split: if_splits option.splits)

lemma mset_js_sort [simp]: "mset (js_sort cmp xs) = mset xs"
proof -
  have "mset (insort_by cmp x ys) = add_mset x (mset ys)" for x ys by (induction ys) auto
  then show ?thesis by (induction xs) (simp_all add: js_sort_def)
qed

lemma set_js_sort [simp]: "set (js_sort cmp xs) = set xs"
  using mset_js_sort [of cmp xs] by (rule mset_eq_setD)

lemma distinct_js_sort: "distinct (map fst xs) \<Longrightarrow> distinct (map fst (js_sort cmp xs))"
  using mset_js_sort [of cmp xs] by (metis mset_eq_imp_distinct_iff mset_map)

lemma is_reminder_Nil [simp]: "\<not> is_reminder []"
  by (simp add: is_reminder_def ends_with_def)

text \<open>No file operation on a named file fails.\<close>

definition steady :: "pend_env \<Rightarrow> bool" where
  "steady env \<longleftrightarrow> (\<forall>s n. n \<noteq> [] \<longrightarrow> \<not> pe_read_fails env s n \<and> \<not> pe_unlink_fails env s n)"

lemma drain_files_present:
  assumes "drain_files env s fs r st = (r', st')" and "pend_wf st" and "steady env" and "distinct (map fst fs)"
    and "\<forall>(n, f) \<in> set fs. file_of st s n = Some f \<and> is_reminder n"
  shows "pend_wf st' \<and> dr_reminders r' = dr_reminders r @ map (\<lambda>(n, f). utf8_decode (pf_bytes f)) fs \<and>
    present st' + mset (map (\<lambda>(n, f). (s, utf8_decode (pf_bytes f))) fs) = present st"
  using assms
proof (induction env s fs r st rule: drain_files.induct)
  case (2 env s name f fs r st)
  have f: "file_of st s name = Some f" "is_reminder name" using "2.prems"(5) by simp_all
  then have name: "name \<noteq> []" by auto
  with "2.prems"(3) have ok: "\<not> pe_read_fails env s name" "\<not> pe_unlink_fails env s name" by (simp_all add: steady_def)
  let ?r = "r\<lparr>dr_reminders := dr_reminders r @ [utf8_decode (pf_bytes f)]\<rparr>" and ?st = "drop_file env s name st"
  have d: "drain_files env s fs ?r ?st = (r', st')" using "2.prems"(1) ok by (simp add: Let_def)
  have keep: "\<forall>(n, g) \<in> set fs. file_of ?st s n = Some g \<and> is_reminder n"
    using "2.prems"(4,5) by (force simp: drop_file_file)
  have "present ?st + {#(s, utf8_decode (pf_bytes f))#} = present st"
    using drop_file_present [OF "2.prems"(2), of env s name] f by (simp add: file_reminder_def)
  with "2.IH"(3) [OF ok(1) refl ok(2) d drop_file_wf [OF "2.prems"(2)] "2.prems"(3) _ keep] "2.prems"(4)
  show ?case by (auto simp: ac_simps)
qed simp

lemma drain_present:
  assumes "drain_pending env cmp sid st = (r, st')" and wf: "pend_wf st" and "steady env"
  shows "pend_wf st' \<and> present st' + mset (map (Pair (sanitize_session_id sid)) (dr_reminders r)) = present st"
proof -
  let ?s = "sanitize_session_id sid" and ?st = "st\<lparr>pd_root := True\<rparr>"
  consider "dr_reminders r = []" "st' = st \<or> st' = ?st"
    | d r' st1 where "session_of st ?s = Some d" "r = r'" "st' = st1"
      "drain_files env ?s (js_sort (by_time env cmp ?s) (reminder_files d)) \<lparr>dr_reminders = [], dr_failures = []\<rparr> ?st = (r', st1)"
    using assms(1) by (auto simp: drain_pending_def Let_def queue_locked_def split: if_splits option.splits prod.splits)
  then show ?thesis
  proof cases
    case 1
    with wf show ?thesis by auto
  next
    case (2 d r' st1)
    let ?fs = "js_sort (by_time env cmp ?s) (reminder_files d)"
    have dist: "distinct (map fst (ss_files d))" using wf 2(1) by (simp add: pend_wf_def)
    then have "distinct (map fst ?fs)" by (intro distinct_js_sort) (simp add: reminder_files_def distinct_map_filter)
    moreover have "\<forall>(n, f) \<in> set ?fs. file_of ?st ?s n = Some f \<and> is_reminder n"
      using dist 2(1) by (auto simp: reminder_files_def file_of_session)
    ultimately have "pend_wf st1 \<and> dr_reminders r' = map (\<lambda>(n, f). utf8_decode (pf_bytes f)) ?fs \<and>
        present st1 + mset (map (\<lambda>(n, f). (?s, utf8_decode (pf_bytes f))) ?fs) = present ?st"
      using drain_files_present [OF 2(4) _ assms(3)] wf by simp
    then show ?thesis using 2(2,3) by (simp add: o_def case_prod_beta')
  qed
qed

lemma sweep_sessions_filter:
  "sweep_sessions env nowMs cutoff ds r = (r', ds') \<Longrightarrow>
     ds' = filter (\<lambda>(s, d). sweep_verdict env nowMs cutoff s d \<noteq> Removed) ds \<and>
     sw_removed r' = sw_removed r @ map fst (filter (\<lambda>(s, d). sweep_verdict env nowMs cutoff s d = Removed) ds)"
proof (induction ds arbitrary: r r' ds')
  case (Cons sd ds)
  obtain s d where sd: "sd = (s, d)" by fastforce
  show ?case
  proof (cases "sweep_verdict env nowMs cutoff s d")
    case Removed
    with Cons.prems Cons.IH [of "r\<lparr>sw_removed := sw_removed r @ [s]\<rparr>" r' ds'] show ?thesis by (simp add: sd)
  next
    case Ignored
    with Cons.prems obtain ds1 where "sweep_sessions env nowMs cutoff ds r = (r', ds1)" "ds' = (s, d) # ds1"
      by (auto simp: sd split: prod.splits)
    with Cons.IH Ignored show ?thesis by (simp add: sd)
  next
    case Kept
    with Cons.prems obtain ds1 where "sweep_sessions env nowMs cutoff ds (r\<lparr>sw_kept := Suc (sw_kept r)\<rparr>) = (r', ds1)" "ds' = (s, d) # ds1"
      by (auto simp: sd split: prod.splits)
    with Cons.IH [of "r\<lparr>sw_kept := Suc (sw_kept r)\<rparr>"] Kept show ?thesis by (simp add: sd)
  qed
qed simp

lemma cleanup_state:
  assumes "cleanup_stale env days now st = (r, st')"
  shows "st' = st \<or> st' = st\<lparr>pd_root := True\<rparr> \<or>
    (\<exists>nowMs res. nowMs = (case now of None \<Rightarrow> pe_now env | Some t \<Rightarrow> t) \<and> r = Inr res \<and>
      st' = st\<lparr>pd_root := True, pd_sessions := filter (\<lambda>(s, d). sweep_verdict env nowMs (nowMs - (case days of None \<Rightarrow> 7 | Some d \<Rightarrow> d) * day_ms) s d \<noteq> Removed) (pd_sessions st)\<rparr> \<and>
      sw_removed res = map fst (filter (\<lambda>(s, d). sweep_verdict env nowMs (nowMs - (case days of None \<Rightarrow> 7 | Some d \<Rightarrow> d) * day_ms) s d = Removed) (pd_sessions st)))"
proof -
  let ?now = "case now of None \<Rightarrow> pe_now env | Some t \<Rightarrow> t" and ?days = "case days of None \<Rightarrow> 7 | Some d \<Rightarrow> d"
  obtain res ds where s: "sweep_sessions env ?now (?now - ?days * day_ms) (pd_sessions st) nothing_swept = (res, ds)" by fastforce
  note f = sweep_sessions_filter [OF s]
  have "st' = st \<or> st' = st\<lparr>pd_root := True\<rparr> \<or> (r = Inr res \<and> st' = st\<lparr>pd_root := True, pd_sessions := ds\<rparr>)"
    using assms s by (auto simp: cleanup_stale_def Let_def queue_locked_def split: if_splits)
  with f show ?thesis by (auto simp: nothing_swept_def)
qed

lemma sum_filter_subset: "sum_list (map f (filter P xs)) \<subseteq># (sum_list (map f xs) :: 'b multiset)"
proof (induction xs)
  case (Cons x xs)
  then show ?case by (auto simp: subset_mset.add_increasing)
qed simp

lemma wf_fewer_sessions: "pend_wf st \<Longrightarrow> pend_wf (st\<lparr>pd_root := r, pd_sessions := filter P (pd_sessions st)\<rparr>)"
proof -
  assume wf: "pend_wf st"
  then have d: "distinct (map fst (pd_sessions st))" by (simp add: pend_wf_def)
  have "map_of (pd_sessions st) s = Some d'" if "map_of (filter P (pd_sessions st)) s = Some d'" for s d'
    using that d by (auto dest!: map_of_SomeD)
  then show ?thesis using wf d by (auto simp: pend_wf_def session_of_def distinct_map_filter)
qed

subsection \<open>Nothing is lost and nothing comes twice\<close>

text \<open>
  What an operation is to take in, to hand out and to recycle, stated apart from what it does to the
  state. An acknowledgement hands out the reminders that its paths name, up to the first path that
  is outside the root or names a directory; a drain, the texts it returns. A sweep recycles the
  reminders of the sessions that the age limit of seven days expires: the directory, its files and
  its claims are older, no claim is live, and none of them withholds its time or its removal.
\<close>

fun accepted :: "(jstr \<Rightarrow> jstr \<Rightarrow> int) \<Rightarrow> pend_env \<Rightarrow> pend_op \<Rightarrow> pending \<Rightarrow> (jstr \<times> jstr) multiset" where
  "accepted cmp env (Append s msg) st =
     (case fst (append_pending env s msg st) of Inr _ \<Rightarrow> {#(sanitize_session_id s, shown msg)#} | Inl _ \<Rightarrow> {#})"
| "accepted cmp env (Publish s key msg) st =
     (case fst (publish_pending env s key msg st) of
        Inr r \<Rightarrow> if pr_published r then {#(sanitize_session_id s, shown msg)#} else {#} | Inl _ \<Rightarrow> {#})"
| "accepted cmp env (Publish_unseen s key msg) st =
     (case fst (publish_unseen env s key msg st) of
        Inr r \<Rightarrow> if pr_published r then {#(sanitize_session_id s, shown msg)#} else {#} | Inl _ \<Rightarrow> {#})"
| "accepted cmp env op st = {#}"

definition path_stops :: "jstr \<Rightarrow> pending \<Rightarrow> jstr \<Rightarrow> bool" where
  "path_stops root st p \<longleftrightarrow>
     (if starts_with (root @ [47]) p then names_dir st (split_on 47 (drop (length root + 1) p)) else \<not> starts_with (root @ [92]) p)"

definition path_file :: "jstr \<Rightarrow> jstr \<Rightarrow> (jstr \<times> jstr) option" where
  "path_file root p =
     (if starts_with (root @ [47]) p then (case split_on 47 (drop (length root + 1) p) of [s, name] \<Rightarrow> Some (s, name) | _ \<Rightarrow> None)
      else None)"

definition acknowledged :: "jstr \<Rightarrow> pending \<Rightarrow> jstr list \<Rightarrow> (jstr \<times> jstr) set" where
  "acknowledged root st paths = set (List.map_filter (path_file root) (takeWhile (\<lambda>p. \<not> path_stops root st p) paths))"

definition reminder_at :: "pending \<Rightarrow> jstr \<times> jstr \<Rightarrow> (jstr \<times> jstr) multiset" where
  "reminder_at st k = (case file_of st (fst k) (snd k) of None \<Rightarrow> {#} | Some f \<Rightarrow> file_reminder (fst k) (snd k, f))"

fun delivered :: "(jstr \<Rightarrow> jstr \<Rightarrow> int) \<Rightarrow> pend_env \<Rightarrow> pend_op \<Rightarrow> pending \<Rightarrow> (jstr \<times> jstr) multiset" where
  "delivered cmp env (Drain s) st =
     mset (map (Pair (sanitize_session_id s)) (dr_reminders (fst (drain_pending env cmp s st))))"
| "delivered cmp env (Acknowledge root paths) st =
     (if pe_lock env then (\<Sum>k \<in> acknowledged root st paths. reminder_at st k) else {#})"
| "delivered cmp env op st = {#}"

definition expired :: "pend_env \<Rightarrow> int \<Rightarrow> int \<Rightarrow> jstr \<Rightarrow> session_dir \<Rightarrow> bool" where
  "expired env nowMs cutoff s d \<longleftrightarrow> ss_mtime d < cutoff \<and> (\<forall>(n, f) \<in> set (ss_files d). pf_mtime f < cutoff) \<and>
     (case ss_claims d of None \<Rightarrow> True
      | Some (t, cs) \<Rightarrow> t < cutoff \<and> (\<forall>(n, f) \<in> set cs. ends_with (lit ''.claim'') n \<longrightarrow> claim_ttl_ms < nowMs - claim_read env s n f))"

definition accessible :: "pend_env \<Rightarrow> jstr \<Rightarrow> session_dir \<Rightarrow> bool" where
  "accessible env s d \<longleftrightarrow> \<not> pe_stat_fails env s [] \<and> \<not> pe_list_fails env s [] \<and> \<not> pe_unlink_fails env s [] \<and>
     (\<forall>(n, f) \<in> set (ss_files d). \<not> pe_stat_fails env s n) \<and>
     (case ss_claims d of None \<Rightarrow> True
      | Some (t, cs) \<Rightarrow> \<not> pe_stat_fails env s (lit ''.claims'') \<and> \<not> pe_list_fails env s (lit ''.claims'') \<and>
          (\<forall>(n, f) \<in> set cs. ends_with (lit ''.claim'') n \<longrightarrow> \<not> pe_stat_fails env s n))"

fun recycled :: "(jstr \<Rightarrow> jstr \<Rightarrow> int) \<Rightarrow> pend_env \<Rightarrow> pend_op \<Rightarrow> pending \<Rightarrow> (jstr \<times> jstr) multiset" where
  "recycled cmp env Sweep st =
     (if pd_root st \<and> pe_lock env \<and> \<not> pe_list_fails env [] []
      then sum_list (map (\<lambda>(s, d). if expired env (pe_now env) (pe_now env - 7 * day_ms) s d \<and> accessible env s d
        then dir_reminders s d else {#}) (pd_sessions st))
      else {#})"
| "recycled cmp env op st = {#}"

text \<open>The verdict of the sweep is the age limit.\<close>

lemma newest_mtime_below:
  "(\<exists>k. newest_mtime env s m es = Some k \<and> k < cutoff) \<longleftrightarrow> m < cutoff \<and> (\<forall>(n, t) \<in> set es. \<not> pe_stat_fails env s n \<and> t < cutoff)"
proof (induction es arbitrary: m)
  case (Cons nt es)
  obtain n t where nt: "nt = (n, t)" by fastforce
  show ?case
  proof (cases "pe_stat_fails env s n")
    case False
    then show ?thesis using Cons.IH [of "if t > m then t else m"] by (auto simp: nt)
  qed (simp add: nt)
qed simp

lemma no_live_claim_iff:
  "\<not> any_live_claim env s nowMs cs \<longleftrightarrow> (\<forall>(n, f) \<in> set cs. \<not> pe_stat_fails env s n \<and> claim_ttl_ms < nowMs - claim_read env s n f)"
  by (induction cs) (auto split: if_splits)

lemma removed_iff_expired:
  "sweep_verdict env nowMs cutoff s d = Removed \<longleftrightarrow> expired env nowMs cutoff s d \<and> accessible env s d"
proof -
  have live: "\<not> has_live_claim env s nowMs d \<longleftrightarrow> (case ss_claims d of None \<Rightarrow> True
      | Some (t, cs) \<Rightarrow> \<not> pe_list_fails env s (lit ''.claims'') \<and>
          (\<forall>(n, f) \<in> set cs. ends_with (lit ''.claim'') n \<longrightarrow> \<not> pe_stat_fails env s n \<and> claim_ttl_ms < nowMs - claim_read env s n f))"
    by (auto simp: has_live_claim_def no_live_claim_iff split: option.splits)
  have young: "(\<exists>k. newest_mtime env s (ss_mtime d) (session_entries d) = Some k \<and> k < cutoff) \<longleftrightarrow>
      ss_mtime d < cutoff \<and> (\<forall>(n, f) \<in> set (ss_files d). \<not> pe_stat_fails env s n \<and> pf_mtime f < cutoff) \<and>
      (case ss_claims d of None \<Rightarrow> True | Some (t, cs) \<Rightarrow> \<not> pe_stat_fails env s (lit ''.claims'') \<and> t < cutoff)"
    unfolding newest_mtime_below by (auto simp: session_entries_def split: option.splits)
  have "sweep_verdict env nowMs cutoff s d = Removed \<longleftrightarrow> \<not> pe_stat_fails env s [] \<and> \<not> has_live_claim env s nowMs d \<and>
      \<not> pe_list_fails env s [] \<and> \<not> pe_unlink_fails env s [] \<and>
      (\<exists>k. newest_mtime env s (ss_mtime d) (session_entries d) = Some k \<and> k < cutoff)"
    by (auto simp: sweep_verdict_def split: option.splits)
  then show ?thesis
    unfolding live young by (cases "ss_claims d") (auto simp: expired_def accessible_def)
qed

lemma sum_filter_split:
  "sum_list (map (\<lambda>(s, d). f s d) (filter (\<lambda>(s, d). \<not> P s d) xs)) + sum_list (map (\<lambda>(s, d). if P s d then f s d else {#}) xs) =
     (sum_list (map (\<lambda>(s, d). f s d) xs) :: 'b multiset)"
  by (induction xs) (auto simp: ac_simps)

lemma sweep_present:
  assumes "cleanup_stale env None None st = (r, st')" and "pend_wf st"
  shows "pend_wf st' \<and> present st' + recycled cmp env Sweep st = present st"
proof (cases "pd_root st \<and> pe_lock env \<and> \<not> pe_list_fails env [] []")
  case True
  let ?P = "\<lambda>s d. sweep_verdict env (pe_now env) (pe_now env - 7 * day_ms) s d = Removed"
  obtain res ds where s: "sweep_sessions env (pe_now env) (pe_now env - 7 * day_ms) (pd_sessions st) nothing_swept = (res, ds)"
    by fastforce
  then have "ds = filter (\<lambda>(s, d). \<not> ?P s d) (pd_sessions st)" using sweep_sessions_filter [OF s] by simp
  with assms(1) True s have st': "st' = st\<lparr>pd_root := True, pd_sessions := filter (\<lambda>(s, d). \<not> ?P s d) (pd_sessions st)\<rparr>"
    by (auto simp: cleanup_stale_def Let_def queue_locked_def)
  then show ?thesis
    using wf_fewer_sessions [OF assms(2)] sum_filter_split [of dir_reminders ?P "pd_sessions st"] True
    by (simp add: present_def removed_iff_expired)
next
  case False
  with assms show ?thesis
    by (auto simp: cleanup_stale_def Let_def queue_locked_def pend_wf_def session_of_def present_def split: prod.splits if_splits)
qed

text \<open>One acknowledged path.\<close>

lemma same_dirs:
  assumes "\<And>s. (session_of st1 s = None) = (session_of st s = None)" and "\<And>s. claims_dir st1 s = claims_dir st s"
  shows "path_stops root st1 = path_stops root st"
  by (rule ext) (auto simp: path_stops_def names_dir_def assms split: list.splits)

lemma unlink_effect:
  assumes u: "unlink_path env segs st = (r, st1)" and wf: "pend_wf st" and steady: "steady env" and nd: "\<not> names_dir st segs"
  shows "r = Inr () \<and> pend_wf st1 \<and> path_stops root st1 = path_stops root st \<and>
    (case segs of [s, name] \<Rightarrow> present st1 + reminder_at st (s, name) = present st \<and>
        (\<forall>k. reminder_at st1 k = (if k = (s, name) then {#} else reminder_at st k))
     | _ \<Rightarrow> present st1 = present st \<and> reminder_at st1 = reminder_at st)"
proof -
  have claims: "claims_dir (set_claims env s (filter P (claims_of st s)) st) s' = claims_dir st s'"
    if "map_of (claims_of st s) name \<noteq> None" for s s' P name
    using that by (auto simp: claims_dir_def set_claims_def claims_of_def split: option.splits)
  have sess: "(session_of (set_claims env s cs st) s' = None) = (session_of st s' = None)" for s cs s'
    by (auto simp: set_claims_def split: option.splits)
  have files: "reminder_at (set_claims env s cs st) = reminder_at st" for s cs
    by (rule ext) (auto simp: reminder_at_def set_claims_def file_of_def split: option.splits)
  have dirs: "session_of (drop_file env s n st) s' = None \<longleftrightarrow> session_of st s' = None" "claims_dir (drop_file env s n st) s' = claims_dir st s'"
    for s n s' by (auto simp: drop_file_def claims_dir_def split: option.splits)
  have gone: "reminder_at (drop_file env s n st) k = (if k = (s, n) then {#} else reminder_at st k)" for s n k
    by (auto simp: reminder_at_def drop_file_file prod_eq_iff)
  have none: "reminder_at st (s, n) = {#}" if "file_of st s n = None" for s n using that by (simp add: reminder_at_def)
  have one: "present (drop_file env s n st) + reminder_at st (s, n) = present st" for s n
    using drop_file_present [OF wf, of env s n] unfolding reminder_at_def fst_conv snd_conv .
  have file_ok: "\<not> pe_unlink_fails env s n" if "file_of st s n \<noteq> None" "segs = [s, n]" for s n
  proof -
    have "session_of st s \<noteq> None" using that(1) by (auto simp: file_of_def split: option.splits)
    with nd that(2) have "n \<noteq> []" by (auto simp: names_dir_def)
    with steady show ?thesis by (simp add: steady_def)
  qed
  have claim_ok: "\<not> pe_unlink_fails env s n" if "map_of (claims_of st s) n \<noteq> None" "segs = [s, c, n]" "c = lit ''.claims''" for s c n
  proof -
    have "claims_dir st s" using that(1) by (auto simp: claims_of_def claims_dir_def split: option.splits)
    with nd that(2,3) have "n \<noteq> []" by (auto simp: names_dir_def)
    with steady show ?thesis by (simp add: steady_def)
  qed
  consider s n where "segs = [s, n]" | s c n where "segs = [s, c, n]" | "length segs \<noteq> 2" "length segs \<noteq> 3"
  proof -
    have "\<exists>s n. segs = [s, n]" if "length segs = 2" using that by (auto simp: numeral_2_eq_2 length_Suc_conv)
    moreover have "\<exists>s c n. segs = [s, c, n]" if "length segs = 3" using that by (auto simp: numeral_3_eq_3 length_Suc_conv)
    moreover assume "\<And>s n. segs = [s, n] \<Longrightarrow> thesis" "\<And>s c n. segs = [s, c, n] \<Longrightarrow> thesis"
      "length segs \<noteq> 2 \<Longrightarrow> length segs \<noteq> 3 \<Longrightarrow> thesis"
    ultimately show thesis by blast
  qed
  then show ?thesis
  proof cases
    case (1 s n)
    show ?thesis
    proof (cases "file_of st s n = None")
      case True
      with u nd 1 wf none show ?thesis by (auto simp: unlink_path_def)
    next
      case False
      with u nd 1 file_ok have "st1 = drop_file env s n st" "r = Inr ()" by (auto simp: unlink_path_def)
      then show ?thesis using wf one gone same_dirs [of st1 st root] dirs by (simp add: 1 drop_file_wf)
    qed
  next
    case (2 s c n)
    show ?thesis
    proof (cases "c = lit ''.claims'' \<and> map_of (claims_of st s) n \<noteq> None")
      case False
      with u nd 2 wf show ?thesis by (auto simp: unlink_path_def)
    next
      case True
      then have "st1 = set_claims env s (filter (\<lambda>(m, _). m \<noteq> n) (claims_of st s)) st" "r = Inr ()"
        using u nd 2 claim_ok by (auto simp: unlink_path_def)
      then show ?thesis using wf files claims [of s n] sess True same_dirs [of st1 st root] by (simp add: 2 set_claims_wf)
    qed
  next
    case 3
    then have "r = Inr () \<and> st1 = st" using u nd by (auto simp: unlink_path_def split: list.splits)
    with 3 wf show ?thesis by (auto split: list.splits)
  qed
qed

lemma ack_paths_present:
  "acknowledge_paths env root ps st = (r, st') \<Longrightarrow> pend_wf st \<Longrightarrow> steady env \<Longrightarrow>
     pend_wf st' \<and> present st' + (\<Sum>k \<in> acknowledged root st ps. reminder_at st k) = present st"
proof (induction ps arbitrary: st)
  case (Cons p ps)
  let ?segs = "split_on 47 (drop (length root + 1) p)"
  show ?case
  proof (cases "path_stops root st p")
    case True
    then have "st' = st"
      using Cons.prems(1) by (auto simp: path_stops_def unlink_path_def split: if_splits)
    then show ?thesis using True Cons.prems(2) by (simp add: acknowledged_def List.map_filter_simps)
  next
    case False
    define A where "A = acknowledged root st ps"
    have fin: "finite A" by (simp add: A_def acknowledged_def)
    obtain r1 st1 where u: "(if starts_with (root @ [47]) p then unlink_path env ?segs st else (Inr (), st)) = (r1, st1)" by fastforce
    have step: "r1 = Inr () \<and> pend_wf st1 \<and> path_stops root st1 = path_stops root st \<and>
      present st1 + (\<Sum>k \<in> acknowledged root st (p # ps). reminder_at st k) = present st + (\<Sum>k \<in> A. reminder_at st1 k)"
    proof (cases "starts_with (root @ [47]) p")
      case False
      with u Cons.prems(2) \<open>\<not> path_stops root st p\<close> show ?thesis
        by (simp add: A_def acknowledged_def List.map_filter_simps path_file_def)
    next
      case True
      then have nd: "\<not> names_dir st ?segs" and u': "unlink_path env ?segs st = (r1, st1)"
        using \<open>\<not> path_stops root st p\<close> u by (simp_all add: path_stops_def)
      note e = unlink_effect [OF u' Cons.prems(2,3) nd, of root]
      show ?thesis
      proof (cases "path_file root p")
        case None
        then have "present st1 = present st \<and> reminder_at st1 = reminder_at st"
          using e True by (auto simp: path_file_def split: list.splits)
        with e None \<open>\<not> path_stops root st p\<close> show ?thesis by (simp add: A_def acknowledged_def List.map_filter_simps)
      next
        case (Some k)
        then obtain s n where seg: "?segs = [s, n]" "k = (s, n)" using True by (auto simp: path_file_def split: list.splits)
        then have "present st1 + reminder_at st k = present st \<and> (\<forall>k'. reminder_at st1 k' = (if k' = k then {#} else reminder_at st k'))"
          using e by simp
        then have f: "present st1 + reminder_at st k = present st" "\<And>k'. reminder_at st1 k' = (if k' = k then {#} else reminder_at st k')"
          by blast+
        have "acknowledged root st (p # ps) = insert k A"
          using Some \<open>\<not> path_stops root st p\<close> by (simp add: A_def acknowledged_def List.map_filter_simps)
        moreover have "(\<Sum>k' \<in> insert k A. reminder_at st k') = reminder_at st k + (\<Sum>k' \<in> A - {k}. reminder_at st k')"
          using fin by (simp add: sum.insert_remove)
        moreover have "(\<Sum>k' \<in> A - {k}. reminder_at st k') = (\<Sum>k' \<in> A. reminder_at st1 k')"
          using fin by (intro sum.mono_neutral_cong_left) (auto simp: f(2))
        ultimately show ?thesis using e f(1) by (simp add: ac_simps)
      qed
    qed
    then have rest: "acknowledge_paths env root ps st1 = (r, st')"
      using Cons.prems(1) False u by (auto simp: path_stops_def split: if_splits)
    have same: "acknowledged root st1 ps = A" using step by (simp add: A_def acknowledged_def)
    have "pend_wf st1" using step by blast
    note ih = Cons.IH [OF rest this Cons.prems(3), unfolded same]
    let ?B = "\<Sum>k \<in> acknowledged root st (p # ps). reminder_at st k" and ?C = "\<Sum>k \<in> A. reminder_at st1 k"
    have "present st' + ?C + ?B = present st + ?C" using ih step by simp
    then have "(present st' + ?B) + ?C = present st + ?C" by (simp only: ac_simps)
    then show ?thesis using ih by simp
  qed
qed (simp add: acknowledged_def List.map_filter_simps)

lemma ack_present:
  assumes "acknowledge_pending env root paths st = (r, st')" and "pend_wf st" and "steady env"
  shows "pend_wf st' \<and> present st' + delivered cmp env (Acknowledge root paths) st = present st"
proof -
  let ?st = "st\<lparr>pd_root := True\<rparr>"
  have same: "pend_wf ?st" "present ?st = present st" "acknowledged root ?st paths = acknowledged root st paths"
    "reminder_at ?st = reminder_at st"
    using assms(2) by (auto simp: pend_wf_def session_of_def present_def acknowledged_def path_stops_def names_dir_def claims_dir_def
        reminder_at_def file_of_def fun_eq_iff cong: list.case_cong)
  show ?thesis
  proof (cases "paths = [] \<or> \<not> pe_lock env")
    case True
    with assms same show ?thesis
      by (auto simp: acknowledge_pending_def queue_locked_def acknowledged_def List.map_filter_simps split: if_splits)
  next
    case False
    then have "acknowledge_paths env root paths ?st = (r, st')" using assms(1) by (simp add: acknowledge_pending_def queue_locked_def)
    from ack_paths_present [OF this same(1) assms(3)] False show ?thesis by (simp add: same)
  qed
qed

fun total ::
  "((jstr \<Rightarrow> jstr \<Rightarrow> int) \<Rightarrow> pend_env \<Rightarrow> pend_op \<Rightarrow> pending \<Rightarrow> 'b multiset) \<Rightarrow> (jstr \<Rightarrow> jstr \<Rightarrow> int) \<Rightarrow>
     (pend_env \<times> pend_op) list \<Rightarrow> pending \<Rightarrow> 'b multiset" where
  "total g cmp [] st = {#}"
| "total g cmp ((env, op) # ops) st = g cmp env op st + total g cmp ops (pend_step cmp env op st)"

lemma step_balance:
  assumes wf: "pend_wf st" and steady: "steady env"
  shows "pend_wf (pend_step cmp env op st) \<and>
    present (pend_step cmp env op st) + delivered cmp env op st + recycled cmp env op st = present st + accepted cmp env op st"
proof (cases op)
  case (Append s msg)
  obtain r st' where p: "append_pending env s msg st = (r, st')" by fastforce
  from append_present [OF this wf] show ?thesis by (simp add: Append p)
next
  case (Publish s key msg)
  obtain r st' where p: "publish_pending env s key msg st = (r, st')" by fastforce
  have "\<And>s n. n \<noteq> [] \<Longrightarrow> \<not> pe_unlink_fails env s n" using steady by (simp add: steady_def)
  from publish_present [OF p wf this] show ?thesis by (simp add: Publish p)
next
  case (Publish_unseen s key msg)
  obtain r st' where p: "publish_unseen env s key msg st = (r, st')" by fastforce
  have "\<And>s n. n \<noteq> [] \<Longrightarrow> \<not> pe_unlink_fails env s n" using steady by (simp add: steady_def)
  from publish_unseen_present [OF p wf this] show ?thesis by (simp add: Publish_unseen p)
next
  case (Acquire s key)
  obtain r st' where p: "acquire_claim env s key None None st = (r, st')" by fastforce
  from acquire_present [OF this wf] show ?thesis by (simp add: Acquire p)
next
  case (Release c)
  obtain r st' where p: "release_claim env c st = (r, st')" by fastforce
  from release_present [OF this wf] show ?thesis by (simp add: Release p)
next
  case (Drain s)
  obtain r st' where p: "drain_pending env cmp s st = (r, st')" by fastforce
  from drain_present [OF this wf steady] show ?thesis by (simp add: Drain p)
next
  case (Peek s)
  obtain r st' where p: "peek_pending env cmp s st = (r, st')" by fastforce
  from peek_state [OF this] wf show ?thesis by (auto simp: Peek p)
next
  case (Acknowledge root paths)
  obtain r st' where p: "acknowledge_pending env root paths st = (r, st')" by fastforce
  from ack_present [OF this wf steady] show ?thesis by (simp add: Acknowledge p)
next
  case Sweep
  obtain r st' where p: "cleanup_stale env None None st = (r, st')" by fastforce
  from sweep_present [OF this wf] show ?thesis by (simp add: Sweep p)
qed

text \<open>
  C25: Whatever operations any number of processes perform on the queue, in whatever order they get
  the lock, the reminders accepted are exactly those handed out (drained texts and reminders named
  by acknowledged paths), those recycled because the age limit expired their session, and those
  still there, each as often as it was accepted; provided no file of the queue fails to be read or
  removed (a drain hands out the text of a file it cannot remove, and keeps the file).
\<close>

theorem reminders_are_conserved:
  assumes "pend_wf st" and "\<forall>(env, op) \<in> set ops. steady env"
  shows "present (pend_run cmp ops st) + total delivered cmp ops st + total recycled cmp ops st =
    present st + total accepted cmp ops st"
  using assms
proof (induction ops arbitrary: st)
  case (Cons eo ops)
  obtain env op where eo: "eo = (env, op)" by fastforce
  have "steady env" using Cons.prems(2) eo by simp
  note b = step_balance [OF Cons.prems(1) this, of cmp op]
  let ?st = "pend_step cmp env op st"
  from Cons.IH [of ?st] b Cons.prems(2)
  have "present (pend_run cmp ops ?st) + total delivered cmp ops ?st + total recycled cmp ops ?st = present ?st + total accepted cmp ops ?st"
    by simp
  then have "present (pend_run cmp ops ?st) + (delivered cmp env op st + total delivered cmp ops ?st) +
      (recycled cmp env op st + total recycled cmp ops ?st) =
      (present ?st + delivered cmp env op st + recycled cmp env op st) + total accepted cmp ops ?st"
    by (simp add: ac_simps)
  with b show ?case by (simp add: eo ac_simps)
qed simp

definition calm_env :: "int \<Rightarrow> pend_env" where
  "calm_env t = \<lparr>pe_now = t, pe_lock = True, pe_random = (\<lambda>_. []), pe_read_fails = (\<lambda>_ _. False),
     pe_unlink_fails = (\<lambda>_ _. False), pe_stat_fails = (\<lambda>_ _. False), pe_list_fails = (\<lambda>_ _. False)\<rparr>"

definition no_pending :: pending where
  "no_pending = \<lparr>pd_root = False, pd_sessions = [], pd_marker = None\<rparr>"

lemma calm_steady: "steady (calm_env t)"
  by (simp add: steady_def calm_env_def)

lemma no_pending_wf: "pend_wf no_pending"
  by (simp add: pend_wf_def no_pending_def session_of_def)

theorem reminders_are_conserved_witness:
  "present (pend_run (\<lambda>_ _. 0) [(calm_env 1, Append (lit ''s'') (lit ''hi'')), (calm_env 2, Drain (lit ''s''))] no_pending) +
     total delivered (\<lambda>_ _. 0) [(calm_env 1, Append (lit ''s'') (lit ''hi'')), (calm_env 2, Drain (lit ''s''))] no_pending =
   {#(sanitize_session_id (lit ''s''), shown (lit ''hi''))#}"
proof -
  have acc: "total accepted (\<lambda>_ _. 0) [(calm_env 1, Append (lit ''s'') (lit ''hi'')), (calm_env 2, Drain (lit ''s''))] no_pending =
      {#(sanitize_session_id (lit ''s''), shown (lit ''hi''))#}"
    by (simp add: append_pending_def queue_locked_def calm_env_def no_pending_def Let_def make_session_def file_of_def session_of_def
        set_session_def)
  have rec: "total recycled (\<lambda>_ _. 0) [(calm_env 1, Append (lit ''s'') (lit ''hi'')), (calm_env 2, Drain (lit ''s''))] no_pending = {#}"
    by simp
  have "present no_pending = {#}" by (simp add: present_def no_pending_def)
  with reminders_are_conserved [OF no_pending_wf,
      of "[(calm_env 1, Append (lit ''s'') (lit ''hi'')), (calm_env 2, Drain (lit ''s''))]" "\<lambda>_ _. 0"] acc rec calm_steady
  show ?thesis by (simp del: total.simps pend_run.simps)
qed

subsection \<open>A claim keeps other builders away\<close>

text \<open>The claim \<open>tok\<close> of a key stands: its file is there and says when it was made.\<close>

definition claimed :: "pending \<Rightarrow> jstr \<Rightarrow> jstr \<Rightarrow> jstr \<Rightarrow> int \<Rightarrow> bool" where
  "claimed st s key tok t \<longleftrightarrow> map_of (claims_of st s) (claim_name key) =
     Some \<lparr>pf_bytes = utf8_encode (claim_text tok t), pf_mtime = t\<rparr>"

lemma wf_claim_json: "units tok \<Longrightarrow> \<bar>t\<bar> < 10 ^ 21 \<Longrightarrow>
    wf_json (JObj [(lit ''ownerToken'', JStr tok), (lit ''createdAt'', jint t)])"
  by (simp add: text_ok_units text_ok_lit)

lemma parse_claim:
  assumes "units tok" and "\<bar>t\<bar> < 10 ^ 21"
  shows "json_parse (utf8_decode (utf8_encode (claim_text tok t))) =
    Some (JObj [(lit ''ownerToken'', JStr tok), (lit ''createdAt'', jint t)])"
proof -
  note wf = wf_claim_json [OF assms]
  have "utf8_decode (utf8_encode (claim_text tok t)) = claim_text tok t"
    unfolding claim_text_def by (rule text_ok_roundtrip [OF text_ok_stringify [OF wf]])
  then show ?thesis using json_roundtrip [OF wf, of "[]"] by (simp add: claim_text_def blank_def)
qed

lemma dec_floor_norm: "dec_int d = Some i \<Longrightarrow> dec_floor d = i"
  by (cases d) (auto split: if_splits)

lemma claim_time: "units tok \<Longrightarrow> \<bar>t\<bar> < 10 ^ 21 \<Longrightarrow>
    claim_read env s n \<lparr>pf_bytes = utf8_encode (claim_text tok t), pf_mtime = t\<rparr> = t"
  by (simp add: claim_read_def claim_created_def parse_claim obj_get_def jint_def dec_floor_norm dec_int_norm split: json.split)

lemma claim_name_inj [simp]: "claim_name k = claim_name k' \<longleftrightarrow> k = k'"
  by (simp add: claim_name_def)

lemma claims_of_set: "session_of st s \<noteq> None \<Longrightarrow> claims_of (set_claims env s cs st) s' = (if s' = s then cs else claims_of st s')"
  by (auto simp: set_claims_def claims_of_def split: option.splits)

lemma session_set_claims [simp]: "session_of (set_claims env s cs st) s' = None \<longleftrightarrow> session_of st s' = None"
  by (auto simp: set_claims_def split: option.splits)

lemma session_make_claims: "session_of (make_claims env s st) s \<noteq> None"
  using make_session_some [of env s st] by (auto simp: make_claims_def Let_def split: option.splits)

lemma claims_make_claims [simp]: "claims_of (make_claims env s st) s' = claims_of st s'"
proof -
  have "claims_of (make_claims env s st) s' = claims_of (make_session env s st) s'"
    by (auto simp: make_claims_def Let_def claims_of_def split: option.splits)
  then show ?thesis by simp
qed

lemma map_of_other: "n \<noteq> c \<Longrightarrow> map_of (filter (\<lambda>(m, _). m \<noteq> c) cs) n = map_of cs n"
  by (induction cs) auto

lemma attempts_other_claim:
  "claim_attempts env s key now ttl n st = (r, st') \<Longrightarrow> session_of st s \<noteq> None \<Longrightarrow> (s', key') \<noteq> (s, key) \<Longrightarrow>
     map_of (claims_of st' s') (claim_name key') = map_of (claims_of st s') (claim_name key')"
proof (induction env s key now ttl n st rule: claim_attempts.induct)
  case (2 env s key now ttl n st)
  then show ?case
    by (auto simp: Let_def claims_of_set map_of_other split: option.splits if_splits)
qed simp

lemma attempts_refused:
  "map_of (claims_of st s) (claim_name key) = Some f \<Longrightarrow> now - claim_read env s (claim_name key) f \<le> ttl \<Longrightarrow>
     claim_attempts env s key now ttl (Suc n) st = (Inr None, st)"
  by (simp add: Let_def)

lemma attempts_made:
  "claim_attempts env s key now ttl n st = (Inr (Some c), st') \<Longrightarrow> session_of st s \<noteq> None \<Longrightarrow>
     cl_session c = s \<and> cl_key c = key \<and> (\<exists>m. cl_token c = pe_random env m) \<and>
     map_of (claims_of st' s) (claim_name key) =
       Some \<lparr>pf_bytes = utf8_encode (claim_text (cl_token c) now), pf_mtime = pe_now env\<rparr>"
proof (induction env s key now ttl n st rule: claim_attempts.induct)
  case (2 env s key now ttl n st)
  then show ?case
    by (auto simp: Let_def claims_of_set split: option.splits if_splits)
qed simp

lemma acquire_made:
  assumes "acquire_claim env sid key None None st = (Inr (Some c), st')"
  shows "cl_session c = sanitize_session_id sid \<and> cl_key c = key \<and> (\<exists>m. cl_token c = pe_random env m) \<and>
    claimed st' (sanitize_session_id sid) key (cl_token c) (pe_now env)"
proof -
  let ?s = "sanitize_session_id sid"
  have "claim_attempts env ?s key (pe_now env) claim_ttl_ms 2 (make_claims env ?s (st\<lparr>pd_root := True\<rparr>)) = (Inr (Some c), st')"
    using queue_locked_cases [OF assms [unfolded acquire_claim_def]] by (auto simp: Let_def split: if_splits)
  from attempts_made [OF this session_make_claims] show ?thesis by (simp add: claimed_def)
qed

lemma acquire_keeps_claim:
  assumes "acquire_claim env sid key' None None st = (r, st')" and c: "claimed st s key tok t" and "units tok" and "\<bar>t\<bar> < 10 ^ 21"
    and "pe_now env \<le> t + claim_ttl_ms"
  shows "claimed st' s key tok t \<and> (sanitize_session_id sid = s \<and> key' = key \<longrightarrow> (\<forall>c. r \<noteq> Inr (Some c)))"
proof -
  let ?s = "sanitize_session_id sid" and ?st = "make_claims env (sanitize_session_id sid) (st\<lparr>pd_root := True\<rparr>)"
  have c': "claimed ?st s key tok t" using c by (simp add: claimed_def)
  consider "st' = st \<or> st' = st\<lparr>pd_root := True\<rparr>" "\<forall>c. r \<noteq> Inr (Some c)"
    | "claim_attempts env ?s key' (pe_now env) claim_ttl_ms (Suc 1) ?st = (r, st')"
    using queue_locked_cases [OF assms(1) [unfolded acquire_claim_def]] by (auto simp: Let_def numeral_2_eq_2 split: if_splits)
  then show ?thesis
  proof cases
    case 1
    with c show ?thesis by (auto simp: claimed_def)
  next
    case 2
    show ?thesis
    proof (cases "?s = s \<and> key' = key")
      case True
      have "map_of (claims_of ?st ?s) (claim_name key') = Some \<lparr>pf_bytes = utf8_encode (claim_text tok t), pf_mtime = t\<rparr>"
        using c' True by (simp add: claimed_def)
      from attempts_refused [OF this, of "pe_now env" env claim_ttl_ms 1] 2 c' True claim_time [OF assms(3,4)] assms(5)
      show ?thesis by (auto simp del: claim_attempts.simps)
    next
      case False
      then have "(s, key) \<noteq> (?s, key')" by auto
      from attempts_other_claim [OF 2 session_make_claims this] c' False show ?thesis by (auto simp: claimed_def)
    qed
  qed
qed

lemma release_keeps_claim:
  assumes "release_claim env c st = (r, st')" and c: "claimed st s key tok t" and "units tok" and "\<bar>t\<bar> < 10 ^ 21"
    and "cl_token c \<noteq> tok"
  shows "claimed st' s key tok t"
proof (cases "cl_session c = s \<and> cl_key c = key")
  case True
  have f: "map_of (claims_of st s) (claim_name key) = Some \<lparr>pf_bytes = utf8_encode (claim_text tok t), pf_mtime = t\<rparr>"
    using c by (simp add: claimed_def)
  have "st' = st \<or> st' = st\<lparr>pd_root := True\<rparr>"
    using queue_locked_cases [OF assms(1) [unfolded release_claim_def]] True f assms(5)
    by (auto simp: Let_def parse_claim [OF assms(3,4)] obj_get_def split: if_splits)
  with c show ?thesis by (auto simp: claimed_def)
next
  case False
  have "st' = st \<or> st' = st\<lparr>pd_root := True\<rparr> \<or>
      st' = set_claims env (cl_session c) (filter (\<lambda>(n, _). n \<noteq> claim_name (cl_key c)) (claims_of st (cl_session c))) (st\<lparr>pd_root := True\<rparr>)"
    using queue_locked_cases [OF assms(1) [unfolded release_claim_def]]
    by (auto simp: Let_def split: if_splits option.splits json.splits)
  moreover have "claims_of (set_claims env s' cs st) s'' = (if s'' = s' \<and> session_of st s' \<noteq> None then cs else claims_of st s'')" for s' s'' cs st
    by (auto simp: set_claims_def claims_of_def split: option.splits)
  ultimately show ?thesis using c False by (auto simp: claimed_def map_of_other)
qed

lemma publish_unseen_claims: "publish_unseen env sid key msg st = (r, st') \<Longrightarrow> claims_of st' s = claims_of st s"
proof -
  have "claims_of st' s = claims_of st s" if p: "publish_locked env s' key msg st = (r, st')" for r st' s'
    using queue_locked_cases [OF p [unfolded publish_locked_def]]
    by (auto simp: Let_def split: if_splits option.splits prod.splits)
  then show "publish_unseen env sid key msg st = (r, st') \<Longrightarrow> ?thesis"
    by (auto simp: publish_unseen_def Let_def split: if_splits prod.splits sum.splits)
qed

lemma publish_claims: "publish_pending env sid key msg st = (r, st') \<Longrightarrow> claims_of st' s = claims_of st s"
  by (auto simp: publish_pending_def Let_def split: if_splits dest: publish_unseen_claims)

lemma append_claims: "append_pending env sid msg st = (r, st') \<Longrightarrow> claims_of st' s = claims_of st s"
  unfolding append_pending_def by (drule queue_locked_cases) (auto simp: Let_def split: if_splits)

lemma drain_files_claims: "drain_files env s' fs r st = (r', st') \<Longrightarrow> claims_of st' s = claims_of st s"
  by (induction env s' fs r st rule: drain_files.induct) (auto simp: Let_def split: if_splits)

lemma drain_claims: "drain_pending env cmp sid st = (r, st') \<Longrightarrow> claims_of st' s = claims_of st s"
  by (auto simp: drain_pending_def Let_def queue_locked_def dest!: drain_files_claims split: if_splits option.splits prod.splits)

lemma live_claim_found:
  "map_of cs n = Some f \<Longrightarrow> nowMs - claim_read env s n f \<le> claim_ttl_ms \<Longrightarrow> any_live_claim env s nowMs cs"
  by (induction cs) (auto split: if_splits)

lemma map_of_filter_names: "P n \<Longrightarrow> map_of (filter (\<lambda>(m, _). P m) cs) n = map_of cs n"
  by (induction cs) auto

lemma claimed_not_swept:
  assumes "session_of st s = Some d" and "claimed st s key tok t" and "units tok" and "\<bar>t\<bar> < 10 ^ 21" and "nowMs \<le> t + claim_ttl_ms"
  shows "sweep_verdict env nowMs cutoff s d \<noteq> Removed"
proof -
  obtain u cs where cs: "ss_claims d = Some (u, cs)"
    and f: "map_of cs (claim_name key) = Some \<lparr>pf_bytes = utf8_encode (claim_text tok t), pf_mtime = t\<rparr>"
    using assms(1,2) by (auto simp: claimed_def claims_of_def split: option.splits)
  have "map_of (filter (\<lambda>(n, _). ends_with (lit ''.claim'') n) cs) (claim_name key) =
      Some \<lparr>pf_bytes = utf8_encode (claim_text tok t), pf_mtime = t\<rparr>"
    using f by (subst map_of_filter_names) (simp_all add: claim_name_def)
  from live_claim_found [OF this, of nowMs env s] assms(5) have "has_live_claim env s nowMs d"
    by (simp add: has_live_claim_def cs claim_time [OF assms(3,4)])
  then show ?thesis by (simp add: sweep_verdict_def)
qed

lemma map_of_filter_kept: "map_of m k = Some v \<Longrightarrow> P (k, v) \<Longrightarrow> distinct (map fst m) \<Longrightarrow> map_of (filter P m) k = Some v"
  by (induction m) (auto simp: map_of_eq_None_iff dest: map_of_SomeD)

lemma sweep_keeps_claim:
  assumes "cleanup_stale env None None st = (r, st')" and c: "claimed st s key tok t" and "units tok" and "\<bar>t\<bar> < 10 ^ 21"
    and "pe_now env \<le> t + claim_ttl_ms" and wf: "pend_wf st"
  shows "claimed st' s key tok t"
proof -
  obtain d where d: "session_of st s = Some d" using c by (auto simp: claimed_def claims_of_def split: option.splits)
  note keep = claimed_not_swept [OF d c assms(3-5)]
  have "session_of (st\<lparr>pd_root := True, pd_sessions := filter (\<lambda>(s, d). sweep_verdict env (pe_now env) cutoff s d \<noteq> Removed) (pd_sessions st)\<rparr>) s = Some d" for cutoff
    using d keep wf unfolding session_of_def by (auto simp: pend_wf_def intro!: map_of_filter_kept)
  with d c have "claimed (st\<lparr>pd_root := True, pd_sessions := filter (\<lambda>(s, d). sweep_verdict env (pe_now env) cutoff s d \<noteq> Removed) (pd_sessions st)\<rparr>) s key tok t" for cutoff
    by (simp add: claimed_def claims_of_def)
  with cleanup_state [OF assms(1)] c show ?thesis by (auto simp: claimed_def)
qed

text \<open>Acknowledging the paths of a peek, which name files of a session.\<close>

definition names_file :: "jstr \<Rightarrow> jstr \<Rightarrow> bool" where
  "names_file root p \<longleftrightarrow> length (split_on 47 (drop (length root + 1) p)) \<le> 2"

lemma ack_keeps_claims:
  "acknowledge_pending env root ps st = (r, st') \<Longrightarrow> \<forall>p \<in> set ps. names_file root p \<Longrightarrow> claims_of st' s = claims_of st s"
proof -
  have unlink: "claims_of st' s = claims_of st s" if "unlink_path env segs st = (r, st')" "length segs \<le> 2" for segs r st st'
    using that by (auto simp: unlink_path_def split: list.splits if_splits)
  have "claims_of st' s = claims_of st s" if "acknowledge_paths env root ps st = (r, st')" "\<forall>p \<in> set ps. names_file root p" for st
    using that
  proof (induction ps arbitrary: st)
    case (Cons p ps)
    show ?case
    proof (cases "starts_with (root @ [47]) p")
      case True
      obtain r1 st1 where u: "unlink_path env (split_on 47 (drop (length root + 1) p)) st = (r1, st1)" by fastforce
      have "claims_of st1 s = claims_of st s" by (rule unlink [OF u]) (use Cons.prems(2) in \<open>simp add: names_file_def\<close>)
      moreover have "st' = st1 \<or> acknowledge_paths env root ps st1 = (r, st')" using Cons.prems(1) True u by (cases r1) auto
      ultimately show ?thesis using Cons.IH [of st1] Cons.prems(2) by auto
    next
      case False
      then have "st' = st \<or> acknowledge_paths env root ps st = (r, st')" using Cons.prems(1) by (auto split: if_splits)
      with Cons.IH [of st] Cons.prems(2) show ?thesis by auto
    qed
  qed simp
  then show "acknowledge_pending env root ps st = (r, st') \<Longrightarrow> \<forall>p \<in> set ps. names_file root p \<Longrightarrow> ?thesis"
    unfolding acknowledge_pending_def
    by (auto dest!: queue_locked_cases split: if_splits)
qed

text \<open>Operations that leave the claim \<open>tok\<close>, made at \<open>t\<close>, alone: no one else holds its token, and its time is not over.\<close>

definition spares_claim :: "jstr \<Rightarrow> int \<Rightarrow> pend_env \<Rightarrow> pend_op \<Rightarrow> bool" where
  "spares_claim tok t env op \<longleftrightarrow> steady env \<and> pe_now env \<le> t + claim_ttl_ms \<and>
     (case op of Release c \<Rightarrow> cl_token c \<noteq> tok | Acknowledge root ps \<Rightarrow> list_all (names_file root) ps | _ \<Rightarrow> True)"

lemma step_keeps_claim:
  assumes c: "claimed st s key tok t" and tok: "units tok" "\<bar>t\<bar> < 10 ^ 21" and wf: "pend_wf st" and spares: "spares_claim tok t env op"
  shows "claimed (pend_step cmp env op st) s key tok t"
proof -
  have now: "pe_now env \<le> t + claim_ttl_ms" using spares by (simp add: spares_claim_def)
  have same: "claimed st' s key tok t" if "claims_of st' s = claims_of st s" for st' using c that by (simp add: claimed_def)
  show ?thesis
  proof (cases op)
    case (Append s' msg)
    then show ?thesis using append_claims [OF surjective_pairing] same by simp
  next
    case (Publish s' k msg)
    then show ?thesis using publish_claims [OF surjective_pairing] same by simp
  next
    case (Publish_unseen s' k msg)
    then show ?thesis using publish_unseen_claims [OF surjective_pairing] same by simp
  next
    case (Acquire s' k)
    then show ?thesis using acquire_keeps_claim [OF surjective_pairing c tok now] by simp
  next
    case (Release c')
    then show ?thesis using release_keeps_claim [OF surjective_pairing c tok] spares by (simp add: spares_claim_def)
  next
    case (Drain s')
    then show ?thesis using drain_claims [OF surjective_pairing] same by simp
  next
    case (Peek s')
    then show ?thesis using peek_state [OF surjective_pairing, of env cmp s' st] same c by auto
  next
    case (Acknowledge root ps)
    then show ?thesis using ack_keeps_claims [OF surjective_pairing] same spares by (simp add: spares_claim_def list_all_iff)
  next
    case Sweep
    then show ?thesis using sweep_keeps_claim [OF surjective_pairing c tok now wf] by simp
  qed
qed

lemma run_keeps_claim:
  "claimed st s key tok t \<Longrightarrow> units tok \<Longrightarrow> \<bar>t\<bar> < 10 ^ 21 \<Longrightarrow> pend_wf st \<Longrightarrow> \<forall>(env, op) \<in> set ops. spares_claim tok t env op \<Longrightarrow>
     claimed (pend_run cmp ops st) s key tok t"
proof (induction ops arbitrary: st)
  case (Cons eo ops)
  obtain env op where eo: "eo = (env, op)" by fastforce
  have sp: "spares_claim tok t env op" using Cons.prems(5) eo by simp
  then have "steady env" by (simp add: spares_claim_def)
  with step_balance [OF Cons.prems(4)] step_keeps_claim [OF Cons.prems(1-4) sp] Cons.IH Cons.prems(2,3,5) show ?case
    by (simp add: eo)
qed simp

text \<open>
  C26: A claim for the work behind a reminder is exclusive: once one process has it, whatever the
  processes do with the queue, no other gets a claim for the same key of the session before the
  holder releases it or five minutes are over; the sweep does not take it either.
\<close>

theorem claim_excludes_others:
  assumes "acquire_claim env sid key None None st = (Inr (Some c), st1)" and "pend_wf st"
    and "units (cl_token c)" and "\<bar>pe_now env\<bar> < 10 ^ 21"
    and "\<forall>(e, op) \<in> set ops. spares_claim (cl_token c) (pe_now env) e op"
    and "pe_now env' \<le> pe_now env + claim_ttl_ms"
  shows "\<forall>c'. fst (acquire_claim env' sid key None None (pend_run cmp ops st1)) \<noteq> Inr (Some c')"
proof -
  have "claimed st1 (sanitize_session_id sid) key (cl_token c) (pe_now env)" using acquire_made [OF assms(1)] by simp
  moreover have "pend_wf st1" using acquire_present [OF assms(1,2)] by simp
  ultimately have "claimed (pend_run cmp ops st1) (sanitize_session_id sid) key (cl_token c) (pe_now env)"
    using assms(3-5) by (intro run_keeps_claim)
  from acquire_keeps_claim [OF surjective_pairing this assms(3,4,6)] show ?thesis by simp
qed

lemma key_ok_a: "key_ok (replicate 64 97)"
  by (simp add: key_ok_def list_all_iff)

theorem claim_excludes_others_witness:
  "\<exists>c st1. acquire_claim (calm_env 0) (lit ''s'') (replicate 64 97) None None no_pending = (Inr (Some c), st1) \<and>
     (\<forall>c'. fst (acquire_claim (calm_env 9) (lit ''s'') (replicate 64 97) None None
        (pend_run (\<lambda>_ _. 0) [(calm_env 5, Drain (lit ''s'')), (calm_env 6, Sweep)] st1)) \<noteq> Inr (Some c'))"
proof -
  obtain c st1 where a: "acquire_claim (calm_env 0) (lit ''s'') (replicate 64 97) None None no_pending = (Inr (Some c), st1)"
    by (simp add: acquire_claim_def queue_locked_def Let_def key_ok_a calm_env_def no_pending_def file_of_def session_of_def make_claims_def
        make_session_def set_session_def claims_of_def set_claims_def numeral_2_eq_2)
  have tok: "cl_token c = []" using acquire_made [OF a] by (auto simp: calm_env_def)
  have now: "pe_now (calm_env t) = t" for t by (simp add: calm_env_def)
  have ops: "\<forall>(e, op) \<in> set [(calm_env 5, Drain (lit ''s'')), (calm_env 6, Sweep)]. spares_claim (cl_token c) (pe_now (calm_env 0)) e op"
    by (simp add: spares_claim_def calm_steady now claim_ttl_ms_def)
  have "\<forall>c'. fst (acquire_claim (calm_env 9) (lit ''s'') (replicate 64 97) None None
      (pend_run (\<lambda>_ _. 0) [(calm_env 5, Drain (lit ''s'')), (calm_env 6, Sweep)] st1)) \<noteq> Inr (Some c')"
    by (rule claim_excludes_others [OF a no_pending_wf _ _ ops]) (simp_all add: tok now claim_ttl_ms_def units_def)
  with a show ?thesis by blast
qed

subsection \<open>The sweep takes only what is stale\<close>

lemma newest_mtime_max:
  "newest_mtime env s m es = Some k \<Longrightarrow> m \<le> k \<and> (\<forall>(n, t) \<in> set es. t \<le> k)"
proof (induction es arbitrary: m)
  case (Cons nt es)
  obtain n t where nt: "nt = (n, t)" by fastforce
  with Cons.prems have "newest_mtime env s (if t > m then t else m) es = Some k" by (auto split: if_splits)
  from Cons.IH [OF this] show ?case by (auto simp: nt split: if_splits)
qed simp

lemma no_live_claim:
  "\<not> any_live_claim env s nowMs cs \<Longrightarrow> (n, f) \<in> set cs \<Longrightarrow> claim_ttl_ms < nowMs - claim_read env s n f"
  by (induction cs) (auto split: if_splits)

lemma removed_is_stale:
  assumes "sweep_verdict env nowMs cutoff s d = Removed"
  shows "ss_mtime d < cutoff \<and> (\<forall>(n, f) \<in> set (ss_files d). pf_mtime f < cutoff) \<and>
    (\<forall>t cs. ss_claims d = Some (t, cs) \<longrightarrow> t < cutoff \<and>
      (\<forall>(n, f) \<in> set cs. ends_with (lit ''.claim'') n \<longrightarrow> claim_ttl_ms < nowMs - claim_read env s n f))"
proof -
  have live: "\<not> has_live_claim env s nowMs d" using assms by (auto simp: sweep_verdict_def split: if_splits)
  obtain k where k: "newest_mtime env s (ss_mtime d) (session_entries d) = Some k" "k < cutoff"
    using assms by (auto simp: sweep_verdict_def split: if_splits option.splits)
  note bound = newest_mtime_max [OF k(1)]
  have "pf_mtime f < cutoff" if "(n, f) \<in> set (ss_files d)" for n f
  proof -
    have "(n, pf_mtime f) \<in> set (session_entries d)" using that by (force simp: session_entries_def)
    with bound k(2) show ?thesis by force
  qed
  moreover have "t < cutoff" if "ss_claims d = Some (t, cs)" for t cs
    using bound k(2) that by (auto simp: session_entries_def)
  moreover have "claim_ttl_ms < nowMs - claim_read env s n f"
    if "ss_claims d = Some (t, cs)" "(n, f) \<in> set cs" "ends_with (lit ''.claim'') n" for t cs n f
    using live that no_live_claim [of env s nowMs "filter (\<lambda>(n, _). ends_with (lit ''.claim'') n) cs" n f]
    by (auto simp: has_live_claim_def split: if_splits)
  ultimately show ?thesis using bound k(2) by auto
qed

text \<open>
  C27: A sweep removes a session's directory only if the directory, its claims and every file in it
  were last changed before the cutoff (seven days unless told otherwise) and none of its claims is
  live, and it reports each directory it removed; every other session stays exactly as it is.
\<close>

theorem sweep_takes_only_stale:
  assumes "cleanup_stale env days now st = (r, st')" and "pend_wf st" and "session_of st s = Some d"
  shows "session_of st' s = Some d \<or>
    (session_of st' s = None \<and> (\<exists>res. r = Inr res \<and> s \<in> set (sw_removed res)) \<and>
     (let nowMs = (case now of None \<Rightarrow> pe_now env | Some t \<Rightarrow> t); cutoff = nowMs - (case days of None \<Rightarrow> 7 | Some n \<Rightarrow> n) * day_ms in
      ss_mtime d < cutoff \<and> (\<forall>(n, f) \<in> set (ss_files d). pf_mtime f < cutoff) \<and>
      (\<forall>t cs. ss_claims d = Some (t, cs) \<longrightarrow> t < cutoff \<and>
        (\<forall>(n, f) \<in> set cs. ends_with (lit ''.claim'') n \<longrightarrow> claim_ttl_ms < nowMs - claim_read env s n f))))"
proof -
  let ?now = "case now of None \<Rightarrow> pe_now env | Some t \<Rightarrow> t" and ?days = "case days of None \<Rightarrow> 7 | Some n \<Rightarrow> n"
  let ?verdict = "sweep_verdict env ?now (?now - ?days * day_ms)"
  have d: "distinct (map fst (pd_sessions st))" "(s, d) \<in> set (pd_sessions st)"
    using assms(2,3) by (auto simp: pend_wf_def session_of_def dest: map_of_SomeD)
  from cleanup_state [OF assms(1)] consider "st' = st \<or> st' = st\<lparr>pd_root := True\<rparr>"
    | res where "r = Inr res" "pd_sessions st' = filter (\<lambda>(s, d). ?verdict s d \<noteq> Removed) (pd_sessions st)"
      "sw_removed res = map fst (filter (\<lambda>(s, d). ?verdict s d = Removed) (pd_sessions st))" by auto
  then show ?thesis
  proof cases
    case 1
    with assms(3) show ?thesis by auto
  next
    case (2 res)
    show ?thesis
    proof (cases "?verdict s d = Removed")
      case False
      then have "session_of st' s = Some d"
        using assms(3) d(1) unfolding session_of_def 2(2) by (intro map_of_filter_kept) simp_all
      then show ?thesis by simp
    next
      case True
      have "map_of (filter (\<lambda>(s, d). ?verdict s d \<noteq> Removed) (pd_sessions st)) s = None"
      proof (rule ccontr)
        assume "map_of (filter (\<lambda>(s, d). ?verdict s d \<noteq> Removed) (pd_sessions st)) s \<noteq> None"
        then obtain d' where "(s, d') \<in> set (pd_sessions st)" "?verdict s d' \<noteq> Removed" by (auto dest!: map_of_SomeD)
        with d True show False by (metis map_of_is_SomeI option.inject)
      qed
      moreover have "s \<in> set (sw_removed res)" using 2(3) d(2) True by force
      ultimately show ?thesis using removed_is_stale [OF True] 2(1,2) by (simp add: session_of_def Let_def)
    qed
  qed
qed

theorem sweep_takes_only_stale_witness:
  "session_of (snd (cleanup_stale (calm_env (8 * day_ms)) None None
     \<lparr>pd_root = True, pd_sessions = [(lit ''s'', \<lparr>ss_mtime = 8 * day_ms - 5, ss_files = [], ss_claims = None\<rparr>)], pd_marker = None\<rparr>)) (lit ''s'')
     \<noteq> None"
proof -
  let ?d = "\<lparr>ss_mtime = 8 * day_ms - 5, ss_files = [], ss_claims = None\<rparr> :: session_dir"
  let ?st = "\<lparr>pd_root = True, pd_sessions = [(lit ''s'', ?d)], pd_marker = None\<rparr> :: pending"
  have "pend_wf ?st" "session_of ?st (lit ''s'') = Some ?d" by (simp_all add: pend_wf_def session_of_def)
  from sweep_takes_only_stale [OF surjective_pairing this, of "calm_env (8 * day_ms)" None None] show ?thesis
    by (auto simp: Let_def calm_env_def day_ms_def)
qed

subsection \<open>The key is one for the set of entries\<close>

definition linear_cmp :: "('a \<Rightarrow> 'a \<Rightarrow> int) \<Rightarrow> bool" where
  "linear_cmp cmp \<longleftrightarrow> (\<forall>a b. cmp a b = 0 \<longleftrightarrow> a = b) \<and> (\<forall>a b. cmp a b \<le> 0 \<or> cmp b a < 0) \<and> (\<forall>a b. cmp a b < 0 \<longrightarrow> 0 < cmp b a) \<and>
     (\<forall>a b c. cmp a b \<le> 0 \<longrightarrow> cmp b c \<le> 0 \<longrightarrow> cmp a c \<le> 0)"

lemma linear_ref_cmp: "linear_cmp cmp \<Longrightarrow> linear_cmp (ref_cmp cmp)"
proof -
  assume lin: "linear_cmp cmp"
  have zero: "cmp a b = 0 \<longleftrightarrow> a = b" and swap: "cmp a b < 0 \<Longrightarrow> 0 < cmp b a" and tot: "cmp a b \<le> 0 \<or> cmp b a < 0"
    and tra: "cmp a b \<le> 0 \<Longrightarrow> cmp b c \<le> 0 \<Longrightarrow> cmp a c \<le> 0" for a b c
    using lin unfolding linear_cmp_def by blast+
  have le: "ref_cmp cmp a b \<le> 0 \<longleftrightarrow> cmp (fst a) (fst b) < 0 \<or> (fst a = fst b \<and> cmp (snd a) (snd b) \<le> 0)" for a b
    using zero [of "fst a" "fst b"] by (auto simp: ref_cmp_def)
  have lt: "ref_cmp cmp a b < 0 \<longleftrightarrow> cmp (fst a) (fst b) < 0 \<or> (fst a = fst b \<and> cmp (snd a) (snd b) < 0)" for a b
    using zero [of "fst a" "fst b"] by (auto simp: ref_cmp_def)
  have less_trans: "cmp a c < 0" if "cmp a b < 0" "cmp b c \<le> 0" for a b c
  proof -
    have "cmp a c \<le> 0" using tra [of a b c] that by simp
    moreover have "cmp a c \<noteq> 0" using that zero [of a c] swap [of a b] by auto
    ultimately show ?thesis by simp
  qed
  have "ref_cmp cmp a c \<le> 0" if "ref_cmp cmp a b \<le> 0" "ref_cmp cmp b c \<le> 0" for a b c
    using that less_trans [of "fst a" "fst b" "fst c"] tra [of "snd a" "snd b" "snd c"] unfolding le by auto
  moreover have "ref_cmp cmp a b = 0 \<longleftrightarrow> a = b" for a b
    using zero by (auto simp: ref_cmp_def prod_eq_iff)
  moreover have "0 < ref_cmp cmp b a" if "ref_cmp cmp a b < 0" for a b
    using that swap zero unfolding lt by (auto simp: ref_cmp_def) (metis less_irrefl)
  moreover have "ref_cmp cmp a b \<le> 0 \<or> ref_cmp cmp b a < 0" for a b
    using tot [of "fst a" "fst b"] tot [of "snd a" "snd b"] zero [of "fst a" "fst b"] unfolding le lt by force
  ultimately show ?thesis unfolding linear_cmp_def by blast
qed

lemma insort_sorted:
  assumes "linear_cmp cmp" and "sorted_wrt (\<lambda>a b. cmp a b \<le> 0) xs"
  shows "sorted_wrt (\<lambda>a b. cmp a b \<le> 0) (insort_by cmp x xs)"
  using assms(2)
proof (induction xs)
  case (Cons y ys)
  have set: "set (insort_by cmp x zs) = insert x (set zs)" for zs by (induction zs) auto
  show ?case
  proof (cases "cmp x y \<le> 0")
    case True
    with Cons.prems assms(1) show ?thesis unfolding linear_cmp_def by auto
  next
    case False
    then have "cmp y x \<le> 0" using assms(1) unfolding linear_cmp_def by (metis less_imp_le)
    with False Cons show ?thesis by (simp add: set)
  qed
qed simp

lemma js_sort_sorted: "linear_cmp cmp \<Longrightarrow> sorted_wrt (\<lambda>a b. cmp a b \<le> 0) (js_sort cmp xs)"
  unfolding js_sort_def by (induction xs) (simp_all add: insort_sorted)

lemma drop_repeats_set [simp]: "set (drop_repeats xs) = set xs"
  by (induction xs rule: drop_repeats.induct) auto

lemma drop_repeats_strict:
  assumes "linear_cmp cmp"
  shows "sorted_wrt (\<lambda>a b. cmp a b \<le> 0) xs \<Longrightarrow> sorted_wrt (\<lambda>a b. cmp a b < 0) (drop_repeats xs)"
proof (induction xs rule: drop_repeats.induct)
  case (3 x y ys)
  show ?case
  proof (cases "x = y")
    case False
    have "cmp x z < 0" if "z \<in> set (y # ys)" for z
    proof -
      have le: "cmp x y \<le> 0" "cmp x z \<le> 0" "z = y \<or> cmp y z \<le> 0" using "3.prems" that by auto
      have "x \<noteq> z"
      proof
        assume "x = z"
        with le False assms have "cmp x y \<le> 0" "cmp y x \<le> 0" by auto
        with False assms show False unfolding linear_cmp_def by (metis le_less not_less)
      qed
      with le(2) assms show ?thesis unfolding linear_cmp_def by (metis le_less)
    qed
    with False 3 show ?thesis by simp
  qed (use 3 in simp)
qed simp_all

lemma strict_unique:
  assumes "linear_cmp cmp"
  shows "sorted_wrt (\<lambda>a b. cmp a b < 0) xs \<Longrightarrow> sorted_wrt (\<lambda>a b. cmp a b < 0) ys \<Longrightarrow> set xs = set ys \<Longrightarrow> xs = ys"
proof (induction xs arbitrary: ys)
  case (Cons x xs)
  then obtain y ys' where ys: "ys = y # ys'" by (cases ys) auto
  have irr: "\<not> cmp a a < 0" "\<not> (cmp a b < 0 \<and> cmp b a < 0)" for a b using assms unfolding linear_cmp_def by (metis less_irrefl less_asym)+
  have "x = y"
  proof (rule ccontr)
    assume ne: "x \<noteq> y"
    then have "x \<in> set ys'" "y \<in> set xs" using Cons.prems(3) ys by auto
    with Cons.prems(1,2) ys irr(2) show False by auto
  qed
  moreover have "set xs = set ys'"
    using Cons.prems irr(1) \<open>x = y\<close> ys by (metis insert_ident list.simps(15) sorted_wrt.simps(2))
  ultimately show ?case using Cons ys by simp
qed simp

lemma semantic_key_of_set:
  assumes "linear_cmp cmp" and "set refs = set refs'"
  shows "pending_semantic_key sha cmp agent surface refs digest = pending_semantic_key sha cmp agent surface refs' digest"
proof -
  note lin = linear_ref_cmp [OF assms(1)]
  have "drop_repeats (js_sort (ref_cmp cmp) refs) = drop_repeats (js_sort (ref_cmp cmp) refs')"
    by (rule strict_unique [OF lin]) (simp_all add: drop_repeats_strict [OF lin] js_sort_sorted [OF lin] assms(2))
  then show ?thesis by (simp add: pending_semantic_key_def)
qed

end
