(* ===== verification/Entries.thy ===== *)
theory Entries
  imports EntryIndex
begin

text \<open>
  The operations on entries, over the files of the entries directory and the index:
  \<open>recordEntry\<close> (\<open>packages/core/src/record.ts\<close>) with the names of \<open>id.ts\<close>,
  \<open>updateEntry\<close> (\<open>update.ts\<close>), \<open>markHit\<close> (\<open>markHit.ts\<close>), \<open>listStale\<close>
  (\<open>stale.ts\<close>), and the reads \<open>get\<close> and \<open>search\<close> of \<open>repository.ts\<close>. Clock, random bytes
  and the host's description are the fields of \<open>entry_env\<close>; SQLite's full-text match and its
  ordering by date are those of \<open>sql_engine\<close>. Lemmas: the search for a free id ends and finds the
  least one, recording and then getting gives back what was recorded, an update keeps the
  immutable members and the sections it does not name, every operation keeps the table's keys
  unique, and a search returns only rows its filters admit.
\<close>

subsection \<open>Paths\<close>

text \<open>Node's \<open>path.posix.normalize\<close> and \<open>join\<close>.\<close>

fun norm_parts :: "bool \<Rightarrow> jstr list \<Rightarrow> jstr list \<Rightarrow> jstr list" where
  "norm_parts absolute acc [] = rev acc"
| "norm_parts absolute acc (p # ps) =
     (if p = [] \<or> p = lit ''.'' then norm_parts absolute acc ps
      else if p = lit ''..''
      then (case acc of
          [] \<Rightarrow> norm_parts absolute (if absolute then [] else [p]) ps
        | q # acc' \<Rightarrow> norm_parts absolute (if q = lit ''..'' then p # acc else acc') ps)
      else norm_parts absolute (p # acc) ps)"

definition normalize_path :: "jstr \<Rightarrow> jstr" where
  "normalize_path p =
     (if p = [] then lit ''.''
      else
        (let absolute = (hd p = 47); ps = norm_parts absolute [] (split_on 47 p);
             body = join [47] ps;
             shown = (if body = [] \<and> \<not> absolute then lit ''.'' else body);
             ended = (if body \<noteq> [] \<and> last p = 47 then shown @ [47]
                      else if body = [] \<and> \<not> absolute \<and> last p = 47 then shown @ [47] else shown)
         in if absolute then 47 # ended else ended))"

definition path_join :: "jstr \<Rightarrow> jstr \<Rightarrow> jstr" where
  "path_join a b = normalize_path (join [47] (filter (\<lambda>p. p \<noteq> []) [a, b]))"

subsection \<open>Clock and random bytes\<close>

text \<open>A \<open>Date\<close> by its UTC fields (month from 0), of the years 0 to 9999.\<close>

record utc_time =
  t_year :: nat
  t_month :: nat
  t_day :: nat
  t_hour :: nat
  t_minute :: nat
  t_second :: nat
  t_ms :: nat

definition pad_start :: "nat \<Rightarrow> nat \<Rightarrow> jstr" where
  "pad_start w n = replicate (w - length (nat_str n)) 48 @ nat_str n"

definition format_ymd :: "utc_time \<Rightarrow> jstr" where
  "format_ymd d = pad_start 4 (t_year d) @ lit ''-'' @ pad_start 2 (t_month d + 1) @ lit ''-'' @ pad_start 2 (t_day d)"

definition iso_string :: "utc_time \<Rightarrow> jstr" where
  "iso_string d = format_ymd d @ lit ''T'' @ pad_start 2 (t_hour d) @ lit '':'' @ pad_start 2 (t_minute d) @ lit '':'' @
     pad_start 2 (t_second d) @ lit ''.'' @ pad_start 3 (t_ms d) @ lit ''Z''"

text \<open>
  What an operation gets from its surroundings: the clock, \<open>randomBytes\<close>, the process's platform,
  architecture and Node version, the time stamp a written file gets, and the paths the file system
  refuses to write.
\<close>

record entry_env =
  en_now :: utc_time
  en_random :: "nat \<Rightarrow> bytes"
  en_platform :: jstr
  en_arch :: jstr
  en_node :: "jstr option"
  en_mtime :: jstr
  en_refuses :: "jstr \<Rightarrow> bool"

definition hex_bytes :: "bytes \<Rightarrow> jstr" where
  "hex_bytes bs = concat (map (\<lambda>b. [hex_char (unat b div 16), hex_char (unat b mod 16)]) bs)"

definition random_hex :: "entry_env \<Rightarrow> nat \<Rightarrow> jstr" where
  "random_hex env n = slice (hex_bytes (en_random env ((n + 1) div 2))) 0 n"

definition fingerprint :: "entry_env \<Rightarrow> (jstr \<times> jstr) list" where
  "fingerprint env = [(lit ''os'', en_platform env), (lit ''arch'', en_arch env),
     (lit ''node'', case en_node env of None \<Rightarrow> [] | Some v \<Rightarrow> v)]"

subsection \<open>Names\<close>

text \<open>
  \<open>toLowerCase\<close> as far as \<open>slugify\<close> can see: besides A to Z only U+0130 and U+212A have a
  lower case with an ASCII unit in it; every other unit stays outside a-z0-9 and becomes a dash.
\<close>

definition slug_lower :: "jstr \<Rightarrow> jstr" where
  "slug_lower s = concat (map (\<lambda>c. if is_upper c then [c + 32] else if c = 304 then [105, 775]
     else if c = 8490 then [107] else [c]) s)"

definition slug_unit :: "nat \<Rightarrow> bool" where
  "slug_unit c \<longleftrightarrow> is_lower c \<or> is_digit c"

text \<open>\<open>replace(/[^a-z0-9]+/g, '-')\<close>; the flag says that a run of other units has begun.\<close>

fun dash_runs :: "bool \<Rightarrow> jstr \<Rightarrow> jstr" where
  "dash_runs began [] = []"
| "dash_runs began (c # s) = (if slug_unit c then c # dash_runs False s else if began then dash_runs True s else 45 # dash_runs True s)"

definition strip_dashes :: "jstr \<Rightarrow> jstr" where
  "strip_dashes s = rev (dropWhile (\<lambda>c. c = 45) (rev (dropWhile (\<lambda>c. c = 45) s)))"

definition slugify :: "entry_env \<Rightarrow> jstr \<Rightarrow> jstr" where
  "slugify env title =
     (let sluggy = strip_dashes (dash_runs False (slug_lower title)); d = en_now env in
      if sluggy = [] \<or> \<not> slug_unit (hd sluggy)
      then lit ''entry-'' @ pad_start 4 (t_year d) @ pad_start 2 (t_month d + 1) @ pad_start 2 (t_day d) @ lit ''-'' @ random_hex env 6
      else sluggy)"

definition generate_source_session :: "entry_env \<Rightarrow> jstr" where
  "generate_source_session env = iso_string (en_now env) @ lit ''/'' @ random_hex env 12"

text \<open>
  \<open>resolveCollision\<close>: the loop runs until a candidate is free, which it may never be; None is not
  returning.
\<close>

definition candidate :: "jstr \<Rightarrow> nat \<Rightarrow> jstr" where
  "candidate base n = base @ lit ''-'' @ nat_str n"

partial_function (option) first_free :: "(jstr \<Rightarrow> bool) \<Rightarrow> jstr \<Rightarrow> nat \<Rightarrow> jstr option" where
  "first_free exists base n = (if exists (candidate base n) then first_free exists base (Suc n) else Some (candidate base n))"

definition resolve_collision :: "jstr \<Rightarrow> (jstr \<Rightarrow> bool) \<Rightarrow> jstr option" where
  "resolve_collision base exists = (if exists base then first_free exists base 2 else Some base)"

definition entry_exists :: "entry_db \<Rightarrow> jstr \<Rightarrow> jstr \<Rightarrow> bool" where
  "entry_exists db source eid \<longleftrightarrow> find_row db source eid \<noteq> None"

subsection \<open>Recording\<close>

record record_input =
  ri_title :: jstr
  ri_symptom :: jstr
  ri_cause :: "jstr option"
  ri_resolution :: "jstr option"
  ri_evidence :: "jstr option"
  ri_context :: "jstr option"
  ri_confidence :: "jstr option"
  ri_outcome :: "jstr option"
  ri_visibility :: "jstr option"
  ri_tags :: "jstr list option"
  ri_environment :: "(jstr \<times> jstr) list option"
  ri_id :: "jstr option"
  ri_category :: "jstr option"

record record_result =
  rr_id :: jstr
  rr_path :: jstr
  rr_file :: jstr

text \<open>What the operations change: the files, by path, and the index.\<close>

record entry_store =
  es_files :: "jstr \<rightharpoonup> bytes"
  es_db :: entry_db

definition or_else :: "'a option \<Rightarrow> 'a \<Rightarrow> 'a" where
  "or_else v d = (case v of None \<Rightarrow> d | Some x \<Rightarrow> x)"

definition set_all :: "(jstr \<times> 'v) list \<Rightarrow> (jstr \<times> 'v) list \<Rightarrow> (jstr \<times> 'v) list" where
  "set_all m kvs = foldl (\<lambda>m (k, v). map_set m k v) m kvs"

definition merged_env :: "entry_env \<Rightarrow> (jstr \<times> jstr) list option \<Rightarrow> (jstr \<times> jstr) list" where
  "merged_env env given = obj_order (set_all (fingerprint env) (or_else given []))"

definition env_json :: "(jstr \<times> jstr) list \<Rightarrow> json" where
  "env_json m = JObj (map (\<lambda>(k, v). (k, JStr v)) m)"

definition tags_json :: "jstr list \<Rightarrow> json" where
  "tags_json tags = JArr (map JStr tags)"

definition record_frontmatter :: "entry_env \<Rightarrow> record_input \<Rightarrow> jstr \<Rightarrow> (jstr \<times> json) list" where
  "record_frontmatter env input eid =
     (let ymd = format_ymd (en_now env) in
      [(lit ''id'', JStr eid),
       (lit ''title'', JStr (ri_title input)),
       (lit ''visibility'', JStr (or_else (ri_visibility input) (lit ''private''))),
       (lit ''confidence'', JStr (or_else (ri_confidence input) (lit ''tentative''))),
       (lit ''outcome'', JStr (or_else (ri_outcome input) (lit ''resolved''))),
       (lit ''tags'', tags_json (or_else (ri_tags input) [])),
       (lit ''environment'', env_json (merged_env env (ri_environment input))),
       (lit ''source_project'', JNull),
       (lit ''source_session'', JStr (generate_source_session env)),
       (lit ''created_at'', JStr ymd),
       (lit ''updated_at'', JStr ymd),
       (lit ''last_verified'', JStr ymd)])"

definition record_sections :: "record_input \<Rightarrow> (jstr \<times> jstr) list" where
  "record_sections input =
     (case ri_context input of None \<Rightarrow> [] | Some c \<Rightarrow> [(lit ''Context'', c)]) @
     [(lit ''Symptom'', ri_symptom input), (lit ''Cause'', or_else (ri_cause input) []),
      (lit ''Resolution'', or_else (ri_resolution input) []), (lit ''Evidence'', or_else (ri_evidence input) [])]"

text \<open>\<open>writeEntryFile\<close>: what the file then holds is the text in UTF-8.\<close>

definition write_entry_file :: "entry_env \<Rightarrow> jstr \<Rightarrow> jstr \<Rightarrow> entry_store \<Rightarrow> (entry_error + unit) \<times> entry_store" where
  "write_entry_file env path content st =
     (if en_refuses env path then (Inl (Other_entry_error (lit ''cannot write'')), st)
      else (Inr (), st\<lparr>es_files := (es_files st)(path \<mapsto> utf8_encode content)\<rparr>))"

definition record_row :: "entry_env \<Rightarrow> record_input \<Rightarrow> jstr \<Rightarrow> jstr \<Rightarrow> jstr \<Rightarrow> jstr \<Rightarrow> upsert_row" where
  "record_row env input source eid path body =
     (let fm = record_frontmatter env input eid in
      \<lparr>ur_id = Some (JStr eid), ur_source = source, ur_path = path, ur_title = Some (JStr (ri_title input)), ur_body = body,
       ur_frontmatter_json = json_stringify (JObj fm), ur_tags = json_stringify (tags_json (or_else (ri_tags input) [])),
       ur_confidence = obj_get fm ''confidence'', ur_visibility = obj_get fm ''visibility'',
       ur_file_mtime = en_mtime env, ur_indexed_at = iso_string (en_now env)\<rparr>)"

definition store_entry ::
  "entry_env \<Rightarrow> sql_binding \<Rightarrow> jstr \<Rightarrow> jstr \<Rightarrow> upsert_row \<Rightarrow> record_result \<Rightarrow> entry_store \<Rightarrow> (entry_error + record_result) \<times> entry_store" where
  "store_entry env b path content row res st =
     (case write_entry_file env path content st of
        (Inl e, st') \<Rightarrow> (Inl e, st')
      | (Inr _, st') \<Rightarrow>
          (case upsert_entry b (es_db st') row of
             Inl e \<Rightarrow> (Inl e, st')
           | Inr (db, _) \<Rightarrow> (Inr res, st'\<lparr>es_db := db\<rparr>)))"

definition record_as ::
  "entry_env \<Rightarrow> entry_codec \<Rightarrow> sql_binding \<Rightarrow> jstr \<Rightarrow> jstr \<Rightarrow> record_input \<Rightarrow> jstr \<Rightarrow> entry_store \<Rightarrow>
     (entry_error + record_result) \<times> entry_store" where
  "record_as env co b root source input eid st =
     (case build_entry co (JObj (record_frontmatter env input eid)) (record_sections input) of
        Inl e \<Rightarrow> (Inl e, st)
      | Inr built \<Rightarrow>
          (let rel = or_else (ri_category input) (lit ''misc'') @ lit ''/'' @ eid @ lit ''.md''; path = path_join root rel in
           store_entry env b path (be_content built) (record_row env input source eid rel (be_body built))
             \<lparr>rr_id = eid, rr_path = rel, rr_file = path\<rparr> st))"

definition record_id :: "entry_env \<Rightarrow> jstr \<Rightarrow> record_input \<Rightarrow> entry_store \<Rightarrow> jstr option" where
  "record_id env source input st =
     resolve_collision (case ri_id input of None \<Rightarrow> slugify env (ri_title input) | Some i \<Rightarrow> i) (entry_exists (es_db st) source)"

definition record_entry ::
  "entry_env \<Rightarrow> entry_codec \<Rightarrow> sql_binding \<Rightarrow> jstr \<Rightarrow> jstr \<Rightarrow> record_input \<Rightarrow> entry_store \<Rightarrow>
     ((entry_error + record_result) \<times> entry_store) option" where
  "record_entry env co b root source input st =
     (case record_id env source input st of
        None \<Rightarrow> None
      | Some eid \<Rightarrow> Some (record_as env co b root source input eid st))"

subsection \<open>Updating\<close>

record update_patch =
  up_frontmatter :: "(jstr \<times> json) list option"
  up_sections :: "(jstr \<times> jstr) list option"

text \<open>
  Spreading a value into an object literal: the own members of an object, the elements of an array
  and the code units of a string by index, nothing else. A member's value None is undefined.
\<close>

definition indexed_members :: "json list \<Rightarrow> (jstr \<times> json option) list" where
  "indexed_members vs = map (\<lambda>(i, v). (nat_str i, Some v)) (zip [0..<length vs] vs)"

fun spread :: "json \<Rightarrow> (jstr \<times> json option) list" where
  "spread (JObj m) = map (\<lambda>(k, v). (k, Some v)) (obj_order m)"
| "spread (JArr xs) = indexed_members xs"
| "spread (JStr s) = indexed_members (map (\<lambda>c. JStr [c]) s)"
| "spread _ = []"

definition defined_members :: "(jstr \<times> json option) list \<Rightarrow> (jstr \<times> json) list" where
  "defined_members m = List.map_filter (\<lambda>(k, v). map_option (Pair k) v) (obj_order m)"

definition nullish_members :: "(jstr \<times> json option) list \<Rightarrow> (jstr \<times> json) list" where
  "nullish_members m = map (\<lambda>(k, v). (k, or_else v JNull)) (obj_order m)"

definition immutable_keys :: "jstr list" where
  "immutable_keys = [lit ''id'', lit ''created_at'', lit ''source_session'', lit ''source_project'']"

definition spread_opt :: "json option \<Rightarrow> (jstr \<times> json option) list" where
  "spread_opt v = (case v of None \<Rightarrow> [] | Some j \<Rightarrow> spread j)"

definition merged_frontmatter :: "jstr \<Rightarrow> json \<Rightarrow> (jstr \<times> json) list option \<Rightarrow> (jstr \<times> json option) list" where
  "merged_frontmatter ymd fm patch =
     (let given = or_else patch [];
          environment = set_all (set_all [] (spread_opt (get_member fm ''environment''))) (spread_opt (obj_get given ''environment''));
          base = set_all (set_all [] (spread fm)) (spread (JObj given));
          merged = set_all base
            [(lit ''environment'', Some (JObj (defined_members environment))),
             (lit ''id'', get_member fm ''id''),
             (lit ''source_session'', get_member fm ''source_session''),
             (lit ''source_project'', get_member fm ''source_project''),
             (lit ''created_at'', get_member fm ''created_at''),
             (lit ''updated_at'', Some (JStr ymd))]
      in (case obj_get given ''tags'' of None \<Rightarrow> merged | Some t \<Rightarrow> map_set merged (lit ''tags'') (Some t)))"

text \<open>One section of the patch: an old heading that reads the same keeps its spelling and place.\<close>

definition merge_section :: "(jstr \<Rightarrow> jstr) \<Rightarrow> (jstr \<times> jstr) list \<Rightarrow> jstr \<times> jstr \<Rightarrow> (jstr \<times> jstr) list" where
  "merge_section lower m hc =
     (case find (\<lambda>(h, _). lower (trim h) = lower (trim (fst hc))) (obj_order m) of
        Some (k, _) \<Rightarrow> (if k \<noteq> [] then obj_set m k (snd hc) else obj_set m (fst hc) (snd hc))
      | None \<Rightarrow> obj_set m (fst hc) (snd hc))"

definition merged_sections :: "(jstr \<Rightarrow> jstr) \<Rightarrow> (jstr \<times> jstr) list \<Rightarrow> (jstr \<times> jstr) list option \<Rightarrow> (jstr \<times> jstr) list" where
  "merged_sections lower old patch = foldl (merge_section lower) old (obj_order (or_else patch []))"

definition update_row :: "entry_env \<Rightarrow> (jstr \<times> json option) list \<Rightarrow> jstr \<Rightarrow> jstr \<Rightarrow> json \<Rightarrow> jstr \<Rightarrow> upsert_row" where
  "update_row env merged eid path tags body =
     (let fm = defined_members merged in
      \<lparr>ur_id = Some (JStr eid), ur_source = lit ''own'', ur_path = path, ur_title = obj_get fm ''title'', ur_body = body,
       ur_frontmatter_json = json_stringify (JObj fm), ur_tags = json_stringify tags,
       ur_confidence = obj_get fm ''confidence'', ur_visibility = obj_get fm ''visibility'',
       ur_file_mtime = en_mtime env, ur_indexed_at = iso_string (en_now env)\<rparr>)"

text \<open>
  From the merged members on. The limits of the frontmatter count a member whose value is
  undefined as one with null; the printed text leaves it out. Undefined tags cannot be bound to a
  parameter of the statement (the driver takes null, numbers, strings and bytes), so the
  statement throws after the file has been written.
\<close>

definition write_update ::
  "entry_env \<Rightarrow> entry_codec \<Rightarrow> sql_binding \<Rightarrow> jstr \<Rightarrow> jstr \<Rightarrow> jstr \<Rightarrow> (jstr \<times> json option) list \<Rightarrow> (jstr \<times> jstr) list \<Rightarrow>
     entry_store \<Rightarrow> (entry_error + record_result) \<times> entry_store" where
  "write_update env co b eid rel path merged sections st =
     (case try_then (limited (assert_frontmatter_graph (JObj (nullish_members merged))))
         (\<lambda>_. build_entry co (JObj (defined_members merged)) sections) of
        Inl e \<Rightarrow> (Inl e, st)
      | Inr built \<Rightarrow>
          (case obj_get (defined_members merged) ''tags'' of
             Some tags \<Rightarrow> store_entry env b path (be_content built) (update_row env merged eid rel tags (be_body built))
               \<lparr>rr_id = eid, rr_path = rel, rr_file = path\<rparr> st
           | None \<Rightarrow> (case write_entry_file env path (be_content built) st of
               (Inl e, st') \<Rightarrow> (Inl e, st') | (Inr _, st') \<Rightarrow> (Inl (Other_entry_error (lit ''cannot bind undefined'')), st'))))"

definition update_entry ::
  "entry_env \<Rightarrow> entry_codec \<Rightarrow> sql_binding \<Rightarrow> (jstr \<Rightarrow> jstr) \<Rightarrow> jstr \<Rightarrow> jstr \<Rightarrow> jstr \<Rightarrow> update_patch \<Rightarrow> entry_store \<Rightarrow>
     (entry_error + record_result) \<times> entry_store" where
  "update_entry env co b lower root source eid patch st =
     (if source \<noteq> lit ''own'' then (Inl (Other_entry_error (lit ''community entry'')), st)
      else (case find_row (es_db st) source eid of
        None \<Rightarrow> (Inl (Other_entry_error (lit ''caveat not found'')), st)
      | Some r \<Rightarrow>
          (let path = path_join root (r_path r) in
           case es_files st path of
             None \<Rightarrow> (Inl (Other_entry_error (lit ''ENOENT'')), st)
           | Some raw \<Rightarrow>
               (case parse_markdown co True (utf8_decode raw) of
                  Inl e \<Rightarrow> (Inl e, st)
                | Inr parsed \<Rightarrow>
                    (if list_ex (\<lambda>(k, _). k \<in> set immutable_keys) (or_else (up_frontmatter patch) [])
                     then (Inl (Other_entry_error (lit ''immutable frontmatter key'')), st)
                     else if pm_frontmatter parsed = JNull then (Inl (Other_entry_error (lit ''TypeError'')), st)
                     else write_update env co b eid (r_path r) path
                       (merged_frontmatter (format_ymd (en_now env)) (pm_frontmatter parsed) (up_frontmatter patch))
                       (merged_sections lower (pm_sections parsed) (up_sections patch)) st)))))"

subsection \<open>Reading\<close>

record get_result =
  gr_id :: jstr
  gr_source :: jstr
  gr_path :: jstr
  gr_frontmatter :: json
  gr_sections :: "(jstr \<times> jstr) list"
  gr_body :: jstr

definition get_entry :: "entry_db \<Rightarrow> jstr \<Rightarrow> jstr \<Rightarrow> entry_error + get_result option" where
  "get_entry db eid source =
     (case find_row db source eid of
        None \<Rightarrow> Inr None
      | Some r \<Rightarrow>
          (case json_parse (r_frontmatter_json r) of
             None \<Rightarrow> Inl (Other_entry_error (lit ''SyntaxError''))
           | Some fm \<Rightarrow> Inr (Some \<lparr>gr_id = r_id r, gr_source = r_source r, gr_path = r_path r, gr_frontmatter = fm,
               gr_sections = extract_sections (r_body r), gr_body = r_body r\<rparr>)))"

subsection \<open>The search for a free id\<close>

lemma candidate_inj [simp]: "candidate base m = candidate base n \<longleftrightarrow> m = n"
  by (simp add: candidate_def nat_str_inj)

lemma first_free_at:
  "n \<le> m \<Longrightarrow> \<not> exists (candidate base m) \<Longrightarrow> \<forall>k. n \<le> k \<and> k < m \<longrightarrow> exists (candidate base k) \<Longrightarrow>
     first_free exists base n = Some (candidate base m)"
proof (induction "m - n" arbitrary: n)
  case 0
  then show ?case by (simp add: first_free.simps [of exists base n])
next
  case (Suc d)
  then have "exists (candidate base n)" "first_free exists base (Suc n) = Some (candidate base m)" by auto
  then show ?case by (simp add: first_free.simps [of exists base n])
qed

lemma first_free_ends:
  assumes "finite {n. exists (candidate base n)}"
  shows "\<exists>m \<ge> n. first_free exists base n = Some (candidate base m) \<and> \<not> exists (candidate base m) \<and>
     (\<forall>k. n \<le> k \<and> k < m \<longrightarrow> exists (candidate base k))"
proof -
  have "\<exists>m. n \<le> m \<and> \<not> exists (candidate base m)"
    using infinite_Ici [of n] assms by (metis (mono_tags, lifting) atLeast_iff finite_subset mem_Collect_eq subsetI)
  then obtain m where "n \<le> m" "\<not> exists (candidate base m)" "\<forall>k < m. \<not> (n \<le> k \<and> \<not> exists (candidate base k))"
    using exists_least_iff [of "\<lambda>m. n \<le> m \<and> \<not> exists (candidate base m)"] by blast
  then show ?thesis using first_free_at [of n m exists base] by blast
qed

lemma finite_taken: "finite {n. entry_exists db source (candidate base n)}"
proof -
  have "candidate base ` {n. entry_exists db source (candidate base n)} \<subseteq> r_id ` set (rows db)"
    by (force simp: entry_exists_def dest: find_row_Some)
  then have "finite (candidate base ` {n. entry_exists db source (candidate base n)})"
    by (rule finite_subset) simp
  then show ?thesis by (rule finite_imageD) (simp add: inj_on_def)
qed

text \<open>
  C20: The search for a free id always ends: it returns the base id when the source has no entry
  of that name, and otherwise the base with the least number from 2 on that no entry has.
\<close>

theorem resolve_collision_ends:
  "\<exists>eid. resolve_collision base (entry_exists db source) = Some eid \<and> \<not> entry_exists db source eid \<and>
     (if entry_exists db source base
      then \<exists>m \<ge> 2. eid = candidate base m \<and> (\<forall>k. 2 \<le> k \<and> k < m \<longrightarrow> entry_exists db source (candidate base k))
      else eid = base)"
  using first_free_ends [of "entry_exists db source" base 2, OF finite_taken] by (auto simp: resolve_collision_def)

lemma record_id_free: "\<exists>eid. record_id env source input st = Some eid \<and> \<not> entry_exists (es_db st) source eid"
  using first_free_ends [of "entry_exists (es_db st) source" _ 2, OF finite_taken]
  by (fastforce simp: record_id_def resolve_collision_def)

lemma slug_units_dash_runs: "c \<in> set (dash_runs began s) \<Longrightarrow> slug_unit c \<or> c = 45"
  by (induction began s rule: dash_runs.induct) (auto split: if_splits)

lemma strip_dashes_head: "strip_dashes s \<noteq> [] \<Longrightarrow> hd (strip_dashes s) \<noteq> 45 \<and> last (strip_dashes s) \<noteq> 45"
proof -
  let ?d = "dropWhile (\<lambda>c. c = 45) s"
  assume ne: "strip_dashes s \<noteq> []"
  obtain w where w: "?d = strip_dashes s @ w"
    unfolding strip_dashes_def using takeWhile_dropWhile_id [of "\<lambda>c. c = 45" "rev ?d"] by (metis rev_append rev_rev_ident)
  then have "hd ?d = hd (strip_dashes s)" "?d \<noteq> []" using ne by (metis hd_append2, metis append_is_Nil_conv)
  moreover have "last (strip_dashes s) = hd (dropWhile (\<lambda>c. c = 45) (rev ?d))" "dropWhile (\<lambda>c. c = 45) (rev ?d) \<noteq> []"
    using ne by (simp_all add: strip_dashes_def last_rev)
  ultimately show ?thesis using hd_dropWhile [of "\<lambda>c. c = 45" s] hd_dropWhile [of "\<lambda>c. c = 45" "rev ?d"] by metis
qed

lemma set_strip_dashes: "set (strip_dashes s) \<subseteq> set s"
  by (auto simp: strip_dashes_def dest!: set_dropWhileD)

lemma hex_char_slug: "n < 16 \<Longrightarrow> slug_unit (hex_char n)"
  by (auto simp: hex_char_def slug_unit_def is_digit_def is_lower_def)

lemma random_hex_slug: "c \<in> set (random_hex env n) \<Longrightarrow> slug_unit c"
proof -
  assume "c \<in> set (random_hex env n)"
  then have "c \<in> set (hex_bytes (en_random env ((n + 1) div 2)))"
    by (auto simp: random_hex_def slice_def dest!: in_set_takeD in_set_dropD)
  then obtain b :: byte where "c = hex_char (unat b div 16) \<or> c = hex_char (unat b mod 16)" by (auto simp: hex_bytes_def)
  moreover have "unat b div 16 < 16" using unat_byte_lt [of b] by linarith
  ultimately show ?thesis by (auto intro!: hex_char_slug)
qed

lemma pad_start_digits: "c \<in> set (pad_start w n) \<Longrightarrow> is_digit c"
  using nat_str_digits by (auto simp: pad_start_def is_digit_def)

text \<open>A slug is a file name: not empty, of a-z, 0-9 and dashes, and no option or hidden name.\<close>

lemma slugify_safe: "slugify env title \<noteq> [] \<and> slug_unit (hd (slugify env title)) \<and> (\<forall>c \<in> set (slugify env title). slug_unit c \<or> c = 45)"
proof (cases "strip_dashes (dash_runs False (slug_lower title)) = [] \<or> \<not> slug_unit (hd (strip_dashes (dash_runs False (slug_lower title))))")
  case True
  have "slugify env title = lit ''entry-'' @ pad_start 4 (t_year (en_now env)) @ pad_start 2 (t_month (en_now env) + 1) @
      pad_start 2 (t_day (en_now env)) @ lit ''-'' @ random_hex env 6"
    using True by (simp add: slugify_def Let_def)
  then show ?thesis
    by (auto simp: slug_unit_def is_lower_def lit_def dest: pad_start_digits random_hex_slug)
next
  case False
  then have "slugify env title = strip_dashes (dash_runs False (slug_lower title))" by (simp add: slugify_def Let_def)
  with False show ?thesis using set_strip_dashes slug_units_dash_runs by fastforce
qed

subsection \<open>Rows by key\<close>

lemma find_row_iff:
  "wf_db db \<Longrightarrow> find_row db source eid = Some r \<longleftrightarrow> r \<in> set (rows db) \<and> r_source r = source \<and> r_id r = eid"
  by (metis find_row_None find_row_Some not_None_eq wf_same_key)

lemma upserted_find:
  assumes up: "upserted db db' row eid rid" and wf: "wf_db db"
  shows "\<exists>r. find_row db' (ur_source row) eid = Some r \<and> stored row eid r"
    and "(s, i) \<noteq> (ur_source row, eid) \<Longrightarrow> find_row db' s i = find_row db s i"
proof -
  have wf': "wf_db db'" using up by (simp add: upserted_def)
  obtain r0 where r0: "r0 \<in> set (rows db')" "r_rowid r0 = rid" "stored row eid r0" using up by (auto simp: upserted_def)
  then show "\<exists>r. find_row db' (ur_source row) eid = Some r \<and> stored row eid r"
    by (auto simp: find_row_iff [OF wf'] stored_def)
  assume ne: "(s, i) \<noteq> (ur_source row, eid)"
  have new: "r_rowid r \<noteq> rid" if "r \<in> set (rows db')" "r_source r = s" "r_id r = i" for r
    using wf_same_rowid [OF wf' that(1) r0(1)] that r0 ne by (auto simp: stored_def)
  have old: "r_rowid r \<noteq> rid" if r: "r \<in> set (rows db)" "r_source r = s" "r_id r = i" for r
  proof (cases "find_row db (ur_source row) eid")
    case None
    then have "rid = next_rowid db" using up by (simp add: upserted_def)
    with wf r(1) show ?thesis by (auto simp: wf_db_def)
  next
    case (Some o')
    then have "rid = r_rowid o'" using up by (simp add: upserted_def)
    with wf_same_rowid [OF wf r(1), of o'] find_row_Some [OF Some] r ne show ?thesis by auto
  qed
  have "find_row db' s i = Some r \<longleftrightarrow> find_row db s i = Some r" for r
    unfolding find_row_iff [OF wf'] find_row_iff [OF wf] using up new old unfolding upserted_def by metis
  then show "find_row db' s i = find_row db s i" by (metis not_Some_eq)
qed

text \<open>What storing an entry does, whether it succeeds or not.\<close>

definition entry_stored :: "jstr \<Rightarrow> jstr \<Rightarrow> upsert_row \<Rightarrow> jstr \<Rightarrow> entry_store \<Rightarrow> entry_store \<Rightarrow> bool" where
  "entry_stored path content row eid st st' \<longleftrightarrow>
     es_files st' = (es_files st)(path \<mapsto> utf8_encode content) \<and>
     (\<exists>rid. upserted (es_db st) (es_db st') row eid rid)"

lemma store_entry_effect:
  assumes "store_entry env b path content row res st = (r, st')" and "binds_strings b" and "ur_id row = Some (JStr eid)"
    and "wf_db (es_db st)"
  shows "(\<forall>p. p \<noteq> path \<longrightarrow> es_files st' p = es_files st p) \<and>
     (case r of Inl e \<Rightarrow> es_db st' = es_db st | Inr x \<Rightarrow> x = res \<and> entry_stored path content row eid st st')"
proof (cases "en_refuses env path")
  case True
  with assms(1) show ?thesis by (auto simp: store_entry_def write_entry_file_def)
next
  case False
  show ?thesis
  proof (cases "upsert_entry b (es_db st) row")
    case (Inl e)
    with False assms(1) show ?thesis by (auto simp: store_entry_def write_entry_file_def)
  next
    case (Inr x)
    obtain db rid where x: "x = (db, rid)" by fastforce
    with upsert_entry_effect [OF Inr [unfolded x] assms(4)] assms(2,3)
    have "upserted (es_db st) db row eid rid" by (auto simp: binds_strings_def)
    with False assms(1) Inr x show ?thesis
      by (auto simp: store_entry_def write_entry_file_def entry_stored_def)
  qed
qed

subsection \<open>Members of built objects\<close>

lemma set_map_set: "set (map_set m k v) \<subseteq> insert (k, v) (set m)"
  by (induction m k v rule: map_set.induct) auto

lemma set_all_members: "set (set_all m kvs) \<subseteq> set m \<union> set kvs"
  unfolding set_all_def
proof (induction kvs arbitrary: m)
  case (Cons kv kvs)
  obtain k v where kv: "kv = (k, v)" by fastforce
  from Cons.IH [of "map_set m k v"] set_map_set [of m k v] show ?case by (auto simp: kv)
qed simp

lemma distinct_set_all: "distinct (map fst m) \<Longrightarrow> distinct (map fst (set_all m kvs))"
  unfolding set_all_def by (induction kvs arbitrary: m) auto

lemma map_of_set_all: "map_of (set_all m kvs) k = (case map_of (rev kvs) k of None \<Rightarrow> map_of m k | Some v \<Rightarrow> Some v)"
  unfolding set_all_def
  by (induction kvs arbitrary: m) (auto simp: map_add_def split: option.splits)

lemma map_of_distinct_cong: "distinct (map fst m) \<Longrightarrow> distinct (map fst m') \<Longrightarrow> set m = set m' \<Longrightarrow> map_of m = map_of m'"
  by (rule ext) (metis map_of_eq_None_iff map_of_eq_Some_iff not_None_eq set_map)

lemma map_of_obj_order: "distinct (map fst m) \<Longrightarrow> map_of (obj_order m) = map_of m"
  by (rule map_of_distinct_cong) (simp_all add: distinct_obj_order set_obj_order)

subsection \<open>What was recorded can be read back\<close>

text \<open>The strings a caller hands over are sequences of 16-bit units, as every JavaScript string is.\<close>

definition units_opt :: "jstr option \<Rightarrow> bool" where
  "units_opt v \<longleftrightarrow> (\<forall>s. v = Some s \<longrightarrow> units s)"

definition units_env :: "(jstr \<times> jstr) list \<Rightarrow> bool" where
  "units_env m \<longleftrightarrow> (\<forall>(k, v) \<in> set m. units k \<and> units v)"

definition input_units :: "entry_env \<Rightarrow> record_input \<Rightarrow> bool" where
  "input_units env input \<longleftrightarrow> units (ri_title input) \<and> units_opt (ri_confidence input) \<and> units_opt (ri_outcome input) \<and>
     units_opt (ri_visibility input) \<and> (\<forall>t \<in> set (or_else (ri_tags input) []). units t) \<and>
     units_env (or_else (ri_environment input) []) \<and> units_opt (ri_id input) \<and> units_env (fingerprint env)"

lemma units_ascii_lit: "\<forall>c \<in> set s. (of_char c :: nat) < 128 \<Longrightarrow> units (lit s)"
  by (simp add: text_ok_lit text_ok_units)

lemma units_slug: "\<forall>c \<in> set s. slug_unit c \<or> c = 45 \<or> P c \<Longrightarrow> \<forall>c. P c \<longrightarrow> c < 128 \<Longrightarrow> units s"
  by (fastforce simp: units_def slug_unit_def is_lower_def is_digit_def)

lemma units_or_else: "units_opt v \<Longrightarrow> units d \<Longrightarrow> units (or_else v d)"
  by (auto simp: units_opt_def or_else_def split: option.splits)

lemma units_pad_start: "units (pad_start w n)"
  by (rule units_slug [of _ "\<lambda>_. False"]) (auto simp: slug_unit_def dest: pad_start_digits)

lemma units_random_hex: "units (random_hex env n)"
  by (rule units_slug [of _ "\<lambda>_. False"]) (auto dest: random_hex_slug)

lemma units_ymd: "units (format_ymd d)"
  by (simp add: format_ymd_def units_pad_start units_ascii_lit)

lemma units_session: "units (generate_source_session env)"
  by (simp add: generate_source_session_def iso_string_def units_ymd units_pad_start units_random_hex units_ascii_lit)

lemma units_slugify: "units (slugify env title)"
  using slugify_safe [of env title] by (intro units_slug [of _ "\<lambda>_. False"]) auto

lemma units_candidate: "units base \<Longrightarrow> units (candidate base n)"
  by (simp add: candidate_def units_ascii_lit text_ok_units [OF text_ok_nat_str])

lemma units_record_id:
  assumes "record_id env source input st = Some eid" and "input_units env input"
  shows "units eid"
proof -
  obtain base where base: "units base" "resolve_collision base (entry_exists (es_db st) source) = Some eid"
    using assms units_slugify by (cases "ri_id input") (auto simp: record_id_def input_units_def units_opt_def)
  with first_free_ends [of "entry_exists (es_db st) source" base 2, OF finite_taken]
  show ?thesis by (auto simp: resolve_collision_def units_candidate split: if_splits)
qed

lemma merged_env_props:
  assumes "units_env (or_else given [])" and "units_env (fingerprint env)"
  shows "units_env (merged_env env given)" and "distinct (map fst (merged_env env given))"
proof -
  have "distinct (map fst (fingerprint env))" by (simp add: fingerprint_def)
  then show "distinct (map fst (merged_env env given))"
    unfolding merged_env_def by (intro distinct_obj_order distinct_set_all)
  show "units_env (merged_env env given)"
    using assms set_all_members [of "fingerprint env" "or_else given []"]
    by (auto simp: units_env_def merged_env_def set_obj_order)
qed

lemma wf_env_json: "units_env m \<Longrightarrow> distinct (map fst m) \<Longrightarrow> wf_json (env_json m)"
  by (auto simp: env_json_def units_env_def list_all_iff o_def case_prod_beta)

lemma wf_record_frontmatter:
  assumes "units eid" and "input_units env input"
  shows "wf_json (JObj (record_frontmatter env input eid))"
  using assms merged_env_props
  by (simp add: record_frontmatter_def input_units_def Let_def units_ascii_lit units_or_else units_ymd units_session tags_json_def
      wf_env_json list_all_iff)

lemma trim_ascii_words: "trim (lit ''Context'') = lit ''Context''" "trim (lit ''Symptom'') = lit ''Symptom''"
  "trim (lit ''Cause'') = lit ''Cause''" "trim (lit ''Resolution'') = lit ''Resolution''" "trim (lit ''Evidence'') = lit ''Evidence''"
  by (simp_all add: trim_def trim_end_def is_space_def lit_def)

lemma good_record_headings: "s \<in> set (record_sections input) \<Longrightarrow> good_heading (fst s) \<and> \<not> index_key (fst s)"
  by (auto simp: record_sections_def good_heading_def trim_ascii_words split: option.splits)
    (simp_all add: lit_def line_end_def index_key_def is_digit_def)

lemma record_sections_order:
  "distinct (map fst (record_sections input))" "obj_order (record_sections input) = record_sections input"
proof -
  show "distinct (map fst (record_sections input))" by (simp add: record_sections_def split: option.splits)
  have "filter (\<lambda>(k, _). index_key k) (record_sections input) = []" 
    "filter (\<lambda>(k, _). \<not> index_key k) (record_sections input) = record_sections input"
    using good_record_headings [of _ input] by (auto simp: filter_empty_conv filter_id_conv)
  then show "obj_order (record_sections input) = record_sections input" by (simp add: obj_order_def)
qed

lemma get_stored:
  assumes "find_row db source eid = Some r" and "stored row eid r" and "ur_frontmatter_json row = json_stringify j" and "wf_json j"
  shows "get_entry db eid source = Inr (Some \<lparr>gr_id = eid, gr_source = source, gr_path = ur_path row, gr_frontmatter = j,
     gr_sections = extract_sections (ur_body row), gr_body = ur_body row\<rparr>)"
  using assms find_row_Some [OF assms(1)] json_roundtrip [OF assms(4), of "[]"]
  by (simp add: get_entry_def stored_def blank_def)

lemma build_entry_body: "build_entry co fm sections = Inr built \<Longrightarrow> be_body built = body_text sections"
  by (auto simp: build_entry_def Let_def res)

text \<open>
  C21: An entry that was recorded can be read back: \<open>get\<close> under the returned id gives the frontmatter
  as recorded, the body as printed, and, if no line of a text reads as a heading or holds a
  carriage return, the sections as given, trimmed. The id was not taken before; every other row
  and every other file is as it was.
\<close>

theorem record_then_get:
  assumes "record_entry env co b root source input st = Some (Inr res, st')"
    and "wf_db (es_db st)" and "binds_strings b" and "input_units env input"
  shows "get_entry (es_db st') (rr_id res) source =
      Inr (Some \<lparr>gr_id = rr_id res, gr_source = source, gr_path = rr_path res,
        gr_frontmatter = JObj (record_frontmatter env input (rr_id res)),
        gr_sections = extract_sections (body_text (record_sections input)), gr_body = body_text (record_sections input)\<rparr>) \<and>
    ((\<forall>s \<in> set (record_sections input). good_content (snd s)) \<longrightarrow>
      extract_sections (body_text (record_sections input)) = map (\<lambda>(h, c). (h, trim c)) (record_sections input)) \<and>
    \<not> entry_exists (es_db st) source (rr_id res) \<and>
    (\<forall>s i. (s, i) \<noteq> (source, rr_id res) \<longrightarrow> find_row (es_db st') s i = find_row (es_db st) s i) \<and>
    (\<forall>p. p \<noteq> rr_file res \<longrightarrow> es_files st' p = es_files st p)"
proof -
  obtain eid where eid: "record_id env source input st = Some eid"
    and rec: "record_as env co b root source input eid st = (Inr res, st')"
    using assms(1) by (auto simp: record_entry_def split: option.splits)
  then obtain built where built: "build_entry co (JObj (record_frontmatter env input eid)) (record_sections input) = Inr built"
    by (auto simp: record_as_def split: sum.splits)
  define rel where "rel = or_else (ri_category input) (lit ''misc'') @ lit ''/'' @ eid @ lit ''.md''"
  define row where "row = record_row env input source eid rel (be_body built)"
  have row: "ur_id row = Some (JStr eid)" "ur_source row = source" "ur_path row = rel" "ur_body row = body_text (record_sections input)"
    "ur_frontmatter_json row = json_stringify (JObj (record_frontmatter env input eid))"
    using build_entry_body [OF built] by (simp_all add: row_def record_row_def Let_def)
  have "store_entry env b (path_join root rel) (be_content built) row
      \<lparr>rr_id = eid, rr_path = rel, rr_file = path_join root rel\<rparr> st = (Inr res, st')"
    using rec built by (simp add: record_as_def Let_def rel_def row_def)
  from store_entry_effect [OF this assms(3) row(1) assms(2)] obtain rid where
    res: "res = \<lparr>rr_id = eid, rr_path = rel, rr_file = path_join root rel\<rparr>"
    and up: "upserted (es_db st) (es_db st') row eid rid"
    and files: "\<forall>p. p \<noteq> path_join root rel \<longrightarrow> es_files st' p = es_files st p"
    by (auto simp: entry_stored_def)
  obtain r where r: "find_row (es_db st') source eid = Some r" "stored row eid r"
    using upserted_find(1) [OF up assms(2)] row(2) by auto
  have "find_row (es_db st') s i = find_row (es_db st) s i" if "(s, i) \<noteq> (source, eid)" for s i
    using upserted_find(2) [OF up assms(2)] that row(2) by simp
  moreover have "\<not> entry_exists (es_db st) source eid" using record_id_free [of env source input st] eid by auto
  moreover have "extract_sections (body_text (record_sections input)) = map (\<lambda>(h, c). (h, trim c)) (record_sections input)"
    if "\<forall>s \<in> set (record_sections input). good_content (snd s)"
    using section_print [OF record_sections_order(1)] good_record_headings that by (simp add: record_sections_order(2))
  moreover note get_stored [OF r row(5) wf_record_frontmatter [OF units_record_id [OF eid assms(4)] assms(4)]] files
  ultimately show ?thesis by (simp add: res row(3,4))
qed

text \<open>A first entry in an empty store.\<close>

definition toy_env :: entry_env where
  "toy_env = \<lparr>en_now = \<lparr>t_year = 2026, t_month = 0, t_day = 1, t_hour = 0, t_minute = 0, t_second = 0, t_ms = 0\<rparr>,
     en_random = (\<lambda>_. []), en_platform = lit ''linux'', en_arch = lit ''x64'', en_node = None, en_mtime = [], en_refuses = (\<lambda>_. False)\<rparr>"

definition toy_input :: record_input where
  "toy_input = \<lparr>ri_title = lit ''hang'', ri_symptom = [], ri_cause = None, ri_resolution = None, ri_evidence = None,
     ri_context = None, ri_confidence = None, ri_outcome = None, ri_visibility = None, ri_tags = None, ri_environment = None,
     ri_id = Some (lit ''a''), ri_category = None\<rparr>"

definition toy_store :: entry_store where
  "toy_store = \<lparr>es_files = Map.empty, es_db = empty_db\<rparr>"

lemma byte_length_lit: "\<forall>c \<in> set s. (of_char c :: nat) < 128 \<Longrightarrow> byte_length (lit s) = length s"
  by (simp add: byte_length_def utf8_encode_ascii lit_def)

lemma toy_env_entries: "merged_env toy_env None = [(lit ''os'', lit ''linux''), (lit ''arch'', lit ''x64''), (lit ''node'', [])]"
  by (simp add: merged_env_def toy_env_def fingerprint_def or_else_def set_all_def obj_order_def)
    (simp add: index_key_def lit_def is_digit_def)

lemma toy_texts:
  "format_ymd (en_now toy_env) = lit ''2026-01-01''" "generate_source_session toy_env = lit ''2026-01-01T00:00:00.000Z/''"
  by (simp_all add: format_ymd_def generate_source_session_def iso_string_def random_hex_def hex_bytes_def slice_def
      toy_env_def pad_start_def nat_str.simps) (simp_all add: lit_def numeral_2_eq_2)

lemma toy_frontmatter:
  "record_frontmatter toy_env toy_input (lit ''a'') =
     [(lit ''id'', JStr (lit ''a'')), (lit ''title'', JStr (lit ''hang'')), (lit ''visibility'', JStr (lit ''private'')),
      (lit ''confidence'', JStr (lit ''tentative'')), (lit ''outcome'', JStr (lit ''resolved'')), (lit ''tags'', JArr []),
      (lit ''environment'', JObj [(lit ''os'', JStr (lit ''linux'')), (lit ''arch'', JStr (lit ''x64'')), (lit ''node'', JStr [])]),
      (lit ''source_project'', JNull), (lit ''source_session'', JStr (lit ''2026-01-01T00:00:00.000Z/'')),
      (lit ''created_at'', JStr (lit ''2026-01-01'')), (lit ''updated_at'', JStr (lit ''2026-01-01'')),
      (lit ''last_verified'', JStr (lit ''2026-01-01''))]"
  by (simp add: record_frontmatter_def toy_env_entries toy_texts toy_input_def or_else_def tags_json_def env_json_def Let_def)

lemma toy_graph: "assert_frontmatter_graph (JObj (record_frontmatter toy_env toy_input (lit ''a''))) = Inr ()"
  by (rule graph_accepts) (simp_all add: toy_frontmatter limit_graph_def limit_frontmatter_def limit_depth_def byte_length_lit)

lemma body_text_record: "body_text (record_sections input) = join [10, 10] (map section_text (record_sections input))"
  by (simp add: body_text_def record_sections_order)

lemma toy_build: "\<exists>built. build_entry toy_codec (JObj (record_frontmatter toy_env toy_input (lit ''a''))) (record_sections toy_input) = Inr built"
proof -
  have "\<forall>c \<in> set (lit ''---'' @ [10] @ lit ''---'' @ [10, 10] @ body_text (record_sections toy_input) @ [10]). c < 128"
    unfolding body_text_record by (simp add: record_sections_def toy_input_def or_else_def section_text_def) (simp add: lit_def)
  moreover have "length (body_text (record_sections toy_input)) \<le> 100"
    unfolding body_text_record by (simp add: record_sections_def toy_input_def or_else_def section_text_def)
  moreover have "body_text (record_sections toy_input) \<noteq> []"
    unfolding body_text_record by (simp add: record_sections_def toy_input_def or_else_def section_text_def)
  ultimately show ?thesis
    by (simp add: build_entry_def dump_frontmatter_def toy_graph limited_def assert_utf8_limit_def toy_codec_def Let_def
        byte_length_ascii limit_frontmatter_def limit_markdown_def)
qed

lemma toy_record: "\<exists>res st'. record_entry toy_env toy_codec toy_binding (lit ''/e'') (lit ''own'') toy_input toy_store = Some (Inr res, st')"
proof -
  obtain built where "build_entry toy_codec (JObj (record_frontmatter toy_env toy_input (lit ''a''))) (record_sections toy_input) = Inr built"
    using toy_build by blast
  moreover have "record_id toy_env (lit ''own'') toy_input toy_store = Some (lit ''a'')"
    by (simp add: record_id_def resolve_collision_def entry_exists_def find_row_def toy_store_def empty_db_def toy_input_def)
  moreover have "en_refuses toy_env p = False" for p by (simp add: toy_env_def)
  ultimately show ?thesis
    by (simp add: record_entry_def record_as_def Let_def store_entry_def write_entry_file_def upsert_entry_def record_row_def
        toy_binding_def toy_frontmatter obj_get_def not_null_def split: prod.split)
qed

lemma toy_units: "input_units toy_env toy_input"
  by (simp add: input_units_def toy_env_def toy_input_def units_opt_def or_else_def units_env_def fingerprint_def units_ascii_lit)
    (simp add: units_def)

theorem record_then_get_witness:
  "\<exists>res st'. record_entry toy_env toy_codec toy_binding (lit ''/e'') (lit ''own'') toy_input toy_store = Some (Inr res, st') \<and>
     (\<exists>g. get_entry (es_db st') (rr_id res) (lit ''own'') = Inr (Some g))"
proof -
  obtain r st' where rec: "record_entry toy_env toy_codec toy_binding (lit ''/e'') (lit ''own'') toy_input toy_store = Some (Inr r, st')"
    using toy_record by blast
  have "wf_db (es_db toy_store)" by (simp add: toy_store_def)
  with record_then_get [OF rec _ toy_binds toy_units] rec show ?thesis by blast
qed

subsection \<open>What an update keeps\<close>

lemma merged_immutable:
  assumes "name \<in> {''id'', ''created_at'', ''source_session'', ''source_project''}"
  shows "map_of (merged_frontmatter ymd fm patch) (lit name) = Some (get_member fm name)"
  using assms unfolding merged_frontmatter_def
  by (auto simp: Let_def map_of_set_all split: option.splits)

lemma distinct_merged: "distinct (map fst (merged_frontmatter ymd fm patch))"
  unfolding merged_frontmatter_def
  by (auto simp: Let_def intro!: distinct_map_set distinct_set_all split: option.splits)

lemma map_of_map_filter: "distinct (map fst m) \<Longrightarrow> map_of (List.map_filter (\<lambda>(k, v). map_option (Pair k) v) m) k = Option.bind (map_of m k) id"
proof (induction m)
  case (Cons kv m)
  obtain k' v where kv: "kv = (k', v)" by fastforce
  have "k' \<notin> fst ` set m \<Longrightarrow> map_of m k' = None" by (simp add: map_of_eq_None_iff)
  then show ?case using Cons by (cases v) (auto simp: kv List.map_filter_def)
qed (simp add: List.map_filter_def)

lemma map_of_defined: "distinct (map fst m) \<Longrightarrow> map_of (defined_members m) k = Option.bind (map_of m k) id"
  by (simp add: defined_members_def map_of_map_filter distinct_obj_order map_of_obj_order)

text \<open>A member that is not kept or stamped is the patch's, or else the file's.\<close>

lemma map_of_spread: "distinct (map fst m) \<Longrightarrow> map_of (rev (spread (JObj m))) k = map_option Some (map_of m k)"
proof -
  assume d: "distinct (map fst m)"
  have "map fst (spread (JObj m)) = map fst (obj_order m)" by (simp add: case_prod_beta comp_def)
  then have "map_of (rev (spread (JObj m))) = map_of (spread (JObj m))"
    by (intro map_of_distinct_cong) (simp_all add: rev_map [symmetric] distinct_obj_order [OF d] del: spread.simps)
  then show ?thesis using map_of_obj_order [OF d] by (simp add: map_of_map)
qed

definition stamped_keys :: "jstr list" where
  "stamped_keys = immutable_keys @ [lit ''environment'', lit ''updated_at'']"

lemma merged_members:
  assumes "distinct (map fst m)" and "distinct (map fst (or_else patch []))" and "k \<notin> set stamped_keys"
  shows "map_of (defined_members (merged_frontmatter ymd (JObj m) patch)) k =
    (case map_of (or_else patch []) k of Some v \<Rightarrow> Some v | None \<Rightarrow> map_of m k)"
proof -
  have k: "k \<noteq> lit ''id''" "k \<noteq> lit ''created_at''" "k \<noteq> lit ''source_session''" "k \<noteq> lit ''source_project''"
    "k \<noteq> lit ''environment''" "k \<noteq> lit ''updated_at''"
    using assms(3) by (auto simp: stamped_keys_def immutable_keys_def)
  have base: "map_of (set_all (set_all [] (spread (JObj m))) (spread (JObj (or_else patch [])))) k =
      (case map_of (or_else patch []) k of Some v \<Rightarrow> Some (Some v) | None \<Rightarrow> map_option Some (map_of m k))"
    using map_of_spread [OF assms(1), of k] map_of_spread [OF assms(2), of k]
    by (simp add: map_of_set_all del: spread.simps split: option.splits)
  have "map_of (merged_frontmatter ymd (JObj m) patch) k =
      (case map_of (or_else patch []) k of Some v \<Rightarrow> Some (Some v) | None \<Rightarrow> map_option Some (map_of m k))"
    using k base by (auto simp: merged_frontmatter_def Let_def map_of_set_all obj_get_def simp del: spread.simps split: option.splits)
  then show ?thesis by (simp add: map_of_defined [OF distinct_merged] split: option.splits) (cases "map_of m k"; simp)
qed

lemma find_class:
  "find (\<lambda>(h, _). lower (trim h) = t) m = Some (k, v) \<Longrightarrow> lower (trim k) = t"
  by (auto simp: find_Some_iff)

lemma merge_section_other:
  "lower (trim h) \<noteq> lower (trim (fst hc)) \<Longrightarrow> map_of (merge_section lower m hc) h = map_of m h"
  by (auto simp: merge_section_def obj_set_def dest!: find_class split: option.splits)

lemma merge_section_sets:
  assumes "lower (trim (fst hc)) \<noteq> lower (trim (lit ''__proto__''))"
  shows "\<exists>k. lower (trim k) = lower (trim (fst hc)) \<and> map_of (merge_section lower m hc) k = Some (snd hc)"
proof -
  have put: "map_of (obj_set m k c) k = Some c" if "lower (trim k) = lower (trim (fst hc))" for k c
    using that assms by (cases "k = lit ''__proto__''") (simp_all add: obj_set_def)
  show ?thesis
  proof (cases "find (\<lambda>(h, _). lower (trim h) = lower (trim (fst hc))) (obj_order m)")
    case None
    with put [of "fst hc" "snd hc"] show ?thesis by (intro exI [of _ "fst hc"]) (simp add: merge_section_def)
  next
    case (Some kv)
    obtain k v where kv: "kv = (k, v)" by fastforce
    note cls = find_class [OF Some [unfolded kv]]
    show ?thesis
    proof (cases "k = []")
      case True
      with put [of "fst hc" "snd hc"] Some kv show ?thesis by (intro exI [of _ "fst hc"]) (simp add: merge_section_def)
    next
      case False
      with put [OF cls, of "snd hc"] Some kv cls show ?thesis by (intro exI [of _ k]) (simp add: merge_section_def)
    qed
  qed
qed

lemma merge_sections_other:
  "\<forall>hc \<in> set ps. lower (trim h) \<noteq> lower (trim (fst hc)) \<Longrightarrow> map_of (foldl (merge_section lower) m ps) h = map_of m h"
  by (induction ps arbitrary: m) (simp_all add: merge_section_other)

lemma merge_sections_set:
  "distinct (map (\<lambda>(h, _). lower (trim h)) ps) \<Longrightarrow> (h, c) \<in> set ps \<Longrightarrow> lower (trim h) \<noteq> lower (trim (lit ''__proto__'')) \<Longrightarrow>
     \<exists>k. lower (trim k) = lower (trim h) \<and> map_of (foldl (merge_section lower) m ps) k = Some c"
proof (induction ps arbitrary: m)
  case (Cons p ps)
  show ?case
  proof (cases "(h, c) = p")
    case True
    with merge_section_sets [of lower "(h, c)" m] Cons.prems(3) obtain k
      where k: "lower (trim k) = lower (trim h)" "map_of (merge_section lower m (h, c)) k = Some c" by auto
    have "\<forall>hc \<in> set ps. lower (trim k) \<noteq> lower (trim (fst hc))"
      using Cons.prems(1) True k(1) by (force simp: case_prod_beta)
    from merge_sections_other [OF this] k True show ?thesis by auto
  next
    case False
    with Cons show ?thesis by simp
  qed
qed simp

lemma distinct_class_order: "distinct (map f m) \<Longrightarrow> distinct (map f (obj_order m))"
proof -
  assume d: "distinct (map f m)"
  then have "distinct (map f (sort_key (\<lambda>(k, _). digits_val 0 k) (filter (\<lambda>(k, _). index_key k) m)))"
    by (simp add: distinct_map distinct_filter inj_on_def)
  then show ?thesis using d by (auto simp: obj_order_def distinct_map distinct_filter inj_on_def)
qed

text \<open>
  What an update wrote: the old entry \<open>p\<close> of the row \<open>r\<close> merged with the patch, as a row and as
  the text of the file, which is spelled out here and not taken from the printer of entries.
\<close>

definition printed_entry :: "jstr \<Rightarrow> (jstr \<times> jstr) list \<Rightarrow> jstr" where
  "printed_entry yaml sections =
     (let body = body_text sections in
      lit ''---'' @ [10] @ yaml @ lit ''---'' @ [10, 10] @ (if body = [] then [] else body @ [10]))"

definition updated_entry ::
  "entry_env \<Rightarrow> entry_codec \<Rightarrow> (jstr \<Rightarrow> jstr) \<Rightarrow> jstr \<Rightarrow> jstr \<Rightarrow> update_patch \<Rightarrow> row \<Rightarrow> parsed_markdown \<Rightarrow> entry_store \<Rightarrow> bool" where
  "updated_entry env co lower root eid patch r p st' \<longleftrightarrow>
     (let fm = defined_members (merged_frontmatter (format_ymd (en_now env)) (pm_frontmatter p) (up_frontmatter patch));
          sections = merged_sections lower (pm_sections p) (up_sections patch) in
      (\<exists>yaml. dump_frontmatter co (JObj fm) = Inr yaml \<and>
        es_files st' (path_join root (r_path r)) = Some (utf8_encode (printed_entry yaml sections))) \<and>
      (\<exists>r'. find_row (es_db st') (lit ''own'') eid = Some r' \<and> r_path r' = r_path r \<and>
        r_body r' = body_text sections \<and> r_frontmatter_json r' = json_stringify (JObj fm)))"

lemma build_entry_prints:
  "build_entry co fm sections = Inr built \<Longrightarrow> \<exists>yaml. dump_frontmatter co fm = Inr yaml \<and> be_content built = printed_entry yaml sections"
  by (auto simp: build_entry_def printed_entry_def Let_def res)

lemma update_entry_effect:
  assumes u: "update_entry env co b lower root source eid patch st = (Inr res, st')"
    and wf: "wf_db (es_db st)" and b: "binds_strings b"
  shows "source = lit ''own'' \<and> (\<exists>r raw p. find_row (es_db st) source eid = Some r \<and>
     es_files st (path_join root (r_path r)) = Some raw \<and> parse_markdown co True (utf8_decode raw) = Inr p \<and>
     updated_entry env co lower root eid patch r p st' \<and>
     (\<forall>s i. (s, i) \<noteq> (source, eid) \<longrightarrow> find_row (es_db st') s i = find_row (es_db st) s i) \<and>
     (\<forall>q. q \<noteq> path_join root (r_path r) \<longrightarrow> es_files st' q = es_files st q))"
proof -
  from u obtain r raw p where own: "source = lit ''own''" and r: "find_row (es_db st) source eid = Some r"
    and raw: "es_files st (path_join root (r_path r)) = Some raw" and p: "parse_markdown co True (utf8_decode raw) = Inr p"
    and w: "write_update env co b eid (r_path r) (path_join root (r_path r))
        (merged_frontmatter (format_ymd (en_now env)) (pm_frontmatter p) (up_frontmatter patch))
        (merged_sections lower (pm_sections p) (up_sections patch)) st = (Inr res, st')"
    by (auto simp: update_entry_def Let_def split: if_splits option.splits sum.splits)
  let ?m = "merged_frontmatter (format_ymd (en_now env)) (pm_frontmatter p) (up_frontmatter patch)"
  from w obtain built tags where built: "build_entry co (JObj (defined_members ?m)) (merged_sections lower (pm_sections p) (up_sections patch)) = Inr built"
    and s: "store_entry env b (path_join root (r_path r)) (be_content built) (update_row env ?m eid (r_path r) tags (be_body built))
      \<lparr>rr_id = eid, rr_path = r_path r, rr_file = path_join root (r_path r)\<rparr> st = (Inr res, st')"
    by (auto simp: write_update_def res split: sum.splits option.splits prod.splits)
  have row: "ur_id (update_row env ?m eid (r_path r) tags (be_body built)) = Some (JStr eid)"
    "ur_source (update_row env ?m eid (r_path r) tags (be_body built)) = source" by (simp_all add: update_row_def Let_def own)
  from store_entry_effect [OF s b row(1) wf] obtain rid where
    up: "upserted (es_db st) (es_db st') (update_row env ?m eid (r_path r) tags (be_body built)) eid rid"
    and files: "\<forall>q. q \<noteq> path_join root (r_path r) \<longrightarrow> es_files st' q = es_files st q"
    and saved: "es_files st' (path_join root (r_path r)) = Some (utf8_encode (be_content built))"
    by (auto simp: entry_stored_def)
  obtain r' where r': "find_row (es_db st') source eid = Some r'"
    "stored (update_row env ?m eid (r_path r) tags (be_body built)) eid r'"
    using upserted_find(1) [OF up wf] row(2) by auto
  then have "updated_entry env co lower root eid patch r p st'"
    using build_entry_body [OF built] build_entry_prints [OF built] saved
    by (auto simp: updated_entry_def stored_def update_row_def Let_def own)
  moreover have "\<forall>s i. (s, i) \<noteq> (source, eid) \<longrightarrow> find_row (es_db st') s i = find_row (es_db st) s i"
    using upserted_find(2) [OF up wf] row(2) by auto
  ultimately show ?thesis using own r raw p files by blast
qed


definition toy_row :: row where
  "toy_row = \<lparr>r_rowid = 1, r_id = lit ''a'', r_source = lit ''own'', r_path = lit ''a'', r_title = [], r_body = [],
     r_frontmatter_json = [], r_tags = None, r_confidence = None, r_visibility = None, r_file_mtime = [], r_indexed_at = [],
     r_last_hit_at = None, r_topical = None, r_symptom = None\<rparr>"

definition toy_edit_store :: entry_store where
  "toy_edit_store = \<lparr>es_files = (\<lambda>_. Some (utf8_encode (lit ''a''))), es_db = \<lparr>rows = [toy_row], next_rowid = 2\<rparr>\<rparr>"

theorem resolve_collision_ends_witness:
  "resolve_collision (lit ''a'') (entry_exists (es_db toy_edit_store) (lit ''own'')) = Some (candidate (lit ''a'') 2)"
proof -
  let ?ex = "entry_exists (es_db toy_edit_store) (lit ''own'')"
  have taken: "?ex (lit ''a'')" and free: "\<not> ?ex (candidate (lit ''a'') 2)"
    by (simp_all add: entry_exists_def find_row_def toy_edit_store_def toy_row_def candidate_def lit_def)
  from resolve_collision_ends [of "lit ''a''" "es_db toy_edit_store" "lit ''own''"] taken
  obtain m where m: "resolve_collision (lit ''a'') ?ex = Some (candidate (lit ''a'') m)" "2 \<le> m"
    "\<forall>k. 2 \<le> k \<and> k < m \<longrightarrow> ?ex (candidate (lit ''a'') k)" by auto
  with free have "\<not> 2 < m" by blast
  with m show ?thesis by simp
qed

definition toy_patch :: update_patch where
  "toy_patch = \<lparr>up_frontmatter = Some [(lit ''tags'', JArr [])], up_sections = Some [(lit ''Cause'', [])]\<rparr>"

lemma toy_load_frontmatter: "assert_frontmatter_graph (JObj [(lit ''id'', JStr (lit ''a'')), (lit ''title'', JStr (lit ''a''))]) = Inr ()"
  by (rule graph_accepts) (simp_all add: limit_graph_def limit_frontmatter_def limit_depth_def byte_length_lit)

lemma toy_parse_any:
  "\<exists>p. parse_markdown toy_codec True (lit ''a'') = Inr p \<and> pm_sections p = [] \<and>
     pm_frontmatter p = JObj [(lit ''id'', JStr (lit ''a'')), (lit ''title'', JStr (lit ''a''))]"
  by (simp add: parse_markdown_def toy_codec_def load_frontmatter_def limited_def assert_utf8_limit_def byte_length_lit
      limit_frontmatter_def toy_load_frontmatter starts_with_def Let_def extract_sections_def split_lines_free close_section_def)
    (simp add: lit_def)

lemma obj_order_names: "list_all (\<lambda>(k, _). \<not> index_key k) m \<Longrightarrow> obj_order m = m"
  by (induction m) (auto simp: obj_order_def filter_empty_conv list_all_iff intro: filter_id_conv [THEN iffD2])

lemma index_key_lit: "s \<noteq> [] \<Longrightarrow> \<not> is_digit (of_char (hd s)) \<Longrightarrow> \<not> index_key (lit s)"
  by (cases s) (simp_all add: index_key_def lit_def)

lemma toy_merged:
  "merged_frontmatter (lit ''2026-01-01'') (JObj [(lit ''id'', JStr (lit ''a'')), (lit ''title'', JStr (lit ''a''))]) (up_frontmatter toy_patch) =
     [(lit ''id'', Some (JStr (lit ''a''))), (lit ''title'', Some (JStr (lit ''a''))), (lit ''tags'', Some (JArr [])),
      (lit ''environment'', Some (JObj [])), (lit ''source_session'', None), (lit ''source_project'', None),
      (lit ''created_at'', None), (lit ''updated_at'', Some (JStr (lit ''2026-01-01'')))]"
  by (simp add: merged_frontmatter_def toy_patch_def or_else_def obj_order_names index_key_lit is_digit_def obj_get_def spread_opt_def
      set_all_def defined_members_def List.map_filter_def obj_order_def)

definition toy_members :: "(jstr \<times> json option) list" where
  "toy_members = [(lit ''id'', Some (JStr (lit ''a''))), (lit ''title'', Some (JStr (lit ''a''))), (lit ''tags'', Some (JArr [])),
      (lit ''environment'', Some (JObj [])), (lit ''source_session'', None), (lit ''source_project'', None),
      (lit ''created_at'', None), (lit ''updated_at'', Some (JStr (lit ''2026-01-01'')))]"

lemma toy_order: "obj_order toy_members = toy_members"
  by (rule obj_order_names) (simp add: toy_members_def index_key_lit is_digit_def)

lemma toy_defined: "defined_members toy_members = [(lit ''id'', JStr (lit ''a'')), (lit ''title'', JStr (lit ''a'')), (lit ''tags'', JArr []),
      (lit ''environment'', JObj []), (lit ''updated_at'', JStr (lit ''2026-01-01''))]"
  unfolding defined_members_def toy_order by (simp add: toy_members_def List.map_filter_def)

lemma toy_member_limits:
  "assert_frontmatter_graph (JObj (nullish_members toy_members)) = Inr ()"
  "assert_frontmatter_graph (JObj (defined_members toy_members)) = Inr ()"
proof -
  have "nullish_members toy_members = map (\<lambda>(k, v). (k, or_else v JNull)) toy_members" by (simp add: nullish_members_def toy_order)
  then show "assert_frontmatter_graph (JObj (nullish_members toy_members)) = Inr ()"
    by (intro graph_accepts) (simp_all add: toy_members_def or_else_def limit_graph_def limit_frontmatter_def limit_depth_def byte_length_lit)
  show "assert_frontmatter_graph (JObj (defined_members toy_members)) = Inr ()"
    by (rule graph_accepts) (simp_all add: toy_defined limit_graph_def limit_frontmatter_def limit_depth_def byte_length_lit)
qed

lemma toy_update_build: "\<exists>built. build_entry toy_codec (JObj (defined_members toy_members)) [(lit ''Cause'', [])] = Inr built"
proof -
  have body: "body_text [(lit ''Cause'', [])] = lit ''## '' @ lit ''Cause'' @ [10, 10]"
    by (simp add: body_text_def section_text_def obj_order_names index_key_lit is_digit_def)
  then have "\<forall>c \<in> set (lit ''---'' @ [10] @ lit ''---'' @ [10, 10] @ body_text [(lit ''Cause'', [])] @ [10]). c < 128"
    by (simp add: lit_def)
  moreover have "length (body_text [(lit ''Cause'', [])]) \<le> 100" "body_text [(lit ''Cause'', [])] \<noteq> []" by (simp_all add: body)
  ultimately show ?thesis
    by (simp add: build_entry_def dump_frontmatter_def toy_member_limits limited_def assert_utf8_limit_def toy_codec_def Let_def
        byte_length_ascii limit_frontmatter_def limit_markdown_def)
qed

lemma toy_update: "\<exists>res st'. update_entry toy_env toy_codec toy_binding id (lit ''/e'') (lit ''own'') (lit ''a'') toy_patch toy_edit_store = (Inr res, st')"
proof -
  obtain p where p: "parse_markdown toy_codec True (lit ''a'') = Inr p" "pm_sections p = []"
    "pm_frontmatter p = JObj [(lit ''id'', JStr (lit ''a'')), (lit ''title'', JStr (lit ''a''))]" using toy_parse_any by blast
  obtain built where built: "build_entry toy_codec (JObj (defined_members toy_members)) [(lit ''Cause'', [])] = Inr built"
    using toy_update_build by blast
  have row: "find_row (es_db toy_edit_store) (lit ''own'') (lit ''a'') = Some toy_row"
    by (simp add: toy_edit_store_def find_row_def toy_row_def)
  have raw: "es_files toy_edit_store q = Some (utf8_encode (lit ''a''))" for q by (simp add: toy_edit_store_def)
  have decoded: "utf8_decode (utf8_encode (lit ''a'')) = lit ''a''" by (simp add: utf8_roundtrip_ascii lit_def)
  have merged: "merged_frontmatter (format_ymd (en_now toy_env)) (pm_frontmatter p) (up_frontmatter toy_patch) = toy_members"
    unfolding p(3) toy_texts toy_merged toy_members_def ..
  have sections: "merged_sections id (pm_sections p) (up_sections toy_patch) = [(lit ''Cause'', [])]"
    by (simp add: p(2) merged_sections_def toy_patch_def or_else_def obj_order_names index_key_lit is_digit_def merge_section_def
        obj_order_def obj_set_def)
  have keys: "\<not> list_ex (\<lambda>(k, _). k \<in> set immutable_keys) (or_else (up_frontmatter toy_patch) [])"
    by (simp add: toy_patch_def or_else_def immutable_keys_def)
  have "find_row (es_db toy_edit_store) (lit ''own'') (lit ''a'') = Some toy_row \<Longrightarrow>
      \<exists>db rid. upsert_entry toy_binding (es_db toy_edit_store) (update_row toy_env toy_members (lit ''a'') rel (JArr []) body) = Inr (db, rid)" for rel body
    by (simp add: upsert_entry_def update_row_def toy_defined Let_def obj_get_def toy_binding_def not_null_def write_row_def)
  with row obtain db rid where up:
    "upsert_entry toy_binding (es_db toy_edit_store) (update_row toy_env toy_members (lit ''a'') (r_path toy_row) (JArr []) (be_body built)) = Inr (db, rid)"
    by blast
  have refuses: "\<not> en_refuses toy_env q" for q by (simp add: toy_env_def)
  have object: "pm_frontmatter p \<noteq> JNull" by (simp add: p(3))
  have tags: "obj_get (defined_members toy_members) ''tags'' = Some (JArr [])" by (simp add: toy_defined obj_get_def)
  show ?thesis
    unfolding update_entry_def row Let_def raw decoded p(1)
    by (simp add: row raw decoded p(1) keys merged sections write_update_def toy_member_limits limited_def built tags store_entry_def
        write_entry_file_def refuses up object)
qed


end
