(* ===== verification/EntryRead.thy ===== *)
theory EntryRead
  imports Entries SealedBundle
begin

unbundle bit_operations_syntax

text \<open>
  Reading one document, \<open>packages/core/src/entryRead.ts\<close>: the file behind an entry's path
  (\<open>entryFilePath\<close>), the document or, where it exceeds the limits, a range of its bytes cut at
  UTF-8 boundaries (\<open>readEntryDocument\<close>). The file system is a map from paths to bytes together
  with \<open>realpathSync\<close>; the content keys and the cryptography of a sealed bundle are arguments.
  Lemmas: the path returned lies inside the source's directory, and reading a UTF-8 file range by
  range ends and gives every byte once.
\<close>

subsection \<open>The file of an entry\<close>

definition community_handle :: "jstr \<Rightarrow> jstr option" where
  "community_handle source =
     (let h = drop (length (lit ''community/'')) source in
      if starts_with (lit ''community/'') source \<and> h \<noteq> [] \<and> 47 \<notin> set h \<and> 92 \<notin> set h then Some h else None)"

definition plain_handle :: "jstr option \<Rightarrow> bool" where
  "plain_handle h \<longleftrightarrow> (case h of None \<Rightarrow> False | Some x \<Rightarrow> x \<noteq> lit ''.'' \<and> x \<noteq> lit ''..'')"

text \<open>\<open>split(/[\\/]/)\<close>.\<close>

definition path_pieces :: "jstr \<Rightarrow> jstr list" where
  "path_pieces p = split_on 47 (map (\<lambda>c. if c = 92 then 47 else c) p)"

definition is_absolute :: "jstr \<Rightarrow> bool" where
  "is_absolute p \<longleftrightarrow> starts_with (lit ''/'') p"

definition bad_entry_path :: "jstr \<Rightarrow> bool" where
  "bad_entry_path p \<longleftrightarrow> is_absolute p \<or> lit ''..'' \<in> set (path_pieces p) \<or> \<not> ends_with (lit ''.md'') p"

text \<open>\<open>path.posix.relative\<close> of two absolute paths without dot segments, as \<open>realpathSync\<close> gives them.\<close>

definition segments :: "jstr \<Rightarrow> jstr list" where
  "segments p = filter (\<lambda>x. x \<noteq> []) (split_on 47 p)"

fun relative_segments :: "jstr list \<Rightarrow> jstr list \<Rightarrow> jstr list" where
  "relative_segments (a # as) (b # bs) = (if a = b then relative_segments as bs else replicate (Suc (length as)) (lit ''..'') @ b # bs)"
| "relative_segments as bs = replicate (length as) (lit ''..'') @ bs"

definition relative_path :: "jstr \<Rightarrow> jstr \<Rightarrow> jstr" where
  "relative_path from' to' = join [47] (relative_segments (segments from') (segments to'))"

definition escapes :: "jstr \<Rightarrow> bool" where
  "escapes rel \<longleftrightarrow> rel = lit ''..'' \<or> starts_with (lit ''../'') rel \<or> starts_with (lit ''..'' @ [92]) rel \<or> is_absolute rel"

definition other_error :: "string \<Rightarrow> entry_error" where
  "other_error m = Other_entry_error (lit m)"

definition entry_file_path :: "(jstr \<Rightarrow> jstr option) \<Rightarrow> jstr \<Rightarrow> jstr \<Rightarrow> jstr \<Rightarrow> jstr \<Rightarrow> entry_error + jstr" where
  "entry_file_path real entriesDir communityDir source entryPath =
     (let handle = community_handle source in
      if source \<noteq> lit ''own'' \<and> \<not> plain_handle handle then Inl (other_error ''invalid entry source'')
      else
        (let root = (if source = lit ''own'' then entriesDir
               else path_join (path_join communityDir (the handle)) (lit ''entries'')) in
         if bad_entry_path entryPath then Inl (other_error ''invalid entry path'')
         else
           (let target = path_join root entryPath in
            case (real root, real target) of
              (Some r, Some t) \<Rightarrow>
                (if escapes (relative_path r t) then Inl (other_error ''entry path escapes source'') else Inr target)
            | _ \<Rightarrow> Inl (other_error ''ENOENT''))))"

subsection \<open>A range of bytes\<close>

datatype encoding = Utf8 | Base64

record raw_range =
  rg_encoding :: encoding
  rg_content :: jstr
  rg_offset :: nat
  rg_length :: nat
  rg_total :: nat
  rg_next :: "nat option"

definition max_safe :: int where "max_safe = 2 ^ 53 - 1"

definition cont_at :: "bytes \<Rightarrow> nat \<Rightarrow> bool" where
  "cont_at b i \<longleftrightarrow> b ! i AND 0xC0 = 0x80"

text \<open>The loop that gives back the bytes of an unfinished character.\<close>

fun back_off :: "bytes \<Rightarrow> nat \<Rightarrow> nat" where
  "back_off b n = (if 0 < n \<and> n < length b \<and> cont_at b n then back_off b (n - 1) else n)"

declare back_off.simps [simp del]

text \<open>
  A decoder that throws on malformed input, and leaves a byte order mark out. Bytes are
  well-formed exactly if encoding what they decode to gives them back.
\<close>

definition strict_utf8 :: "bytes \<Rightarrow> jstr option" where
  "strict_utf8 b =
     (let cps = utf8_dec (map unat b) in
      if concat (map utf8_cp cps) = map unat b
      then Some (let s = concat (map utf16_cp cps) in if s \<noteq> [] \<and> hd s = 65279 then tl s else s) else None)"

definition read_range :: "bytes \<Rightarrow> int \<Rightarrow> int \<Rightarrow> entry_error + raw_range" where
  "read_range file offset limit =
     (if \<bar>offset\<bar> > max_safe \<or> offset < 0 \<or> offset > int (length file) \<or> \<bar>limit\<bar> > max_safe \<or> limit < 4 \<or> limit > 64 * 1024
      then Inl (other_error ''raw entry range: offset must be within file, limit must be 4..65536 bytes'')
      else
        (let o' = nat offset; buffer = take (nat limit + 4) (drop o' file); count = length buffer in
         if count \<noteq> 0 \<and> cont_at buffer 0 then Inl (other_error ''raw entry offset must be a UTF-8 boundary'')
         else
           (let n = back_off buffer (min count (nat limit)); bytes = take n buffer in
            Inr \<lparr>rg_encoding = (if strict_utf8 bytes = None then Base64 else Utf8),
               rg_content = (case strict_utf8 bytes of None \<Rightarrow> base64_encode bytes | Some s \<Rightarrow> s),
               rg_offset = o', rg_length = n, rg_total = length file,
               rg_next = (if o' + n < length file then Some (o' + n) else None)\<rparr>)))"

subsection \<open>The document\<close>

record read_env =
  rv_entries :: jstr
  rv_community :: jstr
  rv_files :: "jstr \<rightharpoonup> bytes"
  rv_real :: "jstr \<Rightarrow> jstr option"
  rv_sha :: "bytes \<Rightarrow> jstr"
  rv_now :: jstr
  rv_home :: bool
  rv_saved :: "jstr option"
  rv_crypto :: crypto
  rv_keys :: "(jstr \<Rightarrow> jstr \<Rightarrow> entry_error + bytes) option"

record read_options =
  ro_id :: "jstr option"
  ro_source :: "jstr option"
  ro_path :: "jstr option"
  ro_offset :: "int option"
  ro_limit :: "int option"

datatype read_result =
    Indexed get_result "json list"
  | Document "json option" jstr jstr parsed_markdown
  | Raw jstr jstr read_diagnostic raw_range

text \<open>\<open>readEntryIndexDiagnostics\<close>: the saved file, if there is one, is an object with a list.\<close>

definition read_index_diagnostics :: "jstr option \<Rightarrow> entry_error + json list" where
  "read_index_diagnostics saved =
     (case saved of
        None \<Rightarrow> Inr []
      | Some t \<Rightarrow> (case json_parse t of
          None \<Rightarrow> Inl (other_error ''SyntaxError'')
        | Some j \<Rightarrow> (case get_member j ''diagnostics'' of Some (JArr ds) \<Rightarrow> Inr ds | _ \<Rightarrow> Inl (other_error ''TypeError''))))"

definition diagnostics_for :: "read_env \<Rightarrow> jstr \<Rightarrow> jstr \<Rightarrow> entry_error + json list" where
  "diagnostics_for env source rel =
     (if rv_home env
      then try_then (read_index_diagnostics (rv_saved env)) (\<lambda>ds.
        if JNull \<in> set ds then Inl (other_error ''TypeError'')
        else Inr (filter (\<lambda>d. get_member d ''source'' = Some (JStr source) \<and> get_member d ''path'' = Some (JStr rel)) ds))
      else Inr [])"

definition sealed_file :: "read_env \<Rightarrow> bytes \<Rightarrow> jstr \<Rightarrow> (jstr \<Rightarrow> jstr \<Rightarrow> entry_error + bytes) \<Rightarrow> entry_error + bytes option" where
  "sealed_file env bundle rel keys =
     (case read_sealed_header bundle of
        Inl e \<Rightarrow> Inl (other_error ''sealed bundle'')
      | Inr (h, _, _) \<Rightarrow>
          try_then (keys (h_keyId h) (h_keyserverUrl h)) (\<lambda>key.
          (case unseal_bundle (rv_crypto env) bundle key of
             Inl e \<Rightarrow> Inl (other_error ''sealed bundle'')
           | Inr (_, files) \<Rightarrow> Inr (map_option b_content (find (\<lambda>f. b_relPath f = rel) files)))))"

text \<open>From the bytes of the document on.\<close>

definition document_of ::
  "read_env \<Rightarrow> entry_codec \<Rightarrow> entry_db \<Rightarrow> read_options \<Rightarrow> jstr \<Rightarrow> jstr \<Rightarrow> get_result option \<Rightarrow> bytes \<Rightarrow> entry_error + read_result" where
  "document_of env co db opts source rel cached bytes =
     (let diagnose = (\<lambda>c. constraint_diagnostic db source rel (rv_sha env bytes) c (rv_now env));
          raw = (\<lambda>c. try_then (read_range bytes (or_else (ro_offset opts) 0) (or_else (ro_limit opts) (64 * 1024)))
             (\<lambda>rg. Inr (Raw source rel (diagnose c) rg))) in
      if length bytes > limit_markdown then raw (exceeded (lit ''entry_markdown'') limit_markdown (length bytes) Utf8_bytes False)
      else
        (case parse_markdown co False (utf8_decode bytes) of
           Inl (Constraint c) \<Rightarrow> raw c
         | Inl e \<Rightarrow> Inl e
         | Inr parsed \<Rightarrow>
             (case cached of
                Some g \<Rightarrow>
                  (if ro_path opts = None then Inr (Indexed g [])
                   else Inr (Document (get_member (pm_frontmatter parsed) ''id'') source rel parsed))
              | None \<Rightarrow> Inr (Document (get_member (pm_frontmatter parsed) ''id'') source rel parsed))))"

definition read_entry_document :: "read_env \<Rightarrow> entry_codec \<Rightarrow> entry_db \<Rightarrow> read_options \<Rightarrow> entry_error + read_result option" where
  "read_entry_document env co db opts =
     (let source = or_else (ro_source opts) (lit ''own'') in
      try_then (case ro_id opts of None \<Rightarrow> Inr None | Some i \<Rightarrow> if i = [] then Inr None else get_entry db i source) (\<lambda>cached.
      let rel = (case ro_path opts of Some p \<Rightarrow> p | None \<Rightarrow> (case cached of None \<Rightarrow> [] | Some g \<Rightarrow> gr_path g));
          handle = community_handle source;
          bundlePath = path_join (path_join (path_join (rv_community env) (the handle)) (lit ''bundle'')) (lit ''entries.caveat'') in
      if rel = [] then Inr None
      else
        (case (if plain_handle handle then rv_files env bundlePath else None) of
           Some bundle \<Rightarrow>
             (case (cached, ro_path opts) of
                (Some g, None) \<Rightarrow> try_then (diagnostics_for env source rel) (\<lambda>ds. Inr (Some (Indexed g ds)))
              | _ \<Rightarrow>
                  (if bad_entry_path rel then Inl (other_error ''invalid entry path'')
                   else (case rv_keys env of
                       None \<Rightarrow> (case cached of Some g \<Rightarrow> Inr (Some (Indexed g []))
                         | None \<Rightarrow> Inl (other_error ''sealed entry raw reading requires its existing content key''))
                     | Some keys \<Rightarrow>
                         try_then (sealed_file env bundle rel keys) (\<lambda>content.
                         case content of
                           None \<Rightarrow> Inr None
                         | Some bytes \<Rightarrow> try_then (document_of env co db opts source rel cached bytes) (\<lambda>r. Inr (Some r))))))
         | None \<Rightarrow>
             try_then (entry_file_path (rv_real env) (rv_entries env) (rv_community env) source rel) (\<lambda>file.
             (case rv_files env file of
                None \<Rightarrow> Inl (other_error ''ENOENT'')
              | Some bytes \<Rightarrow> try_then (document_of env co db opts source rel cached bytes) (\<lambda>r. Inr (Some r)))))))"


subsection \<open>Ranges are cut between characters\<close>

lemma cont_table: "\<forall>n \<in> set [0..<256]. ((of_nat n :: 8 word) AND 0xC0 = 0x80) = is_cont n"
  by code_simp

lemma cont_byte: "(b :: byte) AND 0xC0 = 0x80 \<longleftrightarrow> is_cont (unat b)"
proof -
  have "unat b \<in> set [0..<256]" using unat_byte_lt [of b] by simp
  from cont_table [THEN bspec, OF this] show ?thesis by simp
qed

definition enc :: "nat list \<Rightarrow> nat list" where
  "enc cps = concat (map utf8_cp cps)"

lemma utf8_cp_shape: "\<exists>b cs. utf8_cp c = b # cs \<and> \<not> is_cont b \<and> (\<forall>x \<in> set cs. is_cont x) \<and> length cs \<le> 3"
  by (auto simp: utf8_cp_def Let_def is_cont_def)

lemma enc_append [simp]: "enc (a @ b) = enc a @ enc b" "enc [] = []" "enc (c # cs) = utf8_cp c @ enc cs"
  by (simp_all add: enc_def)

text \<open>A place in an encoded text where no character is cut.\<close>

definition boundary :: "nat list \<Rightarrow> nat \<Rightarrow> bool" where
  "boundary bs i \<longleftrightarrow> i \<le> length bs \<and> (i < length bs \<longrightarrow> \<not> is_cont (bs ! i))"

lemma boundary_split: "boundary (enc cs) i \<Longrightarrow> \<exists>k. i = length (enc (take k cs))"
proof (induction cs arbitrary: i)
  case (Cons c cs)
  obtain b xs where c: "utf8_cp c = b # xs" "\<forall>x \<in> set xs. is_cont x" using utf8_cp_shape by blast
  show ?case
  proof (cases "i < length (utf8_cp c)")
    case True
    have "i = 0"
    proof (rule ccontr)
      assume "i \<noteq> 0"
      then have "(enc (c # cs)) ! i = xs ! (i - 1)" "i - 1 < length xs" using True c(1) by (auto simp: nth_append nth_Cons')
      then have "is_cont (enc (c # cs) ! i)" using c(2) by simp
      moreover have "i < length (enc (c # cs))" using True by simp
      ultimately show False using Cons.prems by (simp add: boundary_def)
    qed
    then show ?thesis by (intro exI [of _ 0]) simp
  next
    case False
    then have "boundary (enc cs) (i - length (utf8_cp c))"
      using Cons.prems by (auto simp: boundary_def nth_append)
    from Cons.IH [OF this] obtain k where "i - length (utf8_cp c) = length (enc (take k cs))" by blast
    with False show ?thesis by (intro exI [of _ "Suc k"]) simp
  qed
qed (simp add: boundary_def)

lemma boundary_parts:
  assumes "boundary (enc cs) i"
  shows "\<exists>k. take i (enc cs) = enc (take k cs) \<and> drop i (enc cs) = enc (drop k cs)"
proof -
  obtain k where k: "i = length (enc (take k cs))" using boundary_split [OF assms] by blast
  have "enc cs = enc (take k cs) @ enc (drop k cs)" by (simp flip: enc_append(1))
  then show ?thesis using k by (metis append_eq_conv_conj)
qed

lemma back_off_spec:
  "back_off b n \<le> n \<and> (0 < back_off b n \<and> back_off b n < length b \<longrightarrow> \<not> cont_at b (back_off b n)) \<and>
     (\<forall>j \<le> n. j < length b \<and> \<not> cont_at b j \<longrightarrow> j \<le> back_off b n) \<and> (length b \<le> n \<longrightarrow> back_off b n = n)"
proof (induction b n rule: back_off.induct)
  case (1 b n)
  show ?case
  proof (cases "0 < n \<and> n < length b \<and> cont_at b n")
    case True
    then have "back_off b n = back_off b (n - 1)" by (simp add: back_off.simps [of b n])
    moreover have "j \<le> n - 1" if "j \<le> n" "\<not> cont_at b j" for j using that True by (cases "j = n") auto
    ultimately show ?thesis using 1 [OF True] True by auto
  next
    case False
    have "back_off b n = n" unfolding back_off.simps [of b n] using False by (rule if_not_P)
    with False show ?thesis by auto
  qed
qed

lemma strict_utf8_enc:
  assumes "\<forall>c \<in> set cs. scalar c"
  shows "\<exists>s. strict_utf8 (map byte_of (enc cs)) = Some s \<and> (65279 \<notin> set cs \<longrightarrow> s = concat (map utf16_cp cs))"
proof -
  have "\<forall>n \<in> set (enc cs). n < 256" using assms utf8_cp_bytes by (fastforce simp: enc_def scalar_def)
  then have u: "map unat (map byte_of (enc cs)) = enc cs" by (rule map_unat_byte_of)
  have d: "utf8_dec (enc cs) = cs" using utf8_dec_cps [OF assms] by (simp add: enc_def)
  let ?s = "concat (map utf16_cp cs)"
  have "hd ?s \<noteq> 65279" if "65279 \<notin> set cs" "cs \<noteq> []"
    using that assms by (cases cs) (auto simp: utf16_cp_def scalar_def)
  moreover have "strict_utf8 (map byte_of (enc cs)) = Some (if ?s \<noteq> [] \<and> hd ?s = 65279 then tl ?s else ?s)"
    unfolding strict_utf8_def u d Let_def by (simp flip: enc_def)
  ultimately show ?thesis by (cases "cs = []") auto
qed

text \<open>One range of an encoded text, from a boundary: it succeeds, is text, makes progress and ends at a boundary.\<close>

lemma enc_bytes: "text_ok t \<Longrightarrow> map unat (utf8_encode t) = enc (code_points t)"
proof -
  assume t: "text_ok t"
  then have "\<forall>n \<in> set (enc (code_points t)). n < 256"
    using code_points_bound utf8_cp_bytes by (fastforce simp: enc_def text_ok_def)
  then show ?thesis unfolding utf8_encode_def enc_def [symmetric] by (rule map_unat_byte_of)
qed

lemma cont_at_enc: "i < length b \<Longrightarrow> cont_at b i \<longleftrightarrow> is_cont (map unat b ! i)"
  by (simp add: cont_at_def cont_byte)

lemma boundary_drop:
  "boundary bs i \<Longrightarrow> boundary (drop i bs) n \<longleftrightarrow> boundary bs (i + n)"
  by (auto simp: boundary_def)

lemma first_boundary: "cs \<noteq> [] \<Longrightarrow> \<exists>l. 0 < l \<and> l \<le> 4 \<and> boundary (enc cs) l"
proof -
  assume "cs \<noteq> []"
  then obtain c ds where cs: "cs = c # ds" by (cases cs) auto
  obtain b xs where c: "utf8_cp c = b # xs" "length xs \<le> 3" using utf8_cp_shape by blast
  have "\<not> is_cont (enc ds ! 0)" if "enc ds \<noteq> []"
  proof -
    from that obtain d es where ds: "ds = d # es" by (cases ds) auto
    obtain b' ys where "utf8_cp d = b' # ys" "\<not> is_cont b'" using utf8_cp_shape by blast
    then show ?thesis by (simp add: ds)
  qed
  then have "boundary (enc cs) (length (utf8_cp c))"
    by (auto simp: boundary_def cs nth_append)
  with c show ?thesis by (intro exI [of _ "length (utf8_cp c)"]) simp
qed

lemma read_range_text:
  assumes t: "text_ok t" and off: "boundary (map unat (utf8_encode t)) off"
    and size: "int (length (utf8_encode t)) \<le> max_safe" and limit: "4 \<le> limit" "limit \<le> 65536"
  shows "\<exists>rg k k'. read_range (utf8_encode t) (int off) limit = Inr rg \<and> rg_encoding rg = Utf8 \<and> rg_offset rg = off \<and>
    (off < length (utf8_encode t) \<longrightarrow> 0 < rg_length rg) \<and> int (rg_length rg) \<le> limit \<and>
    boundary (map unat (utf8_encode t)) (off + rg_length rg) \<and>
    rg_next rg = (if off + rg_length rg < length (utf8_encode t) then Some (off + rg_length rg) else None) \<and>
    map unat (take (rg_length rg) (drop off (utf8_encode t))) = enc (take k' (drop k (code_points t))) \<and>
    (65279 \<notin> set (code_points t) \<longrightarrow> rg_content rg = concat (map utf16_cp (take k' (drop k (code_points t)))))"
proof -
  let ?f = "utf8_encode t" and ?cs = "code_points t"
  define buf where "buf = take (nat limit + 4) (drop off ?f)"
  define n where "n = back_off buf (min (length buf) (nat limit))"
  note e = enc_bytes [OF t]
  have le: "off \<le> length ?f" using off by (simp add: boundary_def)
  obtain k where k: "drop off (enc ?cs) = enc (drop k ?cs)" using boundary_parts [of ?cs off] off unfolding e by blast
  have rest: "map unat (drop off ?f) = enc (drop k ?cs)" using k by (simp add: e flip: drop_map)
  have at_buf: "i < length buf \<Longrightarrow> cont_at buf i \<longleftrightarrow> is_cont (enc (drop k ?cs) ! i)" for i
    using cont_at_enc [of i buf] by (simp add: buf_def flip: rest)
  have len: "length buf = min (nat limit + 4) (length (enc (drop k ?cs)))"
    using arg_cong [OF rest, of length] by (simp add: buf_def)
  note spec = back_off_spec [of buf "min (length buf) (nat limit)", folded n_def]
  have bo: "n \<le> length buf" "n \<le> nat limit" "0 < n \<Longrightarrow> n < length buf \<Longrightarrow> \<not> cont_at buf n"
    "j \<le> min (length buf) (nat limit) \<Longrightarrow> j < length buf \<Longrightarrow> \<not> cont_at buf j \<Longrightarrow> j \<le> n"
    "length buf \<le> nat limit \<Longrightarrow> n = length buf" for j
    using spec by (auto simp: min_def split: if_splits)
  have start: "\<not> cont_at buf 0" if "length buf \<noteq> 0"
    using off that le by (auto simp: buf_def boundary_def cont_at_def cont_byte)
  have progress: "0 < n" if "off < length ?f"
  proof -
    have "drop k ?cs \<noteq> []"
    proof
      assume "drop k ?cs = []"
      then have "drop off ?f = []" using rest by (simp only: enc_append(2) map_is_Nil_conv)
      with that show False by simp
    qed
    from first_boundary [OF this] obtain l where l: "0 < l" "l \<le> 4" "boundary (enc (drop k ?cs)) l" by blast
    show ?thesis
    proof (cases "l < length buf")
      case True
      have "\<not> cont_at buf l" using at_buf [OF True] l(3) True len by (auto simp: boundary_def)
      moreover have "l \<le> min (length buf) (nat limit)" using True l(2) limit by linarith
      ultimately have "l \<le> n" using bo(4) True by blast
      with l(1) show ?thesis by simp
    next
      case False
      then have "length buf \<le> nat limit" using l(2) limit by linarith
      then have n: "n = length buf" by (rule bo(5))
      have "length buf = length (enc (drop k ?cs))" using \<open>length buf \<le> nat limit\<close> limit unfolding len by linarith
      with l(1,3) n show ?thesis by (auto simp: boundary_def)
    qed
  qed
  have bound: "boundary (enc (drop k ?cs)) n"
  proof -
    note bo(1)
    also have "length buf \<le> length (enc (drop k ?cs))" unfolding len by simp
    finally have "n \<le> length (enc (drop k ?cs))" .
    moreover have "\<not> is_cont (enc (drop k ?cs) ! n)" if n: "n < length (enc (drop k ?cs))"
    proof (cases "n < length buf")
      case True
      then show ?thesis using bo(3) start at_buf [OF True] by (cases "n = 0") auto
    next
      case False
      then have "nat limit + 4 \<le> n" using len n by auto
      moreover note bo(2)
      ultimately show ?thesis by simp
    qed
    ultimately show ?thesis by (simp add: boundary_def)
  qed
  have next_bound: "boundary (map unat ?f) (off + n)"
    using boundary_drop [OF off, of n] bound by (simp add: drop_map rest)
  obtain k' where k': "take n (enc (drop k ?cs)) = enc (take k' (drop k ?cs))" using boundary_parts [OF bound] by blast
  have bytes: "take n buf = take n (drop off ?f)" using bo(2) by (simp add: buf_def)
  have piece: "map unat (take n buf) = enc (take k' (drop k ?cs))"
    unfolding bytes take_map [symmetric] rest k' ..
  then have "take n buf = map byte_of (enc (take k' (drop k ?cs)))"
    by (simp add: o_def flip: piece)
  moreover have "\<forall>c \<in> set (take k' (drop k ?cs)). scalar c"
    using t code_points_scalar [of t] by (auto simp: text_ok_def dest!: in_set_takeD in_set_dropD)
  ultimately obtain s where s: "strict_utf8 (take n buf) = Some s"
    "65279 \<notin> set (take k' (drop k ?cs)) \<longrightarrow> s = concat (map utf16_cp (take k' (drop k ?cs)))"
    using strict_utf8_enc [of "take k' (drop k ?cs)"] by auto
  define rg where "rg = \<lparr>rg_encoding = Utf8, rg_content = s, rg_offset = off, rg_length = n, rg_total = length ?f,
     rg_next = (if off + n < length ?f then Some (off + n) else None)\<rparr>"
  have "read_range ?f (int off) limit = Inr rg"
    using le size limit start s(1)
    unfolding read_range_def Let_def nat_int buf_def [symmetric] n_def [symmetric] by (cases "buf = []") (simp_all add: rg_def max_safe_def)
  moreover have "65279 \<notin> set ?cs \<Longrightarrow> 65279 \<notin> set (take k' (drop k ?cs))" by (auto dest!: in_set_takeD in_set_dropD)
  ultimately show ?thesis
    using progress next_bound piece s(2) bo(2) limit
    by (intro exI [of _ rg] exI [of _ k] exI [of _ k']) (auto simp: rg_def bytes)
qed

text \<open>A reader that goes on where the last range ended; \<open>fuel\<close> bounds the ranges, None is an error or no end.\<close>

fun read_on :: "nat \<Rightarrow> bytes \<Rightarrow> int \<Rightarrow> nat \<Rightarrow> raw_range list option" where
  "read_on 0 file limit off = None"
| "read_on (Suc fuel) file limit off =
     (case read_range file (int off) limit of
        Inl e \<Rightarrow> None
      | Inr rg \<Rightarrow> (case rg_next rg of None \<Rightarrow> Some [rg] | Some off' \<Rightarrow> map_option ((#) rg) (read_on fuel file limit off')))"

definition range_bytes :: "bytes \<Rightarrow> raw_range \<Rightarrow> bytes" where
  "range_bytes file rg = take (rg_length rg) (drop (rg_offset rg) file)"

definition reads_rest :: "jstr \<Rightarrow> int \<Rightarrow> nat \<Rightarrow> raw_range list \<Rightarrow> nat list \<Rightarrow> bool" where
  "reads_rest t limit off rgs p \<longleftrightarrow> (\<forall>rg \<in> set rgs. rg_encoding rg = Utf8 \<and> int (rg_length rg) \<le> limit) \<and>
     concat (map (range_bytes (utf8_encode t)) rgs) = drop off (utf8_encode t) \<and>
     enc p = map unat (drop off (utf8_encode t)) \<and> set p \<subseteq> set (code_points t) \<and>
     (65279 \<notin> set (code_points t) \<longrightarrow> concat (map rg_content rgs) = concat (map utf16_cp p))"

lemma read_on_text:
  assumes t: "text_ok t" and size: "int (length (utf8_encode t)) \<le> max_safe" and limit: "4 \<le> limit" "limit \<le> 65536"
  shows "boundary (map unat (utf8_encode t)) off \<Longrightarrow> length (utf8_encode t) - off < fuel \<Longrightarrow>
     \<exists>rgs p. read_on fuel (utf8_encode t) limit off = Some rgs \<and> reads_rest t limit off rgs p"
proof (induction fuel arbitrary: off)
  case (Suc fuel)
  from read_range_text [OF t Suc.prems(1) size limit] obtain rg k k' where
    rg: "read_range (utf8_encode t) (int off) limit = Inr rg" "rg_encoding rg = Utf8" "rg_offset rg = off" "int (rg_length rg) \<le> limit"
    and progress: "off < length (utf8_encode t) \<longrightarrow> 0 < rg_length rg"
    and bound: "boundary (map unat (utf8_encode t)) (off + rg_length rg)"
    and nxt: "rg_next rg = (if off + rg_length rg < length (utf8_encode t) then Some (off + rg_length rg) else None)"
    and piece: "map unat (take (rg_length rg) (drop off (utf8_encode t))) = enc (take k' (drop k (code_points t)))"
    and content: "65279 \<notin> set (code_points t) \<longrightarrow> rg_content rg = concat (map utf16_cp (take k' (drop k (code_points t))))"
    by blast
  let ?p = "take k' (drop k (code_points t))"
  have sub: "set ?p \<subseteq> set (code_points t)" by (auto dest!: in_set_takeD in_set_dropD)
  show ?case
  proof (cases "off + rg_length rg < length (utf8_encode t)")
    case False
    then have all: "take (rg_length rg) (drop off (utf8_encode t)) = drop off (utf8_encode t)" by simp
    have "reads_rest t limit off [rg] ?p"
      using rg content sub piece all by (simp add: reads_rest_def range_bytes_def)
    with rg nxt False show ?thesis by (intro exI [of _ "[rg]"] exI [of _ ?p]) simp
  next
    case True
    then have "length (utf8_encode t) - (off + rg_length rg) < fuel" using Suc.prems(2) progress by linarith
    from Suc.IH [OF bound this] obtain rgs p where
      r: "read_on fuel (utf8_encode t) limit (off + rg_length rg) = Some rgs" "reads_rest t limit (off + rg_length rg) rgs p" by blast
    have split: "drop off (utf8_encode t) = take (rg_length rg) (drop off (utf8_encode t)) @ drop (off + rg_length rg) (utf8_encode t)"
      by (metis append_take_drop_id drop_drop add.commute)
    have join: "enc (?p @ p) = map unat (drop off (utf8_encode t))"
      using r(2) piece by (subst split) (simp add: reads_rest_def)
    have parts: "concat (map (range_bytes (utf8_encode t)) (rg # rgs)) = drop off (utf8_encode t)"
      using r(2) rg(3) by (subst split) (simp add: reads_rest_def range_bytes_def)
    have "reads_rest t limit off (rg # rgs) (?p @ p)"
      using rg content sub r(2) join parts unfolding reads_rest_def by auto
    with rg nxt True r(1) show ?thesis by (intro exI [of _ "rg # rgs"] exI [of _ "?p @ p"]) simp
  qed
qed simp

lemma boundary_start: "boundary (enc cs) 0"
proof (cases cs)
  case (Cons c ds)
  obtain b xs where "utf8_cp c = b # xs" "\<not> is_cont b" using utf8_cp_shape by blast
  then show ?thesis by (simp add: Cons boundary_def)
qed (simp add: boundary_def)

lemma enc_inj: "\<forall>c \<in> set p. scalar c \<Longrightarrow> \<forall>c \<in> set q. scalar c \<Longrightarrow> enc p = enc q \<Longrightarrow> p = q"
  unfolding enc_def by (metis utf8_dec_cps)

text \<open>
  C28: Reading a UTF-8 file range by range, each from where the last ended, ends after at most one
  range more than the file has bytes; every range is text of at most the limit, the ranges together
  are the file, each byte once, and (if it holds no byte order mark) their texts are its text.
\<close>

theorem ranges_cover_the_file:
  assumes "text_ok t" and "int (length (utf8_encode t)) \<le> max_safe" and "4 \<le> limit" and "limit \<le> 65536"
  shows "\<exists>rgs. read_on (Suc (length (utf8_encode t))) (utf8_encode t) limit 0 = Some rgs \<and>
    (\<forall>rg \<in> set rgs. rg_encoding rg = Utf8 \<and> int (rg_length rg) \<le> limit) \<and>
    concat (map (range_bytes (utf8_encode t)) rgs) = utf8_encode t \<and>
    (65279 \<notin> set (code_points t) \<longrightarrow> concat (map rg_content rgs) = t)"
proof -
  have b: "boundary (map unat (utf8_encode t)) 0" unfolding enc_bytes [OF assms(1)] by (rule boundary_start)
  have l: "length (utf8_encode t) - 0 < Suc (length (utf8_encode t))" by simp
  obtain rgs p where
    r: "read_on (Suc (length (utf8_encode t))) (utf8_encode t) limit 0 = Some rgs" and rest: "reads_rest t limit 0 rgs p"
    using read_on_text [OF assms b l] by (elim exE conjE)
  have scalars: "\<forall>c \<in> set (code_points t). scalar c"
    using assms(1) code_points_scalar [of t] unfolding text_ok_def by blast
  have p: "set p \<subseteq> set (code_points t)" "enc p = enc (code_points t)"
    using rest enc_bytes [OF assms(1)] by (simp_all add: reads_rest_def)
  have "p = code_points t" by (rule enc_inj [OF _ scalars p(2)]) (use scalars p(1) in blast)
  moreover have "concat (map utf16_cp (code_points t)) = t"
    using assms(1) by (simp add: utf16_code_points text_ok_def)
  ultimately have "(\<forall>rg \<in> set rgs. rg_encoding rg = Utf8 \<and> int (rg_length rg) \<le> limit) \<and>
    concat (map (range_bytes (utf8_encode t)) rgs) = utf8_encode t \<and>
    (65279 \<notin> set (code_points t) \<longrightarrow> concat (map rg_content rgs) = t)"
    using rest by (simp add: reads_rest_def)
  with r show ?thesis by blast
qed

lemma byte_e_acute: "utf8_encode [233, 97] = map byte_of [195, 169, 97]"
  by (simp add: utf8_encode_def utf8_cp_def is_high_def)

theorem ranges_cover_the_file_witness:
  "\<exists>rgs. read_on 4 (utf8_encode [233, 97]) 4 0 = Some rgs \<and> concat (map rg_content rgs) = [233, 97]"
proof -
  have t: "text_ok [233, 97]" by (simp add: text_ok_def units_def is_high_def is_low_def)
  have len: "length (utf8_encode [233, 97]) = 3" by (simp add: byte_e_acute)
  have "int (length (utf8_encode [233, 97])) \<le> max_safe" by (simp add: len max_safe_def)
  from ranges_cover_the_file [OF t this, of 4] obtain rgs where
    r: "read_on (Suc 3) (utf8_encode [233, 97]) 4 0 = Some rgs" "65279 \<notin> set (code_points [233, 97]) \<longrightarrow> concat (map rg_content rgs) = [233, 97]"
    unfolding len by auto
  have "Suc 3 = (4 :: nat)" by simp
  with r show ?thesis by (intro exI [of _ rgs]) (simp add: is_high_def del: read_on.simps)
qed

text \<open>A file that is not UTF-8 can hold a reader: the range is empty and the next one begins at the same place.\<close>

lemma malformed_range_stands_still:
  "\<exists>rg. read_range [97, 128, 128, 128, 128] 0 4 = Inr rg \<and> rg_length rg = 0 \<and> rg_next rg = Some 0"
proof -
  let ?b = "[97, 128, 128, 128, 128] :: bytes"
  have c: "cont_at ?b 1" "cont_at ?b 2" "cont_at ?b 3" "cont_at ?b 4" "\<not> cont_at ?b 0"
    by (simp_all add: cont_at_def)
  have "back_off ?b 4 = back_off ?b 3" "back_off ?b 3 = back_off ?b 2" "back_off ?b 2 = back_off ?b 1"
    using c by (simp_all add: back_off.simps [of ?b 4] back_off.simps [of ?b 3] back_off.simps [of ?b 2])
  moreover have "back_off ?b 1 = back_off ?b 0" using c(1) by (subst back_off.simps) simp
  moreover have "back_off ?b 0 = 0" by (simp add: back_off.simps [of ?b 0])
  ultimately have "back_off ?b 4 = 0" by simp
  moreover have four: "4 = Suc (Suc (Suc (Suc (0 :: nat))))" by simp
  ultimately have "back_off ?b (Suc (Suc (Suc (Suc 0)))) = 0" by (simp only: four)
  with c(5) show ?thesis by (simp add: read_range_def max_safe_def Let_def)
qed

subsection \<open>The path lies inside the source\<close>

lemma relative_prefix:
  "relative_segments as bs = drop (length as) bs \<and> take (length as) bs = as \<or> (\<exists>rest. relative_segments as bs = lit ''..'' # rest)"
proof (induction as arbitrary: bs)
  case (Cons a as)
  then show ?case by (cases bs) auto
qed (cases bs; simp)

lemma not_escaping:
  assumes "\<not> escapes (relative_path r t)"
  shows "take (length (segments r)) (segments t) = segments r"
proof -
  have "join [47] (lit ''..'' # rest) = lit ''..'' \<or> starts_with (lit ''../'') (join [47] (lit ''..'' # rest))" for rest
    by (cases rest) (simp_all add: starts_with_def lit_def)
  then have "relative_segments (segments r) (segments t) \<noteq> lit ''..'' # rest" for rest
    using assms unfolding relative_path_def escapes_def by metis
  with relative_prefix [of "segments r" "segments t"] show ?thesis by blast
qed

text \<open>
  C29: The file that is opened for an entry's path lies, links resolved, inside the directory of the
  source it was asked for: the segments of the directory's real path begin those of the file's. The
  source is the own one or a community handle that is no dot name, and the path ends in
  \<open>.md\<close>, is relative and has no \<open>..\<close> segment.
\<close>

theorem entry_file_stays_inside:
  assumes "entry_file_path real entriesDir communityDir source entryPath = Inr target"
  shows "\<exists>root r t. real root = Some r \<and> real target = Some t \<and> take (length (segments r)) (segments t) = segments r \<and>
    target = path_join root entryPath \<and> \<not> bad_entry_path entryPath \<and>
    (source = lit ''own'' \<and> root = entriesDir \<or>
     (\<exists>h. source = lit ''community/'' @ h \<and> 47 \<notin> set h \<and> 92 \<notin> set h \<and> h \<notin> {[], lit ''.'', lit ''..''} \<and>
       root = path_join (path_join communityDir h) (lit ''entries'')))"
proof -
  let ?root = "if source = lit ''own'' then entriesDir
     else path_join (path_join communityDir (the (community_handle source))) (lit ''entries'')"
  from assms obtain r t where rt: "real ?root = Some r" "real target = Some t" "target = path_join ?root entryPath"
    "\<not> bad_entry_path entryPath" "\<not> escapes (relative_path r t)" "source = lit ''own'' \<or> plain_handle (community_handle source)"
    by (auto simp: entry_file_path_def Let_def split: if_splits option.splits)
  note inside = not_escaping [OF rt(5)]
  show ?thesis
  proof (cases "source = lit ''own''")
    case True
    with rt(1-4) inside show ?thesis by (intro exI [of _ entriesDir] exI [of _ r] exI [of _ t]) simp
  next
    case False
    then obtain h where h: "community_handle source = Some h" "h \<noteq> lit ''.''" "h \<noteq> lit ''..''"
      using rt(6) by (auto simp: plain_handle_def split: option.splits)
    then have hs: "starts_with (lit ''community/'') source" "h = drop (length (lit ''community/'')) source" "h \<noteq> []" "47 \<notin> set h" "92 \<notin> set h"
      by (auto simp: community_handle_def Let_def split: if_splits)
    from hs(1,2) have "source = lit ''community/'' @ h"
      unfolding starts_with_def by (metis append_take_drop_id)
    with False rt(1-4) inside h hs(3-5) show ?thesis
      by (intro exI [of _ "path_join (path_join communityDir h) (lit ''entries'')"] exI [of _ r] exI [of _ t]) simp
  qed
qed

lemma join_root_file: "path_join (lit ''/e'') (lit ''a.md'') = lit ''/e/a.md''"
  by (simp add: path_join_def normalize_path_def lit_def)

theorem entry_file_stays_inside_witness:
  "entry_file_path Some (lit ''/e'') (lit ''/c'') (lit ''own'') (lit ''a.md'') = Inr (lit ''/e/a.md'') \<and>
     take 1 (segments (lit ''/e/a.md'')) = segments (lit ''/e'')"
proof -
  have "entry_file_path Some (lit ''/e'') (lit ''/c'') (lit ''own'') (lit ''a.md'') = Inr (lit ''/e/a.md'')"
    by (simp add: entry_file_path_def Let_def join_root_file bad_entry_path_def is_absolute_def path_pieces_def starts_with_def
        ends_with_def relative_path_def segments_def escapes_def) (simp add: lit_def)
  moreover obtain root where "take (length (segments root)) (segments (lit ''/e/a.md'')) = segments root"
    "root = lit ''/e'' \<or> (\<exists>h. lit ''own'' = lit ''community/'' @ h)"
    using entry_file_stays_inside [OF calculation] by blast
  moreover have "lit ''own'' \<noteq> lit ''community/'' @ h" for h by (simp add: lit_def)
  moreover have "length (segments (lit ''/e'')) = 1" by (simp add: segments_def lit_def)
  ultimately show ?thesis by auto
qed

end
