(* ===== verification/Retrieval.thy ===== *)
theory Retrieval
  imports Entries "HOL-Library.List_Lexorder"
begin

text \<open>
  Reading many entries: the search and the lists of \<open>packages/core/src/repository.ts\<close>, the record
  of what was surfaced (\<open>markHit.ts\<close>), the entries not surfaced for long (\<open>stale.ts\<close>), and
  the environment filters of \<open>env.ts\<close>. SQLite's full-text match, with the order in which it
  returns rows, and its ordering by the date inside a JSON text are the fields of \<open>sql_engine\<close>;
  the classes of letters and digits, semver and the full letter-case table are arguments. Lemmas: a
  sanitised query holds quoted words only, a search returns at most the limit of rows, each
  with what the filters name, and the tag filter sees only the rows within the limit; no operation on a
  table whose rows parse leaves one that does not.
\<close>

subsection \<open>The query\<close>

text \<open>\<open>raw.replace(/[^\p\{L\}\p\{N\}\s]/gu, ' ')\<close>, by code points; \<open>cls\<close> holds of letters and numbers.\<close>

definition query_clean :: "(nat \<Rightarrow> bool) \<Rightarrow> jstr \<Rightarrow> jstr" where
  "query_clean cls raw = concat (map (\<lambda>c. if cls c \<or> is_space c then utf16_cp c else [32]) (code_points raw))"

text \<open>\<open>split(/\s+/)\<close> without the empty pieces.\<close>

fun words :: "jstr \<Rightarrow> jstr \<Rightarrow> jstr list" where
  "words acc [] = (if acc = [] then [] else [acc])"
| "words acc (c # s) = (if is_space c then (if acc = [] then [] else [acc]) @ words [] s else words (acc @ [c]) s)"

definition sanitize_fts_query :: "(nat \<Rightarrow> bool) \<Rightarrow> jstr \<Rightarrow> jstr" where
  "sanitize_fts_query cls raw = join [32] (map (\<lambda>t. 34 # t @ [34]) (words [] (query_clean cls raw)))"

subsection \<open>Search\<close>

record search_filters =
  sf_tags :: "jstr list"
  sf_confidence :: "jstr list"
  sf_source :: "jstr option"
  sf_visibility :: "jstr option"

record search_result =
  se_id :: jstr
  se_source :: jstr
  se_title :: jstr
  se_symptom :: jstr
  se_confidence :: "jstr option"
  se_visibility :: jstr
  se_environment :: json

record sql_engine =
  fts_match :: "jstr \<Rightarrow> row list \<Rightarrow> row list"
  by_updated :: "row list \<Rightarrow> row list"

text \<open>What the code relies on: both return rows of the table, the ordering all of them.\<close>

definition engine_ok :: "sql_engine \<Rightarrow> bool" where
  "engine_ok e \<longleftrightarrow> (\<forall>q rs. set (fts_match e q rs) \<subseteq> set rs) \<and> (\<forall>rs. set (by_updated e rs) = set rs \<and> length (by_updated e rs) = length rs)"

text \<open>\<open>LIMIT n\<close>: a negative number is no limit.\<close>

definition sql_limit :: "int \<Rightarrow> 'a list \<Rightarrow> 'a list" where
  "sql_limit n rs = (if n < 0 then rs else take (nat n) rs)"

text \<open>\<open>LIKE 'community/%'\<close> ignores the case of ASCII letters.\<close>

definition source_admits :: "search_filters \<Rightarrow> row \<Rightarrow> bool" where
  "source_admits f r \<longleftrightarrow>
     (if sf_source f = Some (lit ''own'') then r_source r = lit ''own''
      else if sf_source f = Some (lit ''community'') then starts_with (lit ''community/'') (ascii_lower (r_source r))
      else True)"

definition row_admitted :: "search_filters \<Rightarrow> row \<Rightarrow> bool" where
  "row_admitted f r \<longleftrightarrow> source_admits f r \<and>
     (sf_confidence f \<noteq> [] \<longrightarrow> (\<exists>c \<in> set (sf_confidence f). r_confidence r = Some c)) \<and>
     (sf_visibility f = Some (lit ''public'') \<or> sf_visibility f = Some (lit ''private'') \<longrightarrow> r_visibility r = sf_visibility f)"

text \<open>\<open>entryTags.includes(t)\<close>: membership in an array, a part of a string; anything else throws.\<close>

fun tags_include :: "json \<Rightarrow> jstr \<Rightarrow> bool option" where
  "tags_include (JArr xs) t = Some (JStr t \<in> set xs)"
| "tags_include (JStr s) t = Some (has_sub t s)"
| "tags_include _ t = None"

fun every_tag :: "json \<Rightarrow> jstr list \<Rightarrow> entry_error + bool" where
  "every_tag tags [] = Inr True"
| "every_tag tags (t # ts) = (case tags_include tags t of None \<Rightarrow> Inl (Other_entry_error (lit ''TypeError''))
     | Some True \<Rightarrow> every_tag tags ts | Some False \<Rightarrow> Inr False)"

definition tags_admit :: "search_filters \<Rightarrow> row \<Rightarrow> entry_error + bool" where
  "tags_admit f r =
     (if sf_tags f = [] then Inr True
      else (case json_parse (case r_tags r of None \<Rightarrow> lit ''[]'' | Some [] \<Rightarrow> lit ''[]'' | Some t \<Rightarrow> t) of
          None \<Rightarrow> Inl (Other_entry_error (lit ''SyntaxError''))
        | Some tags \<Rightarrow> every_tag tags (sf_tags f)))"

text \<open>
  \<open>/##\s+Symptom\s*\n([\s\S]*?)(?=\n##|\n*$)/\<close>: the part after the group always matches, so the
  group begins where the part before it first ends.
\<close>

definition symptom_head_rx :: rx where
  "symptom_head_rx = Sq (rx_str (lit ''##'')) (Sq (rx_many is_space 1) (Sq (rx_str (lit ''Symptom''))
     (Sq (rx_many is_space 0) (Ch (\<lambda>c. c = 10)))))"

definition symptom_group_rx :: rx where
  "symptom_group_rx = Sq (Lazy (Ch (\<lambda>_. True)) 0 None)
     (Ahead True (Or (rx_str (10 # lit ''##'')) (Sq (rx_many (\<lambda>c. c = 10) 0) Eol)))"

definition symptom_text :: "jstr \<Rightarrow> jstr" where
  "symptom_text body =
     (case search symptom_head_rx body 0 of
        None \<Rightarrow> body
      | Some (_, start) \<Rightarrow> (case match_at symptom_group_rx body start of
          None \<Rightarrow> body | Some e \<Rightarrow> trim (slice body start e)))"

definition to_search_result :: "row \<Rightarrow> entry_error + search_result" where
  "to_search_result r =
     (case json_parse (r_frontmatter_json r) of
        None \<Rightarrow> Inl (Other_entry_error (lit ''SyntaxError''))
      | Some fm \<Rightarrow> (if fm = JNull then Inl (Other_entry_error (lit ''TypeError''))
          else Inr \<lparr>se_id = r_id r, se_source = r_source r, se_title = r_title r, se_symptom = take 200 (symptom_text (r_body r)),
            se_confidence = r_confidence r, se_visibility = or_else (r_visibility r) (lit ''private''),
            se_environment = (case get_member fm ''environment'' of None \<Rightarrow> JObj []
              | Some v \<Rightarrow> if v = JNull then JObj [] else v)\<rparr>))"

fun collect_results :: "search_filters \<Rightarrow> row list \<Rightarrow> entry_error + search_result list" where
  "collect_results f [] = Inr []"
| "collect_results f (r # rs) =
     try_then (tags_admit f r) (\<lambda>ok.
     if ok then try_then (to_search_result r) (\<lambda>s. try_then (collect_results f rs) (\<lambda>ss. Inr (s # ss)))
     else collect_results f rs)"

definition matching_rows :: "(nat \<Rightarrow> bool) \<Rightarrow> sql_engine \<Rightarrow> jstr option \<Rightarrow> search_filters \<Rightarrow> entry_db \<Rightarrow> row list" where
  "matching_rows cls e query f db =
     (let rawQuery = trim (or_else query []);
          ftsQuery = (if rawQuery = [] then [] else sanitize_fts_query cls rawQuery) in
      if ftsQuery \<noteq> [] then filter (row_admitted f) (fts_match e ftsQuery (rows db))
      else by_updated e (filter (row_admitted f) (rows db)))"

definition search_rows :: "(nat \<Rightarrow> bool) \<Rightarrow> sql_engine \<Rightarrow> jstr option \<Rightarrow> search_filters \<Rightarrow> int \<Rightarrow> entry_db \<Rightarrow> row list" where
  "search_rows cls e query f limit db = sql_limit limit (matching_rows cls e query f db)"

definition search_entries ::
  "(nat \<Rightarrow> bool) \<Rightarrow> sql_engine \<Rightarrow> jstr option \<Rightarrow> search_filters option \<Rightarrow> int option \<Rightarrow> entry_db \<Rightarrow> entry_error + search_result list" where
  "search_entries cls e query filters limit db =
     (let f = or_else filters \<lparr>sf_tags = [], sf_confidence = [], sf_source = None, sf_visibility = None\<rparr> in
      collect_results f (search_rows cls e query f (or_else limit 50) db))"

definition list_recent :: "sql_engine \<Rightarrow> int option \<Rightarrow> entry_db \<Rightarrow> entry_error + search_result list" where
  "list_recent e limit db = try_map to_search_result (sql_limit (or_else limit 20) (by_updated e (rows db)))"

subsection \<open>What was surfaced\<close>

definition hit_row :: "jstr \<Rightarrow> jstr \<times> jstr \<Rightarrow> row \<Rightarrow> row" where
  "hit_row ts key r = (if r_source r = snd key \<and> r_id r = fst key then r\<lparr>r_last_hit_at := Some ts\<rparr> else r)"

definition mark_hit :: "jstr \<Rightarrow> (jstr \<times> jstr) list \<Rightarrow> entry_db \<Rightarrow> entry_db" where
  "mark_hit now keys db =
     (if keys = [] then db
      else foldl (\<lambda>db k. db\<lparr>rows := map (hit_row now k) (rows db)\<rparr>) db keys)"

record stale_row =
  sw_id :: jstr
  sw_source :: jstr
  sw_title :: jstr
  sw_visibility :: jstr
  sw_last_hit_at :: "jstr option"

definition is_stale :: "jstr \<Rightarrow> jstr option \<Rightarrow> row \<Rightarrow> bool" where
  "is_stale cutoff visibility r \<longleftrightarrow>
     (case r_last_hit_at r of None \<Rightarrow> True | Some t \<Rightarrow> t < cutoff) \<and>
     (visibility = Some (lit ''public'') \<or> visibility = Some (lit ''private'') \<longrightarrow> r_visibility r = visibility)"

definition stale_of :: "row \<Rightarrow> stale_row" where
  "stale_of r = \<lparr>sw_id = r_id r, sw_source = r_source r, sw_title = r_title r,
     sw_visibility = or_else (r_visibility r) (lit ''private''), sw_last_hit_at = r_last_hit_at r\<rparr>"

text \<open>
  \<open>to_iso\<close> is \<open>toISOString\<close> of a time in milliseconds. The rows never surfaced come first, then
  the oldest.
\<close>

definition list_stale :: "(int \<Rightarrow> jstr) \<Rightarrow> int \<Rightarrow> int option \<Rightarrow> jstr option \<Rightarrow> int option \<Rightarrow> entry_db \<Rightarrow> stale_row list" where
  "list_stale to_iso now days visibility limit db =
     (let cutoff = to_iso (now - or_else days 90 * 24 * 60 * 60 * 1000);
          found = filter (is_stale cutoff visibility) (rows db);
          never = filter (\<lambda>r. r_last_hit_at r = None) found;
          dated = sort_key (\<lambda>r. or_else (r_last_hit_at r) []) (filter (\<lambda>r. r_last_hit_at r \<noteq> None) found) in
      map stale_of (sql_limit (or_else limit 50) (never @ dated)))"

subsection \<open>Environments\<close>

datatype target_os = Windows | Macos | Linux

definition normalize_target_os :: "jstr \<Rightarrow> target_os option" where
  "normalize_target_os value =
     (let lower = ascii_lower value in
      if lower = lit ''win32'' \<or> lower = lit ''windows'' then Some Windows
      else if lower = lit ''darwin'' \<or> lower = lit ''macos'' then Some Macos
      else if lower = lit ''linux'' then Some Linux else None)"

text \<open>
  The flags \<open>iu\<close>: a letter also stands for its capital, \<open>s\<close> for U+017F and \<open>k\<close> for U+212A, and
  these two count as word characters.
\<close>

definition folds_to :: "nat \<Rightarrow> nat \<Rightarrow> bool" where
  "folds_to c x \<longleftrightarrow> x = c \<or> (is_lower c \<and> x = c - 32) \<or> (c = 115 \<and> x = 383) \<or> (c = 107 \<and> x = 8490)"

fun rx_folded :: "jstr \<Rightarrow> rx" where
  "rx_folded [] = Eps"
| "rx_folded (c # cs) = Sq (Ch (folds_to c)) (rx_folded cs)"

definition word_folded :: "nat \<Rightarrow> bool" where
  "word_folded c \<longleftrightarrow> is_word c \<or> c = 383 \<or> c = 8490"

fun rx_any_of :: "jstr list \<Rightarrow> rx" where
  "rx_any_of [] = Ch (\<lambda>_. False)"
| "rx_any_of [w] = rx_folded w"
| "rx_any_of (w # v # ws) = Or (rx_folded w) (rx_any_of (v # ws))"

definition names_rx :: "jstr list \<Rightarrow> rx" where
  "names_rx ws = Sq (NotBehind word_folded) (Sq (rx_any_of ws) (Ahead False (Ch word_folded)))"

definition named_targets :: "jstr \<Rightarrow> target_os list" where
  "named_targets task =
     (if rx_test (names_rx [lit ''windows'', lit ''win32'']) task then [Windows] else []) @
     (if rx_test (names_rx [lit ''mac'', lit ''macos'', lit ''darwin'']) task then [Macos] else []) @
     (if rx_test (names_rx [lit ''linux'', lit ''ubuntu'', lit ''wsl'']) task then [Linux] else [])"

definition environment_applies :: "(jstr \<times> jstr) list \<Rightarrow> jstr \<Rightarrow> jstr \<Rightarrow> entry_error + bool" where
  "environment_applies environment task host =
     (case map_of environment (lit ''applies_to_os'') of
        None \<Rightarrow> Inr True
      | Some requiredRaw \<Rightarrow>
          (if requiredRaw = [] then Inr True
           else (case normalize_target_os requiredRaw of
               None \<Rightarrow> Inl (Other_entry_error (lit ''invalid applies_to_os''))
             | Some required \<Rightarrow>
                 (let targets = named_targets task;
                      all = (if targets = [] then (case normalize_target_os host of None \<Rightarrow> [] | Some t \<Rightarrow> [t]) else targets)
                  in Inr (required \<in> set all)))))"

text \<open>\<open>semver\<close>'s \<open>coerce(s)?.version\<close> and \<open>satisfies(version, range)\<close>.\<close>

record semver_lib =
  coerce :: "jstr \<Rightarrow> jstr option"
  satisfies :: "jstr \<Rightarrow> jstr \<Rightarrow> bool"

text \<open>\<open>/^\d+(\.\d+)\{0,2\}/\<close>.\<close>

fun version_groups :: "nat \<Rightarrow> jstr \<Rightarrow> jstr" where
  "version_groups 0 s = []"
| "version_groups (Suc n) [] = []"
| "version_groups (Suc n) (c # s) =
     (let d = takeWhile is_digit s in
      if c = 46 \<and> d \<noteq> [] then 46 # d @ version_groups n (drop (length d) s) else [])"

definition version_head :: "jstr \<Rightarrow> jstr option" where
  "version_head s = (let d = takeWhile is_digit s in if d = [] then None else Some (d @ version_groups 2 (drop (length d) s)))"

text \<open>
  The comparator before the blanks. Giving back characters to \<open>.+\<close> never helps the match: the rest
  would begin with a blank or a sign and has no version at its head.
\<close>

definition split_comparator :: "jstr \<Rightarrow> jstr \<times> jstr" where
  "split_comparator required =
     (if starts_with (lit ''>='') required then (lit ''>='', drop 2 required)
      else if starts_with (lit ''<='') required then (lit ''<='', drop 2 required)
      else if starts_with (lit ''>'') required then (lit ''>'', drop 1 required)
      else if starts_with (lit ''<'') required then (lit ''<'', drop 1 required)
      else if starts_with (lit ''='') required then ([], drop 1 required)
      else ([], required))"

definition coerced :: "semver_lib \<Rightarrow> jstr \<Rightarrow> jstr option" where
  "coerced lib s =
     (case version_head s of
        None \<Rightarrow> None
      | Some head \<Rightarrow>
          (case coerce lib s of
             None \<Rightarrow> None
           | Some v \<Rightarrow> if v \<noteq> [] \<and> coerce lib head = Some v then Some v else None))"

definition match_semver :: "semver_lib \<Rightarrow> jstr \<Rightarrow> jstr \<Rightarrow> bool" where
  "match_semver lib current required =
     (let (op, rest) = split_comparator required; rhs = dropWhile is_space rest in
      if rhs = [] \<or> list_ex line_end rhs then False
      else (case coerced lib rhs of
          None \<Rightarrow> False
        | Some rhsCoerced \<Rightarrow>
            (case coerced lib current of None \<Rightarrow> False | Some curCoerced \<Rightarrow> satisfies lib curCoerced (op @ rhsCoerced))))"

definition default_semver_keys :: "jstr list" where
  "default_semver_keys = [lit ''driver'', lit ''cuda'', lit ''node'']"

fun env_match :: "semver_lib \<Rightarrow> (jstr \<Rightarrow> jstr) \<Rightarrow> jstr list \<Rightarrow> (jstr \<times> jstr) list \<Rightarrow> (jstr \<times> jstr) list \<Rightarrow> bool" where
  "env_match lib lower semverKeys current [] = True"
| "env_match lib lower semverKeys current ((key, required) # rest) =
     (case map_of current key of
        None \<Rightarrow> False
      | Some value \<Rightarrow>
          (if key \<in> set semverKeys
           then match_semver lib value required \<and> env_match lib lower semverKeys current rest
           else has_sub (lower required) (lower value) \<and> env_match lib lower semverKeys current rest))"

definition normalize_win_path :: "(jstr \<Rightarrow> jstr) \<Rightarrow> jstr \<Rightarrow> jstr" where
  "normalize_win_path lower p = lower (map (\<lambda>c. if c = 92 then 47 else c) p)"

lemma env_match_iff:
  "env_match lib lower keys current required \<longleftrightarrow>
     (\<forall>(k, req) \<in> set required. \<exists>v. map_of current k = Some v \<and>
        (if k \<in> set keys then match_semver lib v req else has_sub (lower req) (lower v)))"
proof (induction required)
  case (Cons kr rest)
  obtain k req where "kr = (k, req)" by fastforce
  with Cons show ?case by (cases "map_of current k") simp_all
qed simp

subsection \<open>Search stays within its filters\<close>

lemma collect_results_spec:
  "collect_results f rs = Inr ss \<Longrightarrow> length ss \<le> length rs \<and>
     (\<forall>s \<in> set ss. \<exists>r \<in> set rs. to_search_result r = Inr s \<and> tags_admit f r = Inr True) \<and>
     (\<forall>r \<in> set rs. tags_admit f r = Inr True \<longrightarrow> (\<exists>s \<in> set ss. to_search_result r = Inr s))"
proof (induction rs arbitrary: ss)
  case (Cons r rs)
  from Cons.prems obtain adm where adm: "tags_admit f r = Inr adm" by (auto simp: res)
  show ?case
  proof (cases adm)
    case True
    with Cons.prems adm obtain s ss' where "to_search_result r = Inr s" "collect_results f rs = Inr ss'" "ss = s # ss'"
      by (auto simp: res)
    with Cons.IH [of ss'] adm True show ?thesis by fastforce
  next
    case False
    with Cons adm show ?thesis by fastforce
  qed
qed simp

lemma sql_limit_set: "set (sql_limit n rs) \<subseteq> set rs" "0 \<le> n \<Longrightarrow> int (length (sql_limit n rs)) \<le> n"
  by (auto simp: sql_limit_def dest: in_set_takeD)

lemma sql_limit_all: "n < 0 \<or> int (length rs) \<le> n \<Longrightarrow> sql_limit n rs = rs"
  by (auto simp: sql_limit_def)

lemma matching_rows_admitted:
  "engine_ok e \<Longrightarrow> set (matching_rows cls e query f db) \<subseteq> {r \<in> set (rows db). row_admitted f r}"
  by (auto simp: matching_rows_def Let_def engine_ok_def split: if_splits)

lemma search_rows_admitted:
  "engine_ok e \<Longrightarrow> r \<in> set (search_rows cls e query f limit db) \<Longrightarrow> r \<in> set (rows db) \<and> row_admitted f r"
  using matching_rows_admitted [of e cls query f db] sql_limit_set(1) [of limit "matching_rows cls e query f db"]
  by (auto simp: search_rows_def)

text \<open>
  What a search is asked for, stated on the fields of a row and apart from the statement the code
  builds: the rows looked at, the rows wanted, and how a result shows its row.
\<close>

definition looked_at :: "(nat \<Rightarrow> bool) \<Rightarrow> sql_engine \<Rightarrow> jstr option \<Rightarrow> entry_db \<Rightarrow> row list" where
  "looked_at cls e query db =
     (let ws = words [] (query_clean cls (trim (or_else query []))) in
      if ws = [] then rows db else fts_match e (join [32] (map (\<lambda>w. [34] @ w @ [34]) ws)) (rows db))"

definition tag_listed :: "row \<Rightarrow> jstr \<Rightarrow> bool" where
  "tag_listed r t \<longleftrightarrow>
     (case r_tags r of None \<Rightarrow> False
      | Some col \<Rightarrow> (case json_parse col of Some (JArr xs) \<Rightarrow> JStr t \<in> set xs | Some (JStr s) \<Rightarrow> has_sub t s | _ \<Rightarrow> False))"

definition row_wanted :: "search_filters \<Rightarrow> row \<Rightarrow> bool" where
  "row_wanted f r \<longleftrightarrow>
     (sf_source f = Some (lit ''own'') \<longrightarrow> r_source r = lit ''own'') \<and>
     (sf_source f = Some (lit ''community'') \<longrightarrow> ascii_lower (take 10 (r_source r)) = lit ''community/'') \<and>
     (sf_confidence f = [] \<or> r_confidence r \<in> Some ` set (sf_confidence f)) \<and>
     (\<forall>v \<in> {lit ''public'', lit ''private''}. sf_visibility f = Some v \<longrightarrow> r_visibility r = Some v) \<and>
     (\<forall>t \<in> set (sf_tags f). tag_listed r t)"

definition result_of :: "row \<Rightarrow> search_result \<Rightarrow> bool" where
  "result_of r s \<longleftrightarrow> se_id s = r_id r \<and> se_source s = r_source r \<and> se_title s = r_title r \<and> se_confidence s = r_confidence r \<and>
     se_visibility s = (case r_visibility r of None \<Rightarrow> lit ''private'' | Some v \<Rightarrow> v) \<and>
     se_symptom s = take 200 (symptom_text (r_body r))"

lemma result_of_row: "to_search_result r = Inr s \<Longrightarrow> result_of r s"
  by (auto simp: to_search_result_def result_of_def or_else_def split: option.splits if_splits)

lemma tags_include_True: "tags_include j t = Some True \<longleftrightarrow>
    (case j of JArr xs \<Rightarrow> JStr t \<in> set xs | JStr s \<Rightarrow> has_sub t s | _ \<Rightarrow> False)"
  by (cases j) simp_all

lemma every_tag_True: "every_tag tags ts = Inr True \<longleftrightarrow> (\<forall>t \<in> set ts. tags_include tags t = Some True)"
  by (induction ts) (auto split: option.splits bool.splits)

lemma json_parse_empty: "json_parse [] = None" "json_parse (lit ''[]'') = Some (JArr [])"
proof -
  show "json_parse [] = None" by (simp add: json_parse_def skip_ws_def)
  have "lit ''[]'' = json_stringify (JArr [])" by (simp add: json_stringify_def lit_def)
  then show "json_parse (lit ''[]'') = Some (JArr [])" using json_roundtrip [of "JArr []" "[]"] by (simp add: blank_def)
qed

lemma tags_admit_listed: "tags_admit f r = Inr True \<longleftrightarrow> (\<forall>t \<in> set (sf_tags f). tag_listed r t)"
proof (cases "sf_tags f")
  case (Cons t ts)
  have none: "\<not> tags_admit f r = Inr True \<and> \<not> tag_listed r t" if "r_tags r = None \<or> r_tags r = Some []"
    using that Cons by (auto simp: tags_admit_def tag_listed_def json_parse_empty)
  show ?thesis
  proof (cases "r_tags r = None \<or> r_tags r = Some []")
    case True
    with none Cons show ?thesis by auto
  next
    case False
    then obtain c col where "r_tags r = Some (c # col)" by (metis neq_Nil_conv option.exhaust)
    with Cons show ?thesis
      by (auto simp: tags_admit_def tag_listed_def every_tag_True tags_include_True simp del: every_tag.simps split: option.splits json.splits)
  qed
qed (simp add: tags_admit_def)

lemma row_admitted_wanted: "row_admitted f r \<longleftrightarrow> row_wanted (f\<lparr>sf_tags := []\<rparr>) r"
proof -
  have ten: "length (lit ''community/'') = 10" by simp
  have p: "starts_with (lit ''community/'') (ascii_lower x) \<longleftrightarrow> ascii_lower (take 10 x) = lit ''community/''" for x
    unfolding starts_with_def ascii_lower_def ten take_map ..
  have d: "lit ''community'' \<noteq> lit ''own''" "lit ''public'' \<noteq> lit ''private''" by (simp_all add: lit_def)
  show ?thesis using d
    by (cases "sf_source f = Some (lit ''own'')") (auto simp: row_admitted_def row_wanted_def source_admits_def p image_iff)
qed

lemma row_wanted_split: "row_wanted f r \<longleftrightarrow> row_admitted f r \<and> tags_admit f r = Inr True"
  unfolding row_admitted_wanted tags_admit_listed by (auto simp: row_wanted_def)

lemma join_Nil: "join sep (map (\<lambda>t. 34 # t @ [34]) ws) = [] \<longleftrightarrow> ws = []"
  by (cases ws; cases "tl ws") simp_all

lemma matching_rows_set:
  assumes "engine_ok e"
  shows "set (matching_rows cls e query f db) = {r \<in> set (looked_at cls e query db). row_admitted f r}"
    and "length (matching_rows cls e query f db) = length (filter (row_admitted f) (looked_at cls e query db))"
proof -
  have "sanitize_fts_query cls q = [] \<longleftrightarrow> words [] (query_clean cls q) = []" for q
    by (simp add: sanitize_fts_query_def join_Nil)
  moreover have "words [] (query_clean cls []) = []" by (simp add: query_clean_def code_points.simps)
  ultimately have "matching_rows cls e query f db =
      (if words [] (query_clean cls (trim (or_else query []))) = [] then by_updated e (filter (row_admitted f) (rows db))
       else filter (row_admitted f) (looked_at cls e query db))"
    by (simp add: matching_rows_def Let_def looked_at_def sanitize_fts_query_def)
  then show "set (matching_rows cls e query f db) = {r \<in> set (looked_at cls e query db). row_admitted f r}"
    and "length (matching_rows cls e query f db) = length (filter (row_admitted f) (looked_at cls e query db))"
    using assms by (auto simp: engine_ok_def looked_at_def Let_def)
qed

text \<open>
  C23: A search returns at most its limit of results, and each shows a row that was looked at (all
  rows of the table, or those the full-text match of the quoted words of the query returns) and
  is wanted: of the source, with one of the confidences, of the visibility and with every tag the
  filters name. If the rows wanted but for their tags are within the limit, every wanted row is
  among the results. (SQLite's match and ordering are taken to return rows of the table.)
\<close>

theorem search_within_filters:
  assumes "search_entries cls e query (Some f) limit db = Inr ss" and "engine_ok e"
  shows "(0 \<le> or_else limit 50 \<longrightarrow> int (length ss) \<le> or_else limit 50) \<and>
    set (looked_at cls e query db) \<subseteq> set (rows db) \<and>
    (\<forall>s \<in> set ss. \<exists>r \<in> set (looked_at cls e query db). result_of r s \<and> row_wanted f r) \<and>
    (or_else limit 50 < 0 \<or>
      int (length (filter (row_wanted (f\<lparr>sf_tags := []\<rparr>)) (looked_at cls e query db))) \<le> or_else limit 50 \<longrightarrow>
      (\<forall>r \<in> set (looked_at cls e query db). row_wanted f r \<longrightarrow> (\<exists>s \<in> set ss. result_of r s)))"
proof -
  let ?rs = "search_rows cls e query f (or_else limit 50) db" and ?all = "looked_at cls e query db"
  have c: "collect_results f ?rs = Inr ss" using assms(1) by (simp add: search_entries_def or_else_def [of "Some f"])
  note m = matching_rows_set [OF assms(2), of cls query f db]
  have "int (length ss) \<le> or_else limit 50" if "0 \<le> or_else limit 50"
    using collect_results_spec [OF c] sql_limit_set(2) [OF that, of "matching_rows cls e query f db"]
    by (auto simp: search_rows_def)
  moreover have "set ?all \<subseteq> set (rows db)" using assms(2) by (auto simp: looked_at_def Let_def engine_ok_def)
  moreover have "\<forall>s \<in> set ss. \<exists>r \<in> set ?all. result_of r s \<and> row_wanted f r"
  proof
    fix s assume "s \<in> set ss"
    then obtain r where r: "r \<in> set ?rs" "to_search_result r = Inr s" "tags_admit f r = Inr True"
      using collect_results_spec [OF c] by blast
    then have "r \<in> set ?all \<and> row_admitted f r" using sql_limit_set(1) m(1) by (fastforce simp: search_rows_def)
    with r show "\<exists>r \<in> set ?all. result_of r s \<and> row_wanted f r" using result_of_row row_wanted_split by blast
  qed
  moreover have "\<forall>r \<in> set ?all. row_wanted f r \<longrightarrow> (\<exists>s \<in> set ss. result_of r s)"
    if "or_else limit 50 < 0 \<or> int (length (filter (row_wanted (f\<lparr>sf_tags := []\<rparr>)) ?all)) \<le> or_else limit 50"
  proof (intro ballI impI)
    fix r assume r: "r \<in> set ?all" "row_wanted f r"
    have "?rs = matching_rows cls e query f db"
      using that m(2) unfolding search_rows_def row_admitted_wanted [symmetric] by (intro sql_limit_all) simp
    then have "r \<in> set ?rs" using m(1) r by (simp add: row_wanted_split)
    with collect_results_spec [OF c] r(2) show "\<exists>s \<in> set ss. result_of r s"
      using result_of_row row_wanted_split by blast
  qed
  ultimately show ?thesis by blast
qed

text \<open>A search by tag can miss the only entry that has it: the limit cuts the rows before the tags are looked at.\<close>

definition tagged_row :: "nat \<Rightarrow> string \<Rightarrow> string list \<Rightarrow> row" where
  "tagged_row n name tags = toy_row\<lparr>r_rowid := n, r_id := lit name, r_tags := Some (json_stringify (tags_json (map lit tags))),
     r_frontmatter_json := json_stringify (JObj [])\<rparr>"

definition two_rows :: entry_db where
  "two_rows = \<lparr>rows = [tagged_row 1 ''a'' [], tagged_row 2 ''b'' [''gpu'']], next_rowid = 3\<rparr>"

definition toy_engine :: sql_engine where
  "toy_engine = \<lparr>fts_match = (\<lambda>_ rs. rs), by_updated = (\<lambda>rs. rs)\<rparr>"

lemma toy_engine_ok: "engine_ok toy_engine"
  by (simp add: engine_ok_def toy_engine_def)

definition gpu_filter :: search_filters where
  "gpu_filter = \<lparr>sf_tags = [lit ''gpu''], sf_confidence = [], sf_source = None, sf_visibility = None\<rparr>"

lemma tagged_tags:
  "\<forall>t \<in> set tags. units (lit t) \<Longrightarrow> json_parse (json_stringify (tags_json (map lit tags))) = Some (tags_json (map lit tags))"
  using json_roundtrip [of "tags_json (map lit tags)" "[]"] by (simp add: tags_json_def blank_def list_all_iff)

lemma stringify_not_Nil: "json_stringify (JArr xs) \<noteq> []"
  by (simp add: json_stringify_def)

lemma tags_admit_tagged:
  assumes "\<forall>t \<in> set tags. units (lit t)"
  shows "tags_admit gpu_filter (tagged_row n name tags) = Inr (''gpu'' \<in> set tags)"
proof -
  let ?t = "json_stringify (tags_json (map lit tags))"
  have ne: "?t \<noteq> []" by (simp add: tags_json_def stringify_not_Nil)
  then have "(case Some ?t of None \<Rightarrow> lit ''[]'' | Some [] \<Rightarrow> lit ''[]'' | Some t \<Rightarrow> t) = ?t" by (cases ?t) simp_all
  moreover have "JStr (lit ''gpu'') \<in> JStr ` lit ` set tags \<longleftrightarrow> ''gpu'' \<in> set tags" by (auto simp: image_iff)
  ultimately show ?thesis
    using tagged_tags [OF assms]
    by (cases "''gpu'' \<in> set tags") (simp_all add: tags_admit_def gpu_filter_def tagged_row_def tags_json_def image_image)
qed

lemma tag_filter_after_limit:
  "tags_admit gpu_filter (tagged_row 2 ''b'' [''gpu'']) = Inr True \<and>
   search_entries cls toy_engine None (Some gpu_filter) (Some 1) two_rows = Inr []"
  by (simp add: search_entries_def search_rows_def matching_rows_def or_else_def sql_limit_def toy_engine_def two_rows_def Let_def row_admitted_def
      source_admits_def tags_admit_tagged units_ascii_lit)
    (simp add: gpu_filter_def)

theorem search_within_filters_witness:
  "\<exists>ss. search_entries (\<lambda>_. False) toy_engine None (Some gpu_filter) (Some 1) two_rows = Inr ss \<and> length ss \<le> 1"
proof -
  have "search_entries (\<lambda>_. False) toy_engine None (Some gpu_filter) (Some 1) two_rows = Inr []" using tag_filter_after_limit by blast
  with search_within_filters [OF this toy_engine_ok] show ?thesis by (simp add: or_else_def)
qed

subsection \<open>A sanitised query is a list of quoted words\<close>

lemma words_units: "w \<in> set (words acc s) \<Longrightarrow> w \<noteq> [] \<and> set w \<subseteq> set acc \<union> {c \<in> set s. \<not> is_space c}"
proof (induction acc s arbitrary: w rule: words.induct)
  case (2 acc c s)
  show ?case
  proof (cases "is_space c")
    case True
    with 2 show ?thesis by (cases "acc = []") fastforce+
  next
    case False
    with 2 show ?thesis by fastforce
  qed
qed (auto split: if_splits)

lemma utf16_cp_quote: "cls c \<or> is_space c \<Longrightarrow> \<not> cls 34 \<Longrightarrow> 34 \<notin> set (utf16_cp c)"
  by (auto simp: utf16_cp_def is_space_def)

text \<open>No quote survives in the cleaned query, so no operator of the match language can stand outside the quoted words.\<close>

lemma sanitized_words:
  assumes "\<not> cls 34"
  shows "\<exists>ws. sanitize_fts_query cls raw = join [32] (map (\<lambda>t. 34 # t @ [34]) ws) \<and>
    (\<forall>w \<in> set ws. w \<noteq> [] \<and> 34 \<notin> set w)"
proof (intro exI conjI)
  show "sanitize_fts_query cls raw = join [32] (map (\<lambda>t. 34 # t @ [34]) (words [] (query_clean cls raw)))"
    by (simp add: sanitize_fts_query_def)
  have "34 \<notin> set (query_clean cls raw)"
    using utf16_cp_quote [of cls] assms by (auto simp: query_clean_def)
  then show "\<forall>w \<in> set (words [] (query_clean cls raw)). w \<noteq> [] \<and> 34 \<notin> set w"
    using words_units [of _ "[]" "query_clean cls raw"] by fastforce
qed

subsection \<open>Rows stay readable\<close>

definition row_readable :: "row \<Rightarrow> bool" where
  "row_readable r \<longleftrightarrow> (\<exists>m. json_parse (r_frontmatter_json r) = Some (JObj m))"

definition table_ok :: "entry_db \<Rightarrow> bool" where
  "table_ok db \<longleftrightarrow> wf_db db \<and> (\<forall>r \<in> set (rows db). row_readable r)"

lemma upserted_ok:
  assumes up: "upserted db db' row eid rid" and ok: "table_ok db"
    and json: "ur_frontmatter_json row = json_stringify (JObj m)" "wf_json (JObj m)"
  shows "table_ok db'"
proof -
  have wf: "wf_db db'" using up by (simp add: upserted_def)
  obtain r0 where r0: "r0 \<in> set (rows db')" "r_rowid r0 = rid" "stored row eid r0" using up by (auto simp: upserted_def)
  have "json_parse (json_stringify (JObj m) @ []) = Some (JObj m)" by (rule json_roundtrip [OF json(2)]) (simp add: blank_def)
  with r0(3) json(1) have "row_readable r0" by (auto simp: row_readable_def stored_def)
  moreover have "r = r0" if "r \<in> set (rows db')" "r_rowid r = rid" for r
    using wf_same_rowid [OF wf that(1) r0(1)] that(2) r0(2) by simp
  moreover have "r \<in> set (rows db)" if "r \<in> set (rows db')" "r_rowid r \<noteq> rid" for r
    using up that by (simp add: upserted_def)
  ultimately show ?thesis using ok wf unfolding table_ok_def by metis
qed

lemma store_entry_ok:
  assumes "store_entry env b path content row res st = (r, st')" and "binds_strings b" and "ur_id row = Some (JStr eid)"
    and "table_ok (es_db st)" and "ur_frontmatter_json row = json_stringify (JObj m)" and "wf_json (JObj m)"
  shows "table_ok (es_db st')"
proof -
  have "wf_db (es_db st)" using assms(4) by (simp add: table_ok_def)
  from store_entry_effect [OF assms(1-3) this] show ?thesis
    using assms(4) upserted_ok [OF _ assms(4-6)] by (cases r) (auto simp: entry_stored_def)
qed

lemma record_entry_ok:
  assumes "record_entry env co b root source input st = Some (r, st')" and "table_ok (es_db st)" and "binds_strings b"
    and "input_units env input"
  shows "table_ok (es_db st')"
proof -
  obtain eid where eid: "record_id env source input st = Some eid"
    and rec: "record_as env co b root source input eid st = (r, st')"
    using assms(1) by (auto simp: record_entry_def split: option.splits)
  show ?thesis
  proof (cases "build_entry co (JObj (record_frontmatter env input eid)) (record_sections input)")
    case (Inl e)
    with rec assms(2) show ?thesis by (simp add: record_as_def)
  next
    case (Inr built)
    have wf: "wf_json (JObj (record_frontmatter env input eid))"
      by (rule wf_record_frontmatter [OF units_record_id [OF eid assms(4)] assms(4)])
    show ?thesis
      by (rule store_entry_ok [OF _ assms(3) _ assms(2) _ wf]) (use rec Inr in \<open>auto simp: record_as_def Let_def record_row_def\<close>)
  qed
qed

text \<open>Members of a merged frontmatter are members of the file's, of the patch, or the code's own.\<close>

definition wf_members :: "(jstr \<times> json option) list \<Rightarrow> bool" where
  "wf_members m \<longleftrightarrow> (\<forall>(k, v) \<in> set m. units k \<and> (\<forall>j. v = Some j \<longrightarrow> wf_json j))"

lemma wf_members_set_all: "wf_members m \<Longrightarrow> wf_members kvs \<Longrightarrow> wf_members (set_all m kvs)"
  using set_all_members [of m kvs] unfolding wf_members_def by blast

lemma wf_members_map_set: "wf_members m \<Longrightarrow> units k \<Longrightarrow> (\<And>j. v = Some j \<Longrightarrow> wf_json j) \<Longrightarrow> wf_members (map_set m k v)"
  using set_map_set [of m k v] unfolding wf_members_def by blast

lemma wf_indexed: "\<forall>v \<in> set vs. wf_json v \<Longrightarrow> wf_members (indexed_members vs)"
  by (auto simp: wf_members_def indexed_members_def text_ok_units [OF text_ok_nat_str] dest: set_zip_rightD)

lemma wf_spread: "wf_json j \<Longrightarrow> wf_members (spread j)"
proof (cases j)
  case (JObj m)
  assume "wf_json j"
  then show ?thesis by (auto simp: JObj wf_members_def list_all_iff set_obj_order)
next
  case (JArr xs)
  assume "wf_json j"
  then show ?thesis by (simp add: JArr wf_indexed list_all_iff)
next
  case (JStr t)
  assume "wf_json j"
  then show ?thesis by (simp add: JStr wf_indexed units_def)
qed (simp_all add: wf_members_def)

lemma wf_get_member: "wf_json j \<Longrightarrow> get_member j k = Some v \<Longrightarrow> wf_json v"
  by (cases j) (auto simp: obj_get_def list_all_iff dest: map_of_SomeD)

lemma wf_spread_opt: "(\<And>j. v = Some j \<Longrightarrow> wf_json j) \<Longrightarrow> wf_members (spread_opt v)"
  by (cases v) (auto simp: spread_opt_def wf_spread wf_members_def [of "[]"])

lemma set_some_members: "set (List.map_filter (\<lambda>(k, v). map_option (Pair k) v) n) = {(k, v). (k, Some v) \<in> set n}"
proof (induction n)
  case (Cons kv n)
  then show ?case by (cases kv; cases "snd kv") (auto simp: List.map_filter_simps)
qed (simp add: List.map_filter_simps)

lemma distinct_some_members:
  "distinct (map fst n) \<Longrightarrow> distinct (map fst (List.map_filter (\<lambda>(k, v). map_option (Pair k) v) n))"
proof (induction n)
  case (Cons kv n)
  obtain k v where kv: "kv = (k, v)" by fastforce
  have "k \<notin> fst ` set (List.map_filter (\<lambda>(k, v). map_option (Pair k) v) n)"
    using Cons.prems by (force simp: kv set_some_members)
  with Cons show ?case by (cases v) (simp_all add: kv List.map_filter_simps)
qed (simp add: List.map_filter_simps)

lemma wf_defined: "wf_members m \<Longrightarrow> distinct (map fst m) \<Longrightarrow> wf_json (JObj (defined_members m))"
  using distinct_some_members [OF distinct_obj_order, of m]
  by (fastforce simp: defined_members_def wf_members_def list_all_iff set_some_members set_obj_order)

lemma wf_merged:
  assumes "wf_json fm" and "wf_json (JObj (or_else patch []))" and "units ymd"
  shows "wf_members (merged_frontmatter ymd fm patch)"
proof -
  let ?given = "or_else patch []"
  have given: "wf_json v" if "obj_get ?given k = Some v" for k v
    using wf_get_member [OF assms(2), of k v] that by simp
  let ?env = "set_all (set_all [] (spread_opt (get_member fm ''environment''))) (spread_opt (obj_get ?given ''environment''))"
  have nil: "wf_members []" by (simp add: wf_members_def)
  have "wf_members ?env"
    using wf_get_member [OF assms(1)] given by (intro wf_members_set_all wf_spread_opt nil) auto
  moreover have "distinct (map fst ?env)" by (intro distinct_set_all) simp
  ultimately have env: "wf_json (JObj (defined_members ?env))" by (rule wf_defined)
  let ?own = "[(lit ''environment'', Some (JObj (defined_members ?env))), (lit ''id'', get_member fm ''id''),
     (lit ''source_session'', get_member fm ''source_session''), (lit ''source_project'', get_member fm ''source_project''),
     (lit ''created_at'', get_member fm ''created_at''), (lit ''updated_at'', Some (JStr ymd))]"
  have "wf_members ?own"
    using env assms(3) wf_get_member [OF assms(1)] by (auto simp: wf_members_def units_ascii_lit simp del: wf_json.simps(6))
  then have "wf_members (set_all (set_all (set_all [] (spread fm)) (spread (JObj ?given))) ?own)"
    using wf_spread [OF assms(1)] wf_spread [OF assms(2)] nil by (intro wf_members_set_all)
  then show ?thesis
    using given by (auto simp: merged_frontmatter_def Let_def units_ascii_lit intro!: wf_members_map_set split: option.splits)
qed

text \<open>The frontmatter of every file the codec reads prints and parses back.\<close>

definition files_parse :: "entry_codec \<Rightarrow> entry_store \<Rightarrow> bool" where
  "files_parse co st \<longleftrightarrow> (\<forall>q raw p. es_files st q = Some raw \<longrightarrow> parse_markdown co True (utf8_decode raw) = Inr p \<longrightarrow>
     wf_json (pm_frontmatter p))"

lemma update_entry_ok:
  assumes u: "update_entry env co b lower root source eid patch st = (r, st')" and ok: "table_ok (es_db st)"
    and b: "binds_strings b" and files: "files_parse co st" and patch: "wf_json (JObj (or_else (up_frontmatter patch) []))"
  shows "table_ok (es_db st')"
proof (cases "es_db st' = es_db st")
  case False
  have w_db: "es_db (snd (write_entry_file env path content st)) = es_db st" for path content
    by (simp add: write_entry_file_def)
  from u False obtain rw :: row and raw p where raw: "es_files st (path_join root (r_path rw)) = Some raw" "parse_markdown co True (utf8_decode raw) = Inr p"
    and w: "write_update env co b eid (r_path rw) (path_join root (r_path rw))
        (merged_frontmatter (format_ymd (en_now env)) (pm_frontmatter p) (up_frontmatter patch))
        (merged_sections lower (pm_sections p) (up_sections patch)) st = (r, st')"
    by (auto simp: update_entry_def Let_def split: if_splits option.splits sum.splits)
  let ?m = "merged_frontmatter (format_ymd (en_now env)) (pm_frontmatter p) (up_frontmatter patch)"
  from w False w_db obtain path content res tags body where s: "store_entry env b path content (update_row env ?m eid (r_path rw) tags body) res st = (r, st')"
    by (auto simp: write_update_def split: sum.splits option.splits prod.splits) (metis snd_conv)+
  have "wf_json (pm_frontmatter p)" using files raw by (simp add: files_parse_def)
  then have "wf_json (JObj (defined_members ?m))"
    by (intro wf_defined wf_merged distinct_merged patch units_ymd)
  from store_entry_ok [OF s b _ ok _ this] show ?thesis by (simp add: update_row_def Let_def)
qed (use ok in simp)

lemma hit_row_simps [simp]: "row_key (hit_row ts k r) = row_key r" "r_rowid (hit_row ts k r) = r_rowid r"
  "row_readable (hit_row ts k r) = row_readable r"
  by (simp_all add: hit_row_def row_key_def row_readable_def)

lemma mark_hit_ok: "table_ok db \<Longrightarrow> table_ok (mark_hit now keys db)"
proof -
  have "table_ok (foldl (\<lambda>db k. db\<lparr>rows := map (hit_row now k) (rows db)\<rparr>) db keys)" if "table_ok db" for db keys
    using that
  proof (induction keys arbitrary: db)
    case (Cons k keys)
    then have "table_ok (db\<lparr>rows := map (hit_row now k) (rows db)\<rparr>)"
      by (simp add: table_ok_def wf_db_def o_def)
    with Cons.IH show ?case by simp
  qed simp
  then show "table_ok db \<Longrightarrow> ?thesis" by (simp add: mark_hit_def)
qed

lemma readable_result: "row_readable r \<Longrightarrow> \<not> isl (to_search_result r)"
  by (auto simp: row_readable_def to_search_result_def)

text \<open>A tags column that the tag filter can read: none, empty, or the text of an array or a string.\<close>

definition tags_readable :: "row \<Rightarrow> bool" where
  "tags_readable r \<longleftrightarrow>
     (case r_tags r of None \<Rightarrow> True
      | Some col \<Rightarrow> col = [] \<or> (case json_parse col of Some (JArr _) \<Rightarrow> True | Some (JStr _) \<Rightarrow> True | _ \<Rightarrow> False))"

lemma every_tag_readable: "\<not> isl (every_tag (JArr xs) ts)" "\<not> isl (every_tag (JStr s) ts)"
  by (induction ts) (auto split: bool.splits)

lemma tags_admit_readable: "sf_tags f = [] \<or> tags_readable r \<Longrightarrow> \<not> isl (tags_admit f r)"
  by (auto simp: tags_admit_def tags_readable_def every_tag_readable json_parse_empty split: option.splits list.splits json.splits)

lemma collect_readable:
  "\<forall>r \<in> set rs. row_readable r \<and> (sf_tags f = [] \<or> tags_readable r) \<Longrightarrow> \<not> isl (collect_results f rs)"
proof (induction rs)
  case (Cons r rs)
  then have "\<not> isl (collect_results f rs)" "\<not> isl (to_search_result r)" "\<not> isl (tags_admit f r)"
    by (simp_all add: readable_result tags_admit_readable)
  then show ?case
    by (cases "collect_results f rs"; cases "to_search_result r"; cases "tags_admit f r") simp_all
qed simp

text \<open>
  C24: On a table whose keys are unique and whose rows all hold a readable frontmatter object,
  recording an entry whose texts are sequences of code units, updating one with a patch of such
  texts while the codec reads well-formed frontmatter, and marking hits leave such a table, also
  when they fail half-way; the driver is taken to bind strings as they are and to match rows of the
  table only. On such a table \<open>get\<close> never throws, nor does a search without a tag
  filter, nor one with tags if every tags column is missing, empty or the text of an array or a
  string.
\<close>

theorem entries_stay_readable:
  assumes "table_ok (es_db st)" and "binds_strings b"
  shows "(\<forall>env root source input r st'. input_units env input \<and> record_entry env co b root source input st = Some (r, st') \<longrightarrow>
      table_ok (es_db st')) \<and>
    (\<forall>env lower root source eid patch r st'. files_parse co st \<and> wf_json (JObj (or_else (up_frontmatter patch) [])) \<and>
      update_entry env co b lower root source eid patch st = (r, st') \<longrightarrow> table_ok (es_db st')) \<and>
    (\<forall>now keys. table_ok (mark_hit now keys (es_db st))) \<and>
    (\<forall>eid source. \<not> isl (get_entry (es_db st) eid source)) \<and>
    (\<forall>cls e query f limit. engine_ok e \<and> (sf_tags f = [] \<or> (\<forall>r \<in> set (rows (es_db st)). tags_readable r)) \<longrightarrow> \<not> isl (search_entries cls e query (Some f) limit (es_db st)))"
proof (intro conjI allI impI)
  show "\<not> isl (get_entry (es_db st) eid source)" for eid source
  proof (cases "find_row (es_db st) source eid")
    case (Some r)
    with assms(1) find_row_Some [OF Some] have "row_readable r" by (auto simp: table_ok_def)
    with Some show ?thesis by (auto simp: get_entry_def row_readable_def)
  qed (simp add: get_entry_def)
  show "\<not> isl (search_entries cls e query (Some f) limit (es_db st))" if "engine_ok e \<and> (sf_tags f = [] \<or> (\<forall>r \<in> set (rows (es_db st)). tags_readable r))" for cls e query f limit
    using that assms(1) search_rows_admitted [of e _ cls query f "or_else limit 50" "es_db st"]
    by (auto simp: search_entries_def or_else_def [of "Some f"] table_ok_def intro!: collect_readable)
qed (use assms in \<open>auto intro: record_entry_ok update_entry_ok mark_hit_ok\<close>)

theorem entries_stay_readable_witness:
  "\<exists>res st'. record_entry toy_env toy_codec toy_binding (lit ''/e'') (lit ''own'') toy_input toy_store = Some (Inr res, st') \<and>
     table_ok (es_db st')"
proof -
  obtain r st' where rec: "record_entry toy_env toy_codec toy_binding (lit ''/e'') (lit ''own'') toy_input toy_store = Some (Inr r, st')"
    using toy_record by blast
  have "table_ok (es_db toy_store)" by (simp add: table_ok_def toy_store_def) (simp add: empty_db_def)
  from conjunct1 [OF entries_stay_readable [OF this toy_binds]] rec toy_units show ?thesis by blast
qed

end
