(* ===== verification/HookSearch.thy ===== *)
theory HookSearch
  imports Retrieval
begin

text \<open>
  The search behind the hooks, \<open>packages/core/src/claudeHooks.ts\<close>: the tokens of a prompt, the
  match of a token against an entry, and the three gates an entry passes before it is shown. The
  full-text match of one phrase (\<open>fts\<close>, None where SQLite throws), the classes of letters
  and digits (\<open>cls\<close>), the full letter-case table (\<open>lower\<close>) and the word segmenter are
  arguments. Lemmas: a search shows exactly the entries of the declarative three gates, at most the
  limit of them and best first; what an error shows was matched in the error's own output.
\<close>

subsection \<open>Tokens\<close>

definition cjk_char :: "nat \<Rightarrow> bool" where
  "cjk_char c \<longleftrightarrow> (12352 \<le> c \<and> c \<le> 12543) \<or> (19968 \<le> c \<and> c \<le> 40959) \<or> (65382 \<le> c \<and> c \<le> 65439)"

definition hiragana :: "nat \<Rightarrow> bool" where
  "hiragana c \<longleftrightarrow> 12352 \<le> c \<and> c \<le> 12447"

definition is_cjk_dominated :: "jstr \<Rightarrow> bool" where
  "is_cjk_dominated token \<longleftrightarrow> list_ex cjk_char token"

definition is_pure_hiragana :: "jstr \<Rightarrow> bool" where
  "is_pure_hiragana token \<longleftrightarrow> token \<noteq> [] \<and> list_all hiragana token"

text \<open>The pattern has the flag \<open>u\<close>, so both sides are read by code points.\<close>

definition boundary_rx :: "(nat \<Rightarrow> bool) \<Rightarrow> jstr \<Rightarrow> rx" where
  "boundary_rx cls token = Sq (Or Bol (Ch (\<lambda>c. \<not> cls c))) (Sq (rx_str (code_points token)) (Or (Ch (\<lambda>c. \<not> cls c)) Eol))"

definition token_appears_in :: "(nat \<Rightarrow> bool) \<Rightarrow> jstr \<Rightarrow> jstr \<Rightarrow> bool" where
  "token_appears_in cls token text' \<longleftrightarrow>
     text' \<noteq> [] \<and>
     (if is_cjk_dominated token then has_sub token text' else rx_test (boundary_rx cls token) (code_points text'))"

record prompt_candidate =
  pc_token :: jstr
  pc_group :: nat

definition token_min :: nat where "token_min = 3"

definition expand_token :: "jstr \<Rightarrow> nat \<Rightarrow> prompt_candidate list" where
  "expand_token token g =
     (if is_cjk_dominated token
      then map (\<lambda>tri. \<lparr>pc_token = tri, pc_group = g\<rparr>)
             (filter (\<lambda>tri. \<not> is_pure_hiragana tri)
               (map (\<lambda>i. slice token i (i + token_min)) [0..<Suc (length token) - token_min]))
      else if length token \<ge> token_min then [\<lparr>pc_token = token, pc_group = g\<rparr>] else [])"

text \<open>
  \<open>s.replace(/(^|[\s=>"'(])\<dots>/g, '$1 ')\<close>: the group is empty where the rest of the pattern matches
  at the start of the text, and one character otherwise.
\<close>

definition lead_char :: "nat \<Rightarrow> bool" where
  "lead_char c \<longleftrightarrow> is_space c \<or> c \<in> {61, 62, 34, 39, 40}"

fun replace_lead :: "rx \<Rightarrow> jstr \<Rightarrow> nat \<Rightarrow> (nat \<times> nat) list \<Rightarrow> jstr" where
  "replace_lead rest s i [] = drop i s"
| "replace_lead rest s i ((p, e) # ms) =
     slice s i p @ (if p = 0 \<and> ends rest s 0 \<noteq> [] then [] else slice s p (Suc p)) @ [32] @ replace_lead rest s e ms"

definition strip_lead :: "rx \<Rightarrow> jstr \<Rightarrow> jstr" where
  "strip_lead rest s = replace_lead rest s 0 (match_all (Sq (Or Bol (Ch lead_char)) rest) s 0)"

definition unc_rx :: rx where
  "unc_rx = Sq (rx_str [92, 92]) (rx_many (\<lambda>c. \<not> is_space c) 1)"

definition drive_rx :: rx where
  "drive_rx = Sq (Ch is_alpha) (Sq (Ch (\<lambda>c. c = 58)) (Sq (Ch (\<lambda>c. c = 92 \<or> c = 47)) (rx_many (\<lambda>c. \<not> is_space c) 0)))"

definition posix_rx :: rx where
  "posix_rx = Sq (Ch (\<lambda>c. c = 47)) (Sq (Rep (Sq (rx_many (\<lambda>c. \<not> is_space c \<and> c \<noteq> 47) 1) (Ch (\<lambda>c. c = 47))) 1 None)
     (rx_many (\<lambda>c. \<not> is_space c \<and> c \<noteq> 47) 0))"

definition strip_fs_paths :: "jstr \<Rightarrow> jstr" where
  "strip_fs_paths s = strip_lead posix_rx (strip_lead drive_rx (rx_replace unc_rx s [32]))"

definition expand_tokens :: "jstr list \<Rightarrow> prompt_candidate list" where
  "expand_tokens tokens = concat (map (\<lambda>(i, t). expand_token t i) (enumerate 0 tokens))"

definition build_prompt_candidates :: "(nat \<Rightarrow> bool) \<Rightarrow> (jstr \<Rightarrow> jstr) \<Rightarrow> jstr \<Rightarrow> prompt_candidate list" where
  "build_prompt_candidates cls lower prompt =
     take 50 (unique_by (\<lambda>c. lower (pc_token c)) [] (expand_tokens (words [] (query_clean cls (strip_fs_paths prompt)))))"

text \<open>A prompt that is no string is None.\<close>

definition extract_prompt_candidates :: "(nat \<Rightarrow> bool) \<Rightarrow> (jstr \<Rightarrow> jstr) \<Rightarrow> jstr option \<Rightarrow> jstr list" where
  "extract_prompt_candidates cls lower prompt =
     (case prompt of None \<Rightarrow> [] | Some [] \<Rightarrow> [] | Some p \<Rightarrow> map pc_token (build_prompt_candidates cls lower p))"

subsection \<open>Words for a remote judge\<close>

text \<open>The two lookarounds put a blank between a letter or digit and a character of the other script.\<close>

fun split_scripts :: "jstr \<Rightarrow> jstr" where
  "split_scripts (a # b # s) =
     (if (is_alnum a \<and> cjk_char b) \<or> (cjk_char a \<and> is_alnum b) then a # 32 # split_scripts (b # s) else a # split_scripts (b # s))"
| "split_scripts s = s"

text \<open>\<open>match(/[\p\{L\}\p\{N\}]+/gu)\<close>: the runs of letters and numbers, by code points.\<close>

fun class_runs :: "(nat \<Rightarrow> bool) \<Rightarrow> jstr \<Rightarrow> nat list \<Rightarrow> jstr list" where
  "class_runs cls acc [] = (if acc = [] then [] else [acc])"
| "class_runs cls acc (c # cs) =
     (if cls c then class_runs cls (acc @ utf16_cp c) cs
      else (if acc = [] then [] else [acc]) @ class_runs cls [] cs)"

record segment =
  sg_text :: jstr
  sg_index :: nat

definition joined_pair :: "segment \<Rightarrow> segment list \<Rightarrow> jstr list" where
  "joined_pair part later =
     (if is_cjk_dominated (sg_text part) \<and> length (sg_text part) < 3
      then (case later of
          [] \<Rightarrow> []
        | nxt # _ \<Rightarrow>
            (let joined = sg_text part @ sg_text nxt in
             if sg_index nxt = sg_index part + length (sg_text part) \<and> is_cjk_dominated (sg_text nxt) \<and>
                \<not> is_pure_hiragana (sg_text part) \<and> \<not> is_pure_hiragana (sg_text nxt) \<and>
                length joined \<ge> 3 \<and> \<not> is_pure_hiragana joined
             then [joined] else []))
      else [])"

fun segment_words :: "(nat \<Rightarrow> bool) \<Rightarrow> segment list \<Rightarrow> jstr list" where
  "segment_words cls [] = []"
| "segment_words cls (part # later) =
     filter (\<lambda>piece. length piece \<ge> 3 \<and> \<not> is_pure_hiragana piece) (class_runs cls [] (code_points (sg_text part))) @
     joined_pair part later @ segment_words cls later"

text \<open>\<open>segments\<close>: the segments of a text that are like words.\<close>

definition extract_search_word_candidates :: "(nat \<Rightarrow> bool) \<Rightarrow> (jstr \<Rightarrow> segment list) \<Rightarrow> jstr \<Rightarrow> jstr list" where
  "extract_search_word_candidates cls segments s = segment_words cls (segments (split_scripts (strip_fs_paths s)))"

text \<open>The name of the user and the home directory, None where the runtime throws.\<close>

fun split_path_sep :: "jstr \<Rightarrow> jstr list" where
  "split_path_sep s = concat (map (split_on 92) (split_on 47 s))"

definition default_self_identity_tokens :: "(jstr \<Rightarrow> jstr) \<Rightarrow> jstr option \<Rightarrow> jstr option \<Rightarrow> jstr list" where
  "default_self_identity_tokens lower username home =
     (let out = (case username of None \<Rightarrow> [] | Some u \<Rightarrow> if length u \<ge> token_min then set_add [] (lower u) else []) in
      case home of
        None \<Rightarrow> out
      | Some h \<Rightarrow> foldl (\<lambda>out part. if length part \<ge> token_min then set_add out (lower part) else out) out (split_path_sep h))"

subsection \<open>The search\<close>

record hook_engine =
  he_class :: "nat \<Rightarrow> bool"
  he_lower :: "jstr \<Rightarrow> jstr"
  he_fts :: "jstr \<Rightarrow> row list \<Rightarrow> row list option"

text \<open>What is relied on: a match returns rows of the table, each once.\<close>

definition fts_ok :: "hook_engine \<Rightarrow> row list \<Rightarrow> bool" where
  "fts_ok e table \<longleftrightarrow> distinct (map r_rowid table) \<and>
     (\<forall>q found. he_fts e q table = Some found \<longrightarrow> set found \<subseteq> set table \<and> distinct (map r_rowid found))"

record entry_match =
  em_groups :: "nat list"
  em_symptom :: "jstr list"
  em_topical :: "jstr list"
  em_row :: row

text \<open>The lower case of a text that is there and not empty.\<close>

definition lowered :: "hook_engine \<Rightarrow> jstr option \<Rightarrow> jstr option" where
  "lowered e t = (case t of None \<Rightarrow> None | Some [] \<Rightarrow> None | Some s \<Rightarrow> Some (he_lower e s))"

definition appears :: "hook_engine \<Rightarrow> jstr \<Rightarrow> jstr option \<Rightarrow> bool" where
  "appears e tok t = (case lowered e t of None \<Rightarrow> False | Some s \<Rightarrow> token_appears_in (he_class e) tok s)"

definition note_match :: "hook_engine \<Rightarrow> jstr list option \<Rightarrow> prompt_candidate \<Rightarrow> entry_match \<Rightarrow> entry_match" where
  "note_match e evidence cand m =
     (let tok = he_lower e (pc_token cand) in
      m\<lparr>em_groups := set_add (em_groups m) (pc_group cand),
        em_symptom := (if (case evidence of None \<Rightarrow> True | Some ts \<Rightarrow> tok \<in> set ts) \<and> appears e tok (r_symptom (em_row m))
          then set_add (em_symptom m) tok else em_symptom m),
        em_topical := (if appears e tok (r_topical (em_row m)) then set_add (em_topical m) tok else em_topical m)\<rparr>)"

definition add_row :: "hook_engine \<Rightarrow> jstr list option \<Rightarrow> prompt_candidate \<Rightarrow> (nat \<times> entry_match) list \<Rightarrow> row \<Rightarrow> (nat \<times> entry_match) list" where
  "add_row e evidence cand per r =
     map_set per (r_rowid r) (note_match e evidence cand
       (or_else (map_of per (r_rowid r)) \<lparr>em_groups = [], em_symptom = [], em_topical = [], em_row = r\<rparr>))"

definition phrase_query :: "jstr \<Rightarrow> jstr" where
  "phrase_query token = 34 # token @ [34]"

fun search_tokens ::
  "hook_engine \<Rightarrow> jstr list option \<Rightarrow> row list \<Rightarrow> (nat \<times> entry_match) list \<Rightarrow> (jstr \<times> nat) list \<Rightarrow>
   prompt_candidate list \<Rightarrow> (nat \<times> entry_match) list \<times> (jstr \<times> nat) list" where
  "search_tokens e evidence table per df [] = (per, df)"
| "search_tokens e evidence table per df (cand # cands) =
     (let tok = he_lower e (pc_token cand) in
      if tok \<in> fst ` set df then search_tokens e evidence table per df cands
      else (case he_fts e (phrase_query (pc_token cand)) table of
          None \<Rightarrow> search_tokens e evidence table per (map_set df tok 0) cands
        | Some found \<Rightarrow> search_tokens e evidence table (foldl (add_row e evidence cand) per found)
            (map_set df tok (length found)) cands))"

definition rare_tokens :: "(jstr \<times> nat) list \<Rightarrow> jstr list" where
  "rare_tokens df =
     (let valid = filter (\<lambda>(_, n). n > 0) df in map fst (filter (\<lambda>(_, n). n = Min (snd ` set valid)) valid))"

definition passes_gates :: "nat \<Rightarrow> jstr list \<Rightarrow> entry_match \<Rightarrow> bool" where
  "passes_gates minMatches rare m \<longleftrightarrow>
     length (em_groups m) \<ge> minMatches \<and> em_symptom m \<noteq> [] \<and> list_ex (\<lambda>t. t \<in> set rare) (em_topical m)"

definition known_candidates :: "hook_engine \<Rightarrow> jstr list option \<Rightarrow> jstr \<Rightarrow> prompt_candidate list" where
  "known_candidates e selfIds prompt =
     filter (\<lambda>c. case selfIds of None \<Rightarrow> True | Some ids \<Rightarrow> he_lower e (pc_token c) \<notin> set ids)
       (build_prompt_candidates (he_class e) (he_lower e) prompt)"

definition min_matches :: "prompt_candidate list \<Rightarrow> nat" where
  "min_matches cands = min 2 (length (remdups (map pc_group cands)))"

text \<open>The rows in the order they are shown, before the limit.\<close>

definition gated_rows :: "hook_engine \<Rightarrow> row list \<Rightarrow> prompt_candidate list \<Rightarrow> jstr list option \<Rightarrow> row list" where
  "gated_rows e table cands evidence =
     (case search_tokens e evidence table [] [] cands of
        (per, df) \<Rightarrow>
          if list_all (\<lambda>(_, n). n = 0) df then []
          else map em_row (sort_key (\<lambda>m. - int (length (em_groups m)))
            (filter (passes_gates (min_matches cands) (rare_tokens df)) (map snd per))))"

record hook_options =
  ho_limit :: "int option"
  ho_self :: "jstr list option"

definition find_caveats_for_text ::
  "hook_engine \<Rightarrow> row list \<Rightarrow> jstr option \<Rightarrow> hook_options \<Rightarrow> jstr list option \<Rightarrow> entry_error + search_result list" where
  "find_caveats_for_text e table prompt opts evidence =
     (case prompt of
        None \<Rightarrow> Inr []
      | Some p \<Rightarrow>
          (if p = [] then Inr []
           else try_map to_search_result
             (slice_first (or_else (ho_limit opts) 5) (gated_rows e table (known_candidates e (ho_self opts) p) evidence))))"

definition find_caveats_for_prompt :: "hook_engine \<Rightarrow> row list \<Rightarrow> jstr option \<Rightarrow> hook_options \<Rightarrow> entry_error + search_result list" where
  "find_caveats_for_prompt e table prompt opts = find_caveats_for_text e table prompt opts None"

datatype hook_surface = User_prompt | Tool_error | Stop_hook

record hook_input =
  hi_topic :: jstr
  hi_failure :: jstr
  hi_surface :: hook_surface

definition failure_tokens :: "hook_engine \<Rightarrow> jstr \<Rightarrow> jstr list" where
  "failure_tokens e s = map (\<lambda>c. he_lower e (pc_token c)) (build_prompt_candidates (he_class e) (he_lower e) s)"

definition find_caveats_for_hook :: "hook_engine \<Rightarrow> row list \<Rightarrow> hook_input \<Rightarrow> hook_options \<Rightarrow> entry_error + search_result list" where
  "find_caveats_for_hook e table inp opts =
     (case hi_surface inp of
        User_prompt \<Rightarrow> find_caveats_for_text e table (Some (if hi_topic inp \<noteq> [] then hi_topic inp else hi_failure inp)) opts None
      | Stop_hook \<Rightarrow> find_caveats_for_text e table (Some (hi_failure inp)) opts None
      | Tool_error \<Rightarrow> find_caveats_for_text e table
          (Some (join [10] (filter (\<lambda>s. s \<noteq> []) [hi_topic inp, hi_failure inp]))) opts (Some (failure_tokens e (hi_failure inp))))"

text \<open>The inner loop over the hits of one input; True when the limit ends the search.\<close>

definition hit_key :: "search_result \<Rightarrow> jstr" where
  "hit_key hit = se_source hit @ 0 # se_id hit"

fun take_hits :: "int \<Rightarrow> search_result list \<Rightarrow> search_result list \<Rightarrow> search_result list \<times> bool" where
  "take_hits limit out [] = (out, False)"
| "take_hits limit out (hit # hits) =
     (if hit_key hit \<in> hit_key ` set out then take_hits limit out hits
      else if int (length out) + 1 \<ge> limit then (out @ [hit], True)
      else take_hits limit (out @ [hit]) hits)"

fun search_segments ::
  "hook_engine \<Rightarrow> row list \<Rightarrow> hook_options \<Rightarrow> int \<Rightarrow> search_result list \<Rightarrow> hook_input list \<Rightarrow> entry_error + search_result list" where
  "search_segments e table opts limit out [] = Inr out"
| "search_segments e table opts limit out (inp # inps) =
     try_then (find_caveats_for_hook e table inp (opts\<lparr>ho_limit := Some limit\<rparr>)) (\<lambda>hits.
       case take_hits limit out hits of (out', stop) \<Rightarrow> if stop then Inr out' else search_segments e table opts limit out' inps)"

definition find_caveats_for_hook_segments ::
  "hook_engine \<Rightarrow> row list \<Rightarrow> hook_input list \<Rightarrow> hook_options \<Rightarrow> entry_error + search_result list" where
  "find_caveats_for_hook_segments e table inps opts =
     search_segments e table opts (or_else (ho_limit opts) 5) [] inps"

subsection \<open>The three gates\<close>

definition matched :: "hook_engine \<Rightarrow> row list \<Rightarrow> row \<Rightarrow> prompt_candidate \<Rightarrow> bool" where
  "matched e table r c \<longleftrightarrow> (case he_fts e (phrase_query (pc_token c)) table of None \<Rightarrow> False | Some found \<Rightarrow> r \<in> set found)"

definition frequency :: "hook_engine \<Rightarrow> row list \<Rightarrow> prompt_candidate \<Rightarrow> nat" where
  "frequency e table c = (case he_fts e (phrase_query (pc_token c)) table of None \<Rightarrow> 0 | Some found \<Rightarrow> length found)"

definition lower_token :: "hook_engine \<Rightarrow> prompt_candidate \<Rightarrow> jstr" where
  "lower_token e c = he_lower e (pc_token c)"

definition evident :: "hook_engine \<Rightarrow> jstr list option \<Rightarrow> prompt_candidate \<Rightarrow> bool" where
  "evident e evidence c = (case evidence of None \<Rightarrow> True | Some ts \<Rightarrow> lower_token e c \<in> set ts)"

definition matched_groups :: "hook_engine \<Rightarrow> row list \<Rightarrow> prompt_candidate list \<Rightarrow> row \<Rightarrow> nat set" where
  "matched_groups e table cands r = pc_group ` set (filter (matched e table r) cands)"

text \<open>What the comments of the source promise: co-occurrence, the situation, the rare topic.\<close>

definition three_gates :: "hook_engine \<Rightarrow> row list \<Rightarrow> prompt_candidate list \<Rightarrow> jstr list option \<Rightarrow> row \<Rightarrow> bool" where
  "three_gates e table cands evidence r \<longleftrightarrow>
     min 2 (card (pc_group ` set cands)) \<le> card (matched_groups e table cands r) \<and>
     (\<exists>c \<in> set cands. matched e table r c \<and> evident e evidence c \<and> appears e (lower_token e c) (r_symptom r)) \<and>
     (\<exists>c \<in> set cands. matched e table r c \<and> appears e (lower_token e c) (r_topical r) \<and>
        (\<forall>c' \<in> set cands. 0 < frequency e table c' \<longrightarrow> frequency e table c \<le> frequency e table c'))"

definition fresh_match :: "row \<Rightarrow> entry_match" where
  "fresh_match r = \<lparr>em_groups = [], em_symptom = [], em_topical = [], em_row = r\<rparr>"

definition match_of :: "hook_engine \<Rightarrow> jstr list option \<Rightarrow> row \<Rightarrow> prompt_candidate list \<Rightarrow> entry_match" where
  "match_of e evidence r cs = foldl (\<lambda>m c. note_match e evidence c m) (fresh_match r) cs"

lemma note_match_alt:
  "note_match e ev c m = m\<lparr>em_groups := set_add (em_groups m) (pc_group c),
     em_symptom := (if evident e ev c \<and> appears e (lower_token e c) (r_symptom (em_row m))
       then set_add (em_symptom m) (lower_token e c) else em_symptom m),
     em_topical := (if appears e (lower_token e c) (r_topical (em_row m))
       then set_add (em_topical m) (lower_token e c) else em_topical m)\<rparr>"
  by (cases ev) (simp_all add: note_match_def lower_token_def evident_def Let_def)

lemma match_of_snoc: "match_of e ev r (cs @ [c]) = note_match e ev c (match_of e ev r cs)"
  by (simp add: match_of_def)

lemma match_of_row [simp]: "em_row (match_of e ev r cs) = r"
  by (induction cs rule: rev_induct) (simp_all add: match_of_def fresh_match_def note_match_def Let_def)

lemma match_of_groups:
  "set (em_groups (match_of e ev r cs)) = pc_group ` set cs \<and> distinct (em_groups (match_of e ev r cs))"
proof (induction cs rule: rev_induct)
  case (snoc c cs)
  then show ?case unfolding match_of_snoc by (simp add: note_match_def Let_def)
qed (simp add: match_of_def fresh_match_def)

lemma match_of_symptom:
  "set (em_symptom (match_of e ev r cs)) =
     {lower_token e c | c. c \<in> set cs \<and> evident e ev c \<and> appears e (lower_token e c) (r_symptom r)}"
proof (induction cs rule: rev_induct)
  case (snoc c cs)
  then show ?case unfolding match_of_snoc
    by (auto simp: note_match_alt)
qed (simp add: match_of_def fresh_match_def)

lemma match_of_topical:
  "set (em_topical (match_of e ev r cs)) = {lower_token e c | c. c \<in> set cs \<and> appears e (lower_token e c) (r_topical r)}"
proof (induction cs rule: rev_induct)
  case (snoc c cs)
  then show ?case unfolding match_of_snoc by (auto simp: note_match_alt)
qed (simp add: match_of_def fresh_match_def)

lemma map_of_add_row:
  "map_of (add_row e ev c per r) i =
     (if i = r_rowid r then Some (note_match e ev c (or_else (map_of per i) (fresh_match r))) else map_of per i)"
  by (simp add: add_row_def fresh_match_def)

lemma add_rows:
  assumes "distinct (map r_rowid found)"
  shows "map_of (foldl (add_row e ev c) per found) i =
    (case find (\<lambda>r. r_rowid r = i) found of None \<Rightarrow> map_of per i
     | Some r \<Rightarrow> Some (note_match e ev c (or_else (map_of per i) (fresh_match r))))"
  using assms
proof (induction found arbitrary: per)
  case (Cons r found)
  have none: "find (\<lambda>x. r_rowid x = r_rowid r) found = None"
    using Cons.prems by (simp add: find_None_iff) (metis imageI)
  have step: "map_of (foldl (add_row e ev c) per (r # found)) i =
    (case find (\<lambda>r. r_rowid r = i) found of None \<Rightarrow> map_of (add_row e ev c per r) i
     | Some r' \<Rightarrow> Some (note_match e ev c (or_else (map_of (add_row e ev c per r) i) (fresh_match r'))))"
    using Cons.IH [of "add_row e ev c per r"] Cons.prems by simp
  show ?case unfolding step using none by (auto simp: map_of_add_row split: option.splits)
qed simp

lemma add_rows_keys:
  "distinct (map fst per) \<Longrightarrow>
     distinct (map fst (foldl (add_row e ev c) per found)) \<and>
     fst ` set (foldl (add_row e ev c) per found) = fst ` set per \<union> r_rowid ` set found"
  by (induction found arbitrary: per) (auto simp: add_row_def)


lemma find_unique:
  assumes "distinct (map f table)" "set found \<subseteq> set table" "r \<in> set table"
  shows "find (\<lambda>x. f x = f r) found = (if r \<in> set found then Some r else None)"
proof -
  have same: "x = r" if "x \<in> set found" "f x = f r" for x
    using assms that by (auto simp: distinct_map dest: inj_onD)
  then show ?thesis
  proof (cases "r \<in> set found")
    case True
    then have "find (\<lambda>x. f x = f r) found \<noteq> None" by (auto simp: find_None_iff)
    then obtain x where x: "find (\<lambda>x. f x = f r) found = Some x" by auto
    then have "x \<in> set found" "f x = f r" by (auto simp: find_Some_iff)
    with same x True show ?thesis by simp
  qed (auto simp: find_None_iff)
qed

definition search_inv ::
  "hook_engine \<Rightarrow> jstr list option \<Rightarrow> row list \<Rightarrow> prompt_candidate list \<Rightarrow> (nat \<times> entry_match) list \<Rightarrow> (jstr \<times> nat) list \<Rightarrow> bool" where
  "search_inv e ev table seen per df \<longleftrightarrow>
     distinct (map fst per) \<and> fst ` set per \<subseteq> r_rowid ` set table \<and>
     (\<forall>r \<in> set table. map_of per (r_rowid r) =
        (let cs = filter (matched e table r) seen in if cs = [] then None else Some (match_of e ev r cs))) \<and>
     df = map (\<lambda>c. (lower_token e c, frequency e table c)) seen"

lemma map_set_fresh: "k \<notin> fst ` set m \<Longrightarrow> map_set m k v = m @ [(k, v)]"
  by (induction m k v rule: map_set.induct) auto

lemma search_inv_skip:
  assumes "search_inv e ev table seen per df" "he_fts e (phrase_query (pc_token c)) table = None"
    "lower_token e c \<notin> lower_token e ` set seen"
  shows "search_inv e ev table (seen @ [c]) per (map_set df (lower_token e c) 0)"
proof -
  have "df = map (\<lambda>c. (lower_token e c, frequency e table c)) seen"
    using assms(1) by (simp add: search_inv_def)
  then have "map_set df (lower_token e c) 0 = df @ [(lower_token e c, 0)]"
    using assms(3) by (intro map_set_fresh) force
  with assms(1,2) show ?thesis
    by (simp add: search_inv_def matched_def frequency_def)
qed

lemma search_inv_found:
  assumes inv: "search_inv e ev table seen per df" and found: "he_fts e (phrase_query (pc_token c)) table = Some found"
    and new: "lower_token e c \<notin> lower_token e ` set seen" and ok: "fts_ok e table"
  shows "search_inv e ev table (seen @ [c]) (foldl (add_row e ev c) per found) (map_set df (lower_token e c) (length found))"
proof -
  have f: "set found \<subseteq> set table" "distinct (map r_rowid found)" "distinct (map r_rowid table)"
    using ok found by (auto simp: fts_ok_def)
  have df: "df = map (\<lambda>c. (lower_token e c, frequency e table c)) seen"
    using inv by (simp add: search_inv_def)
  then have df': "map_set df (lower_token e c) (length found) = df @ [(lower_token e c, length found)]"
    using new by (intro map_set_fresh) force
  have keys: "distinct (map fst (foldl (add_row e ev c) per found))"
    "fst ` set (foldl (add_row e ev c) per found) = fst ` set per \<union> r_rowid ` set found"
    using add_rows_keys [of per e ev c found] inv by (simp_all add: search_inv_def)
  have "map_of (foldl (add_row e ev c) per found) (r_rowid r) =
      (let cs = filter (matched e table r) (seen @ [c]) in if cs = [] then None else Some (match_of e ev r cs))"
    if r: "r \<in> set table" for r
  proof -
    have old: "map_of per (r_rowid r) =
        (let cs = filter (matched e table r) seen in if cs = [] then None else Some (match_of e ev r cs))"
      using inv r by (simp add: search_inv_def)
    have m: "matched e table r c \<longleftrightarrow> r \<in> set found" using found by (simp add: matched_def)
    show ?thesis
      unfolding add_rows [OF f(2)] find_unique [OF f(3,1) r] old
      by (simp add: m Let_def or_else_def match_of_snoc [symmetric]) (simp add: match_of_def)
  qed
  then show ?thesis
    using inv keys f(1) df df' found by (auto simp: search_inv_def frequency_def)
qed

lemma search_tokens_inv:
  assumes "fts_ok e table"
  shows "search_inv e ev table seen per df \<Longrightarrow> distinct (map (lower_token e) (seen @ cands)) \<Longrightarrow>
    (case search_tokens e ev table per df cands of (per', df') \<Rightarrow> search_inv e ev table (seen @ cands) per' df')"
proof (induction cands arbitrary: seen per df)
  case (Cons c cands)
  have new: "lower_token e c \<notin> lower_token e ` set seen" using Cons.prems(2) by auto
  have out: "he_lower e (pc_token c) \<notin> fst ` set df"
    using new Cons.prems(1) by (auto simp: search_inv_def lower_token_def)
  have d: "distinct (map (lower_token e) ((seen @ [c]) @ cands))" using Cons.prems(2) by simp
  show ?case
  proof (cases "he_fts e (phrase_query (pc_token c)) table")
    case None
    from Cons.IH [OF search_inv_skip [OF Cons.prems(1) None new] d] show ?thesis
      using out None by (simp add: Let_def lower_token_def)
  next
    case (Some found)
    from Cons.IH [OF search_inv_found [OF Cons.prems(1) Some new assms] d] show ?thesis
      using out Some by (simp add: Let_def lower_token_def)
  qed
qed simp


lemma rare_tokens_iff:
  assumes df: "df = map (\<lambda>c. (lower_token e c, frequency e table c)) cands" and d: "distinct (map (lower_token e) cands)"
    and c: "c \<in> set cands" "0 < frequency e table c"
  shows "lower_token e c \<in> set (rare_tokens df) \<longleftrightarrow>
    (\<forall>c' \<in> set cands. 0 < frequency e table c' \<longrightarrow> frequency e table c \<le> frequency e table c')"
proof -
  let ?F = "{frequency e table c' | c'. c' \<in> set cands \<and> 0 < frequency e table c'}"
  have valid: "snd ` set (filter (\<lambda>(_, n). n > 0) df) = ?F" by (force simp: df image_def)
  have fin: "finite ?F" by (rule finite_subset [of _ "frequency e table ` set cands"]) auto
  have inj: "c' = c" if "c' \<in> set cands" "lower_token e c' = lower_token e c" for c'
    using d c(1) that by (auto simp: distinct_map dest: inj_onD)
  define M where "M = Min ?F"
  have "rare_tokens df = map fst (filter (\<lambda>(_, n). n = M) (filter (\<lambda>(_, n). n > 0) df))"
    by (simp only: rare_tokens_def Let_def valid M_def)
  then have rare: "set (rare_tokens df) = lower_token e ` {c' \<in> set cands. 0 < frequency e table c' \<and> frequency e table c' = M}"
    by (simp add: df filter_map o_def)
  have "lower_token e c \<in> set (rare_tokens df) \<longleftrightarrow>
      (\<exists>c' \<in> set cands. lower_token e c = lower_token e c' \<and> 0 < frequency e table c' \<and> frequency e table c' = M)"
    unfolding rare image_iff by auto
  also have "\<dots> \<longleftrightarrow> frequency e table c = M" using inj [OF _ sym] c by blast
  also have "\<dots> \<longleftrightarrow> (\<forall>n \<in> ?F. frequency e table c \<le> n)"
    unfolding M_def using fin c by (subst eq_Min_iff) auto
  finally show ?thesis by auto
qed

lemma matched_frequency: "fts_ok e table \<Longrightarrow> matched e table r c \<Longrightarrow> 0 < frequency e table c \<and> r \<in> set table"
  by (auto simp: matched_def frequency_def fts_ok_def split: option.splits)

lemma passes_gates_iff:
  assumes ok: "fts_ok e table" and d: "distinct (map (lower_token e) cands)" and r: "r \<in> set table"
    and df: "df = map (\<lambda>c. (lower_token e c, frequency e table c)) cands"
  shows "passes_gates (min_matches cands) (rare_tokens df) (match_of e ev r (filter (matched e table r) cands)) \<longleftrightarrow>
    three_gates e table cands ev r"
proof -
  let ?cs = "filter (matched e table r) cands"
  let ?m = "match_of e ev r ?cs"
  have g: "length (em_groups ?m) = card (matched_groups e table cands r)"
    using match_of_groups [of e ev r ?cs] by (auto simp: matched_groups_def distinct_card [symmetric] intro!: arg_cong [where f = card])
  have m: "min_matches cands = min 2 (card (pc_group ` set cands))"
    by (simp add: min_matches_def length_remdups_card_conv)
  have s: "em_symptom ?m \<noteq> [] \<longleftrightarrow>
      (\<exists>c \<in> set cands. matched e table r c \<and> evident e ev c \<and> appears e (lower_token e c) (r_symptom r))"
    using match_of_symptom [of e ev r ?cs] by (subst set_empty [symmetric]) auto
  have t: "list_ex (\<lambda>t. t \<in> set (rare_tokens df)) (em_topical ?m) \<longleftrightarrow>
      (\<exists>c \<in> set cands. matched e table r c \<and> appears e (lower_token e c) (r_topical r) \<and> lower_token e c \<in> set (rare_tokens df))"
    by (auto simp: list_ex_iff match_of_topical)
  have u: "lower_token e c \<in> set (rare_tokens df) \<longleftrightarrow>
      (\<forall>c' \<in> set cands. 0 < frequency e table c' \<longrightarrow> frequency e table c \<le> frequency e table c')"
    if "c \<in> set cands" "matched e table r c" for c
    using rare_tokens_iff [OF df d that(1)] matched_frequency [OF ok that(2)] by simp
  show ?thesis unfolding passes_gates_def three_gates_def g m s t using u by blast
qed

lemma map_entry:
  assumes "distinct (map fst per)" "fst ` set per \<subseteq> r_rowid ` set table"
    and "\<forall>r \<in> set table. map_of per (r_rowid r) = (if P r then Some (F r) else None)"
  shows "snd ` set per = F ` {r \<in> set table. P r}"
proof
  show "snd ` set per \<subseteq> F ` {r \<in> set table. P r}"
  proof
    fix m assume "m \<in> snd ` set per"
    then obtain i where im: "(i, m) \<in> set per" by auto
    with assms(2) obtain r where r: "r \<in> set table" "i = r_rowid r" by force
    from im assms(1) have "map_of per i = Some m" by simp
    with assms(3) r have "P r \<and> F r = m" by (auto split: if_splits)
    with r show "m \<in> F ` {r \<in> set table. P r}" by auto
  qed
  show "F ` {r \<in> set table. P r} \<subseteq> snd ` set per"
  proof
    fix m assume "m \<in> F ` {r \<in> set table. P r}"
    then obtain r where "r \<in> set table" "P r" "m = F r" by auto
    with assms(3) have "map_of per (r_rowid r) = Some m" by simp
    then show "m \<in> snd ` set per" by (force dest: map_of_SomeD)
  qed
qed


definition shown_rank :: "hook_engine \<Rightarrow> row list \<Rightarrow> prompt_candidate list \<Rightarrow> row \<Rightarrow> nat" where
  "shown_rank e table cands r = card (matched_groups e table cands r)"

lemma no_match_no_gate:
  assumes "fts_ok e table" "list_all (\<lambda>(_, n). n = 0) (map (\<lambda>c. (lower_token e c, frequency e table c)) cands)"
  shows "\<not> three_gates e table cands ev r"
  using assms matched_frequency [OF assms(1)] by (fastforce simp: list_all_iff three_gates_def)

definition entry_of :: "hook_engine \<Rightarrow> jstr list option \<Rightarrow> row list \<Rightarrow> prompt_candidate list \<Rightarrow> row \<Rightarrow> entry_match" where
  "entry_of e ev table cands r = match_of e ev r (filter (matched e table r) cands)"

lemma entry_of_row [simp]: "em_row (entry_of e ev table cands r) = r"
  by (simp add: entry_of_def)

lemma entry_of_groups: "length (em_groups (entry_of e ev table cands r)) = shown_rank e table cands r"
  using match_of_groups [of e ev r "filter (matched e table r) cands"]
  by (auto simp: entry_of_def shown_rank_def matched_groups_def distinct_card [symmetric] intro!: arg_cong [where f = card])

lemma search_tokens_entries:
  assumes "fts_ok e table" and "distinct (map (lower_token e) cands)" and st: "search_tokens e ev table [] [] cands = (per, df)"
  shows "df = map (\<lambda>c. (lower_token e c, frequency e table c)) cands"
    and "snd ` set per = entry_of e ev table cands ` {r \<in> set table. \<exists>c \<in> set cands. matched e table r c}"
    and "distinct (map (\<lambda>m. r_rowid (em_row m)) (map snd per))"
proof -
  let ?P = "\<lambda>r. \<exists>c \<in> set cands. matched e table r c"
  let ?F = "entry_of e ev table cands"
  have "search_inv e ev table [] [] []" by (simp add: search_inv_def)
  from search_tokens_inv [OF assms(1) this, of cands] assms(2) st have inv: "search_inv e ev table cands per df" by simp
  then show "df = map (\<lambda>c. (lower_token e c, frequency e table c)) cands" by (simp add: search_inv_def)
  have keys: "distinct (map fst per)" "fst ` set per \<subseteq> r_rowid ` set table"
    and entry: "\<forall>r \<in> set table. map_of per (r_rowid r) = (if ?P r then Some (?F r) else None)"
    using inv by (simp_all add: search_inv_def entry_of_def Let_def filter_empty_conv)
  show "snd ` set per = ?F ` {r \<in> set table. ?P r}" by (rule map_entry [OF keys entry])
  have own: "r_rowid (em_row m) = i" if "(i, m) \<in> set per" for i m
  proof -
    from keys(2) that obtain r where r: "r \<in> set table" "i = r_rowid r" by force
    from that keys(1) have "map_of per i = Some m" by simp
    with r entry have "m = ?F r" by (simp split: if_splits)
    with r show ?thesis by simp
  qed
  have "map (\<lambda>m. r_rowid (em_row m)) (map snd per) = map fst per" using own by auto
  then show "distinct (map (\<lambda>m. r_rowid (em_row m)) (map snd per))" by (simp only: keys(1))
qed

lemma gated_rows_spec:
  assumes ok: "fts_ok e table" and d: "distinct (map (lower_token e) cands)"
  shows "set (gated_rows e table cands ev) = {r \<in> set table. three_gates e table cands ev r} \<and>
    distinct (map r_rowid (gated_rows e table cands ev)) \<and>
    sorted_wrt (\<lambda>r r'. shown_rank e table cands r \<ge> shown_rank e table cands r') (gated_rows e table cands ev)"
proof -
  obtain per df where st: "search_tokens e ev table [] [] cands = (per, df)" by fastforce
  note entries = search_tokens_entries [OF ok d st]
  define G where "G = passes_gates (min_matches cands) (rare_tokens df)"
  define rank where "rank m = - int (length (em_groups m))" for m :: entry_match
  show ?thesis
  proof (cases "list_all (\<lambda>(_, n). n = 0) df")
    case True
    then have "gated_rows e table cands ev = []" by (simp add: gated_rows_def st)
    then show ?thesis using no_match_no_gate [OF ok] True by (simp add: entries(1))
  next
    case False
    define ms where "ms = sort_key rank (filter G (map snd per))"
    have gr: "gated_rows e table cands ev = map em_row ms"
      using False by (simp add: gated_rows_def st G_def ms_def rank_def [abs_def] del: list_all_iff)
    have "G (entry_of e ev table cands r) \<longleftrightarrow> three_gates e table cands ev r" if "r \<in> set table" for r
      unfolding G_def entry_of_def by (rule passes_gates_iff [OF ok d that entries(1)])
    then have ms: "set ms = entry_of e ev table cands ` {r \<in> set table. three_gates e table cands ev r}"
      unfolding ms_def set_sort set_filter set_map entries(2) by (auto simp: three_gates_def)
    then have "em_row ` set ms = {r \<in> set table. three_gates e table cands ev r}"
      by (simp add: image_image)
    moreover have "distinct (map r_rowid (map em_row ms))"
      using distinct_map_filter [OF entries(3), of G] by (simp add: ms_def distinct_map o_def)
    moreover have "sorted_wrt (\<lambda>m m'. rank m \<le> rank m') ms"
      using sorted_sort_key [of rank "filter G (map snd per)"] by (simp add: ms_def sorted_map)
    then have "sorted_wrt (\<lambda>m m'. shown_rank e table cands (em_row m) \<ge> shown_rank e table cands (em_row m')) ms"
      by (rule sorted_wrt_mono_rel [rotated]) (auto simp: ms rank_def entry_of_groups)
    ultimately show ?thesis by (simp add: gr sorted_wrt_map)
  qed
qed


text \<open>The text a hook searches for, and the tokens that count as evidence of a failure.\<close>

definition hook_prompt :: "hook_input \<Rightarrow> jstr" where
  "hook_prompt inp =
     (case hi_surface inp of
        User_prompt \<Rightarrow> if hi_topic inp \<noteq> [] then hi_topic inp else hi_failure inp
      | Stop_hook \<Rightarrow> hi_failure inp
      | Tool_error \<Rightarrow> join [10] (filter (\<lambda>s. s \<noteq> []) [hi_topic inp, hi_failure inp]))"

definition hook_evidence :: "hook_engine \<Rightarrow> hook_input \<Rightarrow> jstr list option" where
  "hook_evidence e inp = (case hi_surface inp of Tool_error \<Rightarrow> Some (failure_tokens e (hi_failure inp)) | _ \<Rightarrow> None)"

lemma find_hook_text:
  "find_caveats_for_hook e table inp opts = find_caveats_for_text e table (Some (hook_prompt inp)) opts (hook_evidence e inp)"
  by (simp add: find_caveats_for_hook_def hook_prompt_def hook_evidence_def split: hook_surface.split)

lemma distinct_known: "distinct (map (lower_token e) (known_candidates e selfIds prompt))"
  unfolding known_candidates_def build_prompt_candidates_def lower_token_def [abs_def]
  by (intro distinct_map_filter) (simp add: take_map [symmetric] distinct_unique_by)

lemma try_map_readable:
  "\<forall>r \<in> set rs. row_readable r \<Longrightarrow> \<exists>hits. try_map to_search_result rs = Inr hits \<and> list_all2 (\<lambda>r h. to_search_result r = Inr h) rs hits"
proof (induction rs)
  case (Cons r rs)
  then obtain hits where "try_map to_search_result rs = Inr hits" "list_all2 (\<lambda>r h. to_search_result r = Inr h) rs hits"
    by auto
  moreover obtain h where "to_search_result r = Inr h"
    using Cons.prems by (auto simp: to_search_result_def row_readable_def)
  ultimately show ?case by simp
qed simp

lemma find_text_spec:
  assumes "fts_ok e table" "\<forall>r \<in> set table. row_readable r"
  shows "\<exists>shown hits. find_caveats_for_text e table (Some p) opts ev = Inr hits \<and>
     list_all2 (\<lambda>r h. to_search_result r = Inr h) (slice_first (or_else (ho_limit opts) 5) shown) hits \<and>
     set shown = {r \<in> set table. p \<noteq> [] \<and> three_gates e table (known_candidates e (ho_self opts) p) ev r} \<and>
     distinct (map r_rowid shown) \<and>
     sorted_wrt (\<lambda>r r'. shown_rank e table (known_candidates e (ho_self opts) p) r \<ge>
       shown_rank e table (known_candidates e (ho_self opts) p) r') shown"
proof (cases "p = []")
  case False
  let ?cands = "known_candidates e (ho_self opts) p"
  let ?shown = "gated_rows e table ?cands ev"
  note spec = gated_rows_spec [OF assms(1) distinct_known [of e "ho_self opts" p], of ev]
  have "\<forall>r \<in> set (slice_first (or_else (ho_limit opts) 5) ?shown). row_readable r"
    using set_slice_first [of "or_else (ho_limit opts) 5" ?shown] spec assms(2) by blast
  from try_map_readable [OF this] obtain hits where
    "find_caveats_for_text e table (Some p) opts ev = Inr hits"
    "list_all2 (\<lambda>r h. to_search_result r = Inr h) (slice_first (or_else (ho_limit opts) 5) ?shown) hits"
    using False by (auto simp: find_caveats_for_text_def)
  with spec False show ?thesis by (intro exI [of _ ?shown] exI [of _ hits]) simp
qed (simp add: find_caveats_for_text_def slice_first_def)

text \<open>
  C30: A hook search on a readable table never throws and shows exactly the entries that pass the
  three gates, each once, those that share more groups of the prompt first, cut at the limit: enough
  groups of the prompt co-occur in the entry, a token (for a tool error one of the error's own
  output) stands in its Symptom, and a token of the least document frequency stands in its topical
  text.
\<close>

theorem hook_search_is_three_gates:
  assumes "fts_ok e table" and "\<forall>r \<in> set table. row_readable r"
  shows "\<exists>shown hits. find_caveats_for_hook e table inp opts = Inr hits \<and>
     list_all2 (\<lambda>r h. to_search_result r = Inr h) (slice_first (or_else (ho_limit opts) 5) shown) hits \<and>
     set shown = {r \<in> set table. hook_prompt inp \<noteq> [] \<and>
       three_gates e table (known_candidates e (ho_self opts) (hook_prompt inp)) (hook_evidence e inp) r} \<and>
     distinct (map r_rowid shown) \<and>
     sorted_wrt (\<lambda>r r'. shown_rank e table (known_candidates e (ho_self opts) (hook_prompt inp)) r \<ge>
       shown_rank e table (known_candidates e (ho_self opts) (hook_prompt inp)) r') shown"
  unfolding find_hook_text by (rule find_text_spec [OF assms])

subsection \<open>A plain prompt\<close>

lemma strip_lead_none: "(\<And>k. k \<le> length s \<Longrightarrow> ends rest s k = []) \<Longrightarrow> strip_lead rest s = s"
  by (subst strip_lead_def, subst match_all_Nil [THEN iffD2]) auto

lemma strip_fs_paths_plain:
  assumes "47 \<notin> set s" "92 \<notin> set s"
  shows "strip_fs_paths s = s"
proof -
  have no: "k < length s \<Longrightarrow> s ! k \<noteq> 47 \<and> s ! k \<noteq> 92" for k using assms by (metis nth_mem)
  have sq_right: "ends (Sq r1 r2) s k = []" if "\<forall>j. ends r2 s j = []" for r1 r2 k using that by simp
  have sq: "ends (Sq r1 r2) s k = []" if "ends r1 s k = []" for r1 r2 k using that by simp
  have "ends unc_rx s k = []" for k
    unfolding unc_rx_def rx_str.simps by (rule sq, rule sq) (simp add: no)
  then have "match_all unc_rx s 0 = []" by (simp only: match_all_Nil) simp
  then have "rx_replace unc_rx s [32] = s" by (simp add: rx_replace_def)
  moreover have slash: "ends (Sq (Ch (\<lambda>c. c = 92 \<or> c = 47)) r) s k = []" for r k by (rule sq) (simp add: no)
  have "ends drive_rx s k = []" for k
    unfolding drive_rx_def by (intro sq_right allI slash)
  then have "strip_lead drive_rx s = s" by (rule strip_lead_none)
  moreover have "ends posix_rx s k = []" for k
    unfolding posix_rx_def by (rule sq) (simp add: no)
  then have "strip_lead posix_rx s = s" by (rule strip_lead_none)
  ultimately show ?thesis by (simp add: strip_fs_paths_def)
qed

lemma query_clean_plain:
  assumes "\<forall>c \<in> set s. c < 55296 \<and> (cls c \<or> is_space c)"
  shows "query_clean cls s = s"
proof -
  have "code_points s = s" using assms by (intro code_points_ascii) auto
  moreover have "concat (map (\<lambda>c. if cls c \<or> is_space c then utf16_cp c else [32]) t) = t" if "set t \<subseteq> set s" for t
    using that assms by (induction t) (auto simp: utf16_cp_def)
  ultimately show ?thesis by (simp add: query_clean_def)
qed

lemma token_appears_self:
  assumes "tok \<noteq> []" "\<not> is_cjk_dominated tok"
  shows "token_appears_in cls tok tok"
proof -
  let ?cs = "code_points tok"
  have "length ?cs \<in> set (ends (boundary_rx cls tok) ?cs 0)"
    unfolding boundary_rx_def by (rule ends_SqI [of 0], simp, rule ends_SqI [of "length ?cs"]) (simp_all add: ends_rx_str)
  then have "\<not> (\<forall>k. 0 \<le> k \<and> k \<le> length ?cs \<longrightarrow> ends (boundary_rx cls tok) ?cs k = [])" by fastforce
  then show ?thesis using assms by (simp add: token_appears_in_def rx_test_def search_None)
qed

definition toy_hooks :: hook_engine where
  "toy_hooks = \<lparr>he_class = is_alnum, he_lower = (\<lambda>s. s), he_fts = (\<lambda>_ rs. Some rs)\<rparr>"

definition gpu_row :: row where
  "gpu_row = (tagged_row 1 ''a'' []) \<lparr>r_topical := Some (lit ''gpu''), r_symptom := Some (lit ''oom'')\<rparr>"

definition gpu_prompt :: hook_input where
  "gpu_prompt = \<lparr>hi_topic = lit ''gpu oom'', hi_failure = [], hi_surface = User_prompt\<rparr>"

definition no_options :: hook_options where "no_options = \<lparr>ho_limit = None, ho_self = None\<rparr>"

lemma toy_frequency: "matched toy_hooks [gpu_row] gpu_row c" "frequency toy_hooks [gpu_row] c = 1"
  by (simp_all add: matched_def frequency_def toy_hooks_def)

lemma gpu_candidates:
  "known_candidates toy_hooks None (lit ''gpu oom'') =
     [\<lparr>pc_token = lit ''gpu'', pc_group = 0\<rparr>, \<lparr>pc_token = lit ''oom'', pc_group = 1\<rparr>]"
proof -
  have "strip_fs_paths (lit ''gpu oom'') = lit ''gpu oom''" by (rule strip_fs_paths_plain) (simp_all add: lit_def)
  moreover have "query_clean is_alnum (lit ''gpu oom'') = lit ''gpu oom''"
    by (rule query_clean_plain) (simp add: lit_def char_class_defs is_space_def)
  moreover have "words [] (lit ''gpu oom'') = [lit ''gpu'', lit ''oom'']"
    by (simp add: lit_def is_space_def)
  ultimately show ?thesis
    by (simp add: known_candidates_def build_prompt_candidates_def toy_hooks_def expand_tokens_def expand_token_def
        is_cjk_dominated_def cjk_char_def token_min_def lit_def)
qed

lemma gpu_ok: "fts_ok toy_hooks [gpu_row]" "\<forall>r \<in> set [gpu_row]. row_readable r"
  using json_roundtrip [of "JObj []" "[]"]
  by (simp_all add: fts_ok_def toy_hooks_def row_readable_def gpu_row_def tagged_row_def blank_def)

lemma gpu_gates: "three_gates toy_hooks [gpu_row] (known_candidates toy_hooks None (lit ''gpu oom'')) None gpu_row"
proof -
  have "appears toy_hooks (lit ''oom'') (r_symptom gpu_row)" "appears toy_hooks (lit ''gpu'') (r_topical gpu_row)"
    using token_appears_self [of "lit ''oom''" is_alnum] token_appears_self [of "lit ''gpu''" is_alnum]
    by (simp_all add: appears_def lowered_def gpu_row_def toy_hooks_def is_cjk_dominated_def cjk_char_def lit_def)
  moreover have "matched_groups toy_hooks [gpu_row] (known_candidates toy_hooks None (lit ''gpu oom'')) gpu_row = {0, 1}"
    by (simp add: matched_groups_def gpu_candidates toy_frequency)
  ultimately show ?thesis
    unfolding three_gates_def gpu_candidates
    by (simp add: toy_frequency evident_def lower_token_def) (simp add: toy_hooks_def)
qed

lemma gpu_input [simp]:
  "hook_prompt gpu_prompt = lit ''gpu oom''" "hook_evidence e gpu_prompt = None" "lit ''gpu oom'' \<noteq> []"
  by (simp_all add: gpu_prompt_def hook_prompt_def hook_evidence_def)

lemma one_shown:
  assumes "list_all2 (\<lambda>r h. to_search_result r = Inr h) (slice_first 5 shown) hits"
    and "set shown = {r}" "distinct (map f shown)"
  shows "\<exists>hit. hits = [hit] \<and> to_search_result r = Inr hit"
proof -
  have "shown = [r]" using assms(2,3) by (cases shown; cases "tl shown") auto
  with assms(1) show ?thesis by (auto simp: list_all2_Cons1)
qed

theorem hook_search_is_three_gates_witness:
  "\<exists>hit. find_caveats_for_hook toy_hooks [gpu_row] gpu_prompt no_options = Inr [hit] \<and> to_search_result gpu_row = Inr hit"
proof -
  from hook_search_is_three_gates [OF gpu_ok, of gpu_prompt no_options] obtain shown hits where
    f: "find_caveats_for_hook toy_hooks [gpu_row] gpu_prompt no_options = Inr hits"
    and h: "list_all2 (\<lambda>r h. to_search_result r = Inr h) (slice_first 5 shown) hits"
    and shown: "set shown = {gpu_row}" "distinct (map r_rowid shown)"
    using gpu_gates by (auto simp: no_options_def or_else_def)
  from one_shown [OF h shown] f show ?thesis by auto
qed

lemma tool_error_evidence:
  assumes "fts_ok e table" and "hi_surface inp = Tool_error" and "three_gates e table cands (hook_evidence e inp) r"
  shows "\<exists>c \<in> set (build_prompt_candidates (he_class e) (he_lower e) (hi_failure inp)). appears e (lower_token e c) (r_symptom r)"
  using assms by (auto simp: three_gates_def hook_evidence_def evident_def failure_tokens_def lower_token_def)

subsection \<open>Several inputs\<close>

lemma take_hits_spec:
  assumes "take_hits limit out hits = (out', stop)" "distinct (map hit_key out)" "0 < limit" "int (length out) < limit"
  shows "distinct (map hit_key out') \<and> set out \<subseteq> set out' \<and> set out' \<subseteq> set out \<union> set hits \<and>
    int (length out') \<le> limit \<and> (stop \<longrightarrow> int (length out') = limit) \<and>
    (\<not> stop \<longrightarrow> int (length out') < limit \<and> hit_key ` set hits \<subseteq> hit_key ` set out')"
  using assms
proof (induction hits arbitrary: out)
  case (Cons hit hits)
  consider "hit_key hit \<in> hit_key ` set out" | "hit_key hit \<notin> hit_key ` set out" "int (length out) + 1 \<ge> limit"
    | "hit_key hit \<notin> hit_key ` set out" "int (length out) + 1 < limit" by linarith
  then show ?case
  proof cases
    case 1
    then have "take_hits limit out hits = (out', stop)" using Cons.prems(1) by simp
    from Cons.IH [OF this Cons.prems(2-4)] 1 show ?thesis by auto
  next
    case 2
    with Cons.prems show ?thesis by auto
  next
    case 3
    then have "take_hits limit (out @ [hit]) hits = (out', stop)" using Cons.prems(1) by simp
    from Cons.IH [OF this _ Cons.prems(3)] 3 Cons.prems(2) show ?thesis by auto
  qed
qed auto

lemma search_segments_spec:
  assumes "search_segments e table opts limit out inps = Inr res" "distinct (map hit_key out)" "0 < limit" "int (length out) < limit"
  shows "distinct (map hit_key res) \<and> set out \<subseteq> set res \<and> int (length res) \<le> limit \<and>
    (\<forall>h \<in> set res - set out. \<exists>inp \<in> set inps. \<exists>hits. find_caveats_for_hook e table inp (opts\<lparr>ho_limit := Some limit\<rparr>) = Inr hits \<and> h \<in> set hits) \<and>
    (int (length res) < limit \<longrightarrow> (\<forall>inp \<in> set inps. \<exists>hits.
       find_caveats_for_hook e table inp (opts\<lparr>ho_limit := Some limit\<rparr>) = Inr hits \<and> hit_key ` set hits \<subseteq> hit_key ` set res))"
  using assms
proof (induction inps arbitrary: out)
  case (Cons inp inps)
  from Cons.prems(1) obtain hits where hits: "find_caveats_for_hook e table inp (opts\<lparr>ho_limit := Some limit\<rparr>) = Inr hits"
    by (auto simp: res)
  obtain out' stop where t: "take_hits limit out hits = (out', stop)" by fastforce
  note spec = take_hits_spec [OF t Cons.prems(2-4)]
  show ?case
  proof (cases stop)
    case True
    with Cons.prems(1) hits t have "res = out'" by simp
    with spec True hits show ?thesis by auto
  next
    case False
    with Cons.prems(1) hits t have "search_segments e table opts limit out' inps = Inr res" by simp
    have len: "int (length out') < limit" and mem: "hit_key ` set hits \<subseteq> hit_key ` set out'" "set out \<subseteq> set out'" "set out' \<subseteq> set out \<union> set hits"
      using spec False by auto
    from spec have "distinct (map hit_key out')" by blast
    note IH = Cons.IH [OF \<open>search_segments e table opts limit out' inps = Inr res\<close> this Cons.prems(3) len]
    have sub: "set out' \<subseteq> set res" using IH by blast
    show ?thesis
    proof (intro conjI ballI impI)
      fix h assume "h \<in> set res - set out"
      then show "\<exists>i \<in> set (inp # inps). \<exists>found. find_caveats_for_hook e table i (opts\<lparr>ho_limit := Some limit\<rparr>) = Inr found \<and> h \<in> set found"
        by (cases "h \<in> set out'") (use IH mem(3) hits in auto)
    next
      fix i assume "int (length res) < limit" "i \<in> set (inp # inps)"
      then show "\<exists>found. find_caveats_for_hook e table i (opts\<lparr>ho_limit := Some limit\<rparr>) = Inr found \<and> hit_key ` set found \<subseteq> hit_key ` set res"
        using IH hits image_mono [OF sub, of hit_key] mem(1) by (cases "i = inp") auto
    qed (use IH mem(2) sub in auto)
  qed
qed auto

text \<open>
  A search over several inputs shows every entry once and at most as many as the limit, each
  found by one of the inputs; below the limit it has shown every entry that any input finds.
\<close>

theorem segments_share_one_limit:
  assumes "find_caveats_for_hook_segments e table inps opts = Inr hits" and "0 < or_else (ho_limit opts) 5"
  shows "distinct (map hit_key hits) \<and> int (length hits) \<le> or_else (ho_limit opts) 5 \<and>
    (\<forall>h \<in> set hits. \<exists>inp \<in> set inps. \<exists>found.
       find_caveats_for_hook e table inp (opts\<lparr>ho_limit := Some (or_else (ho_limit opts) 5)\<rparr>) = Inr found \<and> h \<in> set found) \<and>
    (int (length hits) < or_else (ho_limit opts) 5 \<longrightarrow> (\<forall>inp \<in> set inps. \<exists>found.
       find_caveats_for_hook e table inp (opts\<lparr>ho_limit := Some (or_else (ho_limit opts) 5)\<rparr>) = Inr found \<and>
       hit_key ` set found \<subseteq> hit_key ` set hits))"
  using search_segments_spec [OF assms(1) [unfolded find_caveats_for_hook_segments_def] _ assms(2)] assms(2) by simp


lemma gpu_segment:
  "\<exists>hit. find_caveats_for_hook toy_hooks [gpu_row] gpu_prompt (no_options\<lparr>ho_limit := Some 5\<rparr>) = Inr [hit]"
proof -
  from find_text_spec [OF gpu_ok, of "lit ''gpu oom''" "no_options\<lparr>ho_limit := Some 5\<rparr>" None] obtain shown hits where
    f: "find_caveats_for_text toy_hooks [gpu_row] (Some (lit ''gpu oom'')) (no_options\<lparr>ho_limit := Some 5\<rparr>) None = Inr hits"
    and h: "list_all2 (\<lambda>r h. to_search_result r = Inr h) (slice_first 5 shown) hits"
    and shown: "set shown = {gpu_row}" "distinct (map r_rowid shown)"
    using gpu_gates by (auto simp: no_options_def or_else_def)
  from one_shown [OF h shown] f show ?thesis by (auto simp: find_hook_text)
qed

theorem segments_share_one_limit_witness:
  "\<exists>hit. find_caveats_for_hook_segments toy_hooks [gpu_row] [gpu_prompt, gpu_prompt] no_options = Inr [hit] \<and> distinct (map hit_key [hit])"
proof -
  from gpu_segment obtain hit where hit:
    "find_caveats_for_hook toy_hooks [gpu_row] gpu_prompt (no_options\<lparr>ho_limit := Some 5\<rparr>) = Inr [hit]" by auto
  then have res: "find_caveats_for_hook_segments toy_hooks [gpu_row] [gpu_prompt, gpu_prompt] no_options = Inr [hit]"
    by (simp add: find_caveats_for_hook_segments_def no_options_def or_else_def)
  from segments_share_one_limit [OF res] res show ?thesis by (simp add: no_options_def or_else_def)
qed

end
