(* ===== verification/Transcript.thy ===== *)
theory Transcript
  imports Entries
begin

text \<open>
  The struggle signals of a session, read from the transcript its host keeps:
  \<open>packages/core/src/transcriptSignals.ts\<close> (Claude Code) and \<open>codexTranscriptSignals.ts\<close> (Codex).
  A transcript is the text of a file of JSON lines, None where it is missing or cannot be read;
  \<open>date\<close> is \<open>Date.parse\<close>, None for an invalid date. A tally is the set of local
  variables of the loop. Lemmas: what is listed stays within the fixed limits, and the Claude
  reader's one pass computes exactly the counts of the events that stand in the transcript.
\<close>

subsection \<open>Signals\<close>

record session_signals =
  ss_failures :: nat
  ss_edits :: "(jstr \<times> nat) list"
  ss_searches :: nat
  ss_fetches :: nat
  ss_retries :: nat
  ss_minutes :: int
  ss_errors :: "jstr list"
  ss_queries :: "jstr list"

record tool_call =
  tc_name :: jstr
  tc_args :: json
  tc_command :: "jstr option"

record tally =
  ta_edits :: "(jstr \<times> nat) list"
  ta_bash :: "(jstr \<times> nat) list"
  ta_errors :: "jstr list"
  ta_queries :: "jstr list"
  ta_failures :: nat
  ta_searches :: nat
  ta_fetches :: nat
  ta_first :: "int option"
  ta_latest :: "int option"

definition no_tally :: tally where
  "no_tally = \<lparr>ta_edits = [], ta_bash = [], ta_errors = [], ta_queries = [], ta_failures = 0, ta_searches = 0, ta_fetches = 0,
     ta_first = None, ta_latest = None\<rparr>"

definition max_snippets :: nat where "max_snippets = 10"
definition max_snippet_length :: nat where "max_snippet_length = 300"
definition max_queries :: nat where "max_queries = 10"
definition max_query_length :: nat where "max_query_length = 200"
definition max_edit_entries :: nat where "max_edit_entries = 20"

text \<open>\<open>counts.set(k, (counts.get(k) ?? 0) + 1)\<close>.\<close>

definition count_up :: "(jstr \<times> nat) list \<Rightarrow> jstr \<Rightarrow> (jstr \<times> nat) list" where
  "count_up m k = map_set m k (or_else (map_of m k) 0 + 1)"

text \<open>\<open>s.replace(/\s+/g, ' ')\<close>.\<close>

fun one_blank :: "bool \<Rightarrow> jstr \<Rightarrow> jstr" where
  "one_blank after [] = []"
| "one_blank after (c # s) =
     (if is_space c then (if after then one_blank True s else 32 # one_blank True s) else c # one_blank False s)"

definition compact_text :: "jstr \<Rightarrow> jstr" where
  "compact_text s = trim (one_blank False s)"

definition add_error :: "jstr \<Rightarrow> jstr list \<Rightarrow> jstr list" where
  "add_error t snippets = (if t \<noteq> [] \<and> length snippets < max_snippets then snippets @ [take max_snippet_length t] else snippets)"

definition add_query :: "jstr list \<Rightarrow> jstr \<Rightarrow> jstr list" where
  "add_query queries q = (if length queries \<ge> max_queries then queries else queries @ [take max_query_length q])"

definition parse_timestamp :: "(jstr \<Rightarrow> int option) \<Rightarrow> json option \<Rightarrow> int option" where
  "parse_timestamp date v = (case as_str v of None \<Rightarrow> None | Some s \<Rightarrow> date s)"

definition note_time :: "int option \<Rightarrow> tally \<Rightarrow> tally" where
  "note_time time t =
     (case time of
        None \<Rightarrow> t
      | Some n \<Rightarrow> t\<lparr>ta_first := (case ta_first t of None \<Rightarrow> Some n | Some f \<Rightarrow> if n < f then Some n else Some f),
          ta_latest := (case ta_latest t of None \<Rightarrow> Some n | Some l \<Rightarrow> if n > l then Some n else Some l)\<rparr>)"

text \<open>\<open>Math.round(ms / 60000)\<close>, halves upwards.\<close>

definition duration_minutes :: "tally \<Rightarrow> int" where
  "duration_minutes t =
     (case (ta_first t, ta_latest t) of
        (Some f, Some l) \<Rightarrow> max 0 ((l - f + 30000) div 60000)
      | _ \<Rightarrow> 0)"

definition signals_of :: "tally \<Rightarrow> session_signals" where
  "signals_of t = \<lparr>ss_failures = ta_failures t,
     ss_edits = take max_edit_entries (sort_key (\<lambda>(_, n). - int n) (filter (\<lambda>(_, n). n > 1) (ta_edits t))),
     ss_searches = ta_searches t, ss_fetches = ta_fetches t,
     ss_retries = length (filter (\<lambda>n. n > 1) (map snd (ta_bash t))),
     ss_minutes = duration_minutes t, ss_errors = ta_errors t, ss_queries = ta_queries t\<rparr>"

subsection \<open>Claude Code\<close>

definition extract_result_text :: "json option \<Rightarrow> jstr" where
  "extract_result_text content =
     (case content of
        Some (JStr s) \<Rightarrow> s
      | Some (JArr cs) \<Rightarrow> join [32] (List.map_filter (\<lambda>c. as_str (get_member c ''text'')) cs)
      | _ \<Rightarrow> [])"

definition text_member :: "json \<Rightarrow> string \<Rightarrow> jstr" where
  "text_member v k = or_else (as_str (get_member v k)) []"

definition member_record :: "json \<Rightarrow> string \<Rightarrow> json" where
  "member_record v k = (case get_member v k of Some (JObj m) \<Rightarrow> JObj m | _ \<Rightarrow> JObj [])"

definition is_lit :: "json option \<Rightarrow> string \<Rightarrow> bool" where
  "is_lit v w \<longleftrightarrow> v = Some (JStr (lit w))"

definition tally_tool :: "json option \<Rightarrow> json \<Rightarrow> tally \<Rightarrow> tally" where
  "tally_tool name inp t =
     (if is_lit name ''Edit'' \<or> is_lit name ''Write'' \<or> is_lit name ''NotebookEdit'' then
        (let p = text_member inp ''file_path'' in if p \<noteq> [] then t\<lparr>ta_edits := count_up (ta_edits t) p\<rparr> else t)
      else if is_lit name ''WebSearch'' then
        t\<lparr>ta_searches := ta_searches t + 1,
          ta_queries := (case as_str (get_member inp ''query'') of None \<Rightarrow> ta_queries t | Some q \<Rightarrow> add_query (ta_queries t) q)\<rparr>
      else if is_lit name ''WebFetch'' then t\<lparr>ta_fetches := ta_fetches t + 1\<rparr>
      else if is_lit name ''Bash'' then
        (let cmd = text_member inp ''command'' in if cmd \<noteq> [] then t\<lparr>ta_bash := count_up (ta_bash t) cmd\<rparr> else t)
      else t)"

fun tally_item :: "json \<Rightarrow> tally \<Rightarrow> tally" where
  "tally_item (JObj m) t =
     (let item = JObj m in
      if is_lit (get_member item ''type'') ''tool_use''
      then tally_tool (get_member item ''name'') (member_record item ''input'') t
      else if is_lit (get_member item ''type'') ''tool_result'' \<and> get_member item ''is_error'' = Some (JBool True)
      then t\<lparr>ta_failures := ta_failures t + 1,
          ta_errors := add_error (compact_text (extract_result_text (get_member item ''content''))) (ta_errors t)\<rparr>
      else t)"
| "tally_item _ t = t"

text \<open>\<open>parsed.message?.content\<close> as an array.\<close>

definition content_items :: "json \<Rightarrow> json list" where
  "content_items parsed =
     (if is_lit (get_member parsed ''type'') ''assistant'' \<or> is_lit (get_member parsed ''type'') ''user''
      then (case get_member parsed ''message'' of
          None \<Rightarrow> []
        | Some msg \<Rightarrow> (case get_member msg ''content'' of Some (JArr items) \<Rightarrow> items | _ \<Rightarrow> []))
      else [])"

datatype signal_error = Type_error

text \<open>A line that is \<open>null\<close> makes the access to its members throw.\<close>

definition tally_line :: "(jstr \<Rightarrow> int option) \<Rightarrow> jstr \<Rightarrow> tally \<Rightarrow> signal_error + tally" where
  "tally_line date line t =
     (if line = [] then Inr t
      else (case json_parse line of
          None \<Rightarrow> Inr t
        | Some parsed \<Rightarrow>
            (if parsed = JNull then Inl Type_error
             else Inr (foldl (\<lambda>t item. tally_item item t)
               (note_time (parse_timestamp date (get_member parsed ''timestamp'')) t) (content_items parsed)))))"

fun try_fold :: "('x \<Rightarrow> 's \<Rightarrow> 'e + 's) \<Rightarrow> 'x list \<Rightarrow> 's \<Rightarrow> 'e + 's" where
  "try_fold f [] s = Inr s"
| "try_fold f (x # xs) s = try_then (f x s) (try_fold f xs)"

definition read_session_signals :: "(jstr \<Rightarrow> int option) \<Rightarrow> jstr option \<Rightarrow> signal_error + session_signals option" where
  "read_session_signals date raw =
     (case raw of
        None \<Rightarrow> Inr None
      | Some s \<Rightarrow> try_then (try_fold (tally_line date) (split_on 10 s) no_tally) (\<lambda>t. Inr (Some (signals_of t))))"

definition has_any_struggle_signal :: "session_signals \<Rightarrow> bool" where
  "has_any_struggle_signal s \<longleftrightarrow>
     ss_failures s > 0 \<or> length (ss_edits s) > 0 \<or> ss_searches s > 0 \<or> ss_fetches s > 0 \<or> ss_retries s > 0"

definition struggle_search_text :: "session_signals \<Rightarrow> jstr" where
  "struggle_search_text s = join [32] (ss_errors s @ ss_queries s)"

subsection \<open>Codex\<close>

definition parse_args :: "json option \<Rightarrow> json" where
  "parse_args raw =
     (case raw of
        Some (JObj m) \<Rightarrow> JObj m
      | Some (JStr s) \<Rightarrow> (if s = [] then JObj [] else (case json_parse s of Some (JObj m) \<Rightarrow> JObj m | _ \<Rightarrow> JObj []))
      | _ \<Rightarrow> JObj [])"

text \<open>\<open>/Process exited with code\s+(-?\d+)/\<close>: the blanks before the number belong to no group.\<close>

definition exit_head :: jstr where "exit_head = lit ''Process exited with code''"

definition exit_rx :: rx where
  "exit_rx = Sq (rx_str exit_head) (Sq (rx_many is_space 1) (Sq (Rep (Ch (\<lambda>c. c = 45)) 0 (Some 1)) (rx_many is_digit 1)))"

definition signed_number :: "jstr \<Rightarrow> int" where
  "signed_number s = (case s of [] \<Rightarrow> 0 | c # cs \<Rightarrow> if c = 45 then - int (digits_val 0 cs) else int (digits_val 0 (c # cs)))"

definition extract_exit_code :: "jstr \<Rightarrow> int option" where
  "extract_exit_code output =
     (case search exit_rx output 0 of
        None \<Rightarrow> None
      | Some (p, e) \<Rightarrow> Some (signed_number (dropWhile is_space (slice output (p + length exit_head) e))))"

text \<open>\<open>a ?? b\<close> on members.\<close>

definition or_member :: "json \<Rightarrow> string \<Rightarrow> string \<Rightarrow> json option" where
  "or_member v a b = (case get_member v a of None \<Rightarrow> get_member v b | Some JNull \<Rightarrow> get_member v b | Some x \<Rightarrow> Some x)"

definition non_empty :: "jstr option \<Rightarrow> jstr option" where
  "non_empty s = (if s = Some [] then None else s)"

definition extract_command :: "jstr \<Rightarrow> json \<Rightarrow> jstr option" where
  "extract_command name args =
     (if name \<noteq> lit ''exec_command'' \<and> name \<noteq> lit ''Bash'' then None
      else non_empty (as_str (or_member args ''cmd'' ''command'')))"

definition add_edit_path :: "json option \<Rightarrow> (jstr \<times> nat) list \<Rightarrow> (jstr \<times> nat) list" where
  "add_edit_path p counts = (case non_empty (as_str p) of None \<Rightarrow> counts | Some s \<Rightarrow> count_up counts s)"

text \<open>\<open>/^\*\*\* (?:Add|Update|Delete) File: (.+)$/\<close> on one line.\<close>

definition patch_path :: "jstr \<Rightarrow> jstr option" where
  "patch_path line =
     (let rest = (\<lambda>p. if starts_with p line \<and> drop (length p) line \<noteq> [] \<and> \<not> list_ex line_end (drop (length p) line)
            then Some (drop (length p) line) else None) in
      case rest (lit ''*** Add File: '') of
        Some p \<Rightarrow> Some p
      | None \<Rightarrow> (case rest (lit ''*** Update File: '') of Some p \<Rightarrow> Some p | None \<Rightarrow> rest (lit ''*** Delete File: '')))"

definition collect_patch_paths :: "jstr \<Rightarrow> jstr list" where
  "collect_patch_paths patch = List.map_filter patch_path (split_on 10 patch)"

definition collect_search_queries :: "json \<Rightarrow> jstr list" where
  "collect_search_queries args =
     (case get_member args ''search_query'' of
        Some (JArr items) \<Rightarrow> List.map_filter (\<lambda>item. as_str (get_member item ''q'')) items
      | _ \<Rightarrow> []) @
     (case as_str (get_member args ''query'') of None \<Rightarrow> [] | Some q \<Rightarrow> [q]) @
     (case as_str (get_member args ''q'') of None \<Rightarrow> [] | Some q \<Rightarrow> [q])"

record codex_state =
  cx_tally :: tally
  cx_calls :: "(jstr \<times> tool_call) list"
  cx_failed :: "jstr list"

definition on_tally :: "(tally \<Rightarrow> tally) \<Rightarrow> codex_state \<Rightarrow> codex_state" where
  "on_tally f s = s\<lparr>cx_tally := f (cx_tally s)\<rparr>"

definition tally_patch :: "json \<Rightarrow> tally \<Rightarrow> tally" where
  "tally_patch args t = t\<lparr>ta_edits := foldl count_up (ta_edits t) (collect_patch_paths (text_member args ''patch''))\<rparr>"

definition tally_web :: "json \<Rightarrow> tally \<Rightarrow> tally" where
  "tally_web args t =
     (let queries = collect_search_queries args in
      t\<lparr>ta_searches := ta_searches t + length queries, ta_queries := foldl add_query (ta_queries t) queries,
        ta_fetches := ta_fetches t + (case get_member args ''open'' of Some (JArr xs) \<Rightarrow> length xs | _ \<Rightarrow> 0)\<rparr>)"

definition codex_call :: "json \<Rightarrow> codex_state \<Rightarrow> codex_state" where
  "codex_call payload s =
     (let name = text_member payload ''name''; args = parse_args (get_member payload ''arguments'');
          callId = text_member payload ''call_id''; command = extract_command name args;
          s1 = (if callId \<noteq> [] \<and> name \<noteq> []
            then s\<lparr>cx_calls := map_set (cx_calls s) callId \<lparr>tc_name = name, tc_args = args, tc_command = command\<rparr>\<rparr> else s);
          s2 = (case command of None \<Rightarrow> s1 | Some c \<Rightarrow> on_tally (\<lambda>t. t\<lparr>ta_bash := count_up (ta_bash t) c\<rparr>) s1) in
      if name = lit ''apply_patch'' then on_tally (tally_patch args) s2
      else if name = lit ''edit'' \<or> name = lit ''write'' \<or> name = lit ''notebook_edit''
        then on_tally (\<lambda>t. t\<lparr>ta_edits := add_edit_path (or_member args ''path'' ''file_path'') (ta_edits t)\<rparr>) s2
      else if name = lit ''web.run'' then on_tally (tally_web args) s2
      else s2)"

definition codex_fail :: "jstr \<Rightarrow> jstr \<Rightarrow> codex_state \<Rightarrow> codex_state" where
  "codex_fail callId output s =
     on_tally (\<lambda>t. t\<lparr>ta_failures := ta_failures t + 1, ta_errors := add_error (compact_text output) (ta_errors t)\<rparr>)
       (if callId \<noteq> [] then s\<lparr>cx_failed := set_add (cx_failed s) callId\<rparr> else s)"

definition codex_output :: "json \<Rightarrow> codex_state \<Rightarrow> codex_state" where
  "codex_output payload s =
     (let callId = text_member payload ''call_id''; output = text_member payload ''output'' in
      case extract_exit_code output of
        None \<Rightarrow> s
      | Some code \<Rightarrow> if callId \<noteq> [] \<and> code \<noteq> 0 \<and> callId \<notin> set (cx_failed s) then codex_fail callId output s else s)"

definition codex_exec_end :: "json \<Rightarrow> codex_state \<Rightarrow> codex_state" where
  "codex_exec_end payload s =
     (let callId = text_member payload ''call_id'' in
      case get_member payload ''exit_code'' of
        Some (JNum (Dec m x)) \<Rightarrow>
          (if m \<noteq> 0 \<and> (callId = [] \<or> callId \<notin> set (cx_failed s)) then codex_fail callId (text_member payload ''output'') s else s)
      | _ \<Rightarrow> s)"

definition codex_payload :: "json \<Rightarrow> json \<Rightarrow> codex_state \<Rightarrow> codex_state" where
  "codex_payload parsed payload s =
     (let item = is_lit (get_member parsed ''type'') ''response_item''; kind = is_lit (get_member payload ''type'') in
      if item \<and> kind ''function_call'' then codex_call payload s
      else if item \<and> kind ''web_search_call'' then
        on_tally (\<lambda>t. t\<lparr>ta_searches := ta_searches t + 1,
          ta_queries := (case as_str (get_member payload ''query'') of None \<Rightarrow> ta_queries t | Some q \<Rightarrow> add_query (ta_queries t) q)\<rparr>) s
      else if item \<and> kind ''function_call_output'' then codex_output payload s
      else if is_lit (get_member parsed ''type'') ''event_msg'' \<and> kind ''exec_command_end'' then codex_exec_end payload s
      else s)"

definition codex_line :: "(jstr \<Rightarrow> int option) \<Rightarrow> jstr \<Rightarrow> codex_state \<Rightarrow> signal_error + codex_state" where
  "codex_line date line s =
     (if line = [] then Inr s
      else (case json_parse line of
          None \<Rightarrow> Inr s
        | Some parsed \<Rightarrow>
            (if parsed = JNull then Inl Type_error
             else (let s1 = on_tally (note_time (parse_timestamp date (get_member parsed ''timestamp''))) s in
               case get_member parsed ''payload'' of
                 Some (JObj m) \<Rightarrow> Inr (codex_payload parsed (JObj m) s1)
               | _ \<Rightarrow> Inr s1))))"

definition missing_command :: "(jstr \<times> nat) list \<Rightarrow> tool_call \<Rightarrow> (jstr \<times> nat) list" where
  "missing_command counts call =
     (case tc_command call of None \<Rightarrow> counts | Some c \<Rightarrow> if c \<in> fst ` set counts then counts else map_set counts c 1)"

definition read_codex_session_signals :: "(jstr \<Rightarrow> int option) \<Rightarrow> jstr option \<Rightarrow> signal_error + session_signals option" where
  "read_codex_session_signals date raw =
     (case raw of
        None \<Rightarrow> Inr None
      | Some t \<Rightarrow> try_then (try_fold (codex_line date) (split_on 10 t) \<lparr>cx_tally = no_tally, cx_calls = [], cx_failed = []\<rparr>)
          (\<lambda>s. Inr (Some (signals_of ((cx_tally s)\<lparr>ta_bash := foldl missing_command (ta_bash (cx_tally s)) (map snd (cx_calls s))\<rparr>)))))"

subsection \<open>The events of a transcript\<close>

datatype event = Edited jstr | Ran jstr | Searched "jstr option" | Fetched | Failed_with jstr

definition tool_events :: "json option \<Rightarrow> json \<Rightarrow> event list" where
  "tool_events name inp =
     (if is_lit name ''Edit'' \<or> is_lit name ''Write'' \<or> is_lit name ''NotebookEdit''
      then (if text_member inp ''file_path'' \<noteq> [] then [Edited (text_member inp ''file_path'')] else [])
      else if is_lit name ''WebSearch'' then [Searched (as_str (get_member inp ''query''))]
      else if is_lit name ''WebFetch'' then [Fetched]
      else if is_lit name ''Bash'' then (if text_member inp ''command'' \<noteq> [] then [Ran (text_member inp ''command'')] else [])
      else [])"

fun item_events :: "json \<Rightarrow> event list" where
  "item_events (JObj m) =
     (if is_lit (get_member (JObj m) ''type'') ''tool_use''
      then tool_events (get_member (JObj m) ''name'') (member_record (JObj m) ''input'')
      else if is_lit (get_member (JObj m) ''type'') ''tool_result'' \<and> get_member (JObj m) ''is_error'' = Some (JBool True)
      then [Failed_with (compact_text (extract_result_text (get_member (JObj m) ''content'')))]
      else [])"
| "item_events _ = []"

definition line_events :: "jstr \<Rightarrow> event list" where
  "line_events line = (case json_parse line of None \<Rightarrow> [] | Some parsed \<Rightarrow> concat (map item_events (content_items parsed)))"

definition transcript_events :: "jstr \<Rightarrow> event list" where
  "transcript_events raw = concat (map line_events (split_on 10 raw))"

definition failures_in :: "event list \<Rightarrow> jstr list" where
  "failures_in evs = List.map_filter (\<lambda>ev. case ev of Failed_with t \<Rightarrow> Some t | _ \<Rightarrow> None) evs"

definition searches_in :: "event list \<Rightarrow> jstr option list" where
  "searches_in evs = List.map_filter (\<lambda>ev. case ev of Searched q \<Rightarrow> Some q | _ \<Rightarrow> None) evs"

definition counts_for :: "('a \<Rightarrow> nat) \<Rightarrow> ('a \<times> nat) list \<Rightarrow> bool" where
  "counts_for f m \<longleftrightarrow> distinct (map fst m) \<and> (\<forall>k. map_of m k = (if f k = 0 then None else Some (f k)))"

lemma counts_for_up: "counts_for f m \<Longrightarrow> counts_for (f(k := Suc (f k))) (count_up m k)"
  by (auto simp: counts_for_def count_up_def or_else_def)

lemma counts_for_set: "counts_for f m \<Longrightarrow> (k, n) \<in> set m \<longleftrightarrow> n = f k \<and> 0 < n"
  using map_of_eq_Some_iff [of m k n] by (auto simp: counts_for_def split: if_splits)

definition first_of :: "nat \<Rightarrow> nat \<Rightarrow> jstr list \<Rightarrow> jstr list" where
  "first_of n k ts = take n (map (take k) ts)"

definition tally_for :: "event list \<Rightarrow> tally \<Rightarrow> bool" where
  "tally_for evs t \<longleftrightarrow>
     ta_failures t = length (failures_in evs) \<and> ta_searches t = length (searches_in evs) \<and> ta_fetches t = count_list evs Fetched \<and>
     counts_for (\<lambda>p. count_list evs (Edited p)) (ta_edits t) \<and> counts_for (\<lambda>c. count_list evs (Ran c)) (ta_bash t) \<and>
     ta_errors t = first_of max_snippets max_snippet_length (filter (\<lambda>x. x \<noteq> []) (failures_in evs)) \<and>
     ta_queries t = first_of max_queries max_query_length (List.map_filter id (searches_in evs))"

lemma first_of_snoc:
  "first_of n k (ts @ [t]) = (if length (first_of n k ts) < n then first_of n k ts @ [take k t] else first_of n k ts)"
  by (auto simp: first_of_def)

lemma add_error_first: "add_error x (first_of max_snippets max_snippet_length ts) =
    first_of max_snippets max_snippet_length (ts @ filter (\<lambda>x. x \<noteq> []) [x])"
  by (simp add: add_error_def first_of_snoc)

lemma add_query_first: "add_query (first_of max_queries max_query_length ts) x = first_of max_queries max_query_length (ts @ [x])"
  by (simp add: add_query_def first_of_snoc)

definition event_step :: "tally \<Rightarrow> event \<Rightarrow> tally" where
  "event_step t ev =
     (case ev of
        Edited p \<Rightarrow> t\<lparr>ta_edits := count_up (ta_edits t) p\<rparr>
      | Ran c \<Rightarrow> t\<lparr>ta_bash := count_up (ta_bash t) c\<rparr>
      | Searched q \<Rightarrow> t\<lparr>ta_searches := ta_searches t + 1,
          ta_queries := (case q of None \<Rightarrow> ta_queries t | Some q \<Rightarrow> add_query (ta_queries t) q)\<rparr>
      | Fetched \<Rightarrow> t\<lparr>ta_fetches := ta_fetches t + 1\<rparr>
      | Failed_with x \<Rightarrow> t\<lparr>ta_failures := ta_failures t + 1, ta_errors := add_error x (ta_errors t)\<rparr>)"

lemma map_filter_snoc: "List.map_filter f (xs @ [x]) = List.map_filter f xs @ (case f x of None \<Rightarrow> [] | Some y \<Rightarrow> [y])"
  by (simp add: List.map_filter_def split: option.split)

lemma event_step_for: "tally_for evs t \<Longrightarrow> tally_for (evs @ [ev]) (event_step t ev)"
proof (cases ev)
  case (Edited p)
  assume t: "tally_for evs t"
  have "(\<lambda>q. count_list (evs @ [ev]) (Edited q)) = (\<lambda>q. count_list evs (Edited q))(p := Suc (count_list evs (Edited p)))"
    by (auto simp: Edited)
  with t counts_for_up [of "\<lambda>q. count_list evs (Edited q)" "ta_edits t" p] show ?thesis
    by (simp add: tally_for_def Edited event_step_def failures_in_def searches_in_def map_filter_snoc)
next
  case (Ran c)
  assume t: "tally_for evs t"
  have "(\<lambda>q. count_list (evs @ [ev]) (Ran q)) = (\<lambda>q. count_list evs (Ran q))(c := Suc (count_list evs (Ran c)))"
    by (auto simp: Ran)
  with t counts_for_up [of "\<lambda>q. count_list evs (Ran q)" "ta_bash t" c] show ?thesis
    by (simp add: tally_for_def Ran event_step_def failures_in_def searches_in_def map_filter_snoc)
next
  case (Searched q)
  then show "tally_for evs t \<Longrightarrow> ?thesis"
    by (simp add: tally_for_def event_step_def failures_in_def searches_in_def map_filter_snoc add_query_first split: option.split)
next
  case Fetched
  then show "tally_for evs t \<Longrightarrow> ?thesis"
    by (simp add: tally_for_def event_step_def failures_in_def searches_in_def map_filter_snoc)
next
  case (Failed_with x)
  then show "tally_for evs t \<Longrightarrow> ?thesis"
    by (simp add: tally_for_def event_step_def failures_in_def searches_in_def map_filter_snoc add_error_first)
qed

lemma events_for: "tally_for evs t \<Longrightarrow> tally_for (evs @ later) (foldl event_step t later)"
proof (induction later arbitrary: evs t)
  case (Cons ev later)
  from Cons.IH [OF event_step_for [OF Cons.prems], of ev] show ?case by simp
qed simp

lemma tally_item_events: "tally_item item t = foldl event_step t (item_events item)"
  by (cases item) (simp_all add: Let_def tally_tool_def tool_events_def event_step_def)

lemma tally_items_events:
  "foldl (\<lambda>t item. tally_item item t) t items = foldl event_step t (concat (map item_events items))"
  by (induction items arbitrary: t) (simp_all add: tally_item_events)

lemma note_time_for: "tally_for evs (note_time time t) = tally_for evs t"
  by (simp add: note_time_def tally_for_def split: option.split)

lemma no_tally_for: "tally_for [] no_tally"
  by (simp add: tally_for_def no_tally_def failures_in_def searches_in_def counts_for_def first_of_def List.map_filter_def)

lemma json_parse_Nil [simp]: "json_parse [] = None"
  by (simp add: json_parse_def skip_ws_def)

definition null_line :: "jstr \<Rightarrow> bool" where
  "null_line line \<longleftrightarrow> json_parse line = Some JNull"

lemma tally_line_for:
  assumes "tally_for evs t"
  shows "if null_line line then tally_line date line t = Inl Type_error
    else \<exists>t'. tally_line date line t = Inr t' \<and> tally_for (evs @ line_events line) t'"
proof (cases "line = [] \<or> json_parse line = None")
  case True
  with assms show ?thesis by (auto simp: null_line_def tally_line_def line_events_def)
next
  case False
  then obtain parsed where "line \<noteq> []" "json_parse line = Some parsed" by auto
  with assms show ?thesis
    by (simp add: null_line_def tally_line_def line_events_def tally_items_events events_for note_time_for)
qed

lemma tally_lines_for:
  assumes "tally_for evs t"
  shows "if list_ex null_line lines then isl (try_fold (tally_line date) lines t)
    else \<exists>t'. try_fold (tally_line date) lines t = Inr t' \<and> tally_for (evs @ concat (map line_events lines)) t'"
  using assms
proof (induction lines arbitrary: evs t)
  case (Cons line lines)
  show ?case
  proof (cases "null_line line")
    case True
    with tally_line_for [OF Cons.prems, of line date] show ?thesis by simp
  next
    case False
    with tally_line_for [OF Cons.prems, of line date] obtain t' where t':
      "tally_line date line t = Inr t'" "tally_for (evs @ line_events line) t'" by auto
    from Cons.IH [OF t'(2)] t'(1) False show ?thesis by (auto split: if_split_asm)
  qed
qed simp


lemma counts_for_more:
  assumes "counts_for f m"
  shows "length (filter (\<lambda>n. n > 1) (map snd m)) = card {k. 1 < f k}"
proof -
  have "distinct m" using assms by (auto simp: counts_for_def distinct_map)
  have "length (filter (\<lambda>n. n > 1) (map snd m)) = card (set (filter (\<lambda>(k, n). n > 1) m))"
    using distinct_card [of "filter (\<lambda>(k, n). n > 1) m"] \<open>distinct m\<close> by (simp add: filter_map o_def case_prod_unfold)
  also have "set (filter (\<lambda>(k, n). n > 1) m) = (\<lambda>k. (k, f k)) ` {k. 1 < f k}"
    using counts_for_set [OF assms] by auto
  finally show ?thesis by (simp add: card_image inj_on_def)
qed

lemma edits_for:
  assumes "counts_for f (ta_edits t)"
  shows "\<exists>all. ss_edits (signals_of t) = take max_edit_entries all \<and> set all = {(p, n). n = f p \<and> 1 < n} \<and>
    distinct (map fst all) \<and> sorted_wrt (\<lambda>(_, n) (_, n'). n' \<le> n) all"
proof (intro exI conjI)
  let ?all = "sort_key (\<lambda>(_, n). - int n) (filter (\<lambda>(_, n). n > 1) (ta_edits t))"
  show "ss_edits (signals_of t) = take max_edit_entries ?all" by (simp add: signals_of_def)
  show "set ?all = {(p, n). n = f p \<and> 1 < n}" using counts_for_set [OF assms] by auto
  have "distinct (map fst (filter (\<lambda>(_, n). n > 1) (ta_edits t)))"
    using assms by (intro distinct_map_filter) (simp add: counts_for_def)
  then show "distinct (map fst ?all)" by (simp add: distinct_map)
  show "sorted_wrt (\<lambda>(_, n) (_, n'). n' \<le> n) ?all"
    using sorted_sort_key [of "\<lambda>(_, n). - int n" "filter (\<lambda>(_, n). n > 1) (ta_edits t)"]
    unfolding sorted_map by (rule sorted_wrt_mono_rel [rotated]) auto
qed

lemma has_signal_for:
  assumes "tally_for evs t"
  shows "has_any_struggle_signal (signals_of t) \<longleftrightarrow> failures_in evs \<noteq> [] \<or> searches_in evs \<noteq> [] \<or> Fetched \<in> set evs \<or>
    (\<exists>p. 1 < count_list evs (Edited p)) \<or> (\<exists>c. 1 < count_list evs (Ran c))"
proof -
  have c: "counts_for (\<lambda>p. count_list evs (Edited p)) (ta_edits t)" "counts_for (\<lambda>c. count_list evs (Ran c)) (ta_bash t)"
    using assms by (simp_all add: tally_for_def)
  have "sort_key f xs = [] \<longleftrightarrow> xs = []" for f :: "jstr \<times> nat \<Rightarrow> int" and xs by (metis length_sort length_0_conv)
  then have "ss_edits (signals_of t) \<noteq> [] \<longleftrightarrow> set (filter (\<lambda>(_, n). n > 1) (ta_edits t)) \<noteq> {}"
    unfolding set_empty by (simp add: signals_of_def max_edit_entries_def del: filter_empty_conv)
  moreover have "set (filter (\<lambda>(_, n). n > 1) (ta_edits t)) = {(p, n). n = count_list evs (Edited p) \<and> 1 < n}"
    using counts_for_set [OF c(1)] by auto
  then have "set (filter (\<lambda>(_, n). n > 1) (ta_edits t)) \<noteq> {} \<longleftrightarrow> (\<exists>p. 1 < count_list evs (Edited p))" by auto
  moreover have "ss_retries (signals_of t) > 0 \<longleftrightarrow> set (filter (\<lambda>n. n > 1) (map snd (ta_bash t))) \<noteq> {}"
    unfolding set_empty length_greater_0_conv [symmetric] by (simp add: signals_of_def)
  moreover have "set (filter (\<lambda>n. n > 1) (map snd (ta_bash t))) = {n. \<exists>c. n = count_list evs (Ran c) \<and> 1 < n}"
    using counts_for_set [OF c(2)] by (auto simp: image_iff Bex_def) (metis Suc_lessD)
  then have "set (filter (\<lambda>n. n > 1) (map snd (ta_bash t))) \<noteq> {} \<longleftrightarrow> (\<exists>c. 1 < count_list evs (Ran c))" by auto
  moreover have "ss_fetches (signals_of t) > 0 \<longleftrightarrow> Fetched \<in> set evs"
    using assms count_list_0_iff [of evs Fetched] by (auto simp: signals_of_def tally_for_def)
  moreover have "ss_failures (signals_of t) > 0 \<longleftrightarrow> failures_in evs \<noteq> []" "ss_searches (signals_of t) > 0 \<longleftrightarrow> searches_in evs \<noteq> []"
    using assms by (simp_all add: signals_of_def tally_for_def)
  ultimately show ?thesis
    unfolding has_any_struggle_signal_def length_greater_0_conv by (simp only: disj_ac)
qed

text \<open>
  C31: The reader of a Claude transcript throws exactly when a line is the JSON value \<open>null\<close>;
  otherwise its one pass gives the counts of the events that stand in the transcript: failed tools,
  searches and fetches, the first texts and queries cut at their limits, the files edited more than
  once (the most edited first, at most twenty), the number of commands run more than once; and
  there is a struggle signal exactly when one of these is not zero.
\<close>

theorem signals_are_the_counts:
  "(isl (read_session_signals date (Some raw)) \<longleftrightarrow> (\<exists>line \<in> set (split_on 10 raw). json_parse line = Some JNull)) \<and>
   (\<forall>s evs. read_session_signals date (Some raw) = Inr (Some s) \<and> evs = transcript_events raw \<longrightarrow>
      ss_failures s = length (failures_in evs) \<and> ss_searches s = length (searches_in evs) \<and> ss_fetches s = count_list evs Fetched \<and>
      ss_errors s = take max_snippets (map (take max_snippet_length) (filter (\<lambda>x. x \<noteq> []) (failures_in evs))) \<and>
      ss_queries s = take max_queries (map (take max_query_length) (List.map_filter id (searches_in evs))) \<and>
      (\<exists>all. ss_edits s = take max_edit_entries all \<and> set all = {(p, n). n = count_list evs (Edited p) \<and> 1 < n} \<and>
         distinct (map fst all) \<and> sorted_wrt (\<lambda>(_, n) (_, n'). n' \<le> n) all) \<and>
      ss_retries s = card {c. 1 < count_list evs (Ran c)} \<and>
      (has_any_struggle_signal s \<longleftrightarrow> failures_in evs \<noteq> [] \<or> searches_in evs \<noteq> [] \<or> Fetched \<in> set evs \<or>
         (\<exists>p. 1 < count_list evs (Edited p)) \<or> (\<exists>c. 1 < count_list evs (Ran c))))"
proof (cases "list_ex null_line (split_on 10 raw)")
  case True
  with tally_lines_for [OF no_tally_for, of "split_on 10 raw" date] have "isl (try_fold (tally_line date) (split_on 10 raw) no_tally)"
    by simp
  then have "isl (read_session_signals date (Some raw))" by (auto simp: read_session_signals_def isl_try_then isl_def)
  with True show ?thesis by (auto simp: list_ex_iff null_line_def isl_def)
next
  case False
  with tally_lines_for [OF no_tally_for, of "split_on 10 raw" date] obtain t where
    t: "try_fold (tally_line date) (split_on 10 raw) no_tally = Inr t" "tally_for (transcript_events raw) t"
    by (auto simp: transcript_events_def)
  then have r: "read_session_signals date (Some raw) = Inr (Some (signals_of t))"
    by (simp add: read_session_signals_def)
  have c: "counts_for (\<lambda>p. count_list (transcript_events raw) (Edited p)) (ta_edits t)"
    "counts_for (\<lambda>c. count_list (transcript_events raw) (Ran c)) (ta_bash t)"
    using t(2) by (simp_all add: tally_for_def)
  have basic: "ss_failures (signals_of t) = ta_failures t" "ss_searches (signals_of t) = ta_searches t"
    "ss_fetches (signals_of t) = ta_fetches t" "ss_errors (signals_of t) = ta_errors t" "ss_queries (signals_of t) = ta_queries t"
    "ss_retries (signals_of t) = length (filter (\<lambda>n. n > 1) (map snd (ta_bash t)))"
    by (simp_all add: signals_of_def)
  have "\<not> (\<exists>line \<in> set (split_on 10 raw). json_parse line = Some JNull)"
    using False by (auto simp: list_ex_iff null_line_def)
  moreover have "\<not> isl (read_session_signals date (Some raw))" by (simp add: r)
  ultimately show ?thesis
    using t(2) edits_for [OF c(1)] counts_for_more [OF c(2)] has_signal_for [OF t(2)]
    by (auto simp: r basic tally_for_def first_of_def)
qed


definition fetch_transcript :: json where
  "fetch_transcript = JObj [(lit ''type'', JStr (lit ''assistant'')), (lit ''message'', JObj [(lit ''content'',
     JArr [JObj [(lit ''type'', JStr (lit ''tool_use'')), (lit ''name'', JStr (lit ''WebFetch''))]])])]"

lemma fetch_line: "split_on 10 (json_stringify fetch_transcript) = [json_stringify fetch_transcript]"
  "json_parse (json_stringify fetch_transcript) = Some fetch_transcript"
proof -
  have "10 \<notin> set (json_stringify fetch_transcript)"
    by (simp add: json_stringify_def fetch_transcript_def quote_str_def lit_def quote_unit_def is_high_def is_low_def)
  then show "split_on 10 (json_stringify fetch_transcript) = [json_stringify fetch_transcript]" by (rule split_on_free)
  have "json_parse (json_stringify fetch_transcript @ []) = Some fetch_transcript"
    by (rule json_roundtrip) (simp_all add: fetch_transcript_def blank_def units_def lit_def)
  then show "json_parse (json_stringify fetch_transcript) = Some fetch_transcript" by simp
qed

lemma fetch_events: "transcript_events (json_stringify fetch_transcript) = [Fetched]"
  by (simp add: transcript_events_def fetch_line line_events_def)
     (simp add: fetch_transcript_def content_items_def is_lit_def obj_get_def tool_events_def)

theorem signals_are_the_counts_witness:
  "\<exists>s. read_session_signals (\<lambda>_. None) (Some (json_stringify fetch_transcript)) = Inr (Some s) \<and>
     ss_fetches s = 1 \<and> ss_failures s = 0 \<and> has_any_struggle_signal s"
proof -
  note counts = signals_are_the_counts [of "\<lambda>_. None" "json_stringify fetch_transcript"]
  have "\<not> isl (read_session_signals (\<lambda>_. None) (Some (json_stringify fetch_transcript)))"
    using counts by (simp add: fetch_line) (simp add: fetch_transcript_def)
  then obtain s where "read_session_signals (\<lambda>_. None) (Some (json_stringify fetch_transcript)) = Inr (Some s)"
    by (auto simp: read_session_signals_def try_then_def isl_def split: sum.splits)
  with counts show ?thesis by (auto simp: fetch_events failures_in_def List.map_filter_def)
qed

subsection \<open>The limits of both readers\<close>

definition bounded :: "tally \<Rightarrow> bool" where
  "bounded t \<longleftrightarrow> length (ta_errors t) \<le> max_snippets \<and> (\<forall>x \<in> set (ta_errors t). x \<noteq> [] \<and> length x \<le> max_snippet_length) \<and>
     length (ta_queries t) \<le> max_queries \<and> (\<forall>x \<in> set (ta_queries t). length x \<le> max_query_length)"

lemma bounded_other [simp]:
  "bounded (t\<lparr>ta_edits := e\<rparr>) = bounded t" "bounded (t\<lparr>ta_bash := b\<rparr>) = bounded t"
  "bounded (note_time time t) = bounded t"
  by (simp_all add: bounded_def note_time_def split: option.split)

lemma bounded_failure: "bounded t \<Longrightarrow> bounded (t\<lparr>ta_failures := n, ta_errors := add_error x (ta_errors t)\<rparr>)"
  by (auto simp: bounded_def add_error_def max_snippets_def max_snippet_length_def)

definition queries_bounded :: "jstr list \<Rightarrow> bool" where
  "queries_bounded qs \<longleftrightarrow> length qs \<le> max_queries \<and> (\<forall>x \<in> set qs. length x \<le> max_query_length)"

lemma queries_bounded_add: "queries_bounded qs \<Longrightarrow> queries_bounded (foldl add_query qs new)"
proof (induction new arbitrary: qs)
  case (Cons q new)
  have "queries_bounded (add_query qs q)" using Cons.prems by (auto simp: queries_bounded_def add_query_def)
  from Cons.IH [OF this] show ?case by simp
qed simp

lemma bounded_search: "bounded t \<Longrightarrow> queries_bounded qs \<Longrightarrow> bounded (t\<lparr>ta_searches := n, ta_queries := qs\<rparr>)"
  "bounded t \<Longrightarrow> queries_bounded qs \<Longrightarrow> bounded (t\<lparr>ta_searches := n, ta_queries := qs, ta_fetches := k\<rparr>)"
  by (simp_all add: bounded_def queries_bounded_def)

lemma bounded_queries: "bounded t \<Longrightarrow> queries_bounded (ta_queries t)"
  by (simp add: bounded_def queries_bounded_def)

lemma cx_tally_on [simp]: "cx_tally (on_tally f s) = f (cx_tally s)"
  by (simp add: on_tally_def)

lemma bounded_fail: "bounded (cx_tally s) \<Longrightarrow> bounded (cx_tally (codex_fail callId output s))"
  by (simp add: codex_fail_def bounded_failure)

lemma bounded_web: "bounded t \<Longrightarrow> bounded (tally_web args t)"
  by (simp add: tally_web_def Let_def bounded_search bounded_queries queries_bounded_add)

lemma bounded_call: "bounded (cx_tally s) \<Longrightarrow> bounded (cx_tally (codex_call payload s))"
  by (simp add: codex_call_def Let_def bounded_web tally_patch_def split: option.split)

lemma bounded_exec_end: "bounded (cx_tally s) \<Longrightarrow> bounded (cx_tally (codex_exec_end payload s))"
  by (simp add: codex_exec_end_def Let_def bounded_fail split: option.split json.split dec.split)

lemma bounded_payload:
  assumes "bounded (cx_tally s)"
  shows "bounded (cx_tally (codex_payload parsed payload s))"
proof -
  have "queries_bounded (add_query (ta_queries (cx_tally s)) q)" for q
    using queries_bounded_add [OF bounded_queries [OF assms], of "[q]"] by simp
  then show ?thesis
    using assms bounded_queries [OF assms]
    by (simp add: codex_payload_def Let_def bounded_call bounded_search bounded_exec_end codex_output_def bounded_fail split: option.split)
qed

lemma bounded_codex_line: "bounded (cx_tally s) \<Longrightarrow> codex_line date line s = Inr s' \<Longrightarrow> bounded (cx_tally s')"
  by (auto simp: codex_line_def Let_def bounded_payload split: if_splits option.splits json.splits)

lemma bounded_codex_lines:
  "bounded (cx_tally s) \<Longrightarrow> try_fold (codex_line date) lines s = Inr s' \<Longrightarrow> bounded (cx_tally s')"
proof (induction lines arbitrary: s)
  case (Cons line lines)
  from Cons.prems(2) obtain s1 where s1: "codex_line date line s = Inr s1" "try_fold (codex_line date) lines s1 = Inr s'"
    by (auto simp: res)
  from Cons.IH [OF bounded_codex_line [OF Cons.prems(1) s1(1)] s1(2)] show ?case .
qed simp

lemma signals_limits:
  assumes "bounded t"
  shows "length (ss_errors (signals_of t)) \<le> 10 \<and> (\<forall>x \<in> set (ss_errors (signals_of t)). x \<noteq> [] \<and> length x \<le> 300) \<and>
    length (ss_queries (signals_of t)) \<le> 10 \<and> (\<forall>x \<in> set (ss_queries (signals_of t)). length x \<le> 200) \<and>
    length (ss_edits (signals_of t)) \<le> 20 \<and> (\<forall>(p, n) \<in> set (ss_edits (signals_of t)). n > 1) \<and> ss_minutes (signals_of t) \<ge> 0"
proof -
  have "snd x > 1" if "x \<in> set (ss_edits (signals_of t))" for x
    using that by (auto simp: signals_of_def dest!: in_set_takeD)
  moreover have "ss_minutes (signals_of t) \<ge> 0"
    by (simp add: signals_of_def duration_minutes_def split: option.split)
  moreover have "length (ss_edits (signals_of t)) \<le> 20"
    by (simp add: signals_of_def max_edit_entries_def)
  ultimately show ?thesis
    using assms by (auto simp: bounded_def max_snippets_def max_snippet_length_def max_queries_def max_query_length_def signals_of_def)
qed

text \<open>
  Whatever a Codex transcript holds, its signals stay within the limits: at most ten error
  texts of 300 characters, none empty, ten queries of 200 characters, twenty edited files, each
  edited more than once, and a duration that is not negative.
\<close>

theorem codex_signals_are_limited:
  assumes "read_codex_session_signals date raw = Inr (Some s)"
  shows "length (ss_errors s) \<le> 10 \<and> (\<forall>x \<in> set (ss_errors s). x \<noteq> [] \<and> length x \<le> 300) \<and>
    length (ss_queries s) \<le> 10 \<and> (\<forall>x \<in> set (ss_queries s). length x \<le> 200) \<and>
    length (ss_edits s) \<le> 20 \<and> (\<forall>(p, n) \<in> set (ss_edits s). n > 1) \<and> ss_minutes s \<ge> 0"
proof -
  obtain text' cx where cx: "try_fold (codex_line date) (split_on 10 text') \<lparr>cx_tally = no_tally, cx_calls = [], cx_failed = []\<rparr> = Inr cx"
    and s: "s = signals_of ((cx_tally cx)\<lparr>ta_bash := foldl missing_command (ta_bash (cx_tally cx)) (map snd (cx_calls cx))\<rparr>)"
    using assms by (auto simp: read_codex_session_signals_def res split: option.splits)
  have "bounded (cx_tally cx)"
    by (rule bounded_codex_lines [OF _ cx]) (simp add: bounded_def no_tally_def)
  then show ?thesis unfolding s by (intro signals_limits) simp
qed

definition search_call :: json where
  "search_call = JObj [(lit ''type'', JStr (lit ''response_item'')),
     (lit ''payload'', JObj [(lit ''type'', JStr (lit ''web_search_call'')), (lit ''query'', JStr (lit ''q''))])]"

theorem codex_signals_are_limited_witness:
  "\<exists>s. read_codex_session_signals (\<lambda>_. None) (Some (json_stringify search_call)) = Inr (Some s) \<and>
     ss_searches s = 1 \<and> length (ss_queries s) \<le> 10"
proof -
  have "json_parse (json_stringify search_call @ []) = Some search_call"
    by (rule json_roundtrip) (simp_all add: search_call_def blank_def units_def lit_def)
  moreover have "10 \<notin> set (json_stringify search_call)"
    by (simp add: json_stringify_def search_call_def quote_str_def lit_def quote_unit_def is_high_def is_low_def)
  ultimately obtain s where s: "read_codex_session_signals (\<lambda>_. None) (Some (json_stringify search_call)) = Inr (Some s)" "ss_searches s = 1"
    by (cases "json_stringify search_call = []")
      (simp_all add: read_codex_session_signals_def codex_line_def split_on_free Let_def signals_of_def search_call_def
        codex_payload_def is_lit_def obj_get_def no_tally_def on_tally_def note_time_def parse_timestamp_def)
  from codex_signals_are_limited [OF s(1)] s show ?thesis by blast
qed

end
