(* ===== verification/Delivery.thy ===== *)
theory Delivery
  imports Reminders Pending
begin

text \<open>
  What a hook hands to its host. \<open>apps/cli/src/hookDelivery.ts\<close> takes the reminders that are due,
  parses their lines and passes on only the entries and signals this session has not been told
  yet; what was told is kept in one file per session. \<open>apps/cli/src/hookShared.ts\<close> compacts the
  reminders, drains the queue and queues the reminder at the end of a session. The files of the
  sessions are a map from file names to bytes; \<open>sha\<close> is SHA-256 in hexadecimal and \<open>cmp\<close> is
  \<open>localeCompare\<close>. Lemmas: the line a reminder prints for an entry is parsed back to what
  it shows, over any sequence of deliveries a session is shown every entry and every kind of signal
  once, and a search changes the index only by marking what it returns.
\<close>

subsection \<open>The fixed texts\<close>

definition reedit_prefix :: jstr where
  "reedit_prefix =
     lit ''- '' @ [21516, 19968, 12501, 12449, 12452, 12523, 35079, 25968, 32232, 38598] @ lit '':''"

definition rerun_prefix :: jstr where
  "rerun_prefix =
     lit ''- '' @ [21516, 19968] @ lit '' Bash '' @ [12467, 12510, 12531, 12489, 12398, 20877, 23455, 34892] @ lit '':''"

definition failure_word :: jstr where
  "failure_word =
     [12484, 12540, 12523, 22833, 25943]"

definition reedit_word :: jstr where
  "reedit_word =
     [21516, 19968, 12501, 12449, 12452, 12523, 12398, 20877, 32232, 38598]"

definition search_word :: jstr where
  "search_word =
     lit ''Web'' @ [26908, 32034]"

definition fetch_word :: jstr where
  "fetch_word =
     lit ''Web'' @ [21462, 24471]"

definition rerun_word :: jstr where
  "rerun_word =
     [21516, 19968, 12467, 12510, 12531, 12489, 12398, 20877, 23455, 34892]"

definition signals_head :: jstr where
  "signals_head =
     lit ''[caveat] '' @ [26032, 12375, 12356, 33510, 25126, 12471, 12464, 12490, 12523] @ lit '': ''"

definition signals_tail :: jstr where
  "signals_tail =
     [12290, 24517, 35201, 12394, 12425] @ lit ''Caveat'' @ [12391, 30693, 35211, 12434, 30906, 35469, 12375, 12390, 12367, 12384, 12373, 12356,
     12290]"

definition hits_head :: jstr where
  "hits_head =
     lit ''[caveat] '' @ [26032, 12375, 12367, 35442, 24403, 12375, 12383, 32608] @ lit '':''"

definition hits_tail :: jstr where
  "hits_tail =
     [35443, 32048, 12399] @ lit ''Caveat'' @ [12391, 21462, 24471, 12375, 12289, 36969, 29992, 26465, 20214, 12434, 30906, 35469, 12375, 12390,
     12367, 12384, 12373, 12356, 12290]"

definition managed_delivery :: jstr where
  "managed_delivery =
     lit ''Use the registered Caveat MCP tools: caveat_get with id + source for details, caveat_update for '' @
     lit ''corrections/last_verified, caveat_record for a new trap after searching for duplicates. Those write '' @
     lit ''tools update the index. Community entries are read-only; use the tool visibility policy. If '' @
     lit ''unavailable, stop; do not use a PATH command or another context.''"

definition sync_command :: jstr where
  "sync_command =
     lit ''run `caveat sync`''"

definition sync_tool :: jstr where
  "sync_tool =
     lit ''call the Caveat MCP tool caveat_sync with {}; if unavailable, stop without a PATH command''"

definition omitted_head :: jstr where
  "omitted_head =
     lit ''[caveat] pending reminder ''"

definition omitted_tail :: jstr where
  "omitted_tail =
     lit '' '' @ [20214, 12434, 37325, 35079, 12414, 12383, 12399, 19978, 38480, 12395, 12424, 12426, 30465, 30053, 12375, 12414, 12375, 12383,
     12290]"

subsection \<open>What a session has been told\<close>

record delivered_state =
  ds_ids :: "jstr list"
  ds_signals :: "jstr list"

datatype delivery_error = Bad_json | State_invalid | Write_failed

definition state_name :: "(jstr \<Rightarrow> jstr) \<Rightarrow> jstr \<Rightarrow> jstr" where
  "state_name sha sessionId = sha sessionId @ lit ''.json''"

fun string_items :: "json list \<Rightarrow> jstr list option" where
  "string_items [] = Some []"
| "string_items (JStr s # xs) = (case string_items xs of None \<Rightarrow> None | Some ss \<Rightarrow> Some (s # ss))"
| "string_items (_ # xs) = None"

definition string_member :: "json \<Rightarrow> string \<Rightarrow> jstr list option" where
  "string_member v k = (case get_member v k of Some (JArr xs) \<Rightarrow> string_items xs | _ \<Rightarrow> None)"

definition read_state :: "(jstr \<Rightarrow> jstr) \<Rightarrow> (jstr \<times> bytes) list \<Rightarrow> jstr \<Rightarrow> delivery_error + delivered_state" where
  "read_state sha store sessionId =
     (case map_of store (state_name sha sessionId) of
        None \<Rightarrow> Inr \<lparr>ds_ids = [], ds_signals = []\<rparr>
      | Some b \<Rightarrow> (case json_parse (utf8_decode b) of
          None \<Rightarrow> Inl Bad_json
        | Some v \<Rightarrow> (case (string_member v ''ids'', string_member v ''signals'') of
            (Some ids, Some signals) \<Rightarrow> Inr \<lparr>ds_ids = ids, ds_signals = signals\<rparr>
          | _ \<Rightarrow> Inl State_invalid)))"

definition state_json :: "delivered_state \<Rightarrow> json" where
  "state_json st = JObj [(lit ''ids'', JArr (map JStr (ds_ids st))), (lit ''signals'', JArr (map JStr (ds_signals st)))]"

text \<open>The new text goes to a temporary file that replaces the old one; a failure leaves the old one.\<close>

definition write_state ::
  "(jstr \<Rightarrow> jstr) \<Rightarrow> bool \<Rightarrow> (jstr \<times> bytes) list \<Rightarrow> jstr \<Rightarrow> delivered_state \<Rightarrow> (delivery_error + unit) \<times> (jstr \<times> bytes) list" where
  "write_state sha fails store sessionId st =
     (if fails then (Inl Write_failed, store)
      else (Inr (), map_set store (state_name sha sessionId) (utf8_encode (json_stringify (state_json st) @ [10]))))"

definition was_hit_delivered :: "(jstr \<Rightarrow> jstr) \<Rightarrow> (jstr \<times> bytes) list \<Rightarrow> jstr \<Rightarrow> jstr \<Rightarrow> delivery_error + bool" where
  "was_hit_delivered sha store sessionId ref = try_then (read_state sha store sessionId) (\<lambda>st. Inr (ref \<in> set (ds_ids st)))"

subsection \<open>The lines of a reminder\<close>

text \<open>
  \<open>/^\d+\. ([^\s]+) \(([^)]+)\) \<dots> (.+)$/u\<close>: each greedy run is followed by a character outside its
  class, so it ends where its class ends.
\<close>

definition after :: "jstr \<Rightarrow> jstr \<Rightarrow> jstr option" where
  "after p s = (if starts_with p s then Some (drop (length p) s) else None)"

definition run_then :: "(nat \<Rightarrow> bool) \<Rightarrow> jstr \<Rightarrow> jstr \<Rightarrow> (jstr \<times> jstr) option" where
  "run_then P p s =
     (if takeWhile P s = [] then None
      else map_option (\<lambda>rest. (takeWhile P s, rest)) (after p (dropWhile P s)))"

definition parse_hit_line :: "jstr \<Rightarrow> (jstr \<times> jstr \<times> jstr) option" where
  "parse_hit_line line =
     (case run_then is_digit (lit ''. '') line of
        None \<Rightarrow> None
      | Some (_, s1) \<Rightarrow> (case run_then (\<lambda>c. \<not> is_space c) (lit '' ('') s1 of
          None \<Rightarrow> None
        | Some (hid, s2) \<Rightarrow> (case run_then (\<lambda>c. c \<noteq> 41) (lit '') '' @ [8212, 32]) s2 of
            None \<Rightarrow> None
          | Some (source, title) \<Rightarrow>
              if title = [] \<or> list_ex line_end title then None else Some (hid, source, title))))"

record signal_pattern =
  sp_prefix :: jstr
  sp_kind :: jstr
  sp_label :: jstr

definition signal_patterns :: "signal_pattern list" where
  "signal_patterns =
     [\<lparr>sp_prefix = lit ''- tool failure:'', sp_kind = lit ''tool_failure'', sp_label = failure_word\<rparr>,
      \<lparr>sp_prefix = reedit_prefix, sp_kind = lit ''reedit'', sp_label = reedit_word\<rparr>,
      \<lparr>sp_prefix = lit ''- WebSearch:'', sp_kind = lit ''web_search'', sp_label = search_word\<rparr>,
      \<lparr>sp_prefix = lit ''- WebFetch:'', sp_kind = lit ''web_fetch'', sp_label = fetch_word\<rparr>,
      \<lparr>sp_prefix = rerun_prefix, sp_kind = lit ''bash_retry'', sp_label = rerun_word\<rparr>]"

subsection \<open>Preparing a delivery\<close>

record delivery =
  dv_seen_ids :: "jstr list"
  dv_seen_signals :: "jstr list"
  dv_ids :: "jstr list"
  dv_signals :: "jstr list"
  dv_lines :: "jstr list"
  dv_labels :: "jstr list"
  dv_others :: "jstr list"

definition hit_ref :: "jstr \<times> jstr \<times> jstr \<Rightarrow> jstr" where
  "hit_ref hit = (case hit of (hid, source, _) \<Rightarrow> source @ 47 # hid)"

definition shown_line :: "jstr \<times> jstr \<times> jstr \<Rightarrow> jstr" where
  "shown_line hit = (case hit of (hid, source, title) \<Rightarrow> hid @ lit '' ('' @ source @ lit '') '' @ [8212, 32] @ title)"

definition note_signal :: "jstr \<Rightarrow> signal_pattern \<Rightarrow> delivery \<Rightarrow> delivery" where
  "note_signal line p d =
     (if starts_with (sp_prefix p) line \<and> sp_kind p \<notin> set (dv_seen_signals d)
      then d\<lparr>dv_seen_signals := set_add (dv_seen_signals d) (sp_kind p), dv_signals := dv_signals d @ [sp_kind p],
        dv_labels := dv_labels d @ [sp_label p]\<rparr>
      else d)"

text \<open>A line of an entry already told ends the work on this line (\<open>continue\<close>).\<close>

definition note_line :: "bool \<Rightarrow> jstr \<Rightarrow> delivery \<Rightarrow> delivery" where
  "note_line isStop line d =
     (let signals = (\<lambda>d. if isStop then foldl (\<lambda>d p. note_signal line p d) d signal_patterns else d) in
      case parse_hit_line line of
        None \<Rightarrow> signals d
      | Some hit \<Rightarrow>
          (if hit_ref hit \<in> set (dv_seen_ids d) then d
           else signals (d\<lparr>dv_seen_ids := set_add (dv_seen_ids d) (hit_ref hit), dv_ids := dv_ids d @ [hit_ref hit],
             dv_lines := dv_lines d @ [shown_line hit]\<rparr>)))"

text \<open>\<open>s.replaceAll(sub, rep)\<close> for a text.\<close>

definition replace_all :: "jstr \<Rightarrow> jstr \<Rightarrow> jstr \<Rightarrow> jstr" where
  "replace_all sub s rep = rx_replace (rx_str sub) s rep"

definition context_text :: "bool \<Rightarrow> jstr \<Rightarrow> jstr" where
  "context_text managed context' =
     (if managed \<and> starts_with (lit ''autosync:'') context' then replace_all sync_command (trim context') sync_tool else trim context')"

definition note_context :: "bool \<Rightarrow> jstr \<Rightarrow> delivery \<Rightarrow> delivery" where
  "note_context managed context' d =
     (let s = context_text managed context'; ls = split_on 10 s; isStop = starts_with stop_reminder_prefix s in
      if s = [] then d
      else (let d' = foldl (\<lambda>d line. note_line isStop line d) d ls in
        if isStop \<or> list_ex (\<lambda>line. parse_hit_line line \<noteq> None) ls then d'
        else d'\<lparr>dv_others := set_add (dv_others d') s\<rparr>))"

definition start_delivery :: "delivered_state \<Rightarrow> jstr list \<Rightarrow> delivery" where
  "start_delivery st additional = \<lparr>dv_seen_ids = ds_ids st @ additional, dv_seen_signals = ds_signals st,
     dv_ids = [], dv_signals = [], dv_lines = [], dv_labels = [], dv_others = []\<rparr>"

definition note_contexts :: "bool \<Rightarrow> jstr list \<Rightarrow> delivery \<Rightarrow> delivery" where
  "note_contexts managed contexts d = foldl (\<lambda>d c. note_context managed c d) d contexts"

definition delivery_texts :: "bool \<Rightarrow> delivery \<Rightarrow> jstr list" where
  "delivery_texts managed d =
     dv_others d @
     (if dv_labels d \<noteq> [] then [signals_head @ join [12289] (dv_labels d) @ signals_tail] else []) @
     (if dv_lines d \<noteq> [] then [hits_head @ [10] @ join [10] (map (\<lambda>l. lit ''- '' @ l) (dv_lines d)) @ [10] @ hits_tail] else []) @
     (if managed \<and> (dv_labels d \<noteq> [] \<or> dv_lines d \<noteq> []) then [managed_delivery] else [])"

definition prepare_delivery ::
  "(jstr \<Rightarrow> jstr) \<Rightarrow> bool \<Rightarrow> (jstr \<times> bytes) list \<Rightarrow> jstr \<Rightarrow> jstr list \<Rightarrow> jstr list \<Rightarrow> delivery_error + delivery" where
  "prepare_delivery sha managed store sessionId contexts additional =
     try_then (read_state sha store sessionId) (\<lambda>st. Inr (note_contexts managed contexts (start_delivery st additional)))"

text \<open>The callback \<open>delivered\<close>: the file is read again, so that what another hook stored is kept.\<close>

definition mark_delivered ::
  "(jstr \<Rightarrow> jstr) \<Rightarrow> bool \<Rightarrow> (jstr \<times> bytes) list \<Rightarrow> jstr \<Rightarrow> delivery \<Rightarrow> jstr list \<Rightarrow> (delivery_error + unit) \<times> (jstr \<times> bytes) list" where
  "mark_delivered sha fails store sessionId d additional =
     (if dv_ids d = [] \<and> dv_signals d = [] \<and> additional = [] then (Inr (), store)
      else (case read_state sha store sessionId of
          Inl e \<Rightarrow> (Inl e, store)
        | Inr latest \<Rightarrow> write_state sha fails store sessionId
            \<lparr>ds_ids = unique_by id [] (ds_ids latest @ dv_ids d @ additional), ds_signals = unique_by id [] (ds_signals latest @ dv_signals d)\<rparr>))"

subsection \<open>The hooks' shared steps\<close>

definition context_dedupe_key :: "jstr \<Rightarrow> jstr \<Rightarrow> jstr" where
  "context_dedupe_key stopKey s = (if starts_with stop_reminder_prefix s then stopKey else trim s)"

definition compact_contexts :: "jstr \<Rightarrow> jstr list \<Rightarrow> jstr list" where
  "compact_contexts stopKey contexts =
     (let selected = rev (unique_by (context_dedupe_key stopKey) [] (filter (\<lambda>s. s \<noteq> []) (map trim (rev contexts))));
          limited = drop (length selected - 3) selected; omitted = length selected - length limited in
      if omitted > 0 then limited @ [omitted_head @ nat_str omitted @ omitted_tail] else limited)"

definition response_item_text :: "json \<Rightarrow> jstr" where
  "response_item_text item = (case item of JStr s \<Rightarrow> s | _ \<Rightarrow> or_else (as_str (get_member item ''text'')) [])"

definition response_array_text :: "json list \<Rightarrow> jstr" where
  "response_array_text items = join [32] (filter (\<lambda>s. s \<noteq> []) (map response_item_text items))"

definition string_values :: "json option list \<Rightarrow> jstr list" where
  "string_values vs = List.map_filter as_str vs"

definition extract_tool_response_text :: "json option \<Rightarrow> jstr" where
  "extract_tool_response_text response =
     (case response of
        Some (JStr s) \<Rightarrow> s
      | Some (JArr items) \<Rightarrow> response_array_text items
      | Some (JObj m) \<Rightarrow>
          (let r = JObj m in
           case get_member r ''content'' of
             Some (JStr s) \<Rightarrow> s
           | Some (JArr items) \<Rightarrow> response_array_text items
           | _ \<Rightarrow> (case as_str (get_member r ''output'') of
               Some s \<Rightarrow> s
             | None \<Rightarrow> join [32] (string_values [get_member r ''stdout'', get_member r ''stderr''])))
      | _ \<Rightarrow> [])"

definition stop_signal_key :: "(jstr \<Rightarrow> jstr) \<Rightarrow> (jstr \<Rightarrow> jstr \<Rightarrow> int) \<Rightarrow> session_signals \<Rightarrow> search_result list \<Rightarrow> jstr" where
  "stop_signal_key sha cmp s related =
     sha (json_stringify (JObj
       [(lit ''signalKinds'', JArr (map JStr (
          (if ss_failures s > 0 then [lit ''tool_failure''] else []) @ (if length (ss_edits s) > 0 then [lit ''reedit''] else []) @
          (if ss_searches s > 0 then [lit ''web_search''] else []) @ (if ss_fetches s > 0 then [lit ''web_fetch''] else []) @
          (if ss_retries s > 0 then [lit ''bash_retry''] else [])))),
        (lit ''related'', JArr (js_sort (\<lambda>a b. cmp (json_stringify a) (json_stringify b))
          (map (\<lambda>h. JArr [JStr (se_source h), JStr (se_id h)]) related)))]))"

record hook_home =
  hh_pending :: pending
  hh_stops :: "(jstr \<times> bytes) list"

text \<open>\<open>build\<close> is the text of the reminder, None where its construction throws; \<open>mark_fails\<close> says that the file cannot be written.\<close>

definition queue_stop_for_session ::
  "pend_env \<Rightarrow> bool \<Rightarrow> (jstr \<Rightarrow> jstr) \<Rightarrow> (jstr \<Rightarrow> jstr \<Rightarrow> int) \<Rightarrow> jstr \<Rightarrow> jstr \<Rightarrow> session_signals \<Rightarrow> search_result list \<Rightarrow>
   jstr option \<Rightarrow> hook_home \<Rightarrow> hook_home" where
  "queue_stop_for_session env mark_fails sha cmp agent sessionId s related build hh =
     (let key = stop_signal_key sha cmp s related; file = sanitize_session_id sessionId @ lit ''.txt'' in
      if map_option utf8_decode (map_of (hh_stops hh) file) = Some key then hh
      else (case build_and_publish env sessionId
              (pending_semantic_key sha cmp agent (lit ''stop'') (map (\<lambda>h. (se_source h, se_id h)) related) (Some key)) build (hh_pending hh) of
          (Inl e, p) \<Rightarrow> hh\<lparr>hh_pending := p\<rparr>
        | (Inr (did, published), p) \<Rightarrow>
            (if \<not> did \<or> mark_fails then hh\<lparr>hh_pending := p\<rparr>
             else hh\<lparr>hh_pending := p, hh_stops := map_set (hh_stops hh) file (utf8_encode key)\<rparr>)))"

definition drain_for_session ::
  "pend_env \<Rightarrow> (jstr \<Rightarrow> jstr \<Rightarrow> int) \<Rightarrow> jstr \<Rightarrow> pending \<Rightarrow> jstr list \<times> pending" where
  "drain_for_session env cmp sessionId st =
     (case drain_pending env cmp sessionId st of (here, st1) \<Rightarrow>
      case drain_pending env cmp global_pending_session st1 of (everywhere, st2) \<Rightarrow>
        (dr_reminders here @ dr_reminders everywhere, st2))"

text \<open>
  Reminders are looked at first and removed once they are delivered. \<open>root\<close> is the path of the
  queue; a peek that throws ends the hook.
\<close>

record peeked =
  pk_contexts :: "jstr list"
  pk_paths :: "jstr list"

definition reminder_path :: "jstr \<Rightarrow> jstr \<Rightarrow> jstr \<Rightarrow> jstr" where
  "reminder_path root sessionId name = root @ 47 # sanitize_session_id sessionId @ 47 # name"

definition peek_for_session ::
  "pend_env \<Rightarrow> (jstr \<Rightarrow> jstr \<Rightarrow> int) \<Rightarrow> jstr \<Rightarrow> jstr \<Rightarrow> bool \<Rightarrow> pending \<Rightarrow> (pend_error + peeked) \<times> pending" where
  "peek_for_session env cmp root sessionId discardSession st =
     (case peek_pending env cmp sessionId st of
        (Inl e, st1) \<Rightarrow> (Inl e, st1)
      | (Inr (here, _), st1) \<Rightarrow> (case peek_pending env cmp global_pending_session st1 of
          (Inl e, st2) \<Rightarrow> (Inl e, st2)
        | (Inr (everywhere, _), st2) \<Rightarrow>
            (let locals = map (\<lambda>(n, s). (reminder_path root sessionId n, s)) here;
                 globals = map (\<lambda>(n, s). (reminder_path root global_pending_session n, s)) everywhere;
                 st3 = (if discardSession then snd (acknowledge_pending env root (map fst locals) st2) else st2);
                 reminders = (if discardSession then globals else locals @ globals) in
             (Inr \<lparr>pk_contexts = map snd reminders, pk_paths = map fst reminders\<rparr>, st3))))"

definition acknowledge_session :: "pend_env \<Rightarrow> jstr \<Rightarrow> peeked \<Rightarrow> pending \<Rightarrow> pending" where
  "acknowledge_session env root p st = (if pk_paths p = [] then st else snd (acknowledge_pending env root (pk_paths p) st))"

text \<open>
  The search of a hook. A failing step is reported and leaves an empty result, or the result without
  the mark; \<open>sx_marks\<close> is the number of updates that succeed when marking fails. The third
  component is the query handed to the log of searches without a hit.
\<close>

record search_env =
  sx_context :: bool
  sx_opens :: bool
  sx_marks :: "nat option"
  sx_now :: jstr
  sx_host :: jstr
  sx_self :: "jstr list"

definition hit_applies :: "jstr \<Rightarrow> jstr \<Rightarrow> search_result \<Rightarrow> entry_error + bool" where
  "hit_applies task host hit =
     (case get_member (se_environment hit) ''applies_to_os'' of
        None \<Rightarrow> Inr True
      | Some (JStr s) \<Rightarrow> environment_applies [(lit ''applies_to_os'', s)] task host
      | Some v \<Rightarrow> (if truthy (Some v) then Inl (Other_entry_error (lit ''TypeError'')) else Inr True))"

fun filter_applies :: "jstr \<Rightarrow> jstr \<Rightarrow> search_result list \<Rightarrow> entry_error + search_result list" where
  "filter_applies task host [] = Inr []"
| "filter_applies task host (h # hs) =
     try_then (hit_applies task host h) (\<lambda>ok. try_then (filter_applies task host hs) (\<lambda>r. Inr (if ok then h # r else r)))"

definition logged_query :: "hook_input list \<Rightarrow> jstr" where
  "logged_query inputs = join [10] (filter (\<lambda>s. s \<noteq> []) (map (\<lambda>i.
     if hi_surface i = User_prompt then (if hi_topic i \<noteq> [] then hi_topic i else hi_failure i) else hi_failure i) inputs))"

definition task_text :: "hook_input list \<Rightarrow> jstr" where
  "task_text inputs = join [10] (map (\<lambda>i. hi_topic i @ 10 # hi_failure i) inputs)"

definition search_caveats_safely ::
  "hook_engine \<Rightarrow> search_env \<Rightarrow> hook_input list \<Rightarrow> entry_db option \<Rightarrow> search_result list \<times> entry_db option \<times> jstr option" where
  "search_caveats_safely e x inputs db =
     (if list_all (\<lambda>i. hi_topic i = [] \<and> hi_failure i = []) inputs \<or> \<not> sx_context x then ([], db, None)
      else (case db of
        None \<Rightarrow> ([], None, None)
      | Some d \<Rightarrow>
          (if \<not> sx_opens x then ([], db, None)
           else (let opts = \<lparr>ho_limit = None, ho_self = Some (sx_self x)\<rparr>;
               found = (case inputs of [i] \<Rightarrow> find_caveats_for_hook e (rows d) i opts
                 | _ \<Rightarrow> find_caveats_for_hook_segments e (rows d) inputs opts) in
             case try_then found (filter_applies (task_text inputs) (sx_host x)) of
               Inl _ \<Rightarrow> ([], db, None)
             | Inr [] \<Rightarrow> ([], db, Some (logged_query inputs))
             | Inr hits \<Rightarrow> (let keys = map (\<lambda>h. (se_id h, se_source h)) hits in
                 (hits, Some (mark_hit (sx_now x) (case sx_marks x of None \<Rightarrow> keys | Some n \<Rightarrow> take n keys) d), None))))))"

subsection \<open>The line of an entry is read back\<close>

lemma takeWhile_stop: "\<forall>c \<in> set a. P c \<Longrightarrow> \<not> P x \<Longrightarrow> takeWhile P (a @ x # b) = a \<and> dropWhile P (a @ x # b) = x # b"
  by (simp add: takeWhile_tail dropWhile_append3)

lemma after_append [simp]: "after p (p @ s) = Some s"
  by (simp add: after_def starts_with_def)

lemma run_then_append:
  assumes "a \<noteq> []" "\<forall>c \<in> set a. P c" "p = x # q" "\<not> P x"
  shows "run_then P p (a @ p @ s) = Some (a, s)"
proof -
  have "takeWhile P (a @ p @ s) = a \<and> dropWhile P (a @ p @ s) = p @ s"
    using takeWhile_stop [of a P x "q @ s"] assms(2-4) by simp
  then show ?thesis using assms(1) by (simp add: run_then_def)
qed

lemma display_line_end: "display_unit c \<Longrightarrow> \<not> line_end c"
  by (auto simp: display_unit_def line_end_def is_space_def)

lemma sanitize_plain:
  "\<forall>c \<in> set v. \<not> is_space c \<and> c \<noteq> 60 \<and> c \<noteq> 62 \<Longrightarrow> length v \<le> n \<Longrightarrow> sanitize_display v n = v"
proof -
  assume v: "\<forall>c \<in> set v. \<not> is_space c \<and> c \<noteq> 60 \<and> c \<noteq> 62" and "length v \<le> n"
  moreover have "one_blank b v = v" for b using v by (induction v arbitrary: b) auto
  moreover have "map escape_angle v = v" using v by (induction v) (auto simp: escape_angle_def)
  moreover have "dropWhile is_space w = w" if "set w \<subseteq> set v" for w using that v by (cases w) auto
  ultimately show ?thesis by (simp add: sanitize_display_def trim_def trim_end_def)
qed

text \<open>
  C33: The line a reminder shows for an entry is read back by the delivery as what it shows: the
  identifier, the source and the title as sanitised for display and cut to 160, 160 and 240 units,
  and the note on third-party content behind the title; provided that, so sanitised, the identifier
  is not empty and has no white space, the source is not empty and has no closing parenthesis, and
  the title is not empty. An identifier and a source that are short and free of white space and
  angle brackets are shown as they are, so the delivery refers to the entry itself.
\<close>

theorem hit_line_is_read_back:
  assumes "sanitize_display (se_id hit) 160 = hid" "hid \<noteq> []" "\<forall>c \<in> set hid. \<not> is_space c"
    and "sanitize_display (se_source hit) 160 = source" "source \<noteq> []" "41 \<notin> set source"
    and "sanitize_display (se_title hit) 240 = title" "title \<noteq> []"
  shows "parse_hit_line (reminder_hit_line hit i) =
    Some (hid, source, title @ (if starts_with (lit ''community/'') (se_source hit) then content_advisory else [])) \<and>
    ((\<forall>c \<in> set (se_id hit). \<not> is_space c \<and> c \<noteq> 60 \<and> c \<noteq> 62) \<and> length (se_id hit) \<le> 160 \<longrightarrow> hid = se_id hit) \<and>
    ((\<forall>c \<in> set (se_source hit). \<not> is_space c \<and> c \<noteq> 60 \<and> c \<noteq> 62) \<and> length (se_source hit) \<le> 160 \<longrightarrow> source = se_source hit)"
proof (intro conjI impI)
  show "hid = se_id hit" if "(\<forall>c \<in> set (se_id hit). \<not> is_space c \<and> c \<noteq> 60 \<and> c \<noteq> 62) \<and> length (se_id hit) \<le> 160"
    using sanitize_plain that assms(1) by blast
  show "source = se_source hit" if "(\<forall>c \<in> set (se_source hit). \<not> is_space c \<and> c \<noteq> 60 \<and> c \<noteq> 62) \<and> length (se_source hit) \<le> 160"
    using sanitize_plain that assms(4) by blast
  let ?t = "title @ (if starts_with (lit ''community/'') (se_source hit) then content_advisory else [])"
  have line: "reminder_hit_line hit i =
      nat_str (i + 1) @ lit ''. '' @ hid @ lit '' ('' @ source @ (lit '') '' @ [8212, 32]) @ ?t"
    using assms(1,4,7) by (simp add: reminder_hit_line_def)
  have "\<forall>c \<in> set content_advisory. display_unit c"
    by (simp add: lit_def content_advisory_def display_unit_def is_space_def)
  then have "\<not> list_ex line_end ?t"
    using sanitize_units [of _ "se_title hit" 240] assms(7) by (auto simp: list_ex_iff dest!: display_line_end)
  moreover have "run_then is_digit (lit ''. '') (nat_str (i + 1) @ lit ''. '' @ hid @ lit '' ('' @ source @ (lit '') '' @ [8212, 32]) @ ?t)
      = Some (nat_str (i + 1), hid @ lit '' ('' @ source @ (lit '') '' @ [8212, 32]) @ ?t)"
    by (rule run_then_append) (use nat_str_digits in \<open>auto simp: lit_def is_digit_def\<close>)
  moreover have "run_then (\<lambda>c. \<not> is_space c) (lit '' ('') (hid @ lit '' ('' @ source @ (lit '') '' @ [8212, 32]) @ ?t)
      = Some (hid, source @ (lit '') '' @ [8212, 32]) @ ?t)"
    by (rule run_then_append) (use assms in \<open>auto simp: lit_def is_space_def\<close>)
  moreover have "run_then (\<lambda>c. c \<noteq> 41) (lit '') '' @ [8212, 32]) (source @ (lit '') '' @ [8212, 32]) @ ?t) = Some (source, ?t)"
    by (rule run_then_append) (use assms in \<open>auto simp: lit_def\<close>)
  ultimately show "parse_hit_line (reminder_hit_line hit i) = Some (hid, source, ?t)"
    using assms(8) unfolding line parse_hit_line_def by simp
qed

definition plain_hit :: search_result where
  "plain_hit = \<lparr>se_id = lit ''gpu-oom'', se_source = lit ''own'', se_title = lit ''t'', se_symptom = [],
     se_confidence = None, se_visibility = lit ''private'', se_environment = JObj []\<rparr>"

theorem hit_line_is_read_back_witness:
  "parse_hit_line (reminder_hit_line plain_hit 0) = Some (lit ''gpu-oom'', lit ''own'', lit ''t'')"
proof -
  have "sanitize_display (lit ''gpu-oom'') 160 = lit ''gpu-oom''" "sanitize_display (lit ''own'') 160 = lit ''own''"
    "sanitize_display (lit ''t'') 240 = lit ''t''"
    by (rule sanitize_plain; simp add: lit_def is_space_def)+
  with hit_line_is_read_back [of plain_hit "lit ''gpu-oom''" "lit ''own''" "lit ''t''" 0] show ?thesis
    by (simp add: plain_hit_def lit_def is_space_def starts_with_def)
qed

subsection \<open>Telling once\<close>

text \<open>Rounds of a delivery and its acknowledgement against one store.\<close>

fun deliver_rounds ::
  "('s \<Rightarrow> 'i \<Rightarrow> 'e + 'd) \<Rightarrow> ('s \<Rightarrow> 'd \<Rightarrow> 'i \<Rightarrow> ('e + unit) \<times> 's) \<Rightarrow> 's \<Rightarrow> 'i list \<Rightarrow> 'e + 'd list \<times> 's" where
  "deliver_rounds prepare mark s [] = Inr ([], s)"
| "deliver_rounds prepare mark s (i # is) =
     try_then (prepare s i) (\<lambda>d. case mark s d i of
         (Inl e, _) \<Rightarrow> Inl e
       | (Inr _, s') \<Rightarrow> try_then (deliver_rounds prepare mark s' is) (\<lambda>(ds, s''). Inr (d # ds, s'')))"

text \<open>
  The contract of a store that remembers what it was told: what a round hands out is new, and what
  it hands out, what it is told beside, and all that was due are known after it; each round's
  delivery \<open>fits\<close> what came in.
\<close>

locale told_once =
  fixes prepare :: "'s \<Rightarrow> 'i \<Rightarrow> 'e + 'd" and mark :: "'s \<Rightarrow> 'd \<Rightarrow> 'i \<Rightarrow> ('e + unit) \<times> 's"
    and told :: "'s \<Rightarrow> 'x set" and news :: "'d \<Rightarrow> 'x list" and beside :: "'i \<Rightarrow> 'x set" and due :: "'i \<Rightarrow> 'x set"
    and ok :: "'s \<Rightarrow> bool" and valid :: "'i \<Rightarrow> bool" and fits :: "'i \<Rightarrow> 'd \<Rightarrow> bool"
  assumes round: "ok s \<Longrightarrow> valid i \<Longrightarrow> \<exists>d s'. prepare s i = Inr d \<and> mark s d i = (Inr (), s') \<and> ok s' \<and>
    distinct (news d) \<and> set (news d) \<inter> told s = {} \<and> told s' = told s \<union> set (news d) \<union> beside i \<and> due i \<subseteq> told s' \<and>
    fits i d"
begin

lemma rounds:
  "ok s \<Longrightarrow> \<forall>i \<in> set is. valid i \<Longrightarrow> \<exists>ds s'. deliver_rounds prepare mark s is = Inr (ds, s') \<and> ok s' \<and>
     distinct (concat (map news ds)) \<and> set (concat (map news ds)) \<inter> told s = {} \<and>
     told s' = told s \<union> set (concat (map news ds)) \<union> (\<Union>i \<in> set is. beside i) \<and> (\<forall>i \<in> set is. due i \<subseteq> told s') \<and>
     list_all2 fits is ds"
proof (induction "is" arbitrary: s)
  case (Cons i "is")
  from round [of s i] Cons.prems obtain d s' where d: "prepare s i = Inr d" "mark s d i = (Inr (), s')" "ok s'"
    "distinct (news d)" "set (news d) \<inter> told s = {}" "told s' = told s \<union> set (news d) \<union> beside i" "due i \<subseteq> told s'"
    "fits i d" by auto
  from Cons.IH [OF d(3)] Cons.prems(2) obtain ds s'' where ds: "deliver_rounds prepare mark s' is = Inr (ds, s'')" "ok s''"
    "distinct (concat (map news ds))" "set (concat (map news ds)) \<inter> told s' = {}"
    "told s'' = told s' \<union> set (concat (map news ds)) \<union> (\<Union>i \<in> set is. beside i)" "\<forall>i \<in> set is. due i \<subseteq> told s''"
    "list_all2 fits is ds" by auto
  have "deliver_rounds prepare mark s (i # is) = Inr (d # ds, s'')" using d(1,2) ds(1) by simp
  moreover have "distinct (concat (map news (d # ds)))" using d(4,6) ds(3,4) by auto
  moreover have "set (concat (map news (d # ds))) \<inter> told s = {}" using d(5,6) ds(4) by auto
  moreover have "told s'' = told s \<union> set (concat (map news (d # ds))) \<union> (\<Union>i \<in> set (i # is). beside i)"
    using d(6) ds(5) by auto
  moreover have "\<forall>i \<in> set (i # is). due i \<subseteq> told s''" using d(7) ds(5,6) by auto
  moreover have "list_all2 fits (i # is) (d # ds)" using d(8) ds(7) by simp
  ultimately show ?case using ds(2) by blast
qed simp

end


subsection \<open>What one delivery finds\<close>

definition fresh_news :: "'x set \<Rightarrow> 'x list \<Rightarrow> 'x list \<Rightarrow> bool" where
  "fresh_news base seen news \<longleftrightarrow> distinct news \<and> set news \<inter> base = {} \<and> set seen = base \<union> set news"

lemma fresh_news_add: "fresh_news base seen news \<Longrightarrow> x \<notin> set seen \<Longrightarrow> fresh_news base (set_add seen x) (news @ [x])"
  by (auto simp: fresh_news_def)

definition line_refs :: "jstr \<Rightarrow> jstr set" where
  "line_refs line = (case parse_hit_line line of None \<Rightarrow> {} | Some hit \<Rightarrow> {hit_ref hit})"

definition line_signals :: "jstr \<Rightarrow> jstr set" where
  "line_signals line = sp_kind ` {p \<in> set signal_patterns. starts_with (sp_prefix p) line}"

text \<open>The entries the lines of a text name, and the signals of a reminder at the end of a session.\<close>

definition text_refs :: "jstr \<Rightarrow> jstr set" where
  "text_refs s = (\<Union>line \<in> set (split_on 10 s). line_refs line)"

definition text_signals :: "jstr \<Rightarrow> jstr set" where
  "text_signals s = (if starts_with stop_reminder_prefix s then \<Union>line \<in> set (split_on 10 s). line_signals line else {})"

lemma hit_no_signal: "parse_hit_line line \<noteq> None \<Longrightarrow> line_signals line = {}"
proof (rule ccontr)
  assume hit: "parse_hit_line line \<noteq> None" and "line_signals line \<noteq> {}"
  then obtain p where "p \<in> set signal_patterns" "starts_with (sp_prefix p) line" by (auto simp: line_signals_def)
  then obtain rest where "line = 45 # rest"
    by (cases line) (auto simp: signal_patterns_def starts_with_def reedit_prefix_def rerun_prefix_def lit_def)
  with hit show False by (simp add: parse_hit_line_def run_then_def is_digit_def)
qed

definition delivery_inv :: "jstr set \<Rightarrow> jstr set \<Rightarrow> delivery \<Rightarrow> bool" where
  "delivery_inv ids signals d \<longleftrightarrow> fresh_news ids (dv_seen_ids d) (dv_ids d) \<and> fresh_news signals (dv_seen_signals d) (dv_signals d) \<and>
     set (dv_signals d) \<subseteq> sp_kind ` set signal_patterns"

lemma note_signal_inv:
  "delivery_inv ids signals d \<Longrightarrow> p \<in> set signal_patterns \<Longrightarrow> delivery_inv ids signals (note_signal line p d) \<and>
     dv_seen_ids (note_signal line p d) = dv_seen_ids d \<and>
     set (dv_seen_signals (note_signal line p d)) = set (dv_seen_signals d) \<union> (if starts_with (sp_prefix p) line then {sp_kind p} else {})"
  using fresh_news_add [of signals "dv_seen_signals d" "dv_signals d" "sp_kind p"] by (auto simp: delivery_inv_def note_signal_def)

lemma note_signals_inv:
  "delivery_inv ids signals d \<Longrightarrow> set ps \<subseteq> set signal_patterns \<Longrightarrow>
     delivery_inv ids signals (foldl (\<lambda>d p. note_signal line p d) d ps) \<and>
     dv_seen_ids (foldl (\<lambda>d p. note_signal line p d) d ps) = dv_seen_ids d \<and>
     set (dv_seen_signals (foldl (\<lambda>d p. note_signal line p d) d ps)) =
       set (dv_seen_signals d) \<union> sp_kind ` {p \<in> set ps. starts_with (sp_prefix p) line}"
proof (induction ps arbitrary: d)
  case (Cons p ps)
  then have p: "delivery_inv ids signals (note_signal line p d)" "dv_seen_ids (note_signal line p d) = dv_seen_ids d"
    "set (dv_seen_signals (note_signal line p d)) = set (dv_seen_signals d) \<union> (if starts_with (sp_prefix p) line then {sp_kind p} else {})"
    using note_signal_inv [of ids signals d p line] by simp_all
  from Cons.IH [OF p(1)] p(2,3) Cons.prems(2) show ?case by auto
qed simp

lemma note_line_inv:
  assumes "delivery_inv ids signals d"
  shows "delivery_inv ids signals (note_line isStop line d) \<and>
    set (dv_seen_ids (note_line isStop line d)) = set (dv_seen_ids d) \<union> line_refs line \<and>
    set (dv_seen_signals (note_line isStop line d)) = set (dv_seen_signals d) \<union> (if isStop then line_signals line else {})"
proof (cases "parse_hit_line line")
  case None
  then show ?thesis using assms note_signals_inv [OF assms, of signal_patterns line]
    by (simp add: note_line_def Let_def line_refs_def line_signals_def)
next
  case (Some hit)
  let ?d = "d\<lparr>dv_seen_ids := set_add (dv_seen_ids d) (hit_ref hit), dv_ids := dv_ids d @ [hit_ref hit],
    dv_lines := dv_lines d @ [shown_line hit]\<rparr>"
  note none = hit_no_signal [of line] Some
  show ?thesis
  proof (cases "hit_ref hit \<in> set (dv_seen_ids d)")
    case True
    with none assms show ?thesis by (auto simp: note_line_def line_refs_def)
  next
    case False
    then have inv: "delivery_inv ids signals ?d"
      using assms fresh_news_add [of ids "dv_seen_ids d" "dv_ids d" "hit_ref hit"] by (simp add: delivery_inv_def)
    with Some False note_signals_inv [OF inv, of signal_patterns line] show ?thesis
      by (simp add: note_line_def Let_def line_refs_def line_signals_def)
  qed
qed

lemma note_lines_inv:
  "delivery_inv ids signals d \<Longrightarrow> delivery_inv ids signals (foldl (\<lambda>d line. note_line isStop line d) d ls) \<and>
     set (dv_seen_ids (foldl (\<lambda>d line. note_line isStop line d) d ls)) = set (dv_seen_ids d) \<union> (\<Union>line \<in> set ls. line_refs line) \<and>
     set (dv_seen_signals (foldl (\<lambda>d line. note_line isStop line d) d ls)) =
       set (dv_seen_signals d) \<union> (if isStop then \<Union>line \<in> set ls. line_signals line else {})"
proof (induction ls arbitrary: d)
  case (Cons l ls)
  from note_line_inv [OF Cons.prems, of isStop l] have l: "delivery_inv ids signals (note_line isStop l d)"
    "set (dv_seen_ids (note_line isStop l d)) = set (dv_seen_ids d) \<union> line_refs l"
    "set (dv_seen_signals (note_line isStop l d)) = set (dv_seen_signals d) \<union> (if isStop then line_signals l else {})" by simp_all
  from Cons.IH [OF l(1)] l(2,3) show ?case by auto
qed simp

lemma parse_Nil [simp]: "parse_hit_line [] = None"
  by (simp add: parse_hit_line_def run_then_def)

lemma delivery_inv_others [simp]: "delivery_inv ids signals (d\<lparr>dv_others := x\<rparr>) = delivery_inv ids signals d"
  by (simp add: delivery_inv_def)

lemma text_signals_Nil: "text_signals [] = {}"
  by (simp add: text_signals_def starts_with_def stop_reminder_prefix_def lit_def)

lemma note_context_inv:
  assumes "delivery_inv ids signals d"
  shows "delivery_inv ids signals (note_context managed c d) \<and>
    set (dv_seen_ids (note_context managed c d)) = set (dv_seen_ids d) \<union> text_refs (context_text managed c) \<and>
    set (dv_seen_signals (note_context managed c d)) = set (dv_seen_signals d) \<union> text_signals (context_text managed c)"
proof (cases "context_text managed c = []")
  case True
  then show ?thesis using assms by (simp add: note_context_def Let_def text_refs_def line_refs_def text_signals_Nil)
next
  case False
  define s where "s = context_text managed c"
  define d' where "d' = foldl (\<lambda>d line. note_line (starts_with stop_reminder_prefix s) line d) d (split_on 10 s)"
  have d': "delivery_inv ids signals d' \<and> set (dv_seen_ids d') = set (dv_seen_ids d) \<union> text_refs s \<and>
      set (dv_seen_signals d') = set (dv_seen_signals d) \<union> text_signals s"
    unfolding d'_def text_refs_def text_signals_def by (rule note_lines_inv [OF assms])
  have "note_context managed c d = d' \<or> (\<exists>x. note_context managed c d = d'\<lparr>dv_others := x\<rparr>)"
    using False unfolding note_context_def Let_def s_def [symmetric] d'_def [symmetric] by (cases "s = []") auto
  then obtain x where "note_context managed c d = d' \<or> note_context managed c d = d'\<lparr>dv_others := x\<rparr>" by metis
  then show ?thesis using d' unfolding s_def by (elim disjE) simp_all
qed

lemma note_contexts_inv:
  "delivery_inv ids signals d \<Longrightarrow> delivery_inv ids signals (note_contexts managed cs d) \<and>
     set (dv_seen_ids (note_contexts managed cs d)) = set (dv_seen_ids d) \<union> (\<Union>c \<in> set cs. text_refs (context_text managed c)) \<and>
     set (dv_seen_signals (note_contexts managed cs d)) = set (dv_seen_signals d) \<union> (\<Union>c \<in> set cs. text_signals (context_text managed c))"
proof (induction cs arbitrary: d)
  case (Cons c cs)
  from note_context_inv [OF Cons.prems, of managed c] have c: "delivery_inv ids signals (note_context managed c d)"
    "set (dv_seen_ids (note_context managed c d)) = set (dv_seen_ids d) \<union> text_refs (context_text managed c)"
    "set (dv_seen_signals (note_context managed c d)) = set (dv_seen_signals d) \<union> text_signals (context_text managed c)" by simp_all
  from Cons.IH [OF c(1)] c(2,3) show ?case by (auto simp: note_contexts_def)
qed (simp add: note_contexts_def)

subsection \<open>What is shown is what is noted\<close>

text \<open>
  The delivery shows one line for each entry it notes, one label for each signal, and beside them
  only whole texts that are no reminder of a session's end and hold no line of an entry.
\<close>

definition plain_text :: "jstr \<Rightarrow> bool" where
  "plain_text s \<longleftrightarrow> \<not> starts_with stop_reminder_prefix s \<and> (\<forall>line \<in> set (split_on 10 s). parse_hit_line line = None)"

definition shows_news :: "(jstr \<times> jstr \<times> jstr) set \<Rightarrow> delivery \<Rightarrow> bool" where
  "shows_news H d \<longleftrightarrow> (\<exists>hs ps. set hs \<subseteq> H \<and> set ps \<subseteq> set signal_patterns \<and>
     dv_ids d = map hit_ref hs \<and> dv_lines d = map shown_line hs \<and>
     dv_signals d = map sp_kind ps \<and> dv_labels d = map sp_label ps) \<and> (\<forall>s \<in> set (dv_others d). plain_text s)"

lemma shows_signal:
  assumes "shows_news H d" and "p \<in> set signal_patterns"
  shows "shows_news H (note_signal line p d)"
proof -
  from assms(1) obtain hs ps where h: "set hs \<subseteq> H" "set ps \<subseteq> set signal_patterns" "dv_ids d = map hit_ref hs" "dv_lines d = map shown_line hs"
    "dv_signals d = map sp_kind ps" "dv_labels d = map sp_label ps" "\<forall>s \<in> set (dv_others d). plain_text s"
    by (auto simp: shows_news_def)
  have "shows_news H (d\<lparr>dv_seen_signals := x, dv_signals := dv_signals d @ [sp_kind p], dv_labels := dv_labels d @ [sp_label p]\<rparr>)" for x
    unfolding shows_news_def using h assms(2)
    by (intro conjI exI [of _ hs] exI [of _ "ps @ [p]"]) simp_all
  with assms(1) show ?thesis by (simp add: note_signal_def)
qed

lemma shows_signals: "shows_news H d \<Longrightarrow> set ps \<subseteq> set signal_patterns \<Longrightarrow> shows_news H (foldl (\<lambda>d p. note_signal line p d) d ps)"
  by (induction ps arbitrary: d) (simp_all add: shows_signal)

lemma shows_line:
  assumes "shows_news H d" and "\<And>h. parse_hit_line line = Some h \<Longrightarrow> h \<in> H"
  shows "shows_news H (note_line isStop line d)"
proof (cases "parse_hit_line line")
  case None
  with assms(1) shows_signals [of H d signal_patterns line] show ?thesis by (simp add: note_line_def Let_def)
next
  case (Some h)
  from assms(1) obtain hs ps where e: "set hs \<subseteq> H" "set ps \<subseteq> set signal_patterns" "dv_ids d = map hit_ref hs" "dv_lines d = map shown_line hs"
    "dv_signals d = map sp_kind ps" "dv_labels d = map sp_label ps" "\<forall>s \<in> set (dv_others d). plain_text s"
    by (auto simp: shows_news_def)
  have "shows_news H (d\<lparr>dv_seen_ids := x, dv_ids := dv_ids d @ [hit_ref h], dv_lines := dv_lines d @ [shown_line h]\<rparr>)" for x
    unfolding shows_news_def using e assms(2) [OF Some]
    by (intro conjI exI [of _ "hs @ [h]"] exI [of _ ps]) simp_all
  with Some assms(1) shows_signals [of H _ signal_patterns line] show ?thesis by (simp add: note_line_def Let_def)
qed

lemma shows_lines:
  "shows_news H d \<Longrightarrow> \<forall>line \<in> set ls. \<forall>h. parse_hit_line line = Some h \<longrightarrow> h \<in> H \<Longrightarrow>
     shows_news H (foldl (\<lambda>d line. note_line isStop line d) d ls)"
proof (induction ls arbitrary: d)
  case (Cons l ls)
  have "shows_news H (note_line isStop l d)" using Cons.prems by (intro shows_line) auto
  with Cons show ?case by simp
qed simp

definition text_hits :: "jstr \<Rightarrow> (jstr \<times> jstr \<times> jstr) set" where
  "text_hits s = {h. \<exists>line \<in> set (split_on 10 s). parse_hit_line line = Some h}"

lemma shows_context:
  assumes "shows_news H d" and "text_hits (context_text managed c) \<subseteq> H"
  shows "shows_news H (note_context managed c d)"
proof -
  define s where "s = context_text managed c"
  define d' where "d' = foldl (\<lambda>d line. note_line (starts_with stop_reminder_prefix s) line d) d (split_on 10 s)"
  have d': "shows_news H d'"
    unfolding d'_def using assms by (intro shows_lines) (auto simp: text_hits_def s_def)
  have "shows_news H (d'\<lparr>dv_others := set_add (dv_others d') s\<rparr>)" if "plain_text s"
    using d' that by (auto simp: shows_news_def)
  moreover have "plain_text s" if "\<not> (starts_with stop_reminder_prefix s \<or> list_ex (\<lambda>line. parse_hit_line line \<noteq> None) (split_on 10 s))"
    using that unfolding plain_text_def list_ex_iff by blast
  ultimately show ?thesis using assms(1) d'
    unfolding note_context_def Let_def s_def [symmetric] d'_def [symmetric] by (auto split: if_splits)
qed

lemma shows_contexts:
  "shows_news H d \<Longrightarrow> (\<Union>c \<in> set cs. text_hits (context_text managed c)) \<subseteq> H \<Longrightarrow> shows_news H (note_contexts managed cs d)"
  by (induction cs arbitrary: d) (simp_all add: note_contexts_def shows_context)

lemma shows_start: "shows_news H (start_delivery st additional)"
  by (simp add: shows_news_def start_delivery_def)

lemma start_inv: "delivery_inv (set (ds_ids st) \<union> set additional) (set (ds_signals st)) (start_delivery st additional)"
  by (simp add: delivery_inv_def fresh_news_def start_delivery_def)

subsection \<open>Texts stay texts\<close>

lemma run_then_subset: "run_then P p s = Some (a, b) \<Longrightarrow> set a \<subseteq> set s \<and> set b \<subseteq> set s"
  by (auto simp: run_then_def after_def starts_with_def split: if_splits dest: set_takeWhileD set_dropWhileD in_set_dropD)

lemma parse_hit_subset: "parse_hit_line line = Some (hid, source, title) \<Longrightarrow> set hid \<subseteq> set line \<and> set source \<subseteq> set line"
  by (auto simp: parse_hit_line_def split: option.splits prod.splits if_splits dest!: run_then_subset)

lemma split_on_subset: "p \<in> set (split_on c s) \<Longrightarrow> set p \<subseteq> set s"
  by (induction s arbitrary: p) (force split: if_splits list.splits)+

lemma replace_spans_subset: "set (replace_spans s rep i ms) \<subseteq> set s \<union> set rep"
proof (induction s rep i ms rule: replace_spans.induct)
  case (2 s rep i p e ms)
  then show ?case by (auto simp: slice_def dest: in_set_takeD in_set_dropD)
qed (auto dest: in_set_dropD)

lemma context_text_units: "units c \<Longrightarrow> units (context_text managed c)"
proof -
  assume "units c"
  then have t: "units (trim c)" using trim_subset [of c] by (auto simp: units_def)
  moreover have "units sync_tool" by (simp add: units_def sync_tool_def lit_def)
  ultimately have "units (replace_all sync_command (trim c) sync_tool)"
    using replace_spans_subset [of "trim c" sync_tool 0 "match_all (rx_str sync_command) (trim c) 0"]
    by (auto simp: units_def replace_all_def rx_replace_def)
  with t show ?thesis by (simp add: context_text_def)
qed

lemma text_refs_units: "units s \<Longrightarrow> ref \<in> text_refs s \<Longrightarrow> units ref"
proof -
  assume s: "units s" and "ref \<in> text_refs s"
  then obtain line hid source title where l: "line \<in> set (split_on 10 s)" "parse_hit_line line = Some (hid, source, title)"
    "ref = source @ 47 # hid" by (fastforce simp: text_refs_def line_refs_def hit_ref_def split: option.splits)
  have "set hid \<subseteq> set s" "set source \<subseteq> set s"
    using parse_hit_subset [OF l(2)] split_on_subset [OF l(1)] by auto
  with s show ?thesis by (auto simp: units_def l(3))
qed

subsection \<open>Storing and reading back\<close>

definition state_units :: "delivered_state \<Rightarrow> bool" where
  "state_units st \<longleftrightarrow> (\<forall>x \<in> set (ds_ids st) \<union> set (ds_signals st). units x)"

lemma string_items_map: "string_items (map JStr xs) = Some xs"
  by (induction xs) simp_all

lemma state_json_wf: "state_units st \<Longrightarrow> wf_json (state_json st)"
  by (auto simp: state_json_def state_units_def list_all_iff units_def lit_def)

lemma read_written:
  assumes "state_units st" "write_state sha False store sid st = (r, store')"
  shows "read_state sha store' sid = Inr st"
proof -
  have "text_ok (json_stringify (state_json st) @ [10])"
    by (intro text_ok_append text_ok_stringify state_json_wf assms(1) text_ok_ascii) simp
  then have "utf8_decode (utf8_encode (json_stringify (state_json st) @ [10])) = json_stringify (state_json st) @ [10]"
    by (rule text_ok_roundtrip)
  moreover have "json_parse (json_stringify (state_json st) @ [10]) = Some (state_json st)"
    by (rule json_roundtrip [OF state_json_wf [OF assms(1)]]) (simp add: blank_def is_ws_def)
  ultimately show ?thesis
    using assms(2) by (auto simp: write_state_def read_state_def state_json_def string_member_def obj_get_def string_items_map)
qed

subsection \<open>A round\<close>

text \<open>An input is the contexts that are due and the entries the host shows beside them.\<close>

type_synonym round_input = "jstr list \<times> jstr list"

definition prepare_round :: "(jstr \<Rightarrow> jstr) \<Rightarrow> bool \<Rightarrow> jstr \<Rightarrow> (jstr \<times> bytes) list \<Rightarrow> round_input \<Rightarrow> delivery_error + delivery" where
  "prepare_round sha managed sid store i = prepare_delivery sha managed store sid (fst i) (snd i)"

definition mark_round ::
  "(jstr \<Rightarrow> jstr) \<Rightarrow> jstr \<Rightarrow> (jstr \<times> bytes) list \<Rightarrow> delivery \<Rightarrow> round_input \<Rightarrow> (delivery_error + unit) \<times> (jstr \<times> bytes) list" where
  "mark_round sha sid store d i = mark_delivered sha False store sid d (snd i)"

definition told_state :: "(jstr \<Rightarrow> jstr) \<Rightarrow> (jstr \<times> bytes) list \<Rightarrow> jstr \<Rightarrow> delivered_state" where
  "told_state sha store sid = (case read_state sha store sid of Inl _ \<Rightarrow> \<lparr>ds_ids = [], ds_signals = []\<rparr> | Inr st \<Rightarrow> st)"

definition store_ok :: "(jstr \<Rightarrow> jstr) \<Rightarrow> jstr \<Rightarrow> (jstr \<times> bytes) list \<Rightarrow> bool" where
  "store_ok sha sid store = (case read_state sha store sid of Inl _ \<Rightarrow> False | Inr st \<Rightarrow> state_units st)"

definition round_units :: "round_input \<Rightarrow> bool" where
  "round_units i \<longleftrightarrow> list_all units (fst i) \<and> list_all units (snd i)"

definition due_refs :: "bool \<Rightarrow> round_input \<Rightarrow> jstr set" where
  "due_refs managed i = (\<Union>c \<in> set (fst i). text_refs (context_text managed c))"

definition due_signals :: "bool \<Rightarrow> round_input \<Rightarrow> jstr set" where
  "due_signals managed i = (\<Union>c \<in> set (fst i). text_signals (context_text managed c))"

text \<open>
  What a session is shown in one round, spelled out: the whole texts, then one label for each new
  signal, one line for each new entry, and for a managed host the note on its tools.
\<close>

definition told_texts :: "bool \<Rightarrow> jstr list \<Rightarrow> signal_pattern list \<Rightarrow> (jstr \<times> jstr \<times> jstr) list \<Rightarrow> jstr list" where
  "told_texts managed others ps hs = others @
     (if ps = [] then [] else [signals_head @ join [12289] (map sp_label ps) @ signals_tail]) @
     (if hs = [] then [] else [hits_head @ [10] @
        join [10] (map (\<lambda>(hid, source, title). lit ''- '' @ hid @ lit '' ('' @ source @ lit '') '' @ [8212, 32] @ title) hs) @ [10] @ hits_tail]) @
     (if managed \<and> (ps \<noteq> [] \<or> hs \<noteq> []) then [managed_delivery] else [])"

definition tells :: "bool \<Rightarrow> round_input \<Rightarrow> delivery \<Rightarrow> bool" where
  "tells managed i d \<longleftrightarrow> (\<exists>others ps hs. delivery_texts managed d = told_texts managed others ps hs \<and>
     dv_ids d = map hit_ref hs \<and> dv_signals d = map sp_kind ps \<and> set ps \<subseteq> set signal_patterns \<and>
     set hs \<subseteq> (\<Union>c \<in> set (fst i). text_hits (context_text managed c)) \<and> (\<forall>s \<in> set others. plain_text s))"

lemma shows_tells: "shows_news (\<Union>c \<in> set (fst i). text_hits (context_text managed c)) d \<Longrightarrow> tells managed i d"
proof -
  assume "shows_news (\<Union>c \<in> set (fst i). text_hits (context_text managed c)) d"
  then obtain hs ps where e: "set hs \<subseteq> (\<Union>c \<in> set (fst i). text_hits (context_text managed c))" "set ps \<subseteq> set signal_patterns"
    "dv_ids d = map hit_ref hs" "dv_lines d = map shown_line hs" "dv_signals d = map sp_kind ps" "dv_labels d = map sp_label ps"
    "\<forall>s \<in> set (dv_others d). plain_text s"
    unfolding shows_news_def by blast
  have "map (\<lambda>l. lit ''- '' @ l) (dv_lines d) =
      map (\<lambda>(hid, source, title). lit ''- '' @ hid @ lit '' ('' @ source @ lit '') '' @ [8212, 32] @ title) hs"
    by (simp add: e(4) shown_line_def split: prod.split)
  then have "delivery_texts managed d = told_texts managed (dv_others d) ps hs"
    unfolding delivery_texts_def told_texts_def by (simp only: e(4,6) map_is_Nil_conv) simp
  with e show ?thesis unfolding tells_def by blast
qed

lemma set_unique_by_id: "set (unique_by id [] xs) = set xs"
  using unique_by_keys [of id "[]" xs] by simp

lemma kind_units: "k \<in> sp_kind ` set signal_patterns \<Longrightarrow> units k"
  by (auto simp: signal_patterns_def units_def lit_def)

lemma delivery_round:
  assumes "store_ok sha sid s" "round_units i"
  obtains d s' where "prepare_round sha managed sid s i = Inr d" "mark_round sha sid s d i = (Inr (), s')" "store_ok sha sid s'"
    "delivery_inv (set (ds_ids (told_state sha s sid)) \<union> set (snd i)) (set (ds_signals (told_state sha s sid))) d"
    "set (ds_ids (told_state sha s' sid)) = set (ds_ids (told_state sha s sid)) \<union> set (dv_ids d) \<union> set (snd i)"
    "set (ds_signals (told_state sha s' sid)) = set (ds_signals (told_state sha s sid)) \<union> set (dv_signals d)"
    "due_refs managed i \<subseteq> set (ds_ids (told_state sha s' sid))"
    "due_signals managed i \<subseteq> set (ds_signals (told_state sha s' sid))" "tells managed i d"
proof -
  from assms(1) obtain st where st: "read_state sha s sid = Inr st" "state_units st"
    by (auto simp: store_ok_def split: sum.splits)
  define d where "d = note_contexts managed (fst i) (start_delivery st (snd i))"
  from note_contexts_inv [OF start_inv [of st "snd i"], of managed "fst i"]
  have inv: "delivery_inv (set (ds_ids st) \<union> set (snd i)) (set (ds_signals st)) d"
    and seen: "set (dv_seen_ids d) = set (ds_ids st) \<union> set (snd i) \<union> due_refs managed i"
    and seen_signals: "set (dv_seen_signals d) = set (ds_signals st) \<union> due_signals managed i"
    by (simp_all add: d_def due_refs_def due_signals_def start_delivery_def)
  have tells: "tells managed i d" unfolding d_def by (intro shows_tells shows_contexts shows_start) blast
  have ids: "set (dv_seen_ids d) = set (ds_ids st) \<union> set (snd i) \<union> set (dv_ids d)"
    and kinds: "set (dv_signals d) \<subseteq> sp_kind ` set signal_patterns"
    using inv by (auto simp: delivery_inv_def fresh_news_def)
  have due_s: "due_signals managed i \<subseteq> set (ds_signals st) \<union> set (dv_signals d)"
    using seen_signals inv by (auto simp: delivery_inv_def fresh_news_def)
  have due: "due_refs managed i \<subseteq> set (ds_ids st) \<union> set (snd i) \<union> set (dv_ids d)" using seen ids by blast
  have told: "told_state sha s sid = st" by (simp add: told_state_def st(1))
  have prep: "prepare_round sha managed sid s i = Inr d"
    by (simp add: prepare_round_def prepare_delivery_def st(1) d_def)
  show thesis
  proof (cases "dv_ids d = [] \<and> dv_signals d = [] \<and> snd i = []")
    case True
    with that [OF prep, of s] assms(1) inv due due_s tells told show thesis by (simp add: mark_round_def mark_delivered_def)
  next
    case False
    define st' where "st' = \<lparr>ds_ids = unique_by id [] (ds_ids st @ dv_ids d @ snd i),
      ds_signals = unique_by id [] (ds_signals st @ dv_signals d)\<rparr>"
    have sets: "set (ds_ids st') = set (ds_ids st) \<union> set (dv_ids d) \<union> set (snd i)"
      "set (ds_signals st') = set (ds_signals st) \<union> set (dv_signals d)"
      by (auto simp: st'_def set_unique_by_id)
    have "units x" if "x \<in> set (dv_ids d)" for x
    proof -
      have "x \<in> set (ds_ids st) \<union> set (snd i) \<union> due_refs managed i" using that seen ids by blast
      moreover have "units x" if "x \<in> due_refs managed i" for x
        using that assms(2) text_refs_units context_text_units by (fastforce simp: due_refs_def round_units_def list_all_iff)
      ultimately show ?thesis using st(2) assms(2) by (auto simp: state_units_def round_units_def list_all_iff)
    qed
    then have ok: "state_units st'"
      using st(2) assms(2) kinds kind_units unfolding state_units_def sets round_units_def list_all_iff by blast
    obtain r s' where w: "write_state sha False s sid st' = (r, s')" by force
    have r: "r = Inr ()" using w by (simp add: write_state_def)
    have reread: "read_state sha s' sid = Inr st'" by (rule read_written [OF ok w])
    have told': "told_state sha s' sid = st'" by (simp add: told_state_def reread)
    have "mark_round sha sid s d i = (Inr (), s')"
      unfolding mark_round_def mark_delivered_def using False st(1) w r by (auto simp: st'_def)
    from that [OF prep this] inv due due_s tells sets told told' reread ok show thesis by (auto simp: store_ok_def)
  qed
qed

subsection \<open>The two contracts of a session\<close>

interpretation told_ids: told_once "prepare_round sha managed sid" "mark_round sha sid"
  "\<lambda>s. set (ds_ids (told_state sha s sid))" dv_ids "\<lambda>i. set (snd i)" "due_refs managed" "store_ok sha sid" round_units
  "tells managed"
  for sha managed sid
proof
  fix s i
  assume "store_ok sha sid s" "round_units i"
  from delivery_round [OF this, where managed = managed] obtain d s' where r: "prepare_round sha managed sid s i = Inr d"
    "mark_round sha sid s d i = (Inr (), s')" "store_ok sha sid s'"
    "delivery_inv (set (ds_ids (told_state sha s sid)) \<union> set (snd i)) (set (ds_signals (told_state sha s sid))) d"
    "set (ds_ids (told_state sha s' sid)) = set (ds_ids (told_state sha s sid)) \<union> set (dv_ids d) \<union> set (snd i)"
    "due_refs managed i \<subseteq> set (ds_ids (told_state sha s' sid))" "tells managed i d" by metis
  moreover have "distinct (dv_ids d)" "set (dv_ids d) \<inter> set (ds_ids (told_state sha s sid)) = {}"
    using r(4) by (auto simp: delivery_inv_def fresh_news_def)
  ultimately show "\<exists>d s'. prepare_round sha managed sid s i = Inr d \<and> mark_round sha sid s d i = (Inr (), s') \<and> store_ok sha sid s' \<and>
    distinct (dv_ids d) \<and> set (dv_ids d) \<inter> set (ds_ids (told_state sha s sid)) = {} \<and>
    set (ds_ids (told_state sha s' sid)) = set (ds_ids (told_state sha s sid)) \<union> set (dv_ids d) \<union> set (snd i) \<and>
    due_refs managed i \<subseteq> set (ds_ids (told_state sha s' sid)) \<and> tells managed i d" by metis
qed

interpretation told_signals: told_once "prepare_round sha managed sid" "mark_round sha sid"
  "\<lambda>s. set (ds_signals (told_state sha s sid))" dv_signals "\<lambda>_. {}" "due_signals managed" "store_ok sha sid" round_units
  "\<lambda>_ _. True"
  for sha managed sid
proof
  fix s i
  assume "store_ok sha sid s" "round_units i"
  from delivery_round [OF this, where managed = managed] obtain d s' where r: "prepare_round sha managed sid s i = Inr d"
    "mark_round sha sid s d i = (Inr (), s')" "store_ok sha sid s'"
    "delivery_inv (set (ds_ids (told_state sha s sid)) \<union> set (snd i)) (set (ds_signals (told_state sha s sid))) d"
    "set (ds_signals (told_state sha s' sid)) = set (ds_signals (told_state sha s sid)) \<union> set (dv_signals d)"
    "due_signals managed i \<subseteq> set (ds_signals (told_state sha s' sid))" by metis
  moreover have "distinct (dv_signals d)" "set (dv_signals d) \<inter> set (ds_signals (told_state sha s sid)) = {}"
    using r(4) by (auto simp: delivery_inv_def fresh_news_def)
  ultimately show "\<exists>d s'. prepare_round sha managed sid s i = Inr d \<and> mark_round sha sid s d i = (Inr (), s') \<and> store_ok sha sid s' \<and>
    distinct (dv_signals d) \<and> set (dv_signals d) \<inter> set (ds_signals (told_state sha s sid)) = {} \<and>
    set (ds_signals (told_state sha s' sid)) = set (ds_signals (told_state sha s sid)) \<union> set (dv_signals d) \<union> {} \<and>
    due_signals managed i \<subseteq> set (ds_signals (told_state sha s' sid)) \<and> True" by (metis Un_empty_right)
qed

text \<open>
  C34: Over any sequence of deliveries to a session that are acknowledged, no delivery fails, every
  entry and every kind of signal is handed out at most once and never if the session's file already
  held it. What a delivery shows is spelled out: one line for each entry it hands out, read from a
  line of the reminders that were due, one label for each signal, and whole texts that are no
  reminder of a session's end and hold no line of an entry. At the end the file holds what it held
  before, what was handed out and what the host showed beside; every entry named by a line of the
  reminders that were due is among it, and every kind of signal their reminders of a session's end
  name.
\<close>

theorem deliveries_are_once:
  assumes "read_state sha store sid = Inr st" "state_units st" "list_all round_units rounds"
  shows "\<exists>ds store' st'. deliver_rounds (prepare_round sha managed sid) (mark_round sha sid) store rounds = Inr (ds, store') \<and>
    read_state sha store' sid = Inr st' \<and>
    distinct (concat (map dv_ids ds)) \<and> distinct (concat (map dv_signals ds)) \<and>
    set (concat (map dv_ids ds)) \<inter> set (ds_ids st) = {} \<and>
    set (concat (map dv_signals ds)) \<inter> set (ds_signals st) = {} \<and>
    list_all2 (\<lambda>i d. \<exists>others ps hs. delivery_texts managed d = told_texts managed others ps hs \<and>
        dv_ids d = map hit_ref hs \<and> dv_signals d = map sp_kind ps \<and> set ps \<subseteq> set signal_patterns \<and>
        set hs \<subseteq> (\<Union>c \<in> set (fst i). text_hits (context_text managed c)) \<and> (\<forall>s \<in> set others. plain_text s)) rounds ds \<and>
    set (ds_ids st') = set (ds_ids st) \<union> set (concat (map dv_ids ds)) \<union> (\<Union>i \<in> set rounds. set (snd i)) \<and>
    set (ds_signals st') = set (ds_signals st) \<union> set (concat (map dv_signals ds)) \<and>
    (\<forall>i \<in> set rounds. due_refs managed i \<subseteq> set (ds_ids st') \<and> due_signals managed i \<subseteq> set (ds_signals st'))"
proof -
  have ok: "store_ok sha sid store" and told: "told_state sha store sid = st"
    using assms(1,2) by (simp_all add: store_ok_def told_state_def)
  have valid: "\<forall>i \<in> set rounds. round_units i" using assms(3) by (simp add: list_all_iff)
  from told_ids.rounds [OF ok valid, where managed = managed] obtain ds s' where i:
    "deliver_rounds (prepare_round sha managed sid) (mark_round sha sid) store rounds = Inr (ds, s')" "store_ok sha sid s'"
    "distinct (concat (map dv_ids ds))" "set (concat (map dv_ids ds)) \<inter> set (ds_ids st) = {}"
    "set (ds_ids (told_state sha s' sid)) = set (ds_ids st) \<union> set (concat (map dv_ids ds)) \<union> (\<Union>i \<in> set rounds. set (snd i))"
    "\<forall>i \<in> set rounds. due_refs managed i \<subseteq> set (ds_ids (told_state sha s' sid))" "list_all2 (tells managed) rounds ds"
    unfolding told by blast
  from told_signals.rounds [OF ok valid, where managed = managed] obtain ds1 s1 where g1:
    "deliver_rounds (prepare_round sha managed sid) (mark_round sha sid) store rounds = Inr (ds1, s1)"
    "distinct (concat (map dv_signals ds1))" "set (concat (map dv_signals ds1)) \<inter> set (ds_signals st) = {}"
    "set (ds_signals (told_state sha s1 sid)) = set (ds_signals st) \<union> set (concat (map dv_signals ds1))"
    "\<forall>i \<in> set rounds. due_signals managed i \<subseteq> set (ds_signals (told_state sha s1 sid))"
    unfolding told UN_empty2 Un_empty_right by (elim exE conjE) (rule that, assumption+)
  have "ds1 = ds" "s1 = s'" using g1(1) i(1) by simp_all
  note g = g1(2-5) [unfolded this]
  from i(2) obtain st' where "read_state sha s' sid = Inr st'" by (auto simp: store_ok_def split: sum.splits)
  then have "read_state sha s' sid = Inr (told_state sha s' sid)" by (simp add: told_state_def)
  moreover have "list_all2 (\<lambda>i d. \<exists>others ps hs. delivery_texts managed d = told_texts managed others ps hs \<and>
      dv_ids d = map hit_ref hs \<and> dv_signals d = map sp_kind ps \<and> set ps \<subseteq> set signal_patterns \<and>
      set hs \<subseteq> (\<Union>c \<in> set (fst i). text_hits (context_text managed c)) \<and> (\<forall>s \<in> set others. plain_text s)) rounds ds"
    using i(7) unfolding tells_def [abs_def] .
  moreover have "\<forall>i \<in> set rounds. due_refs managed i \<subseteq> set (ds_ids (told_state sha s' sid)) \<and>
      due_signals managed i \<subseteq> set (ds_signals (told_state sha s' sid))" using i(6) g(4) by blast
  ultimately show ?thesis
    by (intro exI [of _ ds] exI [of _ s'] exI [of _ "told_state sha s' sid"] conjI i(1,3,4,5) g(1,2,3))
qed

definition sample_context :: jstr where
  "sample_context = lit ''1. a (own) '' @ [8212, 32, 120]"

definition sample_rounds :: "round_input list" where
  "sample_rounds = [([sample_context], []), ([sample_context], [lit ''own/b''])]"

theorem deliveries_are_once_witness:
  "\<exists>ds store' st'. deliver_rounds (prepare_round id False (lit ''s'')) (mark_round id (lit ''s'')) [] sample_rounds = Inr (ds, store') \<and>
    read_state id store' (lit ''s'') = Inr st' \<and> distinct (concat (map dv_ids ds)) \<and>
    lit ''own/a'' \<in> set (ds_ids st') \<and> lit ''own/b'' \<in> set (ds_ids st')"
proof -
  have r: "read_state id [] (lit ''s'') = Inr \<lparr>ds_ids = [], ds_signals = []\<rparr>" by (simp add: read_state_def)
  have u: "state_units \<lparr>ds_ids = [], ds_signals = []\<rparr>" by (simp add: state_units_def)
  have v: "list_all round_units sample_rounds"
    by (simp add: sample_rounds_def round_units_def units_def sample_context_def lit_def)
  have "lit ''own/a'' \<in> due_refs False ([sample_context], [])"
    by (simp add: due_refs_def text_refs_def context_text_def sample_context_def lit_def trim_def trim_end_def is_space_def
      line_refs_def parse_hit_line_def run_then_def after_def starts_with_def is_digit_def line_end_def hit_ref_def)
  then have "\<exists>i \<in> set sample_rounds. lit ''own/a'' \<in> due_refs False i" by (simp add: sample_rounds_def)
  moreover have "\<exists>i \<in> set sample_rounds. lit ''own/b'' \<in> set (snd i)" by (simp add: sample_rounds_def)
  ultimately show ?thesis using deliveries_are_once [OF r u v, of False] by blast
qed

subsection \<open>What a search marks\<close>

lemma rows_mark_hit:
  "rows (mark_hit now keys db) =
     map (\<lambda>r. if (r_id r, r_source r) \<in> set keys then r\<lparr>r_last_hit_at := Some now\<rparr> else r) (rows db)"
proof -
  have "rows (foldl (\<lambda>db k. db\<lparr>rows := map (hit_row now k) (rows db)\<rparr>) db keys) =
    map (\<lambda>r. if (r_id r, r_source r) \<in> set keys then r\<lparr>r_last_hit_at := Some now\<rparr> else r) (rows db)" for db keys
  proof (induction keys arbitrary: db)
    case (Cons k keys)
    have "(if (r_id (hit_row now k r), r_source (hit_row now k r)) \<in> set keys then (hit_row now k r)\<lparr>r_last_hit_at := Some now\<rparr> else hit_row now k r) =
      (if (r_id r, r_source r) \<in> set (k # keys) then r\<lparr>r_last_hit_at := Some now\<rparr> else r)" for r
      by (cases k) (auto simp: hit_row_def)
    with Cons.IH [of "db\<lparr>rows := map (hit_row now k) (rows db)\<rparr>"] show ?case by (simp add: o_def)
  qed simp
  from this [of db keys] show ?thesis unfolding mark_hit_def by (cases "keys = []") simp_all
qed

lemma filter_applies_all: "filter_applies task host hs = Inr r \<Longrightarrow> \<forall>h \<in> set r. h \<in> set hs \<and> hit_applies task host h = Inr True"
  by (induction hs arbitrary: r) (auto simp: try_then_def split: sum.splits if_splits)

text \<open>The entries found before the filter, and whether a step of the search fails.\<close>

definition found_entries :: "hook_engine \<Rightarrow> search_env \<Rightarrow> hook_input list \<Rightarrow> entry_db \<Rightarrow> entry_error + search_result list" where
  "found_entries e x inputs d =
     (let opts = \<lparr>ho_limit = None, ho_self = Some (sx_self x)\<rparr> in
      if length inputs = 1 then find_caveats_for_hook e (rows d) (hd inputs) opts
      else find_caveats_for_hook_segments e (rows d) inputs opts)"

definition search_fails :: "hook_engine \<Rightarrow> search_env \<Rightarrow> hook_input list \<Rightarrow> entry_db \<Rightarrow> bool" where
  "search_fails e x inputs d \<longleftrightarrow> \<not> sx_context x \<or> \<not> sx_opens x \<or>
     (case found_entries e x inputs d of
        Inl _ \<Rightarrow> True
      | Inr hs \<Rightarrow> list_ex (\<lambda>h. isl (hit_applies (task_text inputs) (sx_host x) h)) hs)"

lemma filter_applies_fails:
  "filter_applies task host hs = Inl err \<Longrightarrow> list_ex (\<lambda>h. isl (hit_applies task host h)) hs"
  "filter_applies task host hs = Inr r \<Longrightarrow> \<not> list_ex (\<lambda>h. isl (hit_applies task host h)) hs \<and>
     r = filter (\<lambda>h. hit_applies task host h = Inr True) hs"
  by (induction hs arbitrary: r err) (auto simp: try_then_def split: sum.splits if_splits)

lemma search_steps:
  assumes "search_caveats_safely e x inputs (Some d) = (hits, db', q)"
  shows "(search_fails e x inputs d \<longrightarrow> hits = [] \<and> db' = Some d \<and> q = None) \<and>
    (\<not> search_fails e x inputs d \<and> list_ex (\<lambda>i. hi_topic i \<noteq> [] \<or> hi_failure i \<noteq> []) inputs \<longrightarrow>
      (\<exists>hs. found_entries e x inputs d = Inr hs \<and> hits = filter (\<lambda>h. hit_applies (task_text inputs) (sx_host x) h = Inr True) hs \<and>
        q = (if hits = [] then Some (logged_query inputs) else None)))"
proof -
  let ?F = "filter_applies (task_text inputs) (sx_host x)"
  have found: "(case inputs of [i] \<Rightarrow> find_caveats_for_hook e (rows d) i \<lparr>ho_limit = None, ho_self = Some (sx_self x)\<rparr>
      | _ \<Rightarrow> find_caveats_for_hook_segments e (rows d) inputs \<lparr>ho_limit = None, ho_self = Some (sx_self x)\<rparr>) = found_entries e x inputs d"
    by (auto simp: found_entries_def Let_def split: list.split)
  have asked: "list_all (\<lambda>i. hi_topic i = [] \<and> hi_failure i = []) inputs \<longleftrightarrow> \<not> list_ex (\<lambda>i. hi_topic i \<noteq> [] \<or> hi_failure i \<noteq> []) inputs"
    by (auto simp: list_all_iff list_ex_iff)
  show ?thesis
  proof (cases "list_all (\<lambda>i. hi_topic i = [] \<and> hi_failure i = []) inputs \<or> \<not> sx_context x \<or> \<not> sx_opens x")
    case True
    then have "hits = []" "db' = Some d" "q = None"
      using assms by (auto simp: search_caveats_safely_def split: if_splits)
    with True asked show ?thesis by (auto simp: search_fails_def)
  next
    case False
    then have s: "(hits, db', q) = (case try_then (found_entries e x inputs d) ?F of
        Inl _ \<Rightarrow> ([], Some d, None) | Inr [] \<Rightarrow> ([], Some d, Some (logged_query inputs))
      | Inr hits \<Rightarrow> (let keys = map (\<lambda>h. (se_id h, se_source h)) hits in
          (hits, Some (mark_hit (sx_now x) (case sx_marks x of None \<Rightarrow> keys | Some n \<Rightarrow> take n keys) d), None)))"
      using assms [symmetric] unfolding search_caveats_safely_def by (simp add: Let_def found)
    show ?thesis
    proof (cases "found_entries e x inputs d")
      case (Inl err)
      then have "search_fails e x inputs d" by (simp add: search_fails_def)
      with s Inl show ?thesis by simp
    next
      case (Inr hs)
      show ?thesis
      proof (cases "?F hs")
        case F: (Inl err)
        then have "search_fails e x inputs d" using filter_applies_fails(1) [OF F] Inr by (simp add: search_fails_def)
        with s Inr F show ?thesis by simp
      next
        case F: (Inr r)
        from filter_applies_fails(2) [OF F] Inr False have "\<not> search_fails e x inputs d" by (simp add: search_fails_def)
        moreover have "hits = r \<and> q = (if r = [] then Some (logged_query inputs) else None)"
          using s Inr F by (cases r) (simp_all add: Let_def)
        ultimately show ?thesis using filter_applies_fails(2) [OF F] Inr by simp
      qed
    qed
  qed
qed

lemma search_outcome:
  assumes "search_caveats_safely e x inputs (Some d) = (hits, db', q)"
  shows "hits = [] \<and> db' = Some d \<or>
    hits \<noteq> [] \<and> q = None \<and> (\<forall>h \<in> set hits. hit_applies (task_text inputs) (sx_host x) h = Inr True) \<and>
    (\<exists>keys. db' = Some (mark_hit (sx_now x) keys d) \<and> set keys \<subseteq> set (map (\<lambda>h. (se_id h, se_source h)) hits) \<and>
       (sx_marks x = None \<longrightarrow> keys = map (\<lambda>h. (se_id h, se_source h)) hits))"
proof -
  define found where "found = (case inputs of
      [i] \<Rightarrow> find_caveats_for_hook e (rows d) i \<lparr>ho_limit = None, ho_self = Some (sx_self x)\<rparr>
    | _ \<Rightarrow> find_caveats_for_hook_segments e (rows d) inputs \<lparr>ho_limit = None, ho_self = Some (sx_self x)\<rparr>)"
  define r where "r = try_then found (filter_applies (task_text inputs) (sx_host x))"
  define keys where "keys = (case sx_marks x of None \<Rightarrow> map (\<lambda>h. (se_id h, se_source h)) hits
    | Some n \<Rightarrow> take n (map (\<lambda>h. (se_id h, se_source h)) hits))"
  have "(hits, db', q) = ([], Some d, None) \<or> (hits, db', q) = (case r of
      Inl _ \<Rightarrow> ([], Some d, None) | Inr [] \<Rightarrow> ([], Some d, Some (logged_query inputs))
    | Inr hits \<Rightarrow> (let keys = map (\<lambda>h. (se_id h, se_source h)) hits in
        (hits, Some (mark_hit (sx_now x) (case sx_marks x of None \<Rightarrow> keys | Some n \<Rightarrow> take n keys) d), None)))"
    using assms [symmetric] unfolding search_caveats_safely_def r_def found_def by (simp only: Let_def option.case split: if_splits) simp_all
  then have "hits = [] \<and> db' = Some d \<or> hits \<noteq> [] \<and> q = None \<and> r = Inr hits \<and> db' = Some (mark_hit (sx_now x) keys d)"
    by (cases r) (auto simp: Let_def keys_def split: list.splits option.splits)
  moreover have "\<forall>h \<in> set hits. hit_applies (task_text inputs) (sx_host x) h = Inr True" if "r = Inr hits"
    using that filter_applies_all unfolding r_def by (cases found) (auto simp: try_then_def)
  moreover have "set keys \<subseteq> set (map (\<lambda>h. (se_id h, se_source h)) hits)"
    unfolding keys_def by (cases "sx_marks x") (simp_all add: set_take_subset del: set_map)
  moreover have "sx_marks x = None \<Longrightarrow> keys = map (\<lambda>h. (se_id h, se_source h)) hits" by (simp add: keys_def)
  ultimately show ?thesis by (elim disjE conjE) (simp, intro disjI2 conjI exI [of _ keys], simp_all)
qed

lemma marked_rows:
  assumes "search_caveats_safely e x inputs (Some d) = (hits, db', q)"
  shows "(\<forall>h \<in> set hits. hit_applies (task_text inputs) (sx_host x) h = Inr True) \<and> (hits \<noteq> [] \<longrightarrow> q = None) \<and>
    (\<exists>d'. db' = Some d' \<and> (hits = [] \<longrightarrow> d' = d) \<and>
      list_all2 (\<lambda>r r'. r' = r \<or>
        r' = r\<lparr>r_last_hit_at := Some (sx_now x)\<rparr> \<and> (\<exists>h \<in> set hits. se_id h = r_id r \<and> se_source h = r_source r)) (rows d) (rows d') \<and>
      (sx_marks x = None \<longrightarrow> (\<forall>h \<in> set hits. \<forall>r \<in> set (rows d'). r_id r = se_id h \<and> r_source r = se_source h \<longrightarrow>
        r_last_hit_at r = Some (sx_now x))))"
  using search_outcome [OF assms]
proof (elim disjE conjE exE)
  assume "hits = []" "db' = Some d"
  then show ?thesis by (simp add: list_all2_same)
next
  fix keys
  assume h: "hits \<noteq> []" "q = None" "\<forall>h \<in> set hits. hit_applies (task_text inputs) (sx_host x) h = Inr True"
    "db' = Some (mark_hit (sx_now x) keys d)" "set keys \<subseteq> set (map (\<lambda>h. (se_id h, se_source h)) hits)"
    "sx_marks x = None \<longrightarrow> keys = map (\<lambda>h. (se_id h, se_source h)) hits"
  have "\<exists>h \<in> set hits. se_id h = r_id r \<and> se_source h = r_source r" if "(r_id r, r_source r) \<in> set keys" for r :: row
    using subsetD [OF h(5) that] by auto
  then have "list_all2 (\<lambda>r r'. r' = r \<or>
      r' = r\<lparr>r_last_hit_at := Some (sx_now x)\<rparr> \<and> (\<exists>h \<in> set hits. se_id h = r_id r \<and> se_source h = r_source r))
      (rows d) (rows (mark_hit (sx_now x) keys d))"
    by (simp add: rows_mark_hit list_all2_conv_all_nth)
  moreover have "\<forall>h \<in> set hits. \<forall>r \<in> set (rows (mark_hit (sx_now x) keys d)). r_id r = se_id h \<and> r_source r = se_source h \<longrightarrow>
      r_last_hit_at r = Some (sx_now x)" if "sx_marks x = None"
  proof (intro ballI impI)
    fix h r
    assume a: "h \<in> set hits" "r \<in> set (rows (mark_hit (sx_now x) keys d))" "r_id r = se_id h \<and> r_source r = se_source h"
    have "(se_id h, se_source h) \<in> set keys" using a(1) that \<open>sx_marks x = None \<longrightarrow> _\<close> by auto
    with a show "r_last_hit_at r = Some (sx_now x)" by (auto simp: rows_mark_hit split: if_splits)
  qed
  ultimately show ?thesis
    by (intro conjI exI [of _ "mark_hit (sx_now x) keys d"]) (simp_all add: h(1-4))
qed

text \<open>
  C35: A search that fails - no context, an index that does not open, a step of the finding that
  throws, or an operating system of one of the found entries that is not known - leaves the index
  as it was, returns nothing and logs nothing. Otherwise it returns exactly the found entries that
  apply to the operating system the task or else the host is about, and only a search without such
  an entry goes to the log. It touches the index only through the marks of what it returns: every
  row keeps all its values, except that the time of the last hit of rows it returns becomes the
  current time, which it does for all of them unless marking fails.
\<close>

theorem search_marks_what_it_returns:
  assumes "search_caveats_safely e x inputs (Some d) = (hits, db', q)"
  shows "(search_fails e x inputs d \<longrightarrow> hits = [] \<and> db' = Some d \<and> q = None) \<and>
    (\<not> search_fails e x inputs d \<and> list_ex (\<lambda>i. hi_topic i \<noteq> [] \<or> hi_failure i \<noteq> []) inputs \<longrightarrow>
      (\<exists>hs. found_entries e x inputs d = Inr hs \<and> hits = filter (\<lambda>h. hit_applies (task_text inputs) (sx_host x) h = Inr True) hs \<and>
        q = (if hits = [] then Some (logged_query inputs) else None))) \<and>
    (\<forall>h \<in> set hits. hit_applies (task_text inputs) (sx_host x) h = Inr True) \<and> (hits \<noteq> [] \<longrightarrow> q = None) \<and>
    (\<exists>d'. db' = Some d' \<and> (hits = [] \<longrightarrow> d' = d) \<and>
      list_all2 (\<lambda>r r'. r' = r \<or>
        r' = r\<lparr>r_last_hit_at := Some (sx_now x)\<rparr> \<and> (\<exists>h \<in> set hits. se_id h = r_id r \<and> se_source h = r_source r)) (rows d) (rows d') \<and>
      (sx_marks x = None \<longrightarrow> (\<forall>h \<in> set hits. \<forall>r \<in> set (rows d'). r_id r = se_id h \<and> r_source r = se_source h \<longrightarrow>
        r_last_hit_at r = Some (sx_now x))))"
  using search_steps [OF assms] marked_rows [OF assms] by blast

definition sample_search :: search_env where
  "sample_search = \<lparr>sx_context = True, sx_opens = True, sx_marks = None, sx_now = lit ''t'', sx_host = lit ''linux'', sx_self = []\<rparr>"

lemma gpu_applies:
  "\<exists>hit. find_caveats_for_hook toy_hooks [gpu_row] gpu_prompt \<lparr>ho_limit = None, ho_self = Some []\<rparr> = Inr [hit] \<and>
     se_id hit = r_id gpu_row \<and> se_source hit = r_source gpu_row \<and> hit_applies task host hit = Inr True"
proof -
  have "known_candidates toy_hooks (Some []) p = known_candidates toy_hooks None p" for p by (simp add: known_candidates_def)
  with find_text_spec [OF gpu_ok, of "lit ''gpu oom''" "\<lparr>ho_limit = None, ho_self = Some []\<rparr>" None] obtain shown hits where
    f: "find_caveats_for_text toy_hooks [gpu_row] (Some (lit ''gpu oom'')) \<lparr>ho_limit = None, ho_self = Some []\<rparr> None = Inr hits"
    and h: "list_all2 (\<lambda>r h. to_search_result r = Inr h) (slice_first 5 shown) hits"
    and shown: "set shown = {gpu_row}" "distinct (map r_rowid shown)"
    using gpu_gates by (auto simp: or_else_def)
  from one_shown [OF h shown] obtain hit where hit: "hits = [hit]" "to_search_result gpu_row = Inr hit" by blast
  have "json_parse (r_frontmatter_json gpu_row) = Some (JObj [])"
    using json_roundtrip [of "JObj []" "[]"] by (simp add: gpu_row_def tagged_row_def blank_def)
  with hit(2) have "se_id hit = r_id gpu_row \<and> se_source hit = r_source gpu_row \<and> se_environment hit = JObj []"
    by (auto simp: to_search_result_def obj_get_def)
  then show ?thesis using f hit(1) by (simp add: find_hook_text hit_applies_def obj_get_def)
qed

theorem search_marks_what_it_returns_witness:
  "\<exists>hit d'. search_caveats_safely toy_hooks sample_search [gpu_prompt] (Some \<lparr>rows = [gpu_row], next_rowid = 2\<rparr>) = ([hit], Some d', None) \<and>
     map r_last_hit_at (rows d') = [Some (lit ''t'')]"
proof -
  let ?d = "\<lparr>rows = [gpu_row], next_rowid = 2\<rparr>"
  from gpu_applies [of "task_text [gpu_prompt]" "lit ''linux''"] obtain hit where
    f: "find_caveats_for_hook toy_hooks [gpu_row] gpu_prompt \<lparr>ho_limit = None, ho_self = Some []\<rparr> = Inr [hit]"
    "se_id hit = r_id gpu_row" "se_source hit = r_source gpu_row" "hit_applies (task_text [gpu_prompt]) (lit ''linux'') hit = Inr True" by blast
  have s: "search_caveats_safely toy_hooks sample_search [gpu_prompt] (Some ?d) =
      ([hit], Some (mark_hit (lit ''t'') [(se_id hit, se_source hit)] ?d), None)"
    using f(1,4) by (simp add: search_caveats_safely_def sample_search_def gpu_prompt_def [THEN arg_cong, of hi_topic])
  let ?d' = "mark_hit (lit ''t'') [(se_id hit, se_source hit)] ?d"
  from search_marks_what_it_returns [OF s] f(2,3) have "\<forall>r \<in> set (rows ?d'). r_id r = r_id gpu_row \<and> r_source r = r_source gpu_row \<longrightarrow>
      r_last_hit_at r = Some (lit ''t'')" by (simp add: sample_search_def)
  then have "map r_last_hit_at (rows ?d') = [Some (lit ''t'')]" using f(2,3) by (simp add: rows_mark_hit)
  with s show ?thesis by (intro exI [of _ hit] exI [of _ ?d'] conjI)
qed

end
