(* ===== verification/JobText.thy ===== *)
theory JobText
  imports Entries
begin

text \<open>
  The job that runs the periodic synchronisation, as \<open>packages/core/src/platform.ts\<close> writes it for
  systemd, launchd and the Windows Task Scheduler: the texts with their three kinds of quoting, the
  commands, and the reading of what the system reports back. \<open>sha\<close> is SHA-256 of a text in
  hexadecimal, \<open>lower\<close> is \<open>toLowerCase\<close>, \<open>win_join\<close> is \<open>path.win32.join\<close>, \<open>xp\<close> is the parser of
  \<open>fast-xml-parser\<close> (None where it throws). An error is its message. Lemmas: each quoting is undone by the
  reader it is meant for, so the job runs exactly the argument vector it was given.
\<close>

subsection \<open>The fixed texts\<close>

definition service_head :: jstr where
  "service_head =
     lit ''[Unit]'' @ [10] @ lit ''Description=Caveat private knowledge reception'' @ [10] @ lit ''[Service]'' @
     [10] @ lit ''Type=oneshot'' @ [10] @ lit ''TimeoutStartSec=10min'' @ [10] @ lit ''ExecStart=''"

definition service_tail :: jstr where
  "service_tail =
     [10] @ lit ''SuccessExitStatus=2'' @ [10]"

definition timer_head :: jstr where
  "timer_head =
     lit ''[Unit]'' @ [10] @ lit ''Description=Caveat reception timer'' @ [10] @ lit ''[Timer]'' @ [10] @
     lit ''OnBootSec=60s'' @ [10] @ lit ''OnUnitInactiveSec=60s'' @ [10] @ lit ''Unit=''"

definition timer_tail :: jstr where
  "timer_tail =
     lit ''.service'' @ [10] @ lit ''[Install]'' @ [10] @ lit ''WantedBy=timers.target'' @ [10]"

definition plist_head :: jstr where
  "plist_head =
     lit ''<?xml version='' @ [34] @ lit ''1.0'' @ [34] @ lit '' encoding='' @ [34] @ lit ''UTF-8'' @ [34] @
     lit ''?>'' @ [10] @ lit ''<plist version='' @ [34] @ lit ''1.0'' @ [34] @ lit ''><dict><key>Label</key><string>''"

definition plist_middle :: jstr where
  "plist_middle =
     lit ''</string><key>ProgramArguments</key><array>''"

definition plist_tail :: jstr where
  "plist_tail =
     lit ''</array><key>StartInterval</key><integer>60</integer></dict></plist>'' @ [10]"

definition task_head :: jstr where
  "task_head =
     lit ''<?xml version='' @ [34] @ lit ''1.0'' @ [34] @ lit '' encoding='' @ [34] @ lit ''UTF-16'' @ [34] @
     lit ''?>'' @ [10] @ lit ''<Task version='' @ [34] @ lit ''1.2'' @ [34] @ lit '' xmlns='' @ [34] @
     lit ''http://schemas.microsoft.com/windows/2004/02/mit/task'' @ [34] @
     lit ''><RegistrationInfo><Description>Caveat private knowledge reception ''"

definition task_triggers :: jstr where
  "task_triggers =
     lit ''</Description></RegistrationInfo><Triggers><CalendarTrigger><Repetition><Interva'' @
     lit ''l>PT1M</Interval><Duration>P1D</Duration><StopAtDurationEnd>false</StopAtDuratio'' @
     lit ''nEnd></Repetition><StartBoundary>2020-01-01T00:00:00</StartBoundary><Enabled>tru'' @
     lit ''e</Enabled><ScheduleByDay><DaysInterval>1</DaysInterval></ScheduleByDay></Calend'' @
     lit ''arTrigger></Triggers><Principals><Principal id='' @ [34] @ lit ''CurrentUser'' @ [34] @ lit ''><UserId>''"

definition task_settings :: jstr where
  "task_settings =
     lit ''</UserId><LogonType>InteractiveToken</LogonType><RunLevel>LeastPrivilege</RunLev'' @
     lit ''el></Principal></Principals><Settings><MultipleInstancesPolicy>IgnoreNew</Multip'' @
     lit ''leInstancesPolicy><DisallowStartIfOnBatteries>false</DisallowStartIfOnBatteries>'' @
     lit ''<StopIfGoingOnBatteries>false</StopIfGoingOnBatteries><ExecutionTimeLimit>PT10M<'' @
     lit ''/ExecutionTimeLimit><Enabled>true</Enabled></Settings><Actions Context='' @ [34] @ lit ''CurrentUser'' @
     [34] @ lit ''><Exec>''"

definition task_tail :: jstr where
  "task_tail =
     lit ''</Exec></Actions></Task>'' @ [10]"

definition query_head :: jstr where
  "query_head =
     lit ''$ErrorActionPreference = '' @ [39] @ lit ''Stop'' @ [39] @
     lit ''; try { $scheduler = New-Object -ComObject Schedule.Service; $scheduler.Connect('' @
     lit ''); $task = $scheduler.GetFolder('' @ [39, 92, 39] @ lit '').GetTask('' @ [39]"

definition query_tail :: jstr where
  "query_tail =
     [39] @ lit ''); $bytes = (New-Object System.Text.UTF8Encoding($false)).GetBytes($task.Xml); $'' @
     lit ''stdout = [Console]::OpenStandardOutput(); $stdout.Write($bytes, 0, $bytes.Length'' @
     lit ''); $stdout.Flush(); exit 0 } catch { exit 1 }''"

definition inspect_head :: jstr where
  "inspect_head =
     lit ''try { $scheduler = New-Object -ComObject Schedule.Service; $scheduler.Connect();'' @
     lit '' $null = $scheduler.GetFolder('' @ [39, 92, 39] @ lit '').GetTask('' @ [39]"

definition inspect_tail :: jstr where
  "inspect_tail =
     [39] @ lit ''); exit 0 } catch { $failure = $_.Exception; while ($failure.InnerException) { $'' @
     lit ''failure = $failure.InnerException }; if ($failure.HResult -eq -2147024894) { exi'' @
     lit ''t 3 }; exit 1 }''"

definition identity_script :: jstr where
  "identity_script =
     lit ''$ErrorActionPreference='' @ [39] @ lit ''Stop'' @ [39] @
     lit '';try{[Console]::Write([System.Security.Principal.WindowsIdentity]::GetCurrent().'' @
     lit ''User.Value);exit 0}catch{exit 1}''"

subsection \<open>Platforms\<close>

type_synonym 'a job_result = "jstr + 'a"

definition job_error :: "string \<Rightarrow> 'a job_result" where
  "job_error m = Inl (lit m)"

definition is_windows :: "jstr \<Rightarrow> bool" where
  "is_windows platform \<longleftrightarrow> platform = lit ''win32''"

definition is_windows_env :: "jstr option \<Rightarrow> jstr \<Rightarrow> bool" where
  "is_windows_env os platform \<longleftrightarrow> os = Some (lit ''Windows_NT'') \<or> is_windows platform"

definition is_private_owner :: "nat \<Rightarrow> nat \<Rightarrow> nat option \<Rightarrow> jstr \<Rightarrow> bool" where
  "is_private_owner mode owner uid platform \<longleftrightarrow> is_windows platform \<or> (mode mod 64 = 0 \<and> (uid = None \<or> uid = Some owner))"

definition powershell_call_prefix :: "jstr \<Rightarrow> jstr" where
  "powershell_call_prefix platform = (if is_windows platform then lit ''& '' else [])"

definition node_executable_names :: "jstr \<Rightarrow> jstr list" where
  "node_executable_names platform =
     (if is_windows platform then [lit ''node.exe'', lit ''node.cmd'', lit ''node.bat'', lit ''node''] else [lit ''node''])"

definition normalize_path_case :: "(jstr \<Rightarrow> jstr) \<Rightarrow> jstr \<Rightarrow> jstr \<Rightarrow> jstr" where
  "normalize_path_case lower p platform = (if is_windows platform then lower p else p)"

text \<open>\<open>path.posix.isAbsolute\<close>, \<open>path.win32.isAbsolute\<close> and \<open>path.posix.join\<close>.\<close>

definition posix_absolute :: "jstr \<Rightarrow> bool" where
  "posix_absolute p \<longleftrightarrow> starts_with (lit ''/'') p"

fun win_absolute :: "jstr \<Rightarrow> bool" where
  "win_absolute (c # s) =
     (c = 47 \<or> c = 92 \<or> ((65 \<le> c \<and> c \<le> 90 \<or> 97 \<le> c \<and> c \<le> 122) \<and> (case s of d # e # _ \<Rightarrow> d = 58 \<and> (e = 47 \<or> e = 92) | _ \<Rightarrow> False)))"
| "win_absolute [] = False"

definition posix_join :: "jstr list \<Rightarrow> jstr" where
  "posix_join parts = normalize_path (join [47] (filter (\<lambda>p. p \<noteq> []) parts))"

definition has_control :: "jstr \<Rightarrow> bool" where
  "has_control s \<longleftrightarrow> list_ex (\<lambda>c. c < 32) s"

text \<open>\<open>/^S-1-\d+(?:-\d+)\{1,15\}$/\<close>.\<close>

definition is_sid :: "jstr \<Rightarrow> bool" where
  "is_sid s = (case split_on 45 s of
     a # b # ds \<Rightarrow> a = lit ''S'' \<and> b = lit ''1'' \<and> 2 \<le> length ds \<and> length ds \<le> 16 \<and> list_all (\<lambda>d. d \<noteq> [] \<and> list_all is_digit d) ds
   | _ \<Rightarrow> False)"

text \<open>\<open>got\<close>: what running the fixed script gave, None if it threw.\<close>

definition native_schedule_user_id :: "jstr \<Rightarrow> jstr \<Rightarrow> jstr option \<Rightarrow> (int \<times> jstr) option \<Rightarrow> jstr job_result" where
  "native_schedule_user_id username platform systemRoot got =
     (if \<not> is_windows platform then Inr username
      else if (case systemRoot of None \<Rightarrow> True | Some r \<Rightarrow> \<not> win_absolute r \<or> has_control r)
      then job_error ''schedule_user_identity_unavailable_root''
      else (case got of
        None \<Rightarrow> job_error ''schedule_user_identity_unavailable_spawn''
      | Some (status, stdout) \<Rightarrow>
          (if status \<noteq> 0 then job_error ''schedule_user_identity_unavailable_exit''
           else if is_sid (trim stdout) then Inr (trim stdout)
           else job_error ''schedule_user_identity_unavailable_output'')))"

subsection \<open>Quoting\<close>

definition xml_unit :: "nat \<Rightarrow> jstr" where
  "xml_unit c =
     (if c = 38 then lit ''&amp;'' else if c = 60 then lit ''&lt;'' else if c = 62 then lit ''&gt;''
      else if c = 34 then lit ''&quot;'' else if c = 39 then lit ''&apos;'' else [c])"

definition xml_text :: "jstr \<Rightarrow> jstr" where
  "xml_text v = concat (map xml_unit v)"

definition unit_unit :: "nat \<Rightarrow> jstr" where
  "unit_unit c = (if c = 92 then [92, 92] else if c = 34 then [92, 34] else if c = 37 then [37, 37] else if c = 36 then [36, 36] else [c])"

definition unit_arg :: "jstr \<Rightarrow> jstr" where
  "unit_arg v = [34] @ concat (map unit_unit v) @ [34]"

text \<open>
  \<open>replace(/(\\*)"/g, '$1$1\\"')\<close>: the first argument counts the backslashes just before; then
  \<open>replace(/(\\+)$/g, '$1$1')\<close>.
\<close>

fun escape_quotes :: "nat \<Rightarrow> jstr \<Rightarrow> jstr" where
  "escape_quotes n [] = replicate n 92"
| "escape_quotes n (c # s) =
     (if c = 92 then escape_quotes (Suc n) s
      else if c = 34 then replicate (2 * n) 92 @ [92, 34] @ escape_quotes 0 s
      else replicate n 92 @ c # escape_quotes 0 s)"

definition double_trailing :: "jstr \<Rightarrow> jstr" where
  "double_trailing s = s @ takeWhile (\<lambda>c. c = 92) (rev s)"

definition quote_windows_argument :: "jstr \<Rightarrow> jstr" where
  "quote_windows_argument v = [34] @ double_trailing (escape_quotes 0 v) @ [34]"

subsection \<open>The job\<close>

datatype schedule_kind = Systemd_user | Launchd_user | Windows_task

record schedule_command =
  sc_command :: jstr
  sc_args :: "jstr list"

record job_file =
  jf_path :: jstr
  jf_content :: jstr
  jf_utf16 :: bool

record native_plan =
  np_id :: jstr
  np_kind :: schedule_kind
  np_argv :: "jstr list"
  np_files :: "job_file list"
  np_query :: schedule_command
  np_inspect :: schedule_command
  np_install :: "schedule_command list"
  np_remove :: "schedule_command list"
  np_reload :: "schedule_command list"

record native_options =
  no_caveatHome :: jstr
  no_userHome :: jstr
  no_nodePath :: jstr
  no_cliPath :: jstr
  no_platform :: jstr
  no_uid :: "int option"
  no_userId :: "jstr option"

definition utf16le :: "jstr \<Rightarrow> bytes" where
  "utf16le s = concat (map (\<lambda>u. [of_nat (u mod 256), of_nat (u div 256)]) s)"

definition job_id :: "(jstr \<Rightarrow> jstr) \<Rightarrow> (jstr \<Rightarrow> jstr) \<Rightarrow> native_options \<Rightarrow> jstr" where
  "job_id sha lower opts = lit ''caveat-autosync-'' @ take 16 (sha (normalize_path_case lower (no_caveatHome opts) (no_platform opts)))"

definition job_argv :: "native_options \<Rightarrow> jstr list" where
  "job_argv opts = [no_nodePath opts, no_cliPath opts, lit ''autosync'', lit ''run'', lit ''--json'', lit ''--caveat-home'',
     no_caveatHome opts, lit ''--user-home'', no_userHome opts]"

definition cmd :: "string \<Rightarrow> jstr list \<Rightarrow> schedule_command" where
  "cmd name args = \<lparr>sc_command = lit name, sc_args = args\<rparr>"

definition service_text :: "jstr list \<Rightarrow> jstr" where
  "service_text argv = service_head @ join [32] (map unit_arg argv) @ service_tail"

definition systemd_plan :: "jstr \<Rightarrow> native_options \<Rightarrow> native_plan" where
  "systemd_plan job opts =
     (let unitFile = (\<lambda>ext. posix_join [no_userHome opts, lit ''.config'', lit ''systemd'', lit ''user'', job @ ext]);
          service = unitFile (lit ''.service''); timer = unitFile (lit ''.timer'');
          timerName = job @ lit ''.timer''; serviceName = job @ lit ''.service''; user = lit ''--user'' in
      \<lparr>np_id = job, np_kind = Systemd_user, np_argv = job_argv opts,
       np_files = [\<lparr>jf_path = service, jf_content = service_text (job_argv opts), jf_utf16 = False\<rparr>,
         \<lparr>jf_path = timer, jf_content = timer_head @ job @ timer_tail, jf_utf16 = False\<rparr>],
       np_query = cmd ''systemctl'' [user, lit ''is-active'', timerName],
       np_inspect = cmd ''systemctl'' [user, lit ''show'', timerName, lit ''--property=LoadState'', lit ''--value''],
       np_install = [cmd ''systemctl'' [user, lit ''link'', service, timer], cmd ''systemctl'' [user, lit ''daemon-reload''],
         cmd ''systemctl'' [user, lit ''enable'', lit ''--now'', timerName]],
       np_remove = [cmd ''systemctl'' [user, lit ''stop'', timerName, serviceName],
         cmd ''systemctl'' [user, lit ''disable'', timerName, serviceName]],
       np_reload = [cmd ''systemctl'' [user, lit ''daemon-reload'']]\<rparr>)"

definition plist_arguments :: "jstr list \<Rightarrow> jstr" where
  "plist_arguments argv = concat (map (\<lambda>a. lit ''<string>'' @ xml_text a @ lit ''</string>'') argv)"

definition launchd_plan :: "jstr \<Rightarrow> nat \<Rightarrow> native_options \<Rightarrow> native_plan" where
  "launchd_plan job uid opts =
     (let label = lit ''dev.caveat.'' @ job;
          file = posix_join [no_userHome opts, lit ''Library'', lit ''LaunchAgents'', label @ lit ''.plist''];
          domain = lit ''gui/'' @ nat_str uid; target = domain @ lit ''/'' @ label in
      \<lparr>np_id = label, np_kind = Launchd_user, np_argv = job_argv opts,
       np_files = [\<lparr>jf_path = file,
         jf_content = plist_head @ label @ plist_middle @ plist_arguments (job_argv opts) @ plist_tail, jf_utf16 = False\<rparr>],
       np_query = cmd ''launchctl'' [lit ''print'', target],
       np_inspect = cmd ''launchctl'' [lit ''print'', target],
       np_install = [cmd ''launchctl'' [lit ''bootstrap'', domain, file]],
       np_remove = [cmd ''launchctl'' [lit ''bootout'', target]], np_reload = []\<rparr>)"

definition task_text :: "jstr \<Rightarrow> jstr \<Rightarrow> native_options \<Rightarrow> jstr" where
  "task_text job userId opts =
     task_head @ job @ task_triggers @ xml_text userId @ task_settings @
     lit ''<Command>'' @ xml_text (no_nodePath opts) @ lit ''</Command><Arguments>'' @
     xml_text (join [32] (map quote_windows_argument (tl (job_argv opts)))) @ lit ''</Arguments>'' @ task_tail"

definition windows_plan :: "(jstr list \<Rightarrow> jstr) \<Rightarrow> jstr \<Rightarrow> jstr \<Rightarrow> native_options \<Rightarrow> native_plan" where
  "windows_plan win_join job userId opts =
     (let file = win_join [no_caveatHome opts, lit ''sync'', job @ lit ''.xml''];
          shell = (\<lambda>args. cmd ''powershell.exe'' ([lit ''-NoProfile'', lit ''-NonInteractive''] @ args)) in
      \<lparr>np_id = job, np_kind = Windows_task, np_argv = job_argv opts,
       np_files = [\<lparr>jf_path = file, jf_content = task_text job userId opts, jf_utf16 = True\<rparr>],
       np_query = shell [lit ''-EncodedCommand'', base64_encode (utf16le (query_head @ job @ query_tail))],
       np_inspect = shell [lit ''-Command'', inspect_head @ job @ inspect_tail],
       np_install = [cmd ''schtasks.exe'' [lit ''/Create'', lit ''/TN'', job, lit ''/XML'', file]],
       np_remove = [cmd ''schtasks.exe'' [lit ''/Delete'', lit ''/TN'', job, lit ''/F'']], np_reload = []\<rparr>)"

definition paths_valid :: "native_options \<Rightarrow> bool" where
  "paths_valid opts \<longleftrightarrow> list_all (\<lambda>v. (if is_windows (no_platform opts) then win_absolute v else posix_absolute v) \<and> \<not> has_control v)
     [no_caveatHome opts, no_userHome opts, no_nodePath opts, no_cliPath opts]"

definition native_sync_schedule ::
  "(jstr \<Rightarrow> jstr) \<Rightarrow> (jstr \<Rightarrow> jstr) \<Rightarrow> (jstr list \<Rightarrow> jstr) \<Rightarrow> native_options \<Rightarrow> native_plan job_result" where
  "native_sync_schedule sha lower win_join opts =
     (if \<not> paths_valid opts then job_error ''schedule_absolute_path_required''
      else
        (let job = job_id sha lower opts; platform = no_platform opts in
         if platform = lit ''linux'' then Inr (systemd_plan job opts)
         else if platform = lit ''darwin''
         then (case no_uid opts of
             None \<Rightarrow> job_error ''schedule_uid_required''
           | Some u \<Rightarrow> if u < 0 then job_error ''schedule_uid_required'' else Inr (launchd_plan job (nat u) opts))
         else if platform = lit ''win32''
         then (case no_userId opts of
             None \<Rightarrow> job_error ''schedule_user_id_required''
           | Some u \<Rightarrow> if u = [] \<or> has_control u then job_error ''schedule_user_id_required'' else Inr (windows_plan win_join job u opts))
         else job_error ''schedule_platform_unsupported''))"

subsection \<open>What the system reports\<close>

definition native_schedule_present :: "schedule_kind \<Rightarrow> int \<Rightarrow> jstr \<Rightarrow> bool job_result" where
  "native_schedule_present kind status stdout =
     (if kind = Systemd_user
      then (if trim stdout = lit ''loaded'' then Inr True
            else if trim stdout = lit ''not-found'' then Inr False else job_error ''schedule_inspection_failed'')
      else if status = 0 then Inr True
      else if kind = Launchd_user \<and> status = 113 then Inr False
      else if kind = Windows_task \<and> status = 3 then Inr False
      else job_error ''schedule_inspection_failed'')"

text \<open>
  A definition is a plan or what an earlier state file says one was, so it is a JSON value. Reading
  a member of undefined or null throws (\<open>dig\<close>).
\<close>

fun dig :: "json option \<Rightarrow> string list \<Rightarrow> unit + json option" where
  "dig v [] = Inr v"
| "dig v (k # ks) = (case v of None \<Rightarrow> Inl () | Some JNull \<Rightarrow> Inl () | Some x \<Rightarrow> dig (get_member x k) ks)"

definition defaulted :: "json option \<Rightarrow> string \<Rightarrow> json option" where
  "defaulted v fallback = (case v of None \<Rightarrow> Some (JStr (lit fallback)) | Some x \<Rightarrow> Some x)"

definition task_fields :: "(string list \<times> string option) list" where
  "task_fields =
     [([''Actions'', ''Exec'', ''Command''], None), ([''Actions'', ''Exec'', ''Arguments''], None),
      ([''Triggers'', ''CalendarTrigger'', ''StartBoundary''], None),
      ([''Triggers'', ''CalendarTrigger'', ''Enabled''], Some ''true''),
      ([''Triggers'', ''CalendarTrigger'', ''ScheduleByDay'', ''DaysInterval''], None),
      ([''Triggers'', ''CalendarTrigger'', ''Repetition'', ''Interval''], None),
      ([''Triggers'', ''CalendarTrigger'', ''Repetition'', ''Duration''], None),
      ([''Triggers'', ''CalendarTrigger'', ''Repetition'', ''StopAtDurationEnd''], Some ''false''),
      ([''Principals'', ''Principal'', ''LogonType''], None), ([''Principals'', ''Principal'', ''RunLevel''], Some ''LeastPrivilege''),
      ([''Settings'', ''MultipleInstancesPolicy''], None), ([''Settings'', ''ExecutionTimeLimit''], None),
      ([''Settings'', ''Enabled''], Some ''true'')]"

fun task_values :: "json option \<Rightarrow> (string list \<times> string option) list \<Rightarrow> unit + json list" where
  "task_values task [] = Inr []"
| "task_values task ((ks, fallback) # fs) =
     try_then (dig task ks) (\<lambda>v. try_then (task_values task fs) (\<lambda>vs.
       Inr (or_else (case fallback of None \<Rightarrow> v | Some d \<Rightarrow> defaulted v d) JNull # vs)))"

definition task_of :: "(jstr \<Rightarrow> json option) \<Rightarrow> jstr \<Rightarrow> unit + json list" where
  "task_of xp s = (case xp s of None \<Rightarrow> Inl () | Some v \<Rightarrow> try_then (dig (Some v) [''Task'']) (\<lambda>t. task_values t task_fields))"

definition native_schedule_readback_matches :: "(jstr \<Rightarrow> json option) \<Rightarrow> json option \<Rightarrow> jstr \<Rightarrow> bool job_result" where
  "native_schedule_readback_matches xp def stdout =
     (case dig def [''kind''] of
        Inl _ \<Rightarrow> job_error ''TypeError''
      | Inr kind \<Rightarrow>
          (if kind \<noteq> Some (JStr (lit ''windows-task'')) then Inr True
           else (case (task_of xp stdout, dig def [''files'']) of
               (Inr actual, Inr (Some (JArr (f # _)))) \<Rightarrow> (case dig (Some f) [''content''] of
                   Inr (Some (JStr c)) \<Rightarrow> (case task_of xp c of
                       Inr expected \<Rightarrow> Inr (json_stringify (JArr actual) = json_stringify (JArr expected)) | Inl _ \<Rightarrow> Inr False)
                 | _ \<Rightarrow> Inr False)
             | _ \<Rightarrow> Inr False)))"

definition kind_name :: "schedule_kind \<Rightarrow> jstr" where
  "kind_name k = (case k of Systemd_user \<Rightarrow> lit ''systemd-user'' | Launchd_user \<Rightarrow> lit ''launchd-user'' | Windows_task \<Rightarrow> lit ''windows-task'')"

definition command_json :: "schedule_command \<Rightarrow> json" where
  "command_json c = JObj [(lit ''command'', JStr (sc_command c)), (lit ''args'', JArr (map JStr (sc_args c)))]"

definition file_json :: "job_file \<Rightarrow> json" where
  "file_json f = JObj ([(lit ''path'', JStr (jf_path f)), (lit ''content'', JStr (jf_content f))] @
     (if jf_utf16 f then [(lit ''encoding'', JStr (lit ''utf16le''))] else []))"

definition plan_json :: "native_plan \<Rightarrow> json" where
  "plan_json p = JObj
     [(lit ''id'', JStr (np_id p)), (lit ''kind'', JStr (kind_name (np_kind p))), (lit ''argv'', JArr (map JStr (np_argv p))),
      (lit ''files'', JArr (map file_json (np_files p))), (lit ''query'', command_json (np_query p)),
      (lit ''inspect'', command_json (np_inspect p)), (lit ''install'', JArr (map command_json (np_install p))),
      (lit ''remove'', JArr (map command_json (np_remove p))), (lit ''reload'', JArr (map command_json (np_reload p)))]"

text \<open>\<open>nativeScheduleFileBytes\<close>, of a file of a definition.\<close>

definition native_schedule_file_bytes :: "json option \<Rightarrow> json option \<Rightarrow> bytes job_result" where
  "native_schedule_file_bytes content encoding =
     (if encoding \<noteq> None \<and> encoding \<noteq> Some (JStr (lit ''utf16le'')) then job_error ''schedule_definition_encoding_invalid''
      else (case content of
          Some (JStr s) \<Rightarrow> Inr (if encoding = None then utf8_encode s else [255, 254] @ utf16le s)
        | _ \<Rightarrow> job_error ''TypeError''))"

definition file_bytes :: "job_file \<Rightarrow> bytes" where
  "file_bytes f = (if jf_utf16 f then [255, 254] @ utf16le (jf_content f) else utf8_encode (jf_content f))"

subsection \<open>The readers\<close>

text \<open>
  How the three systems read the texts. systemd: words in double quotes, where a backslash, a
  percent sign and a dollar sign escape themselves; other uses of them are left aside (None).
\<close>

fun unit_word :: "jstr \<Rightarrow> (jstr \<times> jstr) option" where
  "unit_word [] = None"
| "unit_word [c] = (if c = 34 then Some ([], []) else None)"
| "unit_word (c # d # s) =
     (if c = 34 then Some ([], d # s)
      else if c = 92 then (if d = 92 \<or> d = 34 then map_option (\<lambda>(w, r). (d # w, r)) (unit_word s) else None)
      else if c = 37 \<or> c = 36 then (if d = c then map_option (\<lambda>(w, r). (c # w, r)) (unit_word s) else None)
      else map_option (\<lambda>(w, r). (c # w, r)) (unit_word (d # s)))"

lemma unit_word_shorter: "unit_word s = Some (w, r) \<Longrightarrow> length r < length s"
  by (induction s arbitrary: w rule: unit_word.induct) (auto split: if_splits)

function unit_words :: "jstr \<Rightarrow> jstr list option" where
  "unit_words s =
     (case s of [] \<Rightarrow> None
      | c # s' \<Rightarrow> (if c \<noteq> 34 then None
          else (case unit_word s' of
              None \<Rightarrow> None
            | Some (w, []) \<Rightarrow> Some [w]
            | Some (w, d # r) \<Rightarrow> if d = 32 then map_option (Cons w) (unit_words r) else None)))"
  by pat_completeness auto

termination
  by (relation "measure length") (auto dest!: unit_word_shorter)

declare unit_words.simps [simp del]

text \<open>
  The Microsoft C runtime: backslashes are literal unless a double quote follows them, where each pair
  stands for one and an odd one makes the quote literal; blanks separate outside of quotes. The
  state: inside quotes, the number of backslashes just read, the word begun.
\<close>

fun win_words :: "bool \<Rightarrow> nat \<Rightarrow> jstr option \<Rightarrow> jstr \<Rightarrow> jstr list" where
  "win_words q n w [] = (case w of None \<Rightarrow> if n = 0 then [] else [replicate n 92] | Some v \<Rightarrow> [v @ replicate n 92])"
| "win_words q n w (c # s) =
     (if c = 92 then win_words q (Suc n) w s
      else if c = 34
      then (if even n then win_words (\<not> q) 0 (Some (or_else w [] @ replicate (n div 2) 92)) s
            else win_words q 0 (Some (or_else w [] @ replicate (n div 2) 92 @ [34])) s)
      else
        (let w' = (if n = 0 then w else Some (or_else w [] @ replicate n 92)) in
         if \<not> q \<and> (c = 32 \<or> c = 9)
         then (case w' of None \<Rightarrow> win_words q 0 None s | Some v \<Rightarrow> v # win_words q 0 None s)
         else win_words q 0 (Some (or_else w' [] @ [c])) s))"

text \<open>XML character data: the five predefined entities.\<close>

definition entities :: "(jstr \<times> nat) list" where
  "entities = [(lit ''amp;'', 38), (lit ''lt;'', 60), (lit ''gt;'', 62), (lit ''quot;'', 34), (lit ''apos;'', 39)]"

definition entity_at :: "jstr \<Rightarrow> (nat \<times> jstr) option" where
  "entity_at s = (case find (\<lambda>(e, _). starts_with e s) entities of None \<Rightarrow> None | Some (e, c) \<Rightarrow> Some (c, drop (length e) s))"

lemma entity_at_shorter: "entity_at s = Some (c, r) \<Longrightarrow> length r \<le> length s"
  by (auto simp: entity_at_def split: option.splits)

function xml_read :: "jstr \<Rightarrow> jstr option" where
  "xml_read s =
     (case s of [] \<Rightarrow> Some []
      | c # s' \<Rightarrow> (if c = 38 then (case entity_at s' of None \<Rightarrow> None | Some (d, r) \<Rightarrow> map_option (Cons d) (xml_read r))
          else if c = 60 then None else map_option (Cons c) (xml_read s')))"
  by pat_completeness auto

termination
  by (relation "measure length") (auto dest!: entity_at_shorter)

declare xml_read.simps [simp del]

subsection \<open>Quoting is undone by reading\<close>

lemma entity_at_unit:
  "xml_unit c = 38 # e \<Longrightarrow> entity_at (e @ s) = Some (c, s)"
  by (auto simp: xml_unit_def entity_at_def entities_def lit_def starts_with_def split: if_splits)

lemma xml_unit_cases: "(c \<noteq> 38 \<and> c \<noteq> 60 \<and> xml_unit c = [c]) \<or> (\<exists>e. xml_unit c = 38 # e)"
  by (auto simp: xml_unit_def lit_def)

lemma xml_read_text: "xml_read (xml_text v) = Some v"
proof (induction v)
  case Nil
  then show ?case by (simp add: xml_text_def xml_read.simps)
next
  case (Cons c v)
  have t: "xml_text (c # v) = xml_unit c @ xml_text v" by (simp add: xml_text_def)
  from xml_unit_cases [of c] show ?case
  proof (elim disjE conjE exE)
    assume "c \<noteq> 38" "c \<noteq> 60" "xml_unit c = [c]"
    with Cons t show ?thesis by (simp add: xml_read.simps [of "c # _"])
  next
    fix e assume e: "xml_unit c = 38 # e"
    with Cons t entity_at_unit [OF e, of "xml_text v"] show ?thesis by (simp add: xml_read.simps [of "38 # _"])
  qed
qed

lemma xml_text_safe: "60 \<notin> set (xml_text v) \<and> 62 \<notin> set (xml_text v)"
  by (auto simp: xml_text_def xml_unit_def lit_def)

lemma unit_word_arg: "unit_word (concat (map unit_unit v) @ 34 # s) = Some (v, s)"
proof (induction v)
  case Nil
  then show ?case by (cases s) simp_all
next
  case (Cons c v)
  show ?case
  proof (cases "c = 92 \<or> c = 34 \<or> c = 37 \<or> c = 36")
    case True
    then show ?thesis using Cons by (auto simp: unit_unit_def)
  next
    case False
    obtain d r where "concat (map unit_unit v) @ 34 # s = d # r" by (cases "concat (map unit_unit v)") auto
    moreover have "unit_unit c = [c]" using False by (simp add: unit_unit_def)
    ultimately show ?thesis using Cons False by simp
  qed
qed

lemma unit_words_args: "vs \<noteq> [] \<Longrightarrow> unit_words (join [32] (map unit_arg vs)) = Some vs"
proof (induction vs rule: induct_list012)
  case (2 v)
  then show ?case using unit_word_arg [of v "[]"] by (simp add: unit_arg_def unit_words.simps)
next
  case (3 v w vs)
  have "unit_words (unit_arg v @ 32 # s) = map_option (Cons v) (unit_words s)" for s
    using unit_word_arg [of v "32 # s"] by (simp add: unit_arg_def unit_words.simps [of "34 # _"])
  with 3 show ?case by simp
qed simp

lemma takeWhile_trailing:
  fixes x :: nat
  assumes "x \<noteq> 92"
  shows "takeWhile (\<lambda>c. c = 92) (rev (a @ x # b)) = takeWhile (\<lambda>c. c = 92) (rev b)"
proof -
  have "takeWhile (\<lambda>c. c = 92) (u @ x # v) = takeWhile (\<lambda>c. c = 92) u" for u v using assms by (induction u) simp_all
  then show ?thesis by simp
qed

lemma double_trailing_Cons: "x \<noteq> 92 \<Longrightarrow> double_trailing (a @ x # b) = a @ x # double_trailing b"
  unfolding double_trailing_def by (subst takeWhile_trailing) simp_all

lemma win_slashes: "win_words q n w (replicate k 92 @ s) = win_words q (n + k) w s"
  by (induction k arbitrary: n) simp_all

lemma takeWhile_replicate: "takeWhile (\<lambda>c. c = 92) (replicate n (92 :: nat)) = replicate n 92"
  by (induction n) simp_all

lemma win_quoted:
  "win_words True 0 (Some w) (double_trailing (escape_quotes n s) @ 34 # t) = win_words False 0 (Some (w @ replicate n 92 @ s)) t"
proof (induction s arbitrary: n w)
  case Nil
  have "double_trailing (replicate n 92) = replicate (n + n) 92"
    by (simp add: double_trailing_def takeWhile_replicate replicate_add)
  then show ?case by (simp add: win_slashes or_else_def flip: mult_2)
next
  case (Cons c s)
  show ?case
  proof (cases "c = 92")
    case True
    then show ?thesis using Cons [of w "Suc n"] by (simp add: replicate_app_Cons_same)
  next
    case other: False
    show ?thesis
    proof (cases "c = 34")
      case True
      have "double_trailing (escape_quotes n (c # s)) @ 34 # t =
          replicate (Suc (2 * n)) 92 @ 34 # double_trailing (escape_quotes 0 s) @ 34 # t"
        using True double_trailing_Cons [of 34 "replicate (2 * n) 92 @ [92]" "escape_quotes 0 s"]
        by (simp add: replicate_app_Cons_same)
      then show ?thesis using Cons [of "w @ replicate n 92 @ [34]" 0] True
        by (simp add: win_slashes or_else_def del: replicate.simps(2))
    next
      case False
      have "double_trailing (escape_quotes n (c # s)) @ 34 # t =
          replicate n 92 @ c # double_trailing (escape_quotes 0 s) @ 34 # t"
        using False other double_trailing_Cons [OF other, of "replicate n 92" "escape_quotes 0 s"] by simp
      then show ?thesis using Cons [of "w @ replicate n 92 @ [c]" 0] False other
        by (cases n) (simp_all add: win_slashes or_else_def Let_def)
    qed
  qed
qed

lemma win_words_args: "win_words False 0 None (join [32] (map quote_windows_argument vs)) = vs"
proof (induction vs rule: induct_list012)
  case (2 v)
  then show ?case using win_quoted [of "[]" 0 v "[]"] by (simp add: quote_windows_argument_def or_else_def)
next
  case (3 v w vs)
  have "win_words False 0 None (quote_windows_argument v @ 32 # s) = v # win_words False 0 None s" for s
    using win_quoted [of "[]" 0 v "32 # s"] by (simp add: quote_windows_argument_def or_else_def Let_def)
  with 3 show ?case by simp
qed simp

lemma unit_arg_line: "\<not> has_control v \<Longrightarrow> 10 \<notin> set (unit_arg v)"
  by (auto simp: unit_arg_def unit_unit_def has_control_def list_ex_iff)

subsection \<open>The job runs its arguments\<close>

definition reads_back :: "native_plan \<Rightarrow> bool" where
  "reads_back plan \<longleftrightarrow>
     (case np_kind plan of
        Systemd_user \<Rightarrow> (\<exists>before x rest. jf_content (hd (np_files plan)) = before @ lit ''ExecStart='' @ x @ 10 # rest \<and>
          10 \<notin> set x \<and> unit_words x = Some (np_argv plan))
      | Launchd_user \<Rightarrow> (\<exists>before items rest. jf_content (hd (np_files plan)) =
            before @ lit ''<array>'' @ concat (map (\<lambda>x. lit ''<string>'' @ x @ lit ''</string>'') items) @ lit ''</array>'' @ rest \<and>
          list_all (\<lambda>x. 60 \<notin> set x) items \<and> map xml_read items = map Some (np_argv plan))
      | Windows_task \<Rightarrow> (\<exists>before c a rest program line. jf_content (hd (np_files plan)) =
            before @ lit ''<Command>'' @ c @ lit ''</Command><Arguments>'' @ a @ lit ''</Arguments>'' @ rest \<and>
          60 \<notin> set c \<and> 60 \<notin> set a \<and> xml_read c = Some program \<and> xml_read a = Some line \<and>
          np_argv plan = program # win_words False 0 None line))"

lemma systemd_reads_back:
  assumes "paths_valid opts"
  shows "reads_back (systemd_plan job opts)"
proof -
  let ?x = "join [32] (map unit_arg (job_argv opts))"
  have "list_all (\<lambda>v. 10 \<notin> set (unit_arg v)) (job_argv opts)"
    using assms unit_arg_line by (simp add: job_argv_def paths_valid_def) (simp add: has_control_def lit_def)
  then have "10 \<notin> set ?x" by (simp add: job_argv_def)
  moreover have "unit_words ?x = Some (job_argv opts)" by (rule unit_words_args) (simp add: job_argv_def)
  moreover obtain before where "service_head = before @ lit ''ExecStart=''" by (simp add: service_head_def flip: append_assoc)
  moreover obtain rest where "service_tail = 10 # rest" by (simp add: service_tail_def)
  moreover have "jf_content (hd (np_files (systemd_plan job opts))) = service_head @ ?x @ service_tail"
    "np_kind (systemd_plan job opts) = Systemd_user" "np_argv (systemd_plan job opts) = job_argv opts"
    by (simp_all add: systemd_plan_def Let_def service_text_def)
  ultimately have "jf_content (hd (np_files (systemd_plan job opts))) = before @ lit ''ExecStart='' @ ?x @ 10 # rest" by simp
  with \<open>10 \<notin> set ?x\<close> \<open>unit_words ?x = _\<close> \<open>np_kind _ = _\<close> \<open>np_argv _ = _\<close> show ?thesis
    unfolding reads_back_def by (simp only: schedule_kind.case) blast
qed

lemma launchd_reads_back: "reads_back (launchd_plan job uid opts)"
proof -
  let ?items = "map xml_text (job_argv opts)"
  have middle: "plist_middle = lit ''</string><key>ProgramArguments</key>'' @ lit ''<array>''" by (simp add: plist_middle_def lit_def)
  have tail: "plist_tail = lit ''</array>'' @ lit ''<key>StartInterval</key><integer>60</integer></dict></plist>'' @ [10]"
    by (simp add: plist_tail_def lit_def)
  have items: "plist_arguments (job_argv opts) = concat (map (\<lambda>x. lit ''<string>'' @ x @ lit ''</string>'') ?items)"
    by (simp add: plist_arguments_def o_def)
  have "jf_content (hd (np_files (launchd_plan job uid opts))) =
      plist_head @ (lit ''dev.caveat.'' @ job) @ plist_middle @ plist_arguments (job_argv opts) @ plist_tail"
    by (simp add: launchd_plan_def Let_def)
  then have "jf_content (hd (np_files (launchd_plan job uid opts))) =
      (plist_head @ (lit ''dev.caveat.'' @ job) @ lit ''</string><key>ProgramArguments</key>'') @ lit ''<array>'' @
      concat (map (\<lambda>x. lit ''<string>'' @ x @ lit ''</string>'') ?items) @ lit ''</array>'' @
      (lit ''<key>StartInterval</key><integer>60</integer></dict></plist>'' @ [10])"
    unfolding middle tail items by (simp only: append_assoc)
  moreover have "list_all (\<lambda>x. 60 \<notin> set x) ?items" "map xml_read ?items = map Some (job_argv opts)"
    using xml_text_safe by (simp_all add: list_all_iff xml_read_text)
  moreover have "np_kind (launchd_plan job uid opts) = Launchd_user" "np_argv (launchd_plan job uid opts) = job_argv opts"
    by (simp_all add: launchd_plan_def Let_def)
  ultimately show ?thesis unfolding reads_back_def by (simp only: schedule_kind.case) blast
qed

lemma windows_reads_back: "reads_back (windows_plan win_join job user opts)"
proof -
  let ?c = "xml_text (no_nodePath opts)"
  let ?line = "join [32] (map quote_windows_argument (tl (job_argv opts)))"
  have "jf_content (hd (np_files (windows_plan win_join job user opts))) =
      (task_head @ job @ task_triggers @ xml_text user @ task_settings) @ lit ''<Command>'' @ ?c @ lit ''</Command><Arguments>'' @
      xml_text ?line @ lit ''</Arguments>'' @ task_tail"
    by (simp add: windows_plan_def Let_def task_text_def)
  moreover have "job_argv opts = no_nodePath opts # win_words False 0 None ?line"
    unfolding win_words_args by (simp add: job_argv_def)
  moreover have "60 \<notin> set ?c" "60 \<notin> set (xml_text ?line)" "xml_read ?c = Some (no_nodePath opts)" "xml_read (xml_text ?line) = Some ?line"
    using xml_text_safe xml_read_text by simp_all
  moreover have "np_kind (windows_plan win_join job user opts) = Windows_task" "np_argv (windows_plan win_join job user opts) = job_argv opts"
    by (simp_all add: windows_plan_def Let_def)
  ultimately show ?thesis unfolding reads_back_def by (simp only: schedule_kind.case) metis
qed

text \<open>
  C38: The job that is installed runs exactly its arguments: whatever characters the paths and the
  user's identifier contain, systemd, launchd or the Task Scheduler with the C runtime read from the
  definition's text the argument vector of the plan, which is the command of the periodic synchronisation.
\<close>

theorem job_runs_its_arguments:
  assumes "native_sync_schedule sha lower win_join opts = Inr plan"
  shows "np_argv plan = job_argv opts \<and> reads_back plan"
proof -
  have v: "paths_valid opts" using assms by (auto simp: native_sync_schedule_def job_error_def split: if_splits)
  consider "plan = systemd_plan (job_id sha lower opts) opts" | u where "plan = launchd_plan (job_id sha lower opts) u opts"
    | u where "plan = windows_plan win_join (job_id sha lower opts) u opts"
    using assms v by (auto simp: native_sync_schedule_def Let_def job_error_def split: if_splits option.splits)
  then show ?thesis
    by cases (simp_all add: systemd_reads_back [OF v] launchd_reads_back windows_reads_back, simp_all add: systemd_plan_def
      launchd_plan_def windows_plan_def Let_def)
qed

definition sample_job :: native_options where
  "sample_job = \<lparr>no_caveatHome = lit ''/c%'', no_userHome = lit ''/h'', no_nodePath = lit ''/a b'', no_cliPath = lit ''/$x'',
     no_platform = lit ''linux'', no_uid = None, no_userId = None\<rparr>"

theorem job_runs_its_arguments_witness:
  "\<exists>plan. native_sync_schedule id id concat sample_job = Inr plan \<and> np_argv plan = job_argv sample_job \<and> reads_back plan"
proof -
  have "native_sync_schedule id id concat sample_job = Inr (systemd_plan (job_id id id sample_job) sample_job)"
    by (simp add: native_sync_schedule_def sample_job_def paths_valid_def posix_absolute_def is_windows_def has_control_def
      starts_with_def lit_def Let_def)
  with job_runs_its_arguments show ?thesis by blast
qed

end
