(* ===== verification/Schedule.thy ===== *)
theory Schedule
  imports Effects JobText
begin

text \<open>
  Installing, inspecting and removing the periodic job: \<open>packages/core/src/syncSchedule.ts\<close>. The file
  system, the native commands and the lock are calls of the program (\<open>job_call\<close>) whose answers are not
  constrained. The state file is a JSON value read back with the checks of \<open>state\<close>; members it does not
  check are used as the code uses them. Lemmas: a file is removed or overwritten, and a native job
  replaced, only under the lock and only if the state read under it says, and the file or the system
  confirms, that it is the program's own; a reported success was read back; the lock is released.
\<close>

subsection \<open>Calls and answers\<close>

datatype job_call =
    Exists_path jstr | Lstat jstr | Read_bytes jstr | Make_parent jstr
  | Write_new jstr bytes | Overwrite jstr bytes | Rename jstr jstr | Unlink jstr
  | Run_command schedule_command | Take_lock | Drop_lock

text \<open>
  \<open>ja_error\<close> is the message of the error thrown, if one was. Else \<open>ja_flag\<close> says that a path exists, a
  file is regular or the lock was granted, \<open>ja_link\<close> that it is a symbolic link.
\<close>

record job_answer =
  ja_error :: "jstr option"
  ja_flag :: bool
  ja_link :: bool
  ja_bytes :: bytes
  ja_status :: int
  ja_out :: jstr

type_synonym ('e, 'a) job_io = "(job_call, job_answer, 'e + 'a) io"

definition job_ask :: "job_call \<Rightarrow> (jstr, job_answer) job_io" where
  "job_ask c = Do c (\<lambda>a. Ret (case ja_error a of Some e \<Rightarrow> Inl e | None \<Rightarrow> Inr a))"

definition job_exists :: "jstr \<Rightarrow> (jstr, bool) job_io" where
  "job_exists p = Do (Exists_path p) (\<lambda>a. Ret (Inr (ja_flag a)))"

definition job_lift :: "jstr + 'a \<Rightarrow> (jstr, 'a) job_io" where
  "job_lift x = Ret x"

definition fail :: "string \<Rightarrow> (jstr, 'a) job_io" where
  "fail m = throw (lit m)"

text \<open>\<open>sx_state\<close> and \<open>sx_temp\<close> are the state file and the file its new text is written to first.\<close>

record schedule_env =
  se_state :: jstr
  se_temp :: jstr
  se_sha :: "bytes \<Rightarrow> jstr"
  se_xp :: "jstr \<Rightarrow> json option"

subsection \<open>The state file\<close>

definition plain_file :: "jstr \<Rightarrow> (jstr, bool) job_io" where
  "plain_file p =
     seqE (job_ask (Lstat p)) (\<lambda>a.
     if \<not> ja_flag a then retE False
     else seqE (job_ask (Lstat p)) (\<lambda>b. retE (\<not> ja_link b)))"

definition state_valid :: "json \<Rightarrow> bool" where
  "state_valid v \<longleftrightarrow> get_member v ''schema'' = Some (JStr (lit ''caveat.sync_schedule.v1'')) \<and>
     truthy (get_member v ''file_hashes'') \<and> (case get_member v ''registered'' of Some (JBool _) \<Rightarrow> True | _ \<Rightarrow> False)"

definition parse_state :: "bytes \<Rightarrow> jstr + json" where
  "parse_state b = (case json_parse (utf8_decode b) of
     None \<Rightarrow> Inl (lit ''SyntaxError'')
   | Some v \<Rightarrow> (if v = JNull then Inl (lit ''TypeError'')
       else if state_valid v then Inr v else Inl (lit ''schedule_state_invalid'')))"

definition read_schedule_state :: "schedule_env \<Rightarrow> (jstr, json option) job_io" where
  "read_schedule_state env =
     seqE (job_exists (se_state env)) (\<lambda>there.
     if \<not> there then retE None
     else seqE (plain_file (se_state env)) (\<lambda>plain.
       if \<not> plain then fail ''schedule_state_unsafe''
       else seqE (job_ask (Read_bytes (se_state env))) (\<lambda>a.
         seqE (job_lift (parse_state (ja_bytes a))) (\<lambda>v. retE (Some v)))))"

definition save_state :: "schedule_env \<Rightarrow> json \<Rightarrow> (jstr, unit) job_io" where
  "save_state env v =
     seqE (job_ask (Make_parent (se_state env))) (\<lambda>_.
     seqE (job_ask (Overwrite (se_temp env) (utf8_encode (json_stringify v)))) (\<lambda>_.
     seqE (job_ask (Rename (se_temp env) (se_state env))) (\<lambda>_. retE ())))"

text \<open>\<open>Object.keys\<close>, and a member by a computed name.\<close>

fun object_keys :: "json option \<Rightarrow> jstr list" where
  "object_keys (Some (JObj m)) = map fst m"
| "object_keys (Some (JArr xs)) = map nat_str [0..<length xs]"
| "object_keys (Some (JStr s)) = map nat_str [0..<length s]"
| "object_keys _ = []"

fun keyed_member :: "json option \<Rightarrow> jstr \<Rightarrow> json option" where
  "keyed_member (Some (JObj m)) k = map_of m k"
| "keyed_member _ k = None"

definition recorded_hash :: "json \<Rightarrow> jstr \<Rightarrow> json option" where
  "recorded_hash old p = keyed_member (get_member old ''file_hashes'') p"

definition is_registered :: "json \<Rightarrow> bool" where
  "is_registered old \<longleftrightarrow> get_member old ''registered'' = Some (JBool True)"

subsection \<open>Ownership and comparison\<close>

definition check_owned_file :: "schedule_env \<Rightarrow> json \<Rightarrow> job_file \<Rightarrow> (jstr, unit) job_io" where
  "check_owned_file env old f =
     (let p = jf_path f; expected = recorded_hash old p in
      seqE (job_exists p) (\<lambda>there.
      if \<not> truthy expected then (if there then fail ''schedule_file_unmanaged'' else retE ())
      else if \<not> there then fail ''schedule_definition_changed''
      else seqE (plain_file p) (\<lambda>plain.
        if \<not> plain then fail ''schedule_definition_changed''
        else seqE (job_ask (Read_bytes p)) (\<lambda>a.
          if expected \<noteq> Some (JStr (se_sha env (ja_bytes a))) then fail ''schedule_definition_changed'' else retE ()))))"

definition verify_owned :: "schedule_env \<Rightarrow> native_plan \<Rightarrow> json \<Rightarrow> (jstr, unit) job_io" where
  "verify_owned env plan old =
     (if get_member old ''id'' \<noteq> Some (JStr (np_id plan)) \<or> get_member old ''kind'' \<noteq> Some (JStr (kind_name (np_kind plan)))
      then fail ''schedule_owner_mismatch''
      else if \<not> set (object_keys (get_member old ''file_hashes'')) \<subseteq> set (map jf_path (np_files plan))
      then fail ''schedule_owner_mismatch''
      else for_each (np_files plan) () (\<lambda>f _. check_owned_file env old f))"

definition file_matches :: "json \<Rightarrow> (jstr, bool) job_io" where
  "file_matches f =
     (if f = JNull then fail ''TypeError''
      else (case get_member f ''path'' of
        Some (JStr p) \<Rightarrow>
          seqE (job_exists p) (\<lambda>there.
          if \<not> there then retE False
          else seqE (plain_file p) (\<lambda>plain.
            if \<not> plain then retE False
            else seqE (job_ask (Read_bytes p)) (\<lambda>a.
              seqE (job_lift (native_schedule_file_bytes (get_member f ''content'') (get_member f ''encoding''))) (\<lambda>b.
                retE (ja_bytes a = b)))))
      | _ \<Rightarrow> retE False))"

fun every :: "json list \<Rightarrow> (jstr, bool) job_io" where
  "every [] = retE True"
| "every (f # fs) = seqE (file_matches f) (\<lambda>ok. if ok then every fs else retE False)"

definition files_match :: "json option \<Rightarrow> (jstr, bool) job_io" where
  "files_match def = (case dig def [''files''] of Inr (Some (JArr fs)) \<Rightarrow> every fs | _ \<Rightarrow> fail ''TypeError'')"

definition native_readback :: "schedule_env \<Rightarrow> native_plan \<Rightarrow> json option \<Rightarrow> (jstr, bool) job_io" where
  "native_readback env plan def =
     seqE (job_ask (Run_command (np_query plan))) (\<lambda>a.
     if ja_status a \<noteq> 0 then retE False
     else job_lift (native_schedule_readback_matches (se_xp env) def (ja_out a)))"

definition run_commands :: "schedule_command list \<Rightarrow> (jstr, unit) job_io" where
  "run_commands cs = for_each cs () (\<lambda>c _.
     seqE (job_ask (Run_command c)) (\<lambda>a. if ja_status a \<noteq> 0 then fail ''schedule_native_command_failed'' else retE ()))"

subsection \<open>The outcome\<close>

datatype schedule_action = Install | Status | Uninstall

datatype schedule_status = Success | Failed | Planned | Uninstalled

record schedule_outcome =
  jo_status :: schedule_status
  jo_reason :: json
  jo_plan :: "native_plan option"
  jo_registered :: "bool option"
  jo_matches :: "bool option"

definition job_outcome :: "schedule_status \<Rightarrow> string \<Rightarrow> schedule_outcome" where
  "job_outcome s reason = \<lparr>jo_status = s, jo_reason = JStr (lit reason), jo_plan = None, jo_registered = None, jo_matches = None\<rparr>"

text \<open>
  An error carries what the \<open>catch\<close> block sees of the variables: the record to keep (\<open>owned ?? old\<close>)
  and whether the lock is held.
\<close>

type_synonym job_failure = "jstr \<times> json option \<times> bool"

definition within :: "json option \<Rightarrow> bool \<Rightarrow> (jstr, 'a) job_io \<Rightarrow> (job_failure, 'a) job_io" where
  "within keep locked m = catch m (\<lambda>e. throw (e, keep, locked))"

subsection \<open>Removing\<close>

definition with_member :: "json \<Rightarrow> string \<Rightarrow> json \<Rightarrow> json" where
  "with_member v k x = (case v of JObj m \<Rightarrow> JObj (map_set m (lit k) x) | _ \<Rightarrow> v)"

definition without_hash :: "json \<Rightarrow> jstr \<Rightarrow> json" where
  "without_hash v p = (case get_member v ''file_hashes'' of
     Some (JObj hs) \<Rightarrow> with_member v ''file_hashes'' (JObj (filter (\<lambda>(k, _). k \<noteq> p) hs)) | _ \<Rightarrow> v)"

fun remove_files :: "schedule_env \<Rightarrow> job_file list \<Rightarrow> json \<Rightarrow> (job_failure, json) job_io" where
  "remove_files env [] owned = retE owned"
| "remove_files env (f # fs) owned =
     (if \<not> truthy (recorded_hash owned (jf_path f)) then remove_files env fs owned
      else seqE (within (Some owned) True (job_ask (Unlink (jf_path f)))) (\<lambda>_.
        let owned' = without_hash owned (jf_path f) in
        seqE (within (Some owned') True (save_state env owned')) (\<lambda>_. remove_files env fs owned')))"

definition uninstall_part :: "schedule_env \<Rightarrow> native_plan \<Rightarrow> json option \<Rightarrow> bool \<Rightarrow> (job_failure, schedule_outcome) job_io" where
  "uninstall_part env plan old present =
     seqE (within old True (if present then run_commands (np_remove plan) else retE ())) (\<lambda>_.
     seqE (case old of
         None \<Rightarrow> retE ()
       | Some o' \<Rightarrow>
           seqE (remove_files env (np_files plan) (with_member (with_member o' ''registered'' (JBool False))
              ''last_operation'' (JStr (lit ''removing'')))) (\<lambda>owned.
           within (Some owned) True (
             seqE (run_commands (np_reload plan)) (\<lambda>_.
             save_state env (with_member owned ''last_operation'' (JStr (lit ''uninstalled''))))))) (\<lambda>_.
     retE ((job_outcome Uninstalled ''removed_owned_schedule'')\<lparr>jo_registered := Some False\<rparr>)))"

subsection \<open>Installing\<close>

definition write_files :: "schedule_env \<Rightarrow> native_plan \<Rightarrow> json option \<Rightarrow> (jstr, unit) job_io" where
  "write_files env plan old =
     for_each (np_files plan) () (\<lambda>f _.
       seqE (job_ask (Make_parent (jf_path f))) (\<lambda>_.
       seqE (job_ask (if (case old of None \<Rightarrow> False | Some o' \<Rightarrow> truthy (recorded_hash o' (jf_path f)))
         then Overwrite (jf_path f) (file_bytes f) else Write_new (jf_path f) (file_bytes f))) (\<lambda>_. retE ())))"

definition new_state :: "schedule_env \<Rightarrow> native_plan \<Rightarrow> json option \<Rightarrow> json" where
  "new_state env plan old = JObj
     [(lit ''schema'', JStr (lit ''caveat.sync_schedule.v1'')), (lit ''id'', JStr (np_id plan)),
      (lit ''kind'', JStr (kind_name (np_kind plan))),
      (lit ''file_hashes'', JObj (foldl (\<lambda>m f. map_set m (jf_path f) (JStr (se_sha env (file_bytes f)))) [] (np_files plan))),
      (lit ''registered'', JBool False), (lit ''definition'', plan_json plan), (lit ''last_operation'', JStr (lit ''installing'')),
      (lit ''last_failure'', case Option.bind old (\<lambda>o'. get_member o' ''last_failure'') of None \<Rightarrow> JNull | Some v \<Rightarrow> v)]"

definition install_part :: "schedule_env \<Rightarrow> native_plan \<Rightarrow> json option \<Rightarrow> bool \<Rightarrow> (job_failure, schedule_outcome) job_io" where
  "install_part env plan old present =
     seqE (within old True (
       if (case old of None \<Rightarrow> False | Some o' \<Rightarrow> is_registered o')
       then seqE (files_match (Some (plan_json plan))) (\<lambda>same.
         if same then native_readback env plan (Some (plan_json plan)) else retE False)
       else retE False)) (\<lambda>unchanged.
     if unchanged then retE ((job_outcome Success ''unchanged'')\<lparr>jo_registered := Some True, jo_matches := Some True\<rparr>)
     else
       seqE (within old True (
         seqE (if present then run_commands (np_remove plan) else retE ()) (\<lambda>_. write_files env plan old))) (\<lambda>_.
       let owned = new_state env plan old in
       within (Some owned) True (
         seqE (save_state env owned) (\<lambda>_.
         seqE (run_commands (np_install plan)) (\<lambda>_.
         seqE (files_match (Some (plan_json plan))) (\<lambda>same.
         seqE (if same then native_readback env plan (Some (plan_json plan)) else retE False) (\<lambda>confirmed.
         if \<not> confirmed then fail ''schedule_readback_failed''
         else seqE (save_state env (with_member (with_member owned ''registered'' (JBool True))
             ''last_operation'' (JStr (lit ''installed'')))) (\<lambda>_.
           retE ((job_outcome Success ''installed_and_read_back'')\<lparr>jo_registered := Some True, jo_matches := Some True\<rparr>)))))))))"

subsection \<open>The command\<close>

definition recoverable :: "schedule_env \<Rightarrow> native_plan \<Rightarrow> json option \<Rightarrow> (jstr, bool) job_io" where
  "recoverable env plan old =
     (case old of
        None \<Rightarrow> retE False
      | Some o' \<Rightarrow>
          (let def = get_member o' ''definition'' in
           if get_member o' ''last_operation'' \<notin> {Some (JStr (lit ''installing'')), Some (JStr (lit ''failed''))} \<or>
             length (object_keys (get_member o' ''file_hashes'')) \<noteq> length (np_files plan)
           then retE False
           else seqE (files_match def) (\<lambda>same.
             if \<not> same then retE False
             else if dig def [''kind''] = Inr (Some (JStr (lit ''systemd-user''))) then retE True
             else native_readback env plan def)))"

definition check_presence :: "schedule_env \<Rightarrow> native_plan \<Rightarrow> json option \<Rightarrow> (jstr, bool) job_io" where
  "check_presence env plan old =
     seqE (job_ask (Run_command (np_inspect plan))) (\<lambda>a.
     seqE (job_lift (native_schedule_present (np_kind plan) (ja_status a) (ja_out a))) (\<lambda>present.
     seqE (recoverable env plan old) (\<lambda>recover.
     let registered = (case old of None \<Rightarrow> False | Some o' \<Rightarrow> is_registered o') in
     if present \<and> \<not> registered \<and> \<not> recover then fail ''schedule_job_unmanaged''
     else if present \<and> registered
     then seqE (native_readback env plan (Option.bind old (\<lambda>o'. get_member o' ''definition''))) (\<lambda>same.
       if \<not> same then fail ''schedule_native_changed'' else retE present)
     else retE present)))"

definition status_part :: "schedule_env \<Rightarrow> native_plan \<Rightarrow> json option \<Rightarrow> (jstr, schedule_outcome) job_io" where
  "status_part env plan old =
     (let recorded = (case old of None \<Rightarrow> False | Some o' \<Rightarrow> is_registered o') in
      seqE (if recorded then native_readback env plan (Some (plan_json plan)) else retE False) (\<lambda>registered.
      seqE (files_match (Some (plan_json plan))) (\<lambda>same.
      retE \<lparr>jo_status = (if registered \<and> same then Success else if recorded then Failed else Uninstalled),
        jo_reason = (if recorded \<and> (\<not> registered \<or> \<not> same) then JStr (lit ''schedule_readback_failed'')
          else (case Option.bind old (\<lambda>o'. get_member o' ''last_failure'') of
              None \<Rightarrow> JStr (lit ''observed'') | Some JNull \<Rightarrow> JStr (lit ''observed'') | Some v \<Rightarrow> v)),
        jo_plan = None, jo_registered = Some registered, jo_matches = Some same\<rparr>)))"

fun none_exists :: "job_file list \<Rightarrow> (jstr, unit) job_io" where
  "none_exists [] = retE ()"
| "none_exists (f # fs) = seqE (job_exists (jf_path f)) (\<lambda>there. if there then fail ''schedule_file_unmanaged'' else none_exists fs)"

definition change_part :: "schedule_env \<Rightarrow> native_plan \<Rightarrow> schedule_action \<Rightarrow> json option \<Rightarrow> (job_failure, schedule_outcome) job_io" where
  "change_part env plan action first =
     seqE (within first True (read_schedule_state env)) (\<lambda>old.
     seqE (within old True (
       seqE (case old of None \<Rightarrow> retE () | Some o' \<Rightarrow> verify_owned env plan o') (\<lambda>_. check_presence env plan old))) (\<lambda>present.
     if action = Uninstall then uninstall_part env plan old present else install_part env plan old present))"

definition job_body :: "schedule_env \<Rightarrow> native_plan \<Rightarrow> schedule_action \<Rightarrow> (job_failure, schedule_outcome \<times> bool) job_io" where
  "job_body env plan action =
     seqE (within None False (read_schedule_state env)) (\<lambda>old.
     seqE (within old False (case old of None \<Rightarrow> none_exists (np_files plan) | Some o' \<Rightarrow> verify_owned env plan o')) (\<lambda>_.
     if action = Status then seqE (within old False (status_part env plan old)) (\<lambda>r. retE (r, False))
     else seqE (within old False (job_ask Take_lock)) (\<lambda>a.
       if \<not> ja_flag a then throw (lit ''schedule_cycle_busy'', old, False)
       else seqE (change_part env plan action old) (\<lambda>r. retE (r, True)))))"

text \<open>\<open>/^schedule_[a-z_]+$/\<close>.\<close>

definition is_reason :: "jstr \<Rightarrow> bool" where
  "is_reason e \<longleftrightarrow> starts_with (lit ''schedule_'') e \<and> length e > 9 \<and> list_all (\<lambda>c. (97 \<le> c \<and> c \<le> 122) \<or> c = 95) (drop 9 e)"

definition not_recorded :: "jstr list" where
  "not_recorded = [lit ''schedule_definition_changed'', lit ''schedule_owner_mismatch'', lit ''schedule_job_unmanaged'',
     lit ''schedule_file_unmanaged'', lit ''schedule_native_changed'']"

definition job_failed :: "schedule_env \<Rightarrow> schedule_action \<Rightarrow> job_failure \<Rightarrow> (jstr, schedule_outcome \<times> bool) job_io" where
  "job_failed env action failure =
     (case failure of (e, keep, locked) \<Rightarrow>
        let reason = (if is_reason e then e else lit ''schedule_operation_failed'');
            out = (job_outcome Failed [])\<lparr>jo_reason := JStr reason\<rparr> in
        (case keep of
           Some v \<Rightarrow>
             (if locked \<and> action \<noteq> Status \<and> reason \<notin> set not_recorded
              then bind (save_state env (with_member (with_member v ''last_operation'' (JStr (lit ''failed''))) ''last_failure'' (JStr reason)))
                (\<lambda>_. retE (out, locked))
              else retE (out, locked))
         | None \<Rightarrow> retE (out, locked)))"

definition manage_job :: "schedule_env \<Rightarrow> native_plan \<Rightarrow> schedule_action \<Rightarrow> (jstr, schedule_outcome) job_io" where
  "manage_job env plan action =
     seqE (catch (job_body env plan action) (job_failed env action)) (\<lambda>(out, locked).
       if locked then seqE (job_ask Drop_lock) (\<lambda>_. retE out) else retE out)"

definition manage_sync_schedule ::
  "schedule_env \<Rightarrow> native_plan job_result \<Rightarrow> bool \<Rightarrow> schedule_action \<Rightarrow> (jstr, schedule_outcome) job_io" where
  "manage_sync_schedule env planned dryRun action =
     (case planned of
        Inl e \<Rightarrow> throw e
      | Inr plan \<Rightarrow>
          (if dryRun then retE \<lparr>jo_status = Planned,
             jo_reason = JStr (case action of Install \<Rightarrow> lit ''install'' | Status \<Rightarrow> lit ''status'' | Uninstall \<Rightarrow> lit ''uninstall''),
             jo_plan = Some plan, jo_registered = None, jo_matches = None\<rparr>
           else manage_job env plan action))"

subsection \<open>Reasoning about the calls\<close>

lemma holds_job_ask [simp, wp]:
  "holds (job_ask c) G Q h \<longleftrightarrow> G h c \<and>
     (\<forall>a. (\<forall>e. ja_error a = Some e \<longrightarrow> Q (h @ [(c, a)]) (Inl e)) \<and> (ja_error a = None \<longrightarrow> Q (h @ [(c, a)]) (Inr a)))"
  by (auto simp: job_ask_def split: option.splits)

lemma holds_job_exists [simp, wp]:
  "holds (job_exists p) G Q h \<longleftrightarrow> G h (Exists_path p) \<and> (\<forall>a. Q (h @ [(Exists_path p, a)]) (Inr (ja_flag a)))"
  by (simp add: job_exists_def)

lemma holds_job_lift [simp, wp]: "holds (job_lift x) G Q h \<longleftrightarrow> Q h x"
  by (simp add: job_lift_def)

lemma holds_fail [simp, wp]: "holds (fail m) G Q h \<longleftrightarrow> Q h (Inl (lit m))"
  by (simp add: fail_def)

lemma holds_within [simp, wp]:
  "holds (within v l m) G Q h \<longleftrightarrow> holds m G (\<lambda>h' x. case x of Inl e \<Rightarrow> Q h' (Inl (e, v, l)) | Inr y \<Rightarrow> Q h' (Inr y)) h"
  by (simp add: within_def cong: sum.case_cong)

lemma okay_job_ask [simp]: "okay (job_ask c) G P h \<longleftrightarrow> G h c \<and> (\<forall>a. ja_error a = None \<longrightarrow> P (h @ [(c, a)]) a)"
  by (auto simp: okay_def)

lemma okay_job_exists [simp]: "okay (job_exists p) G P h \<longleftrightarrow> G h (Exists_path p) \<and> (\<forall>a. P (h @ [(Exists_path p, a)]) (ja_flag a))"
  by (simp add: okay_def)

lemma okay_job_lift [simp]: "okay (job_lift x) G P h \<longleftrightarrow> (\<forall>y. x = Inr y \<longrightarrow> P h y)"
  by (auto simp: okay_def split: sum.splits)

lemma okay_fail [simp]: "okay (fail m) G P h"
  by (simp add: okay_def)

lemma okay_within [simp]: "okay (within v l m) G P h \<longleftrightarrow> okay m G P h"
  by (simp add: within_def)

lemma uses_job_ask [calls]: "C c \<Longrightarrow> uses (job_ask c) C"
  by (simp add: job_ask_def)

lemma uses_job_exists [calls]: "C (Exists_path p) \<Longrightarrow> uses (job_exists p) C"
  by (simp add: job_exists_def)

lemma uses_job_lift [calls]: "uses (job_lift x) C"
  by (simp add: job_lift_def)

lemma uses_fail [calls]: "uses (fail m) C"
  by (simp add: fail_def throw_def)

lemma uses_within [calls]: "uses m C \<Longrightarrow> uses (within v l m) C"
  unfolding within_def by (intro calls)

subsection \<open>What a history shows\<close>

type_synonym job_history = "(job_call \<times> job_answer) list"

definition got :: "job_history \<Rightarrow> job_call \<Rightarrow> job_answer \<Rightarrow> bool" where
  "got h c a \<longleftrightarrow> (c, a) \<in> set h \<and> ja_error a = None"

text \<open>The state file was read and says \<open>v\<close>; a file was read and has the recorded digest.\<close>

definition state_known :: "schedule_env \<Rightarrow> job_history \<Rightarrow> json \<Rightarrow> bool" where
  "state_known env h v \<longleftrightarrow> (\<exists>a. got h (Read_bytes (se_state env)) a \<and> parse_state (ja_bytes a) = Inr v)"

definition confirmed_file :: "schedule_env \<Rightarrow> job_history \<Rightarrow> json \<Rightarrow> jstr \<Rightarrow> bool" where
  "confirmed_file env h v p \<longleftrightarrow> (\<exists>a. got h (Read_bytes p) a \<and> recorded_hash v p = Some (JStr (se_sha env (ja_bytes a))))"

definition owned_file :: "schedule_env \<Rightarrow> job_history \<Rightarrow> jstr \<Rightarrow> bool" where
  "owned_file env h p \<longleftrightarrow> (\<exists>v. state_known env h v \<and> confirmed_file env h v p)"

text \<open>The system was asked and has no such job; or reports the job of a definition.\<close>

definition native_absent :: "native_plan \<Rightarrow> job_history \<Rightarrow> bool" where
  "native_absent plan h \<longleftrightarrow> (\<exists>a. got h (Run_command (np_inspect plan)) a \<and>
     native_schedule_present (np_kind plan) (ja_status a) (ja_out a) = Inr False)"

definition readback_ok :: "schedule_env \<Rightarrow> native_plan \<Rightarrow> job_history \<Rightarrow> json option \<Rightarrow> bool" where
  "readback_ok env plan h def \<longleftrightarrow> (\<exists>a. got h (Run_command (np_query plan)) a \<and> ja_status a = 0 \<and>
     native_schedule_readback_matches (se_xp env) def (ja_out a) = Inr True)"

text \<open>Every file of a definition was read and has the bytes the definition gives it.\<close>

definition file_read_back :: "job_history \<Rightarrow> json \<Rightarrow> bool" where
  "file_read_back h f \<longleftrightarrow> (\<exists>p a. get_member f ''path'' = Some (JStr p) \<and> got h (Read_bytes p) a \<and>
     native_schedule_file_bytes (get_member f ''content'') (get_member f ''encoding'') = Inr (ja_bytes a))"

definition files_read_back :: "job_history \<Rightarrow> json option \<Rightarrow> bool" where
  "files_read_back h def \<longleftrightarrow> (\<exists>fs. dig def [''files''] = Inr (Some (JArr fs)) \<and> (\<forall>f \<in> set fs. file_read_back h f))"

definition unfinished :: "schedule_env \<Rightarrow> native_plan \<Rightarrow> job_history \<Rightarrow> json \<Rightarrow> bool" where
  "unfinished env plan h v \<longleftrightarrow>
     get_member v ''last_operation'' \<in> {Some (JStr (lit ''installing'')), Some (JStr (lit ''failed''))} \<and>
     files_read_back h (get_member v ''definition'') \<and>
     (dig (get_member v ''definition'') [''kind''] = Inr (Some (JStr (lit ''systemd-user''))) \<or>
      readback_ok env plan h (get_member v ''definition''))"

definition native_owned :: "schedule_env \<Rightarrow> native_plan \<Rightarrow> job_history \<Rightarrow> bool" where
  "native_owned env plan h \<longleftrightarrow> (\<exists>v. state_known env h v \<and>
     (is_registered v \<and> readback_ok env plan h (get_member v ''definition'') \<or> unfinished env plan h v))"

lemma got_append [simp]: "got (h @ h') c a \<longleftrightarrow> got h c a \<or> got h' c a"
  by (auto simp: got_def)

lemma got_Cons [simp]: "got ((d, b) # h) c a \<longleftrightarrow> (c = d \<and> a = b \<and> ja_error b = None) \<or> got h c a"
  by (auto simp: got_def)

lemma got_Nil [simp]: "\<not> got [] c a"
  by (simp add: got_def)

lemma state_known_mono: "state_known env h v \<Longrightarrow> state_known env (h @ h') v"
  by (auto simp: state_known_def)

lemma confirmed_file_mono: "confirmed_file env h v p \<Longrightarrow> confirmed_file env (h @ h') v p"
  by (auto simp: confirmed_file_def)

lemma owned_file_mono: "owned_file env h p \<Longrightarrow> owned_file env (h @ h') p"
  unfolding owned_file_def by (blast intro: state_known_mono confirmed_file_mono)

lemma native_absent_mono: "native_absent plan h \<Longrightarrow> native_absent plan (h @ h')"
  by (auto simp: native_absent_def)

lemma readback_ok_mono: "readback_ok env plan h def \<Longrightarrow> readback_ok env plan (h @ h') def"
  by (auto simp: readback_ok_def)

lemma file_read_back_mono: "file_read_back h f \<Longrightarrow> file_read_back (h @ h') f"
  by (auto simp: file_read_back_def)

lemma files_read_back_mono: "files_read_back h def \<Longrightarrow> files_read_back (h @ h') def"
  unfolding files_read_back_def by (blast intro: file_read_back_mono)

lemma unfinished_mono: "unfinished env plan h v \<Longrightarrow> unfinished env plan (h @ h') v"
  unfolding unfinished_def by (blast intro: files_read_back_mono readback_ok_mono)

lemma native_owned_mono: "native_owned env plan h \<Longrightarrow> native_owned env plan (h @ h')"
  unfolding native_owned_def by (blast intro: state_known_mono readback_ok_mono unfinished_mono)

subsection \<open>The guard\<close>

text \<open>What a call needs: the changing ones need the proof of ownership in the history.\<close>

fun looks :: "native_plan \<Rightarrow> job_call \<Rightarrow> bool" where
  "looks plan (Exists_path _) = True"
| "looks plan (Lstat _) = True"
| "looks plan (Read_bytes _) = True"
| "looks plan (Run_command k) = (k = np_query plan \<or> k = np_inspect plan)"
| "looks plan _ = False"

fun entitled :: "schedule_env \<Rightarrow> native_plan \<Rightarrow> job_history \<Rightarrow> job_call \<Rightarrow> bool" where
  "entitled env plan h (Unlink p) = owned_file env h p"
| "entitled env plan h (Overwrite p b) = (p = se_temp env \<or> owned_file env h p)"
| "entitled env plan h (Rename p q) = (p = se_temp env \<and> q = se_state env)"
| "entitled env plan h (Run_command k) = (looks plan (Run_command k) \<or> native_absent plan h \<or> native_owned env plan h)"
| "entitled env plan h Take_lock = False"
| "entitled env plan h Drop_lock = False"
| "entitled env plan h _ = True"

lemma looks_entitled: "looks plan c \<Longrightarrow> entitled env plan h c"
  by (cases c) auto

lemma entitled_mono: "entitled env plan h c \<Longrightarrow> entitled env plan (h @ h') c"
  by (cases c) (auto intro: owned_file_mono native_absent_mono native_owned_mono)

lemma uses_entitled: "uses m (entitled env plan h) \<Longrightarrow> okay m (entitled env plan) (\<lambda>_ _. True) h"
  by (erule uses_okay) (auto intro: entitled_mono)

subsection \<open>The steps and what they establish\<close>

lemma okay_read_state:
  "okay (read_schedule_state env) (entitled env plan) (\<lambda>h old. \<forall>v. old = Some v \<longrightarrow> state_known env h v) h"
  by (auto simp: read_schedule_state_def plain_file_def state_known_def)

lemma okay_check_owned:
  "okay (check_owned_file env old f) (entitled env plan)
     (\<lambda>h _. truthy (recorded_hash old (jf_path f)) \<longrightarrow> confirmed_file env h old (jf_path f)) h"
  by (auto simp: check_owned_file_def Let_def plain_file_def confirmed_file_def)

lemma okay_verify_owned:
  "okay (verify_owned env plan old) (entitled env plan)
     (\<lambda>h _. \<forall>f \<in> set (np_files plan). truthy (recorded_hash old (jf_path f)) \<longrightarrow> confirmed_file env h old (jf_path f)) h"
proof -
  have "okay (for_each (np_files plan) () (\<lambda>f _. check_owned_file env old f)) (entitled env plan)
     (\<lambda>h _. \<forall>f \<in> set (np_files plan). truthy (recorded_hash old (jf_path f)) \<longrightarrow> confirmed_file env h old (jf_path f)) h"
    by (rule okay_for_each) (auto intro: okay_check_owned confirmed_file_mono)
  then show ?thesis by (simp add: verify_owned_def)
qed

lemma okay_file_matches:
  "okay (file_matches f) (entitled env plan) (\<lambda>h same. same \<longrightarrow> file_read_back h f) h"
  by (auto simp: file_matches_def plain_file_def file_read_back_def split: option.splits json.splits)

lemma okay_every: "okay (every fs) (entitled env plan) (\<lambda>h same. same \<longrightarrow> (\<forall>f \<in> set fs. file_read_back h f)) h"
proof (induction fs arbitrary: h)
  case (Cons f fs)
  have "okay (if y then every fs else retE False) (entitled env plan)
      (\<lambda>h same. same \<longrightarrow> (\<forall>g \<in> set (f # fs). file_read_back h g)) (h @ h')" if "y \<longrightarrow> file_read_back (h @ h') f" for h' y
  proof (cases y)
    case True
    show ?thesis using okay_mono [OF Cons, of "h @ h'" "\<lambda>h same. same \<longrightarrow> (\<forall>g \<in> set (f # fs). file_read_back h g)"]
        True that file_read_back_mono [of "h @ h'" f] by auto
  qed simp
  then show ?case by (simp del: list.set, intro okay_mono [OF okay_file_matches])
qed simp

lemma okay_files_match:
  "okay (files_match def) (entitled env plan) (\<lambda>h same. same \<longrightarrow> files_read_back h def) h"
  by (auto simp: files_match_def files_read_back_def split: sum.splits option.splits json.splits
    intro: okay_mono [OF okay_every])

lemma okay_readback:
  "okay (native_readback env plan def) (entitled env plan) (\<lambda>h same. same \<longrightarrow> readback_ok env plan h def) h"
  by (auto simp: native_readback_def readback_ok_def)

definition registered_in :: "json option \<Rightarrow> bool" where
  "registered_in old \<longleftrightarrow> (case old of None \<Rightarrow> False | Some v \<Rightarrow> is_registered v)"

lemma registered_in_case [simp]: "(case old of None \<Rightarrow> False | Some v \<Rightarrow> is_registered v) = registered_in old"
  by (simp add: registered_in_def)

lemma registered_in_None [simp]: "\<not> registered_in None"
  by (subst registered_in_def) simp

lemma registered_inD: "registered_in old \<Longrightarrow> \<exists>v. old = Some v \<and> is_registered v"
  unfolding registered_in_def by (cases old) simp_all

lemma okay_recoverable:
  "okay (recoverable env plan old) (entitled env plan) (\<lambda>h r. r \<longrightarrow> (\<exists>v. old = Some v \<and> unfinished env plan h v)) h"
proof (cases old)
  case (Some v)
  let ?def = "get_member v ''definition''"
  let ?P = "\<lambda>h r. r \<longrightarrow> (\<exists>v. old = Some v \<and> unfinished env plan h v)"
  have step: "okay (if \<not> same then retE False
       else if dig ?def [''kind''] = Inr (Some (JStr (lit ''systemd-user''))) then retE True
       else native_readback env plan ?def) (entitled env plan) ?P g"
    if "same \<longrightarrow> files_read_back g ?def"
      and op: "get_member v ''last_operation'' \<in> {Some (JStr (lit ''installing'')), Some (JStr (lit ''failed''))}" for g same
  proof -
    have "okay (native_readback env plan ?def) (entitled env plan) ?P g" if "files_read_back g ?def"
      by (rule okay_mono [OF okay_readback]) (use Some op that in \<open>auto simp: unfinished_def intro: files_read_back_mono\<close>)
    then show ?thesis using that Some by (auto simp: unfinished_def)
  qed
  show ?thesis
  proof (cases "get_member v ''last_operation'' \<in> {Some (JStr (lit ''installing'')), Some (JStr (lit ''failed''))}")
    case True
    have "okay (seqE (files_match ?def) (\<lambda>same. if \<not> same then retE False
       else if dig ?def [''kind''] = Inr (Some (JStr (lit ''systemd-user''))) then retE True
       else native_readback env plan ?def)) (entitled env plan) ?P h"
      by (rule okay_seqI [OF okay_files_match]) (rule step [OF _ True])
    with Some show ?thesis by (simp only: recoverable_def option.case Let_def okay_if okay_retE) simp
  qed (use Some in \<open>simp add: recoverable_def Let_def\<close>)
qed (simp add: recoverable_def)

definition presence_verdict :: "schedule_env \<Rightarrow> native_plan \<Rightarrow> json option \<Rightarrow> bool \<Rightarrow> bool \<Rightarrow> (jstr, bool) job_io" where
  "presence_verdict env plan old present recover =
     (if present \<and> \<not> registered_in old \<and> \<not> recover then fail ''schedule_job_unmanaged''
      else if present \<and> registered_in old
      then seqE (native_readback env plan (Option.bind old (\<lambda>v. get_member v ''definition''))) (\<lambda>same.
        if \<not> same then fail ''schedule_native_changed'' else retE present)
      else retE present)"

lemma check_presence_verdict:
  "check_presence env plan old =
     seqE (job_ask (Run_command (np_inspect plan))) (\<lambda>a.
     seqE (job_lift (native_schedule_present (np_kind plan) (ja_status a) (ja_out a))) (\<lambda>present.
     seqE (recoverable env plan old) (presence_verdict env plan old present)))"
  by (simp add: check_presence_def presence_verdict_def [abs_def] Let_def)

lemma okay_verdict:
  assumes known: "\<And>v. old = Some v \<Longrightarrow> state_known env h v" and absent: "\<not> present \<Longrightarrow> native_absent plan h"
    and recover: "recover \<Longrightarrow> \<exists>v. old = Some v \<and> unfinished env plan h v"
  shows "okay (presence_verdict env plan old present recover) (entitled env plan)
    (\<lambda>h present. if present then native_owned env plan h else native_absent plan h) h"
proof (cases "present \<and> registered_in old")
  case True
  then obtain v where v: "old = Some v" "is_registered v" using registered_inD by blast
  have "okay (seqE (native_readback env plan (get_member v ''definition'')) (\<lambda>same.
     if \<not> same then fail ''schedule_native_changed'' else retE True)) (entitled env plan) (\<lambda>h y. y \<and> native_owned env plan h) h"
  proof (rule okay_seqI [OF okay_readback])
    fix h' same
    assume "same \<longrightarrow> readback_ok env plan (h @ h') (get_member v ''definition'')"
    then have "native_owned env plan (h @ h')" if same
      using state_known_mono [OF known [OF v(1)], of h'] v(2) that unfolding native_owned_def by (intro exI [of _ v]) simp
    then show "okay (if \<not> same then fail ''schedule_native_changed'' else retE True) (entitled env plan) (\<lambda>h y. y \<and> native_owned env plan h) (h @ h')"
      by simp
  qed
  moreover have "presence_verdict env plan old present recover =
      seqE (native_readback env plan (get_member v ''definition'')) (\<lambda>same. if \<not> same then fail ''schedule_native_changed'' else retE True)"
    using True v by (simp add: presence_verdict_def)
  ultimately show ?thesis by (simp only:) (erule okay_mono, simp)
next
  case False
  show ?thesis
  proof (cases present)
    case True
    then have "native_owned env plan h" if recover using recover [OF that] known unfolding native_owned_def by blast
    with True False show ?thesis by (simp add: presence_verdict_def)
  qed (use absent in \<open>simp add: presence_verdict_def\<close>)
qed

lemma okay_check_presence:
  assumes known: "\<And>v. old = Some v \<Longrightarrow> state_known env h v"
  shows "okay (check_presence env plan old) (entitled env plan)
    (\<lambda>h present. if present then native_owned env plan h else native_absent plan h) h"
  unfolding check_presence_verdict
proof (simp only: okay_seqE okay_job_ask okay_job_lift entitled.simps looks.simps, intro conjI allI impI)
  fix a present
  let ?g = "h @ [(Run_command (np_inspect plan), a)]"
  assume a: "ja_error a = None" "native_schedule_present (np_kind plan) (ja_status a) (ja_out a) = Inr present"
  show "okay (recoverable env plan old) (entitled env plan) (\<lambda>h y. okay (presence_verdict env plan old present y) (entitled env plan)
      (\<lambda>h present. if present then native_owned env plan h else native_absent plan h) h) ?g"
  proof (rule okay_mono [OF okay_recoverable])
    fix h' recover
    assume "recover \<longrightarrow> (\<exists>v. old = Some v \<and> unfinished env plan (?g @ h') v)"
    moreover have "\<not> present \<Longrightarrow> native_absent plan (?g @ h')" using a by (auto simp: native_absent_def)
    ultimately show "okay (presence_verdict env plan old present recover) (entitled env plan)
      (\<lambda>h present. if present then native_owned env plan h else native_absent plan h) (?g @ h')"
      using state_known_mono [OF known] by (intro okay_verdict) auto
  qed
qed simp

subsection \<open>The changing steps\<close>

lemma recorded_with_member [simp]:
  "lit k \<noteq> lit ''file_hashes'' \<Longrightarrow> recorded_hash (with_member v k x) p = recorded_hash v p"
  by (cases v) (simp_all add: recorded_hash_def with_member_def obj_get_def)

lemma recorded_without_hash: "truthy (recorded_hash (without_hash v q) p) \<Longrightarrow> truthy (recorded_hash v p)"
proof -
  have "map_of (filter (\<lambda>(k, _). k \<noteq> q) hs) p = (if p = q then None else map_of hs p)" for hs :: "(jstr \<times> json) list"
    by (induction hs) auto
  then show "truthy (recorded_hash (without_hash v q) p) \<Longrightarrow> truthy (recorded_hash v p)"
    by (cases v) (auto simp: recorded_hash_def without_hash_def with_member_def obj_get_def split: option.splits json.splits if_splits)
qed

definition may_touch :: "schedule_env \<Rightarrow> native_plan \<Rightarrow> job_history \<Rightarrow> bool" where
  "may_touch env plan h \<longleftrightarrow> native_absent plan h \<or> native_owned env plan h"

lemma uses_looks: "uses m (looks plan) \<Longrightarrow> uses m (entitled env plan h)"
  by (erule uses_mono) (rule looks_entitled)

lemma uses_plain_file [calls]: "(\<And>p. C (Lstat p)) \<Longrightarrow> uses (plain_file p) C"
  unfolding plain_file_def by (intro calls)

lemma uses_file_matches [calls]: "(\<And>p. C (Exists_path p)) \<Longrightarrow> (\<And>p. C (Lstat p)) \<Longrightarrow> (\<And>p. C (Read_bytes p)) \<Longrightarrow> uses (file_matches f) C"
  unfolding file_matches_def by (auto intro!: calls split: option.split json.split)

lemma uses_every [calls]: "(\<And>p. C (Exists_path p)) \<Longrightarrow> (\<And>p. C (Lstat p)) \<Longrightarrow> (\<And>p. C (Read_bytes p)) \<Longrightarrow> uses (every fs) C"
  by (induction fs) (auto intro!: calls)

lemma uses_files_match [calls]: "(\<And>p. C (Exists_path p)) \<Longrightarrow> (\<And>p. C (Lstat p)) \<Longrightarrow> (\<And>p. C (Read_bytes p)) \<Longrightarrow> uses (files_match def) C"
  unfolding files_match_def by (auto intro!: calls split: sum.split option.split json.split)

lemma uses_readback [calls]: "C (Run_command (np_query plan)) \<Longrightarrow> uses (native_readback env plan def) C"
  unfolding native_readback_def by (intro calls)

lemma uses_save [calls]:
  "C (Make_parent (se_state env)) \<Longrightarrow> (\<And>b. C (Overwrite (se_temp env) b)) \<Longrightarrow> C (Rename (se_temp env) (se_state env)) \<Longrightarrow>
    uses (save_state env v) C"
  unfolding save_state_def by (intro calls)

lemma uses_run [calls]: "(\<And>c. C (Run_command c)) \<Longrightarrow> uses (run_commands cs) C"
  unfolding run_commands_def by (intro calls)

lemma may_touch_run: "may_touch env plan h \<Longrightarrow> entitled env plan h (Run_command c)"
  by (auto simp: may_touch_def)

lemma uses_remove:
  "(\<And>f. f \<in> set fs \<Longrightarrow> truthy (recorded_hash owned (jf_path f)) \<Longrightarrow> owned_file env h (jf_path f)) \<Longrightarrow>
     uses (remove_files env fs owned) (entitled env plan h)"
proof (induction fs arbitrary: owned)
  case (Cons f fs)
  have "uses (remove_files env fs owned) (entitled env plan h)" using Cons.IH [of owned] Cons.prems by simp
  moreover have "uses (remove_files env fs (without_hash owned (jf_path f))) (entitled env plan h)"
    using Cons.IH [of "without_hash owned (jf_path f)"] Cons.prems recorded_without_hash by simp
  ultimately show ?case using Cons.prems [of f] by (auto simp: Let_def intro!: calls)
qed (simp add: retE_def)

lemma uses_uninstall:
  assumes "may_touch env plan h"
    and "\<And>v f. old = Some v \<Longrightarrow> f \<in> set (np_files plan) \<Longrightarrow> truthy (recorded_hash v (jf_path f)) \<Longrightarrow> owned_file env h (jf_path f)"
  shows "uses (uninstall_part env plan old present) (entitled env plan h)"
proof -
  have "uses (remove_files env (np_files plan) (with_member (with_member v ''registered'' (JBool False))
      ''last_operation'' (JStr (lit ''removing'')))) (entitled env plan h)" if "old = Some v" for v
    by (rule uses_remove) (use assms(2) [OF that] in \<open>simp add: lit_def\<close>)
  then show ?thesis unfolding uninstall_part_def
    by (auto intro!: calls may_touch_run [OF assms(1)] split: option.split)
qed

lemma uses_install:
  assumes "may_touch env plan h"
    and "\<And>v f. old = Some v \<Longrightarrow> f \<in> set (np_files plan) \<Longrightarrow> truthy (recorded_hash v (jf_path f)) \<Longrightarrow> owned_file env h (jf_path f)"
  shows "uses (install_part env plan old present) (entitled env plan h)"
proof -
  have "uses (write_files env plan old) (entitled env plan h)"
    unfolding write_files_def using assms(2) by (auto intro!: calls split: option.split)
  then show ?thesis unfolding install_part_def Let_def
    by (auto intro!: calls may_touch_run [OF assms(1)])
qed

lemma okay_change_part: "okay (change_part env plan action first) (entitled env plan) (\<lambda>_ _. True) h"
  unfolding change_part_def
proof (rule okay_seqI, simp only: okay_within, rule okay_read_state)
  fix h1 old
  assume known: "\<forall>v. old = Some v \<longrightarrow> state_known env (h @ h1) v"
  let ?h = "h @ h1"
  let ?files = "\<lambda>h. \<forall>v f. old = Some v \<longrightarrow> f \<in> set (np_files plan) \<longrightarrow> truthy (recorded_hash v (jf_path f)) \<longrightarrow> owned_file env h (jf_path f)"
  have verify: "okay (case old of None \<Rightarrow> retE () | Some v \<Rightarrow> verify_owned env plan v) (entitled env plan) (\<lambda>h _. ?files h) ?h"
  proof (cases old)
    case (Some v)
    have "okay (verify_owned env plan v) (entitled env plan) (\<lambda>h _. ?files h) ?h"
    proof (rule okay_mono [OF okay_verify_owned])
      fix h' x
      assume "\<forall>f \<in> set (np_files plan). truthy (recorded_hash v (jf_path f)) \<longrightarrow> confirmed_file env (?h @ h') v (jf_path f)"
      moreover have "state_known env (?h @ h') v" using known Some by (auto intro: state_known_mono simp del: append_assoc)
      ultimately show "?files (?h @ h')" using Some unfolding owned_file_def by blast
    qed
    with Some show ?thesis by simp
  qed simp
  show "okay (seqE (within old True (seqE (case old of None \<Rightarrow> retE () | Some v \<Rightarrow> verify_owned env plan v) (\<lambda>_. check_presence env plan old)))
      (\<lambda>present. if action = Uninstall then uninstall_part env plan old present else install_part env plan old present))
      (entitled env plan) (\<lambda>_ _. True) ?h"
  proof (rule okay_seqI [where Q = "\<lambda>h _. may_touch env plan h \<and> ?files h"])
    have "okay (seqE (case old of None \<Rightarrow> retE () | Some v \<Rightarrow> verify_owned env plan v) (\<lambda>_. check_presence env plan old))
        (entitled env plan) (\<lambda>h _. may_touch env plan h \<and> ?files h) ?h"
    proof (rule okay_seqI [OF verify])
      fix h' x
      assume f: "?files (?h @ h')"
      show "okay (check_presence env plan old) (entitled env plan) (\<lambda>h _. may_touch env plan h \<and> ?files h) (?h @ h')"
      proof (rule okay_mono [OF okay_check_presence])
        show "state_known env (?h @ h') v" if "old = Some v" for v using known that by (auto intro!: state_known_mono simp del: append_assoc)
        fix h'' present
        assume "if present then native_owned env plan ((?h @ h') @ h'') else native_absent plan ((?h @ h') @ h'')"
        then show "may_touch env plan ((?h @ h') @ h'') \<and> ?files ((?h @ h') @ h'')"
          using f owned_file_mono [of env "?h @ h'" _ h''] by (auto simp: may_touch_def simp del: append_assoc split: if_splits)
      qed
    qed
    then show "okay (within old True (seqE (case old of None \<Rightarrow> retE () | Some v \<Rightarrow> verify_owned env plan v) (\<lambda>_. check_presence env plan old)))
        (entitled env plan) (\<lambda>h _. may_touch env plan h \<and> ?files h) ?h" by simp
  next
    fix h' present
    assume a: "may_touch env plan (?h @ h') \<and> ?files (?h @ h')"
    then have "uses (uninstall_part env plan old present) (entitled env plan (?h @ h'))"
      "uses (install_part env plan old present) (entitled env plan (?h @ h'))"
      by (auto intro: uses_uninstall uses_install)
    then show "okay (if action = Uninstall then uninstall_part env plan old present else install_part env plan old present)
        (entitled env plan) (\<lambda>_ _. True) (?h @ h')" by (simp add: uses_entitled)
  qed
qed

subsection \<open>The lock around the changes\<close>

text \<open>A program seen from a later history; and what its own calls so far were.\<close>

lemma holds_shift: "holds m (\<lambda>h. G (g @ h)) (\<lambda>h. Q (g @ h)) h \<longleftrightarrow> holds m G Q (g @ h)"
  by (induction m arbitrary: h) simp_all

lemma holds_track:
  assumes "holds m G Q h" "uses m C"
  shows "holds m (\<lambda>h' c. G h' c \<and> (\<exists>t. h' = h @ t \<and> (\<forall>x \<in> set t. C (fst x)))) (\<lambda>h' x. Q h' x \<and> (\<exists>t. h' = h @ t \<and> (\<forall>x \<in> set t. C (fst x)))) h"
  unfolding holds_iff_exec
proof (intro allI impI conjI)
  fix t x
  assume e: "exec m t x"
  show "Q (h @ t) x" using assms(1) e holds_iff_exec by metis
  show "\<exists>t'. h @ t = h @ t' \<and> (\<forall>x \<in> set t'. C (fst x))" using uses_exec [OF assms(2) e] by fastforce
  fix pre c r post
  assume t: "t = pre @ (c, r) # post"
  show "G (h @ pre) c" using assms(1) e t holds_iff_exec by metis
  show "\<exists>t'. h @ pre = h @ t' \<and> (\<forall>x \<in> set t'. C (fst x))" using uses_exec [OF assms(2) e] t by fastforce
qed

definition granted :: "job_answer \<Rightarrow> bool" where
  "granted a \<longleftrightarrow> ja_error a = None \<and> ja_flag a"

definition quiet :: "job_call \<Rightarrow> bool" where
  "quiet c \<longleftrightarrow> c \<noteq> Take_lock \<and> c \<noteq> Drop_lock"

definition calm :: "job_history \<Rightarrow> bool" where
  "calm h \<longleftrightarrow> (\<forall>x \<in> set h. quiet (fst x))"

text \<open>The lock was not granted; it was granted once and is held, the calls since being \<open>t\<close>.\<close>

definition not_locked :: "job_history \<Rightarrow> bool" where
  "not_locked h \<longleftrightarrow> (\<forall>(c, a) \<in> set h. c \<noteq> Drop_lock \<and> \<not> (c = Take_lock \<and> granted a))"

definition locked_since :: "job_history \<Rightarrow> job_history \<Rightarrow> bool" where
  "locked_since h t \<longleftrightarrow> (\<exists>h0 a. h = h0 @ (Take_lock, a) # t \<and> granted a \<and> calm h0 \<and> calm t)"

definition allowed :: "schedule_env \<Rightarrow> native_plan \<Rightarrow> job_history \<Rightarrow> job_call \<Rightarrow> bool" where
  "allowed env plan h c \<longleftrightarrow> looks plan c \<or> (c = Take_lock \<and> not_locked h) \<or> (c = Drop_lock \<and> (\<exists>t. locked_since h t)) \<or>
     (\<exists>t. locked_since h t \<and> entitled env plan t c)"

lemma calm_append [simp]: "calm (h @ h') \<longleftrightarrow> calm h \<and> calm h'"
  by (auto simp: calm_def)

lemma calm_not_locked: "calm h \<Longrightarrow> not_locked h"
  by (force simp: calm_def not_locked_def quiet_def)

lemma locked_since_append: "locked_since h t \<Longrightarrow> calm h' \<Longrightarrow> locked_since (h @ h') (t @ h')"
  by (auto simp: locked_since_def)

lemma looks_quiet: "looks plan c \<Longrightarrow> quiet c"
  by (auto simp: quiet_def)

lemma uses_check_owned [calls]:
  "(\<And>p. C (Exists_path p)) \<Longrightarrow> (\<And>p. C (Lstat p)) \<Longrightarrow> (\<And>p. C (Read_bytes p)) \<Longrightarrow> uses (check_owned_file env old f) C"
  unfolding check_owned_file_def Let_def by (auto intro!: calls)

lemma uses_verify [calls]:
  "(\<And>p. C (Exists_path p)) \<Longrightarrow> (\<And>p. C (Lstat p)) \<Longrightarrow> (\<And>p. C (Read_bytes p)) \<Longrightarrow> uses (verify_owned env plan old) C"
  unfolding verify_owned_def by (auto intro!: calls)

lemma uses_read_state [calls]:
  "(\<And>p. C (Exists_path p)) \<Longrightarrow> (\<And>p. C (Lstat p)) \<Longrightarrow> (\<And>p. C (Read_bytes p)) \<Longrightarrow> uses (read_schedule_state env) C"
  unfolding read_schedule_state_def by (auto intro!: calls)

lemma uses_none_exists [calls]: "(\<And>p. C (Exists_path p)) \<Longrightarrow> uses (none_exists fs) C"
  by (induction fs) (auto intro!: calls)

lemma uses_status [calls]:
  "(\<And>p. C (Exists_path p)) \<Longrightarrow> (\<And>p. C (Lstat p)) \<Longrightarrow> (\<And>p. C (Read_bytes p)) \<Longrightarrow> C (Run_command (np_query plan)) \<Longrightarrow>
    uses (status_part env plan old) C"
  unfolding status_part_def Let_def by (auto intro!: calls)

lemma uses_recoverable [calls]:
  "(\<And>p. C (Exists_path p)) \<Longrightarrow> (\<And>p. C (Lstat p)) \<Longrightarrow> (\<And>p. C (Read_bytes p)) \<Longrightarrow> C (Run_command (np_query plan)) \<Longrightarrow>
    uses (recoverable env plan old) C"
  unfolding recoverable_def Let_def by (auto intro!: calls split: option.split)

lemma uses_presence [calls]:
  "(\<And>p. C (Exists_path p)) \<Longrightarrow> (\<And>p. C (Lstat p)) \<Longrightarrow> (\<And>p. C (Read_bytes p)) \<Longrightarrow> (\<And>c. C (Run_command c)) \<Longrightarrow>
    uses (check_presence env plan old) C"
  unfolding check_presence_def Let_def by (auto intro!: calls)

lemma uses_remove_any [calls]:
  "(\<And>p. C (Unlink p)) \<Longrightarrow> C (Make_parent (se_state env)) \<Longrightarrow> (\<And>b. C (Overwrite (se_temp env) b)) \<Longrightarrow>
    C (Rename (se_temp env) (se_state env)) \<Longrightarrow> uses (remove_files env fs owned) C"
  by (induction fs arbitrary: owned) (auto simp: Let_def intro!: calls)

lemma change_quiet: "uses (change_part env plan action first) quiet"
  unfolding change_part_def uninstall_part_def install_part_def write_files_def Let_def
  by (auto intro!: calls simp: quiet_def split: option.split)

lemma change_allowed:
  assumes "calm h0" "granted a"
  shows "holds (change_part env plan action first) (allowed env plan) (\<lambda>h _. \<exists>t. locked_since h t) (h0 @ [(Take_lock, a)])"
proof -
  have "holds (change_part env plan action first) (entitled env plan) (\<lambda>_ _. True) []"
    using okay_change_part [of env plan action first "[]"] unfolding okay_def by (rule holds_post) simp
  from holds_track [OF this change_quiet]
  have "holds (change_part env plan action first) (\<lambda>t. allowed env plan ((h0 @ [(Take_lock, a)]) @ t))
      (\<lambda>t _. \<exists>t'. locked_since ((h0 @ [(Take_lock, a)]) @ t) t') []"
  proof (rule holds_mono)
    have since: "locked_since ((h0 @ [(Take_lock, a)]) @ t) t" if "\<forall>x \<in> set t. quiet (fst x)" for t
      unfolding locked_since_def by (rule exI [of _ h0], rule exI [of _ a]) (use assms that in \<open>simp add: calm_def\<close>)
    show "allowed env plan ((h0 @ [(Take_lock, a)]) @ [] @ t) c"
      if "entitled env plan ([] @ t) c \<and> (\<exists>t'. [] @ t = [] @ t' \<and> (\<forall>x \<in> set t'. quiet (fst x)))" for t c
      using since [of t] that unfolding allowed_def by auto
    show "\<exists>t'. locked_since ((h0 @ [(Take_lock, a)]) @ [] @ t) t'"
      if "True \<and> (\<exists>t'. [] @ t = [] @ t' \<and> (\<forall>x \<in> set t'. quiet (fst x)))" for t
      using since [of t] that by auto
  qed
  then show ?thesis
    using holds_shift [of "change_part env plan action first" "allowed env plan" "h0 @ [(Take_lock, a)]" "\<lambda>h _. \<exists>t. locked_since h t" "[]"]
    by simp
qed

subsection \<open>The flag an error carries\<close>

definition flagged :: "bool \<Rightarrow> (job_failure, 'a) job_io \<Rightarrow> bool" where
  "flagged l m \<longleftrightarrow> (\<forall>h. holds m (\<lambda>_ _. True) (\<lambda>_ x. case x of Inl (e, v, l') \<Rightarrow> l' = l | Inr _ \<Rightarrow> True) h)"

lemma flagged_seqE: "flagged l m \<Longrightarrow> (\<And>y. flagged l (f y)) \<Longrightarrow> flagged l (seqE m f)"
  unfolding flagged_def holds_seqE by (intro allI) (rule holds_post, blast, auto split: sum.splits)

lemma flagged_within: "flagged l (within v l m)"
  unfolding flagged_def holds_within by (intro allI) (rule holds_post [OF holds_trivial], simp split: sum.split)

lemma flagged_retE: "flagged l (retE y)"
  by (simp add: flagged_def)

lemma flagged_remove: "flagged True (remove_files env fs owned)"
  by (induction fs arbitrary: owned) (auto simp: Let_def intro: flagged_seqE flagged_within flagged_retE)

lemma flagged_change: "flagged True (change_part env plan action first)"
  unfolding change_part_def uninstall_part_def install_part_def Let_def
  by (auto intro!: flagged_seqE flagged_within flagged_retE flagged_remove split: option.split)

subsection \<open>The whole command\<close>

definition lock_flag :: "job_failure + schedule_outcome \<times> bool \<Rightarrow> bool" where
  "lock_flag x = (case x of Inl (_, _, l) \<Rightarrow> l | Inr (_, l) \<Rightarrow> l)"

definition lock_shape :: "job_history \<Rightarrow> bool \<Rightarrow> bool" where
  "lock_shape h l \<longleftrightarrow> (if l then \<exists>t. locked_since h t else not_locked h)"

lemma holds_looks:
  assumes "uses m (looks plan)" "calm h"
  shows "holds m (allowed env plan) (\<lambda>h' _. calm h') h"
proof -
  have "holds m (\<lambda>_ c. looks plan c) (\<lambda>_ _. True) h" using assms(1) by (rule uses_holds) simp_all
  from holds_track [OF this assms(1)] show ?thesis
    by (rule holds_mono) (use assms(2) looks_quiet in \<open>auto simp: calm_def allowed_def\<close>)
qed

lemma lock_shape_calm [simp]: "calm h \<Longrightarrow> lock_shape h (lock_flag (Inl (e, v, False)))" "calm h \<Longrightarrow> lock_shape h (lock_flag (Inr (r, False)))"
  by (simp_all add: lock_shape_def lock_flag_def calm_not_locked)

lemma looks_step:
  assumes "uses m (looks plan)" "calm h"
    and "\<And>h' y. calm h' \<Longrightarrow> holds (f y) (allowed env plan) (\<lambda>h x. lock_shape h (lock_flag x)) h'"
  shows "holds (seqE (within v False m) f) (allowed env plan) (\<lambda>h x. lock_shape h (lock_flag x)) h"
  unfolding holds_seqE holds_within
  by (rule holds_post [OF holds_looks [OF assms(1,2)]])
    (simp add: assms(3) split: sum.split)

lemma locked_step:
  assumes "calm h" "granted a"
  shows "holds (seqE (change_part env plan action old) (\<lambda>r. retE (r, True))) (allowed env plan)
    (\<lambda>h x. lock_shape h (lock_flag x)) (h @ [(Take_lock, a)])"
proof -
  have "holds (change_part env plan action old) (allowed env plan)
    (\<lambda>h x. (\<exists>t. locked_since h t) \<and> (case x of Inl (e, v, l) \<Rightarrow> l = True | Inr _ \<Rightarrow> True)) (h @ [(Take_lock, a)])"
  proof (simp only: holds_conj, intro conjI)
    show "holds (change_part env plan action old) (allowed env plan) (\<lambda>h _. \<exists>t. locked_since h t) (h @ [(Take_lock, a)])"
      by (rule change_allowed [OF assms])
    from this flagged_change [of env plan action old]
    show "holds (change_part env plan action old) (allowed env plan) (\<lambda>_ x. case x of Inl (e, v, l) \<Rightarrow> l = True | Inr _ \<Rightarrow> True) (h @ [(Take_lock, a)])"
      unfolding flagged_def holds_iff_exec by blast
  qed
  then show ?thesis unfolding holds_seqE
    by (rule holds_post) (auto simp: lock_shape_def lock_flag_def split: sum.splits)
qed

lemma refused_shape: "calm h \<Longrightarrow> \<not> granted a \<Longrightarrow> lock_shape (h @ [(Take_lock, a)]) (lock_flag (Inl (e, v, False)))"
  using calm_not_locked [of h] by (auto simp: not_locked_def lock_shape_def lock_flag_def)

lemma lock_step:
  assumes "calm h"
    and "\<And>a. ja_error a = None \<Longrightarrow> holds (f a) (allowed env plan) (\<lambda>h x. lock_shape h (lock_flag x)) (h @ [(Take_lock, a)])"
  shows "holds (seqE (within v False (job_ask Take_lock)) f) (allowed env plan) (\<lambda>h x. lock_shape h (lock_flag x)) h"
proof -
  have "allowed env plan h Take_lock" using calm_not_locked [OF assms(1)] by (simp add: allowed_def)
  then show ?thesis using assms(2) refused_shape [OF assms(1)] by (simp add: granted_def)
qed

lemma holds_body: "holds (job_body env plan action) (allowed env plan) (\<lambda>h x. lock_shape h (lock_flag x)) []"
  unfolding job_body_def
proof (rule looks_step)
  fix h old
  assume h: "calm h"
  show "holds (seqE (within old False (case old of None \<Rightarrow> none_exists (np_files plan) | Some o' \<Rightarrow> verify_owned env plan o')) (\<lambda>_.
     if action = Status then seqE (within old False (status_part env plan old)) (\<lambda>r. retE (r, False))
     else seqE (within old False (job_ask Take_lock)) (\<lambda>a.
       if \<not> ja_flag a then throw (lit ''schedule_cycle_busy'', old, False)
       else seqE (change_part env plan action old) (\<lambda>r. retE (r, True))))) (allowed env plan) (\<lambda>h x. lock_shape h (lock_flag x)) h"
  proof (rule looks_step [OF _ h])
    fix h
    assume h: "calm h"
    have "holds (seqE (within old False (status_part env plan old)) (\<lambda>r. retE (r, False))) (allowed env plan)
        (\<lambda>h x. lock_shape h (lock_flag x)) h"
      by (rule looks_step [OF _ h]) (auto intro!: calls)
    moreover have "holds (seqE (within old False (job_ask Take_lock)) (\<lambda>a.
       if \<not> ja_flag a then throw (lit ''schedule_cycle_busy'', old, False)
       else seqE (change_part env plan action old) (\<lambda>r. retE (r, True)))) (allowed env plan) (\<lambda>h x. lock_shape h (lock_flag x)) h"
    proof (rule lock_step [OF h])
      fix a :: job_answer
      assume ok: "ja_error a = None"
      show "holds (if \<not> ja_flag a then throw (lit ''schedule_cycle_busy'', old, False)
            else seqE (change_part env plan action old) (\<lambda>r. retE (r, True))) (allowed env plan)
            (\<lambda>h x. lock_shape h (lock_flag x)) (h @ [(Take_lock, a)])"
      proof (cases "ja_flag a")
        case True
        with ok locked_step [OF h, of a] show ?thesis by (simp only: if_not_P if_P granted_def simp_thms not_not)
      next
        case False
        with refused_shape [OF h, of a] show ?thesis by (simp add: granted_def)
      qed
    qed
    ultimately show "holds (if action = Status then seqE (within old False (status_part env plan old)) (\<lambda>r. retE (r, False))
     else seqE (within old False (job_ask Take_lock)) (\<lambda>a.
       if \<not> ja_flag a then throw (lit ''schedule_cycle_busy'', old, False)
       else seqE (change_part env plan action old) (\<lambda>r. retE (r, True)))) (allowed env plan) (\<lambda>h x. lock_shape h (lock_flag x)) h"
      by (simp only: split: if_split) simp
  qed (auto intro!: calls split: option.split)
qed (auto intro!: calls simp: calm_def)

lemma holds_save:
  assumes "locked_since h t"
  shows "holds (save_state env v) (allowed env plan) (\<lambda>h _. \<exists>t. locked_since h t) h"
proof -
  let ?D = "\<lambda>c. quiet c \<and> (\<forall>t. entitled env plan t c)"
  have u: "uses (save_state env v) ?D" by (intro calls) (simp_all add: quiet_def)
  then have "holds (save_state env v) (\<lambda>_ c. ?D c) (\<lambda>_ _. True) h" by (rule uses_holds) simp_all
  from holds_track [OF this u] show ?thesis
  proof (rule holds_mono)
    have since: "locked_since (h @ h') (t @ h')" if "\<forall>x \<in> set h'. ?D (fst x)" for h'
      using locked_since_append [OF assms, of h'] that by (auto simp: calm_def)
    fix h' x
    show "\<exists>t. locked_since (h @ h') t" if "True \<and> (\<exists>s. h @ h' = h @ s \<and> (\<forall>x \<in> set s. ?D (fst x)))"
      using since [of h'] that by auto
    show "allowed env plan (h @ h') c" if "?D c \<and> (\<exists>s. h @ h' = h @ s \<and> (\<forall>x \<in> set s. ?D (fst x)))" for c
      using since [of h'] that unfolding allowed_def by blast
  qed
qed

lemma holds_failed:
  assumes "lock_shape h l"
  shows "holds (job_failed env action (e, v, l)) (allowed env plan) (\<lambda>h x. \<exists>out. x = Inr (out, l) \<and> lock_shape h l) h"
proof -
  have "holds (save_state env w) (allowed env plan) (\<lambda>h _. lock_shape h True) h" if "l" for w
  proof -
    from assms that obtain t where "locked_since h t" by (auto simp: lock_shape_def)
    from holds_save [OF this] show ?thesis by (simp add: lock_shape_def)
  qed
  with assms show ?thesis unfolding job_failed_def Let_def by (auto split: option.split)
qed

lemma holds_manage:
  "holds (manage_job env plan action) (allowed env plan)
     (\<lambda>h _. not_locked h \<or> (\<exists>h1 d. h = h1 @ [(Drop_lock, d)] \<and> (\<exists>t. locked_since h1 t))) []"
proof -
  have last_call: "holds (if l then seqE (job_ask Drop_lock) (\<lambda>_. retE out) else retE out) (allowed env plan)
      (\<lambda>h _. not_locked h \<or> (\<exists>h1 d. h = h1 @ [(Drop_lock, d)] \<and> (\<exists>t. locked_since h1 t))) h" if "lock_shape h l" for h l out
    using that by (cases l) (auto simp: lock_shape_def allowed_def)
  have "holds (catch (job_body env plan action) (job_failed env action)) (allowed env plan)
      (\<lambda>h x. \<exists>out l. x = Inr (out, l) \<and> lock_shape h l) []"
    unfolding holds_catch
  proof (rule holds_post [OF holds_body])
    fix h x
    assume s: "lock_shape ([] @ h) (lock_flag x)"
    show "case x of Inl e \<Rightarrow> holds (job_failed env action e) (allowed env plan) (\<lambda>h x. \<exists>out l. x = Inr (out, l) \<and> lock_shape h l) ([] @ h)
        | Inr y \<Rightarrow> \<exists>out l. Inr y = Inr (out, l) \<and> lock_shape ([] @ h) l"
    proof (cases x)
      case (Inl f)
      obtain e v l where f: "f = (e, v, l)" by (cases f)
      have "lock_shape h l" using s Inl f by (simp add: lock_flag_def)
      from holds_failed [OF this, of env action e v plan] show ?thesis unfolding Inl f sum.case by (simp, elim holds_post) auto
    next
      case (Inr y)
      then show ?thesis using s by (cases y) (simp add: lock_flag_def)
    qed
  qed
  then show ?thesis unfolding manage_job_def holds_seqE
  proof (rule holds_post)
    fix h :: job_history and x :: "jstr + schedule_outcome \<times> bool"
    assume "\<exists>out l. x = Inr (out, l) \<and> lock_shape ([] @ h) l"
    then obtain out l where x: "x = Inr (out, l)" and s: "lock_shape h l" by auto
    show "case x of Inl e \<Rightarrow> not_locked ([] @ h) \<or> (\<exists>h1 d. [] @ h = h1 @ [(Drop_lock, d)] \<and> (\<exists>t. locked_since h1 t))
        | Inr y \<Rightarrow> holds (case y of (out, locked) \<Rightarrow> if locked then seqE (job_ask Drop_lock) (\<lambda>_. retE out) else retE out) (allowed env plan)
            (\<lambda>h _. not_locked h \<or> (\<exists>h1 d. h = h1 @ [(Drop_lock, d)] \<and> (\<exists>t. locked_since h1 t))) ([] @ h)"
      unfolding x sum.case prod.case append_Nil by (rule last_call [OF s])
  qed
qed

text \<open>
  C36: Whatever the file system and the commands answer, a job file is removed or overwritten, and a
  native command that changes something is run, only while the lock is held and only if, since it
  was taken, the state file was read, and the file had the digest recorded there, or the system reported
  that there is no such job or reported the very job of the recorded definition; or, for a native
  command, if the state records an installation that was begun or failed, whose recorded files were all
  read back with their contents, and which is one of a systemd user (of the other kinds the
  recorded job must be reported then too). Every other file is written as a new one, and only the temporary file
  becomes the state file.
\<close>

theorem schedule_touches_only_its_own:
  assumes "exec (manage_sync_schedule env (Inr plan) dryRun action) (pre @ (c, r) # post) x"
    and "\<not> looks plan c" and "quiet c"
  shows "\<exists>h0 a t. pre = h0 @ (Take_lock, a) # t \<and> granted a \<and> calm h0 \<and> calm t \<and> entitled env plan t c"
proof -
  have "exec (manage_job env plan action) (pre @ (c, r) # post) x"
    using assms(1) by (cases dryRun) (simp_all add: manage_sync_schedule_def retE_def)
  from holds_exec_call [OF holds_manage this] have "allowed env plan pre c" by simp
  with assms(2,3) show ?thesis by (auto simp: allowed_def quiet_def locked_since_def)
qed

text \<open>
  Every execution either never gets the lock, and then makes no call to release it, or gets it
  exactly once and releases it by its last call, also when a step throws and when the record of the failure
  cannot be written.
\<close>

theorem schedule_lock_is_released:
  assumes "exec (manage_sync_schedule env planned dryRun action) h x"
  shows "not_locked h \<or> (\<exists>h0 a t d. h = h0 @ (Take_lock, a) # t @ [(Drop_lock, d)] \<and> granted a \<and> calm h0 \<and> calm t)"
proof (cases planned)
  case (Inr plan)
  show ?thesis
  proof (cases dryRun)
    case False
    with assms Inr have "exec (manage_job env plan action) h x" by (simp add: manage_sync_schedule_def)
    from holds_exec_result [OF holds_manage this]
    have "not_locked h \<or> (\<exists>h1 d. h = h1 @ [(Drop_lock, d)] \<and> (\<exists>t. locked_since h1 t))" by simp
    then show ?thesis unfolding locked_since_def by fastforce
  qed (use assms Inr in \<open>auto simp: manage_sync_schedule_def retE_def not_locked_def\<close>)
qed (use assms in \<open>auto simp: manage_sync_schedule_def throw_def not_locked_def\<close>)

subsection \<open>A reported success\<close>

lemma exec_seqE_Inr:
  "exec (seqE m f) t (Inr x) \<longleftrightarrow> (\<exists>t1 t2 y. t = t1 @ t2 \<and> exec m t1 (Inr y) \<and> exec (f y) t2 (Inr x))"
proof -
  have *: "exec (case r of Inl e \<Rightarrow> Ret (Inl e) | Inr y \<Rightarrow> f y) t2 (Inr x) \<longleftrightarrow> (\<exists>y. r = Inr y \<and> exec (f y) t2 (Inr x))" for r t2
    by (cases r) auto
  show ?thesis unfolding seqE_def exec_bind * by (simp only: ex_simps [symmetric]) auto
qed

lemma exec_within_Inr: "exec (within v l m) t (Inr y) \<longleftrightarrow> exec m t (Inr y)"
proof -
  have *: "exec (case x of Inl e \<Rightarrow> throw (e, v, l) | Inr y \<Rightarrow> Ret (Inr y)) t2 (Inr y) \<longleftrightarrow> t2 = [] \<and> x = Inr y" for x t2
    by (cases x) (auto simp: throw_def)
  show ?thesis unfolding within_def catch_def exec_bind * by simp
qed

lemma exec_retE [simp]: "exec (retE y) t x \<longleftrightarrow> t = [] \<and> x = Inr y"
  by (auto simp: retE_def)

lemma exec_fail [simp]: "\<not> exec (fail m) t (Inr y)" "\<not> exec (throw e) t (Inr y)"
  by (simp_all add: fail_def throw_def)

lemma okay_exec_result: "okay m G P [] \<Longrightarrow> exec m t (Inr y) \<Longrightarrow> P t y"
  unfolding okay_def using holds_exec_result [of m G _ "[]" t "Inr y"] by force

text \<open>The definition of a plan was read back, by calls that change nothing.\<close>

definition confirmed :: "schedule_env \<Rightarrow> native_plan \<Rightarrow> job_history \<Rightarrow> bool" where
  "confirmed env plan t \<longleftrightarrow> (\<forall>f \<in> set (np_files plan). \<exists>a. got t (Read_bytes (jf_path f)) a \<and> ja_bytes a = file_bytes f) \<and>
     readback_ok env plan t (Some (plan_json plan))"

lemma files_of_plan: "dig (Some (plan_json plan)) [''files''] = Inr (Some (JArr (map file_json (np_files plan))))"
  by (simp add: plan_json_def obj_get_def lit_def)

lemma file_of_plan: "file_read_back t (file_json f) \<longleftrightarrow> (\<exists>a. got t (Read_bytes (jf_path f)) a \<and> ja_bytes a = file_bytes f)"
proof -
  have "get_member (file_json f) ''path'' = Some (JStr (jf_path f))" "get_member (file_json f) ''content'' = Some (JStr (jf_content f))"
    "get_member (file_json f) ''encoding'' = (if jf_utf16 f then Some (JStr (lit ''utf16le'')) else None)"
    by (simp_all add: file_json_def obj_get_def lit_def)
  then show ?thesis by (auto simp: file_read_back_def native_schedule_file_bytes_def file_bytes_def)
qed

lemma files_match_confirmed:
  assumes "exec (files_match (Some (plan_json plan))) t (Inr True)"
  shows "\<forall>f \<in> set (np_files plan). \<exists>a. got t (Read_bytes (jf_path f)) a \<and> ja_bytes a = file_bytes f"
  using okay_exec_result [OF okay_files_match assms] unfolding files_read_back_def files_of_plan by (auto simp: file_of_plan)

lemma files_match_looks: "exec (files_match def) t x \<Longrightarrow> \<forall>y \<in> set t. looks plan (fst y)"
  using uses_exec [of "files_match def" "looks plan" t x] by (fastforce intro: calls)

lemma readback_looks: "exec (native_readback env plan def) t x \<Longrightarrow> \<forall>y \<in> set t. looks plan (fst y)"
  using uses_exec [of "native_readback env plan def" "looks plan" t x] by (fastforce intro: calls)

text \<open>Calls after which the job is still as it was: looking, and keeping the state file.\<close>

definition settled :: "schedule_env \<Rightarrow> native_plan \<Rightarrow> job_call \<Rightarrow> bool" where
  "settled env plan c \<longleftrightarrow> looks plan c \<or> c = Make_parent (se_state env) \<or> (\<exists>b. c = Overwrite (se_temp env) b) \<or>
     c = Rename (se_temp env) (se_state env) \<or> c = Drop_lock"

definition ends_confirmed :: "schedule_env \<Rightarrow> native_plan \<Rightarrow> job_history \<Rightarrow> bool" where
  "ends_confirmed env plan t \<longleftrightarrow> (\<exists>t1 t2. t = t1 @ t2 \<and> confirmed env plan t2 \<and> (\<forall>x \<in> set t2. settled env plan (fst x)))"

lemma ends_confirmed_prefix: "ends_confirmed env plan t \<Longrightarrow> ends_confirmed env plan (s @ t)"
  unfolding ends_confirmed_def by (metis append_assoc)

lemma ends_confirmed_suffix:
  assumes "ends_confirmed env plan t" "\<forall>x \<in> set s. settled env plan (fst x)"
  shows "ends_confirmed env plan (t @ s)"
proof -
  from assms(1) obtain t1 t2 where t: "t = t1 @ t2" "confirmed env plan t2" "\<forall>x \<in> set t2. settled env plan (fst x)"
    by (auto simp: ends_confirmed_def)
  have "confirmed env plan (t2 @ s)" using t(2) readback_ok_mono unfolding confirmed_def by fastforce
  with t assms(2) show ?thesis unfolding ends_confirmed_def by (intro exI [of _ t1] exI [of _ "t2 @ s"]) auto
qed

lemma read_back_confirmed:
  assumes "exec (files_match (Some (plan_json plan))) t1 (Inr True)" "exec (native_readback env plan (Some (plan_json plan))) t2 (Inr True)"
  shows "ends_confirmed env plan (t1 @ t2)" "ends_confirmed env plan (t2 @ t1)"
proof -
  have "readback_ok env plan t2 (Some (plan_json plan))" using okay_exec_result [OF okay_readback assms(2)] by simp
  then have "readback_ok env plan (t1 @ t2) (Some (plan_json plan))" "readback_ok env plan (t2 @ t1) (Some (plan_json plan))"
    by (auto simp: readback_ok_def)
  then have "confirmed env plan (t1 @ t2)" "confirmed env plan (t2 @ t1)"
    using files_match_confirmed [OF assms(1)] by (fastforce simp: confirmed_def)+
  moreover have "\<forall>x \<in> set (t1 @ t2). settled env plan (fst x)"
    using files_match_looks [OF assms(1), of plan] readback_looks [OF assms(2)] by (auto simp: settled_def)
  ultimately show "ends_confirmed env plan (t1 @ t2)" "ends_confirmed env plan (t2 @ t1)"
    unfolding ends_confirmed_def
    by (intro exI [of _ "[]"] exI [of _ "t1 @ t2"], simp, intro exI [of _ "[]"] exI [of _ "t2 @ t1"], auto)
qed

lemma save_settled: "exec (save_state env v) t x \<Longrightarrow> \<forall>y \<in> set t. settled env plan (fst y)"
  using uses_exec [of "save_state env v" "settled env plan" t x] by (fastforce simp: settled_def intro: calls)

lemma status_confirmed:
  assumes "exec (status_part env plan old) t (Inr out)" "jo_status out = Success"
  shows "ends_confirmed env plan t"
  using assms read_back_confirmed(2)
  by (auto simp: status_part_def Let_def exec_seqE_Inr split: if_splits)

lemma install_confirmed:
  assumes "exec (install_part env plan old present) t (Inr out)"
  shows "ends_confirmed env plan t"
proof -
  let ?same = "\<lambda>b. if b then native_readback env plan (Some (plan_json plan)) else retE False"
  from assms obtain t1 t2 unchanged where t: "t = t1 @ t2"
    "exec (if registered_in old then seqE (files_match (Some (plan_json plan))) ?same else retE False) t1 (Inr unchanged)"
    and rest: "exec (if unchanged then retE ((job_outcome Success ''unchanged'')\<lparr>jo_registered := Some True, jo_matches := Some True\<rparr>)
     else
       seqE (within old True (
         seqE (if present then run_commands (np_remove plan) else retE ()) (\<lambda>_. write_files env plan old))) (\<lambda>_.
       within (Some (new_state env plan old)) True (
         seqE (save_state env (new_state env plan old)) (\<lambda>_.
         seqE (run_commands (np_install plan)) (\<lambda>_.
         seqE (files_match (Some (plan_json plan))) (\<lambda>same.
         seqE (?same same) (\<lambda>confirmed.
         if \<not> confirmed then fail ''schedule_readback_failed''
         else seqE (save_state env (with_member (with_member (new_state env plan old) ''registered'' (JBool True))
             ''last_operation'' (JStr (lit ''installed'')))) (\<lambda>_.
           retE ((job_outcome Success ''installed_and_read_back'')\<lparr>jo_registered := Some True, jo_matches := Some True\<rparr>)))))))))
      t2 (Inr out)"
    unfolding install_part_def Let_def registered_in_case exec_seqE_Inr [of "within _ _ _"] exec_within_Inr by blast
  show ?thesis
  proof (cases unchanged)
    case True
    then have "ends_confirmed env plan t1"
      using t(2) read_back_confirmed(1) by (auto simp: exec_seqE_Inr split: if_splits)
    with True rest t(1) show ?thesis by simp
  next
    case False
    from rest have "\<exists>s1 s2 s3 s4. t2 = s1 @ (s2 @ s3) @ s4 \<and> exec (files_match (Some (plan_json plan))) s2 (Inr True) \<and>
        exec (native_readback env plan (Some (plan_json plan))) s3 (Inr True) \<and> (\<forall>x \<in> set s4. settled env plan (fst x))"
    proof -
      from rest False obtain u1 u2 where u: "t2 = u1 @ u2" and
        e: "exec (seqE (save_state env (new_state env plan old)) (\<lambda>_.
         seqE (run_commands (np_install plan)) (\<lambda>_.
         seqE (files_match (Some (plan_json plan))) (\<lambda>same.
         seqE (?same same) (\<lambda>confirmed.
         if \<not> confirmed then fail ''schedule_readback_failed''
         else seqE (save_state env (with_member (with_member (new_state env plan old) ''registered'' (JBool True))
             ''last_operation'' (JStr (lit ''installed'')))) (\<lambda>_.
           retE ((job_outcome Success ''installed_and_read_back'')\<lparr>jo_registered := Some True, jo_matches := Some True\<rparr>))))))) u2 (Inr out)"
        by (auto simp: exec_seqE_Inr [of "within _ _ _"] exec_within_Inr)
      from e obtain v1 v2 s2 s3 s4 w where v: "u2 = v1 @ v2 @ s2 @ s3 @ s4"
        "exec (files_match (Some (plan_json plan))) s2 (Inr True)" "exec (native_readback env plan (Some (plan_json plan))) s3 (Inr True)"
        "exec (save_state env w) s4 (Inr ())"
        by (auto simp: exec_seqE_Inr split: if_splits)
      have "t2 = (u1 @ v1 @ v2) @ (s2 @ s3) @ s4" by (simp add: u v(1))
      with v(2,3) save_settled [OF v(4)] show ?thesis by blast
    qed
    then obtain s1 s2 s3 s4 where s: "t2 = s1 @ (s2 @ s3) @ s4" "exec (files_match (Some (plan_json plan))) s2 (Inr True)"
      "exec (native_readback env plan (Some (plan_json plan))) s3 (Inr True)" "\<forall>x \<in> set s4. settled env plan (fst x)" by blast
    from ends_confirmed_prefix [OF ends_confirmed_suffix [OF read_back_confirmed(1) [OF s(2,3)] s(4)], of "t1 @ s1"]
    show ?thesis by (simp add: t(1) s(1))
  qed
qed

lemma change_confirmed:
  assumes "exec (change_part env plan action first) t (Inr out)" "jo_status out = Success"
  shows "ends_confirmed env plan t"
proof -
  from assms(1) obtain t1 t2 old present where t: "t = t1 @ t2"
    "exec (if action = Uninstall then uninstall_part env plan old present else install_part env plan old present) t2 (Inr out)"
    unfolding change_part_def exec_seqE_Inr by (metis append_assoc)
  have "jo_status out = Uninstalled" if "exec (uninstall_part env plan old present) t2 (Inr out)"
    using that by (auto simp: uninstall_part_def exec_seqE_Inr job_outcome_def)
  then show ?thesis
    using t assms(2) install_confirmed ends_confirmed_prefix by (cases "action = Uninstall") auto
qed

lemma body_confirmed:
  assumes "exec (job_body env plan action) t (Inr (out, l))" "jo_status out = Success"
  shows "ends_confirmed env plan t"
proof -
  from assms(1) obtain t1 t2 old where t: "t = t1 @ t2"
    "exec (if action = Status then seqE (within old False (status_part env plan old)) (\<lambda>r. retE (r, False))
     else seqE (within old False (job_ask Take_lock)) (\<lambda>a.
       if \<not> ja_flag a then throw (lit ''schedule_cycle_busy'', old, False)
       else seqE (change_part env plan action old) (\<lambda>r. retE (r, True)))) t2 (Inr (out, l))"
    unfolding job_body_def exec_seqE_Inr by (metis append_assoc)
  have "ends_confirmed env plan t2"
  proof (cases "action = Status")
    case True
    with t(2) assms(2) show ?thesis by (auto simp: exec_seqE_Inr exec_within_Inr status_confirmed)
  next
    case False
    with t(2) obtain s1 s2 where "t2 = s1 @ s2" "exec (change_part env plan action old) s2 (Inr out)"
      by (auto simp: exec_seqE_Inr split: if_splits)
    with change_confirmed [OF _ assms(2)] ends_confirmed_prefix show ?thesis by simp
  qed
  with t(1) ends_confirmed_prefix show ?thesis by simp
qed

text \<open>
  C37: A success is never only presumed: when the command reports it, the last calls, which change
  nothing but the state file, read every file of the job with exactly the bytes of its definition and
  had the system report the job, on Windows with the very fields of the definition.
\<close>

theorem reported_success_was_read_back:
  assumes "exec (manage_sync_schedule env (Inr plan) dryRun action) h (Inr out)" "jo_status out = Success"
  shows "\<exists>h1 h2. h = h1 @ h2 \<and> confirmed env plan h2 \<and> (\<forall>x \<in> set h2. settled env plan (fst x))"
proof -
  have e: "exec (manage_job env plan action) h (Inr out)"
    using assms by (cases dryRun) (auto simp: manage_sync_schedule_def)
  then obtain t1 t2 y where y: "h = t1 @ t2" "exec (catch (job_body env plan action) (job_failed env action)) t1 (Inr y)"
    "exec (case y of (out, locked) \<Rightarrow> if locked then seqE (job_ask Drop_lock) (\<lambda>_. retE out) else retE out) t2 (Inr out)"
    unfolding manage_job_def exec_seqE_Inr by blast
  obtain out' l where yl: "y = (out', l)" by (cases y)
  have "out' = out \<and> (\<forall>x \<in> set t2. settled env plan (fst x))"
    using y(3) unfolding yl by (cases l) (auto simp: exec_seqE_Inr settled_def job_ask_def split: option.splits)
  with y yl have t: "h = t1 @ t2" "exec (catch (job_body env plan action) (job_failed env action)) t1 (Inr (out, l))"
    "\<forall>x \<in> set t2. settled env plan (fst x)" by simp_all
  from t(2) obtain s1 s2 x where s: "t1 = s1 @ s2" "exec (job_body env plan action) s1 x"
    "exec (case x of Inl f \<Rightarrow> job_failed env action f | Inr y \<Rightarrow> Ret (Inr y)) s2 (Inr (out, l))"
    unfolding catch_def exec_bind by blast
  have "jo_status out = Failed" if "exec (job_failed env action f) s2 (Inr (out, l))" for f
    using that by (cases f) (auto simp: job_failed_def Let_def job_outcome_def exec_bind split: option.splits if_splits)
  with s(3) assms(2) obtain y where "x = Inr y" by (cases x) auto
  with s have "exec (job_body env plan action) t1 (Inr (out, l))" by auto
  from ends_confirmed_suffix [OF body_confirmed [OF this assms(2)] t(3)] t(1) show ?thesis by (simp add: ends_confirmed_def)
qed

subsection \<open>A concrete run\<close>

lemma run_job_ask [run_eval]:
  "run (job_ask c) w h = ([(c, w h c)], case ja_error (w h c) of Some e \<Rightarrow> Inl e | None \<Rightarrow> Inr (w h c))"
  by (simp add: job_ask_def Let_def)

lemma run_job_exists [run_eval]: "run (job_exists p) w h = ([(Exists_path p, w h (Exists_path p))], Inr (ja_flag (w h (Exists_path p))))"
  by (simp add: job_exists_def Let_def)

lemma run_job_lift [run_eval]: "run (job_lift x) w h = ([], x)"
  by (simp add: job_lift_def)

lemma run_within [run_eval]:
  "run (within v l m) w h = (case run m w h of (t, Inl e) \<Rightarrow> (t, Inl (e, v, l)) | (t, Inr y) \<Rightarrow> (t, Inr y))"
  by (simp add: within_def run_eval split: prod.split sum.split)

definition sample_command :: "string \<Rightarrow> schedule_command" where
  "sample_command name = cmd name []"

definition sample_plan :: native_plan where
  "sample_plan = \<lparr>np_id = lit ''j'', np_kind = Launchd_user, np_argv = [], np_files = [],
     np_query = sample_command ''q'', np_inspect = sample_command ''i'', np_install = [sample_command ''n''],
     np_remove = [sample_command ''r''], np_reload = []\<rparr>"

lemma sample_plan_parts:
  "np_kind sample_plan = Launchd_user" "np_files sample_plan = []" "np_query sample_plan = sample_command ''q''"
  "np_inspect sample_plan = sample_command ''i''" "np_install sample_plan = [sample_command ''n'']"
  "sample_command ''q'' \<noteq> sample_command ''i''" "sample_command ''n'' \<noteq> sample_command ''i''"
  by (simp_all add: sample_plan_def sample_command_def cmd_def lit_def)

definition sample_env :: schedule_env where
  "sample_env = \<lparr>se_state = lit ''s'', se_temp = lit ''t'', se_sha = \<lambda>_. [], se_xp = \<lambda>_. None\<rparr>"

text \<open>No file exists, the lock is free, and \<open>launchctl print\<close> finds no job before it is installed.\<close>

definition sample_world :: "job_history \<Rightarrow> job_call \<Rightarrow> job_answer" where
  "sample_world h c = \<lparr>ja_error = None, ja_flag = (c = Take_lock), ja_link = False, ja_bytes = [],
     ja_status = (if c = Run_command (sample_command ''i'') then 113 else 0), ja_out = []\<rparr>"

definition sample_run :: "job_history \<times> (jstr + schedule_outcome)" where
  "sample_run = run (manage_sync_schedule sample_env (Inr sample_plan) False Install) sample_world []"

lemma sample_installs:
  "Run_command (sample_command ''n'') \<in> fst ` set (fst sample_run) \<and>
     (\<exists>a. (Take_lock, a) \<in> set (fst sample_run) \<and> granted a) \<and> (\<exists>out. snd sample_run = Inr out \<and> jo_status out = Success)"
proof -
  have m: "native_schedule_readback_matches x (Some (plan_json sample_plan)) s = Inr True" for x s
    by (simp add: native_schedule_readback_matches_def plan_json_def sample_plan_def obj_get_def lit_def kind_name_def)
  have f: "files_match (Some (plan_json sample_plan)) = retE True"
    unfolding files_match_def files_of_plan by (simp add: sample_plan_def)
  show ?thesis
    unfolding sample_run_def manage_sync_schedule_def manage_job_def job_body_def change_part_def install_part_def Let_def f
      read_schedule_state_def check_presence_def recoverable_def write_files_def run_commands_def native_readback_def save_state_def m
    by (simp add: run_eval sample_world_def sample_plan_parts native_schedule_present_def job_outcome_def f m granted_def)
qed

lemma sample_exec: "\<exists>out. exec (manage_sync_schedule sample_env (Inr sample_plan) False Install) (fst sample_run) (Inr out) \<and> jo_status out = Success"
  using sample_installs exec_run [of "manage_sync_schedule sample_env (Inr sample_plan) False Install" sample_world "[]" "fst sample_run" "snd sample_run"]
  by (auto simp: sample_run_def)

theorem schedule_touches_only_its_own_witness:
  "\<exists>pre r post h0 a t. fst sample_run = pre @ (Run_command (sample_command ''n''), r) # post \<and> pre = h0 @ (Take_lock, a) # t \<and>
     granted a \<and> entitled sample_env sample_plan t (Run_command (sample_command ''n''))"
proof -
  from sample_installs obtain r where "(Run_command (sample_command ''n''), r) \<in> set (fst sample_run)" by auto
  then obtain pre post where t: "fst sample_run = pre @ (Run_command (sample_command ''n''), r) # post" by (meson split_list)
  from sample_exec obtain out where "exec (manage_sync_schedule sample_env (Inr sample_plan) False Install) (fst sample_run) (Inr out)" by blast
  from schedule_touches_only_its_own [OF this [unfolded t]] t show ?thesis
    by (auto simp: quiet_def sample_plan_def sample_command_def cmd_def lit_def)
qed

theorem schedule_lock_is_released_witness:
  "\<exists>h0 a t d. fst sample_run = h0 @ (Take_lock, a) # t @ [(Drop_lock, d)] \<and> granted a"
proof -
  from sample_exec obtain out where "exec (manage_sync_schedule sample_env (Inr sample_plan) False Install) (fst sample_run) (Inr out)" by blast
  note shape = schedule_lock_is_released [OF this]
  have "\<not> not_locked (fst sample_run)" using sample_installs unfolding not_locked_def by auto
  with shape show ?thesis by auto
qed

theorem reported_success_was_read_back_witness:
  "\<exists>h1 h2. fst sample_run = h1 @ h2 \<and> confirmed sample_env sample_plan h2"
proof -
  from sample_exec obtain out where "exec (manage_sync_schedule sample_env (Inr sample_plan) False Install) (fst sample_run) (Inr out)"
    "jo_status out = Success" by blast
  from reported_success_was_read_back [OF this] show ?thesis by auto
qed

end
