(* ===== verification/HookLog.thy ===== *)
theory HookLog
  imports Effects Entries
begin

text \<open>
  The optional log of hook searches without a hit, \<open>packages/core/src/hookQueryLog.ts\<close>, as a program
  over file-system calls whose answers are not constrained. Lemmas: no byte of a query is written before
  the directory and both files were made private in this very run, the active file is rotated
  before it would pass its limit, and at most 1000 units of a query are kept.
\<close>

subsection \<open>Calls\<close>

datatype log_file = Metrics_dir | Active_log | Backup_log

datatype log_call =
    Make_dir nat | Set_mode log_file nat | File_size log_file | Remove_log log_file
  | Move_log log_file log_file | Append_log log_file bytes nat

datatype log_failure = Missing | Other_failure jstr

text \<open>An answer: the failure (\<open>Missing\<close> is ENOENT), or the size where one is asked for.\<close>

record log_answer =
  la_failure :: "log_failure option"
  la_size :: nat

type_synonym 'a log_io = "(log_call, log_answer, log_failure + 'a) io"

definition log_ask :: "log_call \<Rightarrow> log_answer log_io" where
  "log_ask c = Do c (\<lambda>a. Ret (case la_failure a of Some e \<Rightarrow> Inl e | None \<Rightarrow> Inr a))"

text \<open>\<open>catch (err) \{ if (!isMissingPathError(err)) throw err; \}\<close>.\<close>

definition unless_missing :: "'a \<Rightarrow> 'a log_io \<Rightarrow> 'a log_io" where
  "unless_missing x m = catch m (\<lambda>e. if e = Missing then retE x else throw e)"

definition log_max_bytes :: nat where "log_max_bytes = 1024 * 1024"

definition log_max_query :: nat where "log_max_query = 1000"

record query_miss =
  qm_agent :: jstr
  qm_surface :: jstr
  qm_query :: jstr

definition miss_record :: "jstr \<Rightarrow> query_miss \<Rightarrow> bytes" where
  "miss_record now miss = utf8_encode (json_stringify (JObj
     [(lit ''at'', JStr now), (lit ''agent'', JStr (qm_agent miss)), (lit ''surface'', JStr (qm_surface miss)),
      (lit ''query'', JStr (take log_max_query (qm_query miss)))]) @ [10])"

definition chmod_existing_file :: "log_file \<Rightarrow> unit log_io" where
  "chmod_existing_file f = unless_missing () (seqE (log_ask (Set_mode f 384)) (\<lambda>_. retE ()))"

definition rotate_log :: "unit log_io" where
  "rotate_log =
     seqE (unless_missing () (seqE (log_ask (Remove_log Backup_log)) (\<lambda>_. retE ()))) (\<lambda>_.
     unless_missing () (
       seqE (log_ask (Move_log Active_log Backup_log)) (\<lambda>_.
       seqE (log_ask (Set_mode Backup_log 384)) (\<lambda>_. retE ()))))"

text \<open>The modes 448 and 384 are 0o700 and 0o600.\<close>

definition log_hook_query_miss :: "bool \<Rightarrow> jstr \<Rightarrow> query_miss \<Rightarrow> unit log_io" where
  "log_hook_query_miss enabled now miss =
     (if \<not> enabled then retE ()
      else
        (let bytes = miss_record now miss in
         seqE (log_ask (Make_dir 448)) (\<lambda>_.
         seqE (log_ask (Set_mode Metrics_dir 448)) (\<lambda>_.
         seqE (chmod_existing_file Active_log) (\<lambda>_.
         seqE (chmod_existing_file Backup_log) (\<lambda>_.
         seqE (unless_missing 0 (seqE (log_ask (File_size Active_log)) (\<lambda>a. retE (la_size a)))) (\<lambda>activeSize.
         seqE (whenE (activeSize + length bytes > log_max_bytes) rotate_log) (\<lambda>_.
         seqE (log_ask (Append_log Active_log bytes 384)) (\<lambda>_.
         seqE (log_ask (Set_mode Active_log 384)) (\<lambda>_.
         unless_missing () (seqE (log_ask (Set_mode Backup_log 384)) (\<lambda>_. retE ()))))))))))))"

subsection \<open>Reasoning\<close>

lemma holds_log_ask [simp, wp]:
  "holds (log_ask c) G Q h \<longleftrightarrow> G h c \<and>
     (\<forall>a. (\<forall>e. la_failure a = Some e \<longrightarrow> Q (h @ [(c, a)]) (Inl e)) \<and> (la_failure a = None \<longrightarrow> Q (h @ [(c, a)]) (Inr a)))"
  by (auto simp: log_ask_def split: option.splits)

lemma holds_unless_missing [simp, wp]:
  "holds (unless_missing x m) G Q h \<longleftrightarrow>
     holds m G (\<lambda>h' y. case y of Inl e \<Rightarrow> (if e = Missing then Q h' (Inr x) else Q h' (Inl e)) | Inr z \<Rightarrow> Q h' (Inr z)) h"
  by (auto simp: unless_missing_def if_distrib [of "\<lambda>m. holds m G Q _"] cong: sum.case_cong if_cong)

type_synonym log_history = "(log_call \<times> log_answer) list"

text \<open>A call was made and succeeded, or found nothing there.\<close>

definition settled_call :: "log_history \<Rightarrow> log_call \<Rightarrow> bool" where
  "settled_call h c \<longleftrightarrow> (\<exists>a. (c, a) \<in> set h \<and> la_failure a \<in> {None, Some Missing})"

definition made_private :: "log_history \<Rightarrow> bool" where
  "made_private h \<longleftrightarrow> (\<exists>a. (Set_mode Metrics_dir 448, a) \<in> set h \<and> la_failure a = None) \<and>
     settled_call h (Set_mode Active_log 384) \<and> settled_call h (Set_mode Backup_log 384)"

text \<open>The record fits into the active file as it was found, or the file was moved away.\<close>

definition has_room :: "log_history \<Rightarrow> nat \<Rightarrow> bool" where
  "has_room h n \<longleftrightarrow>
     (\<exists>a. (File_size Active_log, a) \<in> set h \<and> (la_failure a = None \<and> la_size a + n \<le> log_max_bytes \<or> la_failure a = Some Missing)) \<or>
     settled_call h (Move_log Active_log Backup_log)"

definition log_guard :: "query_miss \<Rightarrow> jstr \<Rightarrow> log_history \<Rightarrow> log_call \<Rightarrow> bool" where
  "log_guard miss now h c \<longleftrightarrow> (case c of
     Append_log f b m \<Rightarrow> f = Active_log \<and> m = 384 \<and> b = miss_record now miss \<and> made_private h \<and> has_room h (length b)
   | _ \<Rightarrow> True)"

lemma settled_append [simp]: "settled_call (h @ h') c \<longleftrightarrow> settled_call h c \<or> settled_call h' c"
  by (auto simp: settled_call_def)

lemma settled_Cons [simp]: "settled_call ((d, a) # h) c \<longleftrightarrow> (c = d \<and> la_failure a \<in> {None, Some Missing}) \<or> settled_call h c"
  by (auto simp: settled_call_def)

lemma settled_Nil [simp]: "\<not> settled_call [] c"
  by (simp add: settled_call_def)

lemma log_guard_other [simp]:
  "log_guard miss now h (Make_dir m)" "log_guard miss now h (Set_mode f m)" "log_guard miss now h (File_size f)"
  "log_guard miss now h (Remove_log f)" "log_guard miss now h (Move_log f f')"
  by (simp_all add: log_guard_def)

lemma holds_log: "holds (log_hook_query_miss enabled now miss) (log_guard miss now) (\<lambda>_ _. True) []"
  by (auto simp: log_hook_query_miss_def Let_def chmod_existing_file_def rotate_log_def log_guard_def made_private_def has_room_def)

text \<open>
  C39: In every execution, a query reaches the log only after the directory and, where they exist, the
  active file and its backup were made private in this run (a failure to do so ends the run before any byte
  is written), and only if the record fits below the limit or the active file was moved away; what is appended is
  one record with at most 1000 units of the query.
\<close>

theorem queries_are_logged_privately:
  assumes "exec (log_hook_query_miss enabled now miss) (pre @ (Append_log f b m, r) # post) x"
  shows "f = Active_log \<and> m = 384 \<and> b = miss_record now miss \<and> made_private pre \<and> has_room pre (length b)"
  using holds_exec_call [OF holds_log assms] unfolding log_guard_def log_call.case append_Nil .

text \<open>A run in which every call succeeds and the active file is full.\<close>

definition full_log :: "log_history \<Rightarrow> log_call \<Rightarrow> log_answer" where
  "full_log h c = \<lparr>la_failure = None, la_size = Suc log_max_bytes\<rparr>"

lemma run_log_ask [run_eval]:
  "run (log_ask c) w h = ([(c, w h c)], case la_failure (w h c) of Some e \<Rightarrow> Inl e | None \<Rightarrow> Inr (w h c))"
  by (simp add: log_ask_def Let_def)

lemma run_unless_missing [run_eval]:
  "run (unless_missing x m) w h = (case run m w h of (t, Inl e) \<Rightarrow> (t, if e = Missing then Inr x else Inl e) | (t, Inr y) \<Rightarrow> (t, Inr y))"
  by (auto simp: unless_missing_def run_eval split: prod.split sum.split)

lemma full_log_run:
  "Append_log Active_log (miss_record now miss) 384 \<in> fst ` set (fst (run (log_hook_query_miss True now miss) full_log []))"
  by (simp add: log_hook_query_miss_def Let_def chmod_existing_file_def rotate_log_def run_eval full_log_def)

theorem queries_are_logged_privately_witness:
  "\<exists>pre. made_private pre \<and> has_room pre (length (miss_record [] \<lparr>qm_agent = [], qm_surface = [], qm_query = []\<rparr>))"
proof -
  let ?miss = "\<lparr>qm_agent = [], qm_surface = [], qm_query = []\<rparr>"
  obtain t x where run: "run (log_hook_query_miss True [] ?miss) full_log [] = (t, x)" by force
  with full_log_run [of "[]" ?miss] obtain r where "(Append_log Active_log (miss_record [] ?miss) 384, r) \<in> set t" by auto
  then obtain pre post where "t = pre @ (Append_log Active_log (miss_record [] ?miss) 384, r) # post" by (meson split_list)
  with exec_run [OF run] have "exec (log_hook_query_miss True [] ?miss) (pre @ (Append_log Active_log (miss_record [] ?miss) 384, r) # post) x"
    by simp
  from queries_are_logged_privately [OF this] show ?thesis by blast
qed

end
