(* ===== verification/Spec2Isabelle.thy ===== *)
theory Spec2Isabelle
  imports Sync FileLock Reindex Publish AutoSync Pending EntryRead Delivery Schedule HookLog Community
begin

text \<open>
  Verification of Caveat, a knowledge base of pitfalls that coding agents read and write: Markdown
  entries in a private git repository, a SQLite index over them and over subscribed community
  repositories, a synchronisation with the private remote, and a publication of the public entries
  as one sealed bundle. The theories model \<open>packages/core/src\<close> (and the key server
  \<open>keyserver/src/worker.ts\<close>) as written; the paths below are relative to \<open>packages/core/src\<close>.
  The root theory imports every other one and adds nothing to them.

  \<^bold>\<open>How the parts interact.\<close> A tool call records or updates an entry: the file is written and
  the index row is stored (\<open>Entries\<close>). A periodic cycle (\<open>AutoSync\<close>) takes the locks
  (\<open>FileLock\<close>), pulls the community repositories, synchronises the private repository
  (\<open>Sync\<close>), which may push only to remotes the anonymous probe did not find public
  (\<open>Remote\<close>), and rebuilds the index (\<open>Reindex\<close>, \<open>EntryIndex\<close>), for which the
  sealed bundles of the community are opened (\<open>SealedBundle\<close>) with keys from the key server
  (\<open>SealedKeys\<close>). Publishing (\<open>Publish\<close>) collects the public entries, scans them for secrets
  (\<open>PublishScan\<close>), seals them, asks the user and pushes the mirror. The retrieval side searches the
  index (\<open>Retrieval\<close>), opens one document (\<open>EntryRead\<close>) and defers reminders through the
  queue on disk (\<open>Pending\<close>). A hook of a coding agent searches the index for what a prompt or a
  failed tool says (\<open>HookSearch\<close>), reads the transcript of the session for signs of trouble
  (\<open>Transcript\<close>), prints what it found as a reminder (\<open>Reminders\<close>), and delivers each entry once
  per session (\<open>Delivery\<close>); a search without a hit may be logged (\<open>HookLog\<close>). The periodic cycle is
  started by a job of the operating system, whose definition \<open>JobText\<close> writes and \<open>Schedule\<close>
  installs; community repositories are added and removed by \<open>Community\<close>.

  \<^bold>\<open>How code is represented.\<close> A string is the list of its UTF-16 code units (\<open>jstr\<close>), a
  buffer a list of 8-bit words, an exception the left side of a sum, an object a record or the
  list of its members in order. A function without effects is a HOL function. State that the code
  keeps in a database, a directory or a cache is a record that the operations return updated. Code
  that talks to git, the network, the terminal or the file system is a program (\<open>Effects.io\<close>) over an
  explicit datatype of calls; the answers are arbitrary, so a theorem about all executions holds
  whatever the outside does, failures included. Interleaved processes are a step relation
  (\<open>FileLock.lock_step\<close>). Loops are structural or have a termination proof; the loop of
  \<open>resolveCollision\<close> is a \<open>partial_function\<close> because it ends only for a finite table, which
  \<open>resolve_collision_ends\<close> proves.
\<close>

text \<open>
  \<^bold>\<open>The language's library.\<close>
  \<^item> \<open>Prelude\<close>: \<open>jstr\<close>, \<open>bytes\<close>, \<open>lit\<close>, throwing computations (\<open>try_then\<close>,
    \<open>try_map\<close>, \<open>ensure\<close>), sets and maps in insertion order; the collections \<open>js_eval\<close> and
    \<open>res\<close>.
  \<^item> \<open>JsText\<close>, \<open>Regex\<close>, \<open>UriText\<close>, \<open>Url\<close>: string operations; regular
    expressions with the specification's backtracking order, with what a match, a search and a
    split are (\<open>match_all_covers\<close>, \<open>split_lines_on\<close>); percent encoding (\<open>uri_roundtrip\<close>).
  \<^item> \<open>Codec\<close>: UTF-8, base64, 32-bit words, each with its round trip.
  \<^item> \<open>Json\<close>: \<open>JSON.parse\<close>, \<open>JSON.stringify\<close>, \<open>json_roundtrip\<close>; the recursion bound of
    \<open>parse_val\<close> is the length of the text plus one, and \<open>parse_fuel\<close> shows that more changes
    nothing.
  \<^item> \<open>Effects\<close>: programs over calls, executions, weakest preconditions (\<open>wp\<close>), the calls a program
    can make (\<open>uses\<close>), evaluation against a concrete world (\<open>run\<close>), for the witnesses.

  \<^bold>\<open>The public boundary.\<close>
  \<^item> \<open>PublishScan\<close> (\<open>publishScan.ts\<close>): \<open>scan_publish_files\<close>, the rules, the entropy floor,
    the identity tokens. Lemmas: nothing that a blocking rule matches passes, every finding is a
    match shown masked, the entropy test over the reals is the integer comparison.
  \<^item> \<open>SealedBundle\<close> (\<open>sealedBundle.ts\<close>): \<open>seal_bundle\<close>, \<open>unseal_bundle\<close>; round trip,
    independence of the order of the files; what is unsealed is the plaintext that was authenticated
    together with the header it is returned with.
  \<^item> \<open>SealedKeys\<close> (\<open>sealedKeys.ts\<close>, \<open>prewarmSealedKeys\<close> of \<open>sealedIndex.ts\<close>,
    \<open>worker.ts\<close>): the two providers, which share the interface \<open>content_key_provider\<close>, and the
    worker's handler; client and worker fit together.
  \<^item> \<open>Publish\<close> (\<open>publish.ts\<close>, \<open>visibility.ts\<close>, \<open>visibilityGate.ts\<close>): \<open>publish_own\<close>
    as a program; no push without a valid set, a clean scan, an approval and a verified mirror, and
    before the approval the mirror is only brought to what the target has published.
  \<^item> \<open>Remote\<close> (\<open>remoteVisibility.ts\<close>, \<open>syncErrors.ts\<close>, \<open>githubCredential.ts\<close>): the
    probe URL, its verdict, the error codes.

  \<^bold>\<open>Synchronisation.\<close>
  \<^item> \<open>FileTree\<close>, \<open>Sync\<close> (\<open>sync.ts\<close>): \<open>sync_own\<close> and \<open>init_own_sync\<close>; what is pushed
    where, what the refuse policy and a dry run never do, the order of the locks, what a reported
    conflict means, what a failed initialisation leaves.
  \<^item> \<open>FileLock\<close> (\<open>acquireFileLock\<close> of \<open>autoReindex.ts\<close>): sequential and interleaved,
    with system calls that may fail; mutual exclusion under the condition that excludes the race
    \<open>stale_check_race\<close> exhibits.
  \<^item> \<open>AutoSync\<close> (\<open>autoSync.ts\<close>, \<open>periodicSync.ts\<close>): the cycle, the stored state, the
    backoff, the notification. \<open>sync_chain\<close> is a sequence of executions of the cycle over the state
    file they share, and of resets; over it the counter and the spacing of the attempts are stated.
    \<open>write_loop\<close> (the wait of \<open>runAutoSync\<close>) takes fuel, and its result is None
    when it is still waiting; no property rests on it.
\<close>

text \<open>
  \<^bold>\<open>Entries and the index.\<close>
  \<^item> \<open>EntryText\<close> (\<open>entryConstraints.ts\<close>, \<open>frontmatterCodec.ts\<close>, \<open>frontmatter.ts\<close>,
    \<open>writer.ts\<close>): the limits (arguments 1 MiB, file, frontmatter bytes, nodes and depth as in the
    source), the sections, the printed entry, whose sections read back from its body and its file.
  \<^item> \<open>EntryIndex\<close> (\<open>indexer.ts\<close>), \<open>Reindex\<close> (\<open>autoReindex.ts\<close>, \<open>scanSealedSource\<close>
    of \<open>sealedIndex.ts\<close>): a scan leaves exactly the files' rows, a rebuild keeps what it could not read.
  \<^item> \<open>Entries\<close> (\<open>record.ts\<close>, \<open>update.ts\<close>, \<open>id.ts\<close>, \<open>getEntry\<close> of
    \<open>repository.ts\<close>): recording then reading, what an update may change in
    the file and in the index.
  \<^item> \<open>Retrieval\<close> (\<open>search\<close> and \<open>listRecent\<close> of \<open>repository.ts\<close>, \<open>markHit.ts\<close>,
    \<open>stale.ts\<close>, \<open>env.ts\<close>): which rows a search shows, stated row by row (\<open>row_wanted\<close>)
    without the query it is built of; the rows stay readable under all operations.
  \<^item> \<open>EntryRead\<close> (\<open>entryRead.ts\<close>): the path stays inside its source; \<open>read_on\<close>, the reader
    that follows the ranges, gets one unit of fuel per byte and one more, and
    \<open>ranges_cover_the_file\<close> shows that it ends within it.
  \<^item> \<open>Pending\<close> (\<open>pendingReminders.ts\<close>): the queue as a state under one lock, so that
    interleavings are sequences of operations (\<open>pend_run\<close>); conservation of the reminders, where
    \<open>delivered\<close> and \<open>recycled\<close> say from the call which ones an operation may take (the named and the expired ones);
    exclusive claims; the sweep. \<open>claim_attempts\<close> makes two attempts, as the source's loop does.
  \<^item> \<open>Community\<close> (\<open>community.ts\<close>): the form of a subscription's URL, the free name, adding,
    pulling, listing, removing; what each can touch.

  \<^bold>\<open>Hooks.\<close>
  \<^item> \<open>HookSearch\<close> (\<open>claudeHooks.ts\<close>): the candidates of a text, the rows' matches, the three
    gates, the segments of a long prompt. The search is a loop over candidates and rows that collects
    matches; \<open>hook_search_is_three_gates\<close> says which rows it returns, without the loop.
  \<^item> \<open>Transcript\<close> (\<open>transcriptSignals.ts\<close>, \<open>codexTranscriptSignals.ts\<close>): the readers of
    both hosts; the signals are the counts of the events of the transcript.
  \<^item> \<open>Reminders\<close> (\<open>claudeHooks.ts\<close>): the texts of the reminders, from \<open>sanitize_display\<close> up;
    an entry cannot break out of its line.
  \<^item> \<open>Delivery\<close> (\<open>hookDelivery.ts\<close> and \<open>hookShared.ts\<close> of \<open>apps/cli/src\<close>): what a
    session was told, the queue of a session, the compaction of contexts, the search with its marks.
    The locale \<open>told_once\<close> is the contract of a memory of what was told; \<open>told_ids\<close> and
    \<open>told_signals\<close> interpret it for entries and for kinds of signals, and the texts a delivery shows
    are stated with it (\<open>shows_news\<close>).
  \<^item> \<open>HookLog\<close> (\<open>hookQueryLog.ts\<close>): the log of the queries without a hit; private before written.

  \<^bold>\<open>The periodic job.\<close>
  \<^item> \<open>JobText\<close> (\<open>platform.ts\<close>): the job's definition for systemd, launchd and the Task
    Scheduler. The readers \<open>unit_words\<close>, \<open>win_words\<close> and \<open>xml_read\<close> are the specification, the
    documented rules of those systems; what is written reads back as the argument list.
  \<^item> \<open>Schedule\<close> (\<open>syncSchedule.ts\<close>): \<open>manage_sync_schedule\<close> as a program over the file system,
    the lock and the system's commands; it touches only what it owns, releases the lock it was
    granted, and reports a success only after it was read back.
\<close>

text \<open>
  \<^bold>\<open>Not modelled.\<close> Third-party and outside code is an argument of the definitions that use it, with
  what is relied on as a named hypothesis: js-yaml and gray-matter (\<open>entry_codec\<close>), the
  primitives of \<open>node:crypto\<close> (\<open>crypto\<close>, \<open>crypto_ok\<close>; \<open>sha\<close>), the WHATWG URL
  parser (\<open>platform\<close>), SQLite's full-text match, ordering and binding of values (\<open>sql_engine\<close>,
  \<open>sql_binding\<close>), semver, \<open>path.win32.join\<close>, the XML parser, \<open>Date.parse\<close>, and the
  engine's tables of letters, letter case and words. The numbers of JSON are exact decimals and the
  entropy is a real number: binary64 rounding is not modelled. The cost of time is not modelled.
  \<^item> The command line, the installers and the host commands around the hooks: argument parsing,
    printing, edits of the hosts' settings files, and glue around operations that are modelled.
  \<^item> The managed deployment, the migration of global installations and its recovery, the guards and
    process tables: their decisions rest on native handles, process tables and npm, which are
    foreign-function calls and scripts and not in the source.
  \<^item> The Windows permissions are PowerShell scripts run in a worker thread.
  \<^item> The MCP and web front ends are adapters over third-party frameworks.
  \<^item> The runtime error reports, the server instances and the sync receipts: best-effort records of
    one JSON file each. The offline evaluations and the remote judge are no part of a session's path.
  \<^item> The vendored YAML scalar types belong to js-yaml; the configuration and the database's schema
    are one JSON file and SQL.
\<close>

end
